(* ===== verification/Kernel_Prelude.thy ===== *)
theory Kernel_Prelude
  imports Main "HOL-Library.Word"
begin

unbundle bit_operations_syntax

text \<open>
  Shared vocabulary of the ORFOS development: the machine integer types, the outcome of a
  piece of kernel code (a value, or the reason why the thread does not go on), byte-addressed
  memory with little-endian loads and stores, and the generic lemmas on words, lists and
  outcomes that the component theories use.
\<close>

section \<open>Collections of facts\<close>

named_theorems outcome_simps \<open>inversion of sequenced kernel code\<close>
named_theorems mem_simps \<open>reads over writes in byte memory\<close>
named_theorems kept \<open>what an operation leaves unchanged\<close>

section \<open>Machine types\<close>

type_synonym u8 = "8 word"
type_synonym u16 = "16 word"
type_synonym u32 = "32 word"
type_synonym u64 = "64 word"

section \<open>Outcomes of kernel code\<close>

text \<open>
  A kernel routine either yields a value or stops the executing thread:
  \<^item> \<open>AssertionFailed\<close>: an \<open>assert\<close> of the source is false (\<open>__assert_func\<close> panics);
  \<^item> \<open>KernelPanic\<close>: a direct call of \<open>lib::panic\<close>;
  \<^item> \<open>Undefined\<close>: the C++ program has no defined behaviour here (null dereference, index
    out of an array);
  \<^item> \<open>Sleeping\<close>: the thread calls \<open>process::sleep\<close> and gives the processor away.
\<close>

datatype stop = AssertionFailed | KernelPanic string | Undefined | Sleeping

type_synonym 'a outcome = "stop + 'a"

definition andThen :: "'a outcome \<Rightarrow> ('a \<Rightarrow> 'b outcome) \<Rightarrow> 'b outcome" where
  "andThen r f = (case r of Inl e \<Rightarrow> Inl e | Inr x \<Rightarrow> f x)"

definition assert_that :: "bool \<Rightarrow> unit outcome" where
  "assert_that b = (if b then Inr () else Inl AssertionFailed)"

lemma andThen_simps [simp]:
  "andThen (Inl e) f = Inl e"
  "andThen (Inr x) f = f x"
  by (simp_all add: andThen_def)

lemma andThen_Inr_iff [outcome_simps]:
  "andThen r f = Inr y \<longleftrightarrow> (\<exists>x. r = Inr x \<and> f x = Inr y)"
  by (cases r) auto

lemma andThen_Inl_iff [outcome_simps]:
  "andThen r f = Inl e \<longleftrightarrow> r = Inl e \<or> (\<exists>x. r = Inr x \<and> f x = Inl e)"
  by (cases r) auto

lemma assert_that_simps [simp]:
  "assert_that True = Inr ()"
  "assert_that False = Inl AssertionFailed"
  by (simp_all add: assert_that_def)

lemma assert_that_Inr_iff [outcome_simps]: "assert_that b = Inr u \<longleftrightarrow> b"
  by (simp add: assert_that_def)

lemma assert_that_Inl_iff [outcome_simps]:
  "assert_that b = Inl e \<longleftrightarrow> \<not> b \<and> e = AssertionFailed"
  by (auto simp: assert_that_def)

lemma andThen_assoc: "andThen (andThen r f) g = andThen r (\<lambda>x. andThen (f x) g)"
  by (cases r) auto

lemma andThen_cong [fundef_cong]:
  "r = r' \<Longrightarrow> (\<And>x. r' = Inr x \<Longrightarrow> f x = g x) \<Longrightarrow> andThen r f = andThen r' g"
  by (cases r') auto

text \<open>
  A property of every value a computation can return, with the rules that walk through a sequence. What an operation
  keeps is stated as a rule for \<open>if_returns\<close> and collected in \<open>kept\<close>.
\<close>

definition if_returns :: "('a \<Rightarrow> bool) \<Rightarrow> 'a outcome \<Rightarrow> bool" where
  "if_returns P r \<longleftrightarrow> (case r of Inl e \<Rightarrow> True | Inr x \<Rightarrow> P x)"

lemma if_returns_andThen: "(\<And>x. r = Inr x \<Longrightarrow> if_returns P (f x)) \<Longrightarrow> if_returns P (andThen r f)"
  by (cases r) (simp_all add: if_returns_def)

lemma if_returns_simps:
  "if_returns P (Inl e)" "if_returns P (Inr x) \<longleftrightarrow> P x"
  "if_returns P (andThen r f) \<longleftrightarrow> if_returns (\<lambda>x. if_returns P (f x)) r"
  "if_returns Q (assert_that b) \<longleftrightarrow> (b \<longrightarrow> Q ())"
  by (auto simp: if_returns_def andThen_def assert_that_def split: sum.splits)

lemma if_returns_any: "(\<And>x. P x) \<Longrightarrow> if_returns P r"
  by (simp add: if_returns_def split: sum.split)

lemma if_returns_mono: "if_returns P r \<Longrightarrow> (\<And>x. P x \<Longrightarrow> Q x) \<Longrightarrow> if_returns Q r"
  by (simp add: if_returns_def split: sum.splits)

section \<open>Lists\<close>

lemma nth_append_replicate_last: "(xs @ [x]) ! length xs = x"
  by simp

lemma map_nth_upt [simp]: "map ((!) xs) [0..<length xs] = xs"
  by (rule map_nth)

lemma list_eq_nthI:
  "length xs = length ys \<Longrightarrow> (\<And>i. i < length ys \<Longrightarrow> xs ! i = ys ! i) \<Longrightarrow> xs = ys"
  by (simp add: nth_equalityI)

section \<open>Words\<close>

lemma unat_pred: "(n :: 'a::len word) \<noteq> 0 \<Longrightarrow> unat (n - 1) = unat n - 1"
  by (simp add: unat_minus_one)

lemma unat_minus_two_less: "(n :: u64) \<noteq> 1 \<Longrightarrow> unat (n - 2) < unat (n - 1)"
  using measure_unat [of "n - 1"] by (simp add: algebra_simps)

lemma unat64_max [simp]: "unat (- 1 :: u64) = 18446744073709551615"
  by (simp add: unsigned_minus_1_eq_mask mask_eq_exp_minus_1)

lemma unat64_less: "unat (n :: u64) < 2 ^ 64"
  using unsigned_less [of n, where 'a = nat] by simp

lemma unat64_le: "unat (n :: u64) \<le> 18446744073709551615"
  using unat64_less [of n] by simp

section \<open>Little-endian encoding of words\<close>

text \<open>
  The kernel is compiled for RISC-V, which is little-endian: the bytes of an integer lie in
  memory and in disk blocks with the least significant byte first.
\<close>

primrec word_of_bytes :: "u8 list \<Rightarrow> 'a::len word" where
  "word_of_bytes [] = 0"
| "word_of_bytes (b # bs) = (ucast b) OR push_bit 8 (word_of_bytes bs)"

definition bytes_of_word :: "nat \<Rightarrow> 'a::len word \<Rightarrow> u8 list" where
  "bytes_of_word n w = map (\<lambda>i. ucast (drop_bit (8 * i) w)) [0..<n]"

lemma length_bytes_of_word [simp]: "length (bytes_of_word n w) = n"
  by (simp add: bytes_of_word_def)

lemma nth_bytes_of_word:
  fixes w :: "'a::len word"
  assumes "i < n"
  shows "bytes_of_word n w ! i = ucast (drop_bit (8 * i) w)"
  using assms by (simp add: bytes_of_word_def)

lemma bit_word_of_bytes:
  "bit (word_of_bytes bs :: 'a::len word) i \<longleftrightarrow>
     i < LENGTH('a) \<and> i div 8 < length bs \<and> bit (bs ! (i div 8)) (i mod 8)"
proof (induction bs arbitrary: i)
  case Nil
  then show ?case by simp
next
  case (Cons b bs)
  show ?case
  proof (cases "i < 8")
    case True
    then show ?thesis by (auto simp: bit_simps)
  next
    case False
    then obtain j where j: "i = j + 8" by (metis add.commute le_Suc_ex linorder_not_less)
    have "\<not> bit b i" using False by (auto dest: bit_imp_le_length)
    moreover have "(j + 8) div 8 = Suc (j div 8)" by simp
    ultimately show ?thesis using Cons.IH [of j] j by (auto simp: bit_simps)
  qed
qed

lemma word_of_bytes_of_word:
  fixes w :: "'a::len word"
  assumes "LENGTH('a) \<le> 8 * n"
  shows "word_of_bytes (bytes_of_word n w) = w"
proof (rule bit_word_eqI)
  fix i assume i: "i < LENGTH('a)"
  then have "i div 8 < n" using assms by auto
  moreover have "8 * (i div 8) + i mod 8 = i" by simp
  ultimately show "bit (word_of_bytes (bytes_of_word n w) :: 'a word) i = bit w i"
    using i by (auto simp: bit_word_of_bytes nth_bytes_of_word bit_simps)
qed

lemma bytes_of_word_of_bytes:
  assumes "8 * length bs \<le> LENGTH('a::len)"
  shows "bytes_of_word (length bs) (word_of_bytes bs :: 'a word) = bs"
proof (rule list_eq_nthI)
  fix i assume i: "i < length bs"
  show "bytes_of_word (length bs) (word_of_bytes bs :: 'a word) ! i = bs ! i"
  proof (rule bit_word_eqI)
    fix j assume "j < LENGTH(8)"
    then have j: "j < 8" by simp
    have "i * 8 + 8 \<le> LENGTH('a)" using i assms by linarith
    then have "8 * i + j < LENGTH('a)" using j by linarith
    then show "bit (bytes_of_word (length bs) (word_of_bytes bs :: 'a word) ! i) j = bit (bs ! i) j"
      using i j by (simp add: nth_bytes_of_word bit_simps bit_word_of_bytes)
  qed
qed simp

section \<open>Byte memory\<close>

type_synonym mem = "u64 \<Rightarrow> u8"

definition read_bytes :: "mem \<Rightarrow> u64 \<Rightarrow> nat \<Rightarrow> u8 list" where
  "read_bytes m a n = map (\<lambda>i. m (a + of_nat i)) [0..<n]"

definition write_bytes :: "mem \<Rightarrow> u64 \<Rightarrow> u8 list \<Rightarrow> mem" where
  "write_bytes m a bs = (\<lambda>x. if unat (x - a) < length bs then bs ! unat (x - a) else m x)"

definition load64 :: "mem \<Rightarrow> u64 \<Rightarrow> u64" where
  "load64 m a = word_of_bytes (read_bytes m a 8)"

definition store64 :: "mem \<Rightarrow> u64 \<Rightarrow> u64 \<Rightarrow> mem" where
  "store64 m a v = write_bytes m a (bytes_of_word 8 v)"

definition in_range :: "u64 \<Rightarrow> u64 \<Rightarrow> nat \<Rightarrow> bool" where
  "in_range x a n \<longleftrightarrow> unat (x - a) < n"

lemma length_read_bytes [simp]: "length (read_bytes m a n) = n"
  by (simp add: read_bytes_def)

lemma nth_read_bytes [simp]: "i < n \<Longrightarrow> read_bytes m a n ! i = m (a + of_nat i)"
  by (simp add: read_bytes_def)

lemma write_bytes_outside [mem_simps]: "\<not> in_range x a (length bs) \<Longrightarrow> write_bytes m a bs x = m x"
  by (simp add: write_bytes_def in_range_def)

lemma write_bytes_inside [mem_simps]:
  "in_range x a (length bs) \<Longrightarrow> write_bytes m a bs x = bs ! unat (x - a)"
  by (simp add: write_bytes_def in_range_def)

lemma read_bytes_cong:
  "(\<And>i. i < n \<Longrightarrow> m (a + of_nat i) = m' (a + of_nat i)) \<Longrightarrow> read_bytes m a n = read_bytes m' a n"
  by (simp add: read_bytes_def)

lemma unat_of_nat_small: "n < 2 ^ 64 \<Longrightarrow> unat (of_nat n :: u64) = n"
  by (simp add: unat_of_nat take_bit_nat_eq_self)

lemma read_write_same [mem_simps]:
  assumes "length bs = n" "n \<le> 2 ^ 64"
  shows "read_bytes (write_bytes m a bs) a n = bs"
  by (rule list_eq_nthI) (use assms in \<open>auto simp: write_bytes_def unat_of_nat_small\<close>)

lemma load64_store64_same [mem_simps]: "load64 (store64 m a v) a = v"
  by (simp add: load64_def store64_def mem_simps word_of_bytes_of_word)

lemma load64_cong:
  "(\<And>i. i < 8 \<Longrightarrow> m (a + of_nat i) = m' (a + of_nat i)) \<Longrightarrow> load64 m a = load64 m' a"
  by (simp add: load64_def cong: read_bytes_cong)

lemma store64_outside [mem_simps]: "\<not> in_range x a 8 \<Longrightarrow> store64 m a v x = m x"
  by (simp add: store64_def mem_simps)

section \<open>String literals\<close>

definition ascii :: "string \<Rightarrow> u8 list" where
  "ascii = map of_char"

lemma ascii_nil [simp]: "ascii [] = []"
  by (simp add: ascii_def)

lemma ascii_cons: "ascii (c # cs) = of_char c # ascii cs"
  by (simp add: ascii_def)

end
