(* ===== verification/Lib_Queue.thy ===== *)
theory Lib_Queue
  imports Kernel_Prelude
begin

text \<open>
  \<open>kernel/lib/queue.h\<close>: the singly linked \<open>QueueContainer\<close> behind \<open>std::queue\<close>. Nodes live in a
  store that all queues of the kernel share; \<open>operator new\<close> takes the next fresh address and
  \<open>operator delete\<close> of this kernel (\<open>kernel/lib/new.cpp\<close>) does nothing, so a deleted node stays
  readable. A queue is its two pointers, \<open>None\<close> for \<open>nullptr\<close>; copying one (the implicit
  assignment operator) copies the pointers.
\<close>

section \<open>The container\<close>

record 'a node =
  node_next :: "nat option"
  node_value :: 'a

record 'a store =
  cells :: "nat \<Rightarrow> 'a node option"
  fresh :: nat

record queue =
  head :: "nat option"
  tail :: "nat option"

definition new_QueueContainer :: queue where
  "new_QueueContainer = \<lparr>head = None, tail = None\<rparr>"

definition deref :: "'a store \<Rightarrow> nat option \<Rightarrow> 'a node outcome" where
  "deref h p =
     (case p of
        None \<Rightarrow> Inl Undefined
      | Some a \<Rightarrow> (case cells h a of None \<Rightarrow> Inl Undefined | Some n \<Rightarrow> Inr n))"

text \<open>\<open>operator delete\<close> has an empty body.\<close>

definition delete_node :: "'a store \<Rightarrow> nat option \<Rightarrow> 'a store" where
  "delete_node h p = h"

partial_function (option) destroy_loop :: "'a store \<Rightarrow> nat option \<Rightarrow> ('a store outcome) option" where
  "destroy_loop h elem =
     (if elem = None then Some (Inr h)
      else (case deref h elem of
              Inl e \<Rightarrow> Some (Inl e)
            | Inr n \<Rightarrow> destroy_loop (delete_node h elem) (node_next n)))"

definition destroy_QueueContainer :: "'a store \<Rightarrow> queue \<Rightarrow> (('a store \<times> queue) outcome) option" where
  "destroy_QueueContainer h q =
     map_option (\<lambda>r. andThen r (\<lambda>h'. Inr (h', \<lparr>head = None, tail = None\<rparr>))) (destroy_loop h (head q))"

definition q_empty :: "queue \<Rightarrow> bool" where
  "q_empty q \<longleftrightarrow> head q = None \<and> tail q = None"

definition q_front :: "'a store \<Rightarrow> queue \<Rightarrow> 'a outcome" where
  "q_front h q =
     andThen (assert_that (\<not> q_empty q)) (\<lambda>_.
     andThen (deref h (head q)) (\<lambda>n. Inr (node_value n)))"

definition q_back :: "'a store \<Rightarrow> queue \<Rightarrow> 'a outcome" where
  "q_back h q = andThen (deref h (tail q)) (\<lambda>n. Inr (node_value n))"

definition push_back :: "'a store \<Rightarrow> queue \<Rightarrow> 'a \<Rightarrow> ('a store \<times> queue) outcome" where
  "push_back h q v =
     (let a = fresh h;
          h1 = h\<lparr>cells := (cells h)(a \<mapsto> \<lparr>node_next = None, node_value = v\<rparr>), fresh := Suc a\<rparr>
      in case head q of
           None \<Rightarrow> Inr (h1, \<lparr>head = Some a, tail = Some a\<rparr>)
         | Some _ \<Rightarrow>
             andThen (deref h1 (tail q)) (\<lambda>n.
               Inr (h1\<lparr>cells := (cells h1)(the (tail q) \<mapsto> n\<lparr>node_next := Some a\<rparr>)\<rparr>,
                    q\<lparr>tail := Some a\<rparr>)))"

text \<open>\<open>emplace_back\<close> of a constructed value; it ends without the \<open>return\<close> its type asks for.\<close>

definition emplace_back :: "'a store \<Rightarrow> queue \<Rightarrow> 'a \<Rightarrow> ('a store \<times> queue) outcome" where
  "emplace_back h q v = andThen (push_back h q v) (\<lambda>_. Inl Undefined)"

definition pop_front :: "'a store \<Rightarrow> queue \<Rightarrow> ('a store \<times> queue) outcome" where
  "pop_front h q =
     andThen (assert_that (\<not> q_empty q)) (\<lambda>_.
     andThen (deref h (head q)) (\<lambda>n.
       let q1 = q\<lparr>head := node_next n\<rparr>;
           q2 = (if head q1 = None then q1\<lparr>tail := None\<rparr> else q1)
       in Inr (delete_node h (head q), q2)))"

section \<open>Contract of queues in a shared store\<close>

text \<open>
  \<open>rep h q as xs\<close>: in store \<open>h\<close> the queue \<open>q\<close> holds \<open>xs\<close>, in nodes at the addresses \<open>as\<close>. The
  laws say what a client may rely on for one queue and what an operation on it leaves alone in
  the others.
\<close>

locale shared_fifo =
  fixes rep :: "'h \<Rightarrow> 'q \<Rightarrow> nat list \<Rightarrow> 'a list \<Rightarrow> bool"
    and new_q :: 'q
    and is_empty :: "'q \<Rightarrow> bool"
    and front :: "'h \<Rightarrow> 'q \<Rightarrow> 'a outcome"
    and push :: "'h \<Rightarrow> 'q \<Rightarrow> 'a \<Rightarrow> ('h \<times> 'q) outcome"
    and pop :: "'h \<Rightarrow> 'q \<Rightarrow> ('h \<times> 'q) outcome"
  assumes new_law: "rep h new_q [] []"
    and empty_law: "rep h q as xs \<Longrightarrow> is_empty q \<longleftrightarrow> xs = []"
    and front_law: "rep h q as (x # xs) \<Longrightarrow> front h q = Inr x"
    and pop_law: "rep h q as (x # xs) \<Longrightarrow> \<exists>q'. pop h q = Inr (h, q') \<and> rep h q' (List.tl as) xs"
    and pop_empty_law: "rep h q as [] \<Longrightarrow> pop h q = Inl AssertionFailed"
    and push_law: "rep h q as xs \<Longrightarrow>
      \<exists>h' q' a. push h q v = Inr (h', q') \<and> rep h' q' (as @ [a]) (xs @ [v]) \<and>
        (\<forall>q2 bs ys. rep h q2 bs ys \<longrightarrow> a \<notin> set bs \<and> (set as \<inter> set bs = {} \<longrightarrow> rep h' q2 bs ys))"
begin

text \<open>One turn of a loop that moves the front of one queue to the back of another.\<close>

lemma move_front:
  assumes "rep h q as (x # xs)" "rep h q2 bs ys" "set as \<inter> set bs = {}"
  shows "\<exists>q' h' q2' a. front h q = Inr x \<and> pop h q = Inr (h, q') \<and> push h q2 x = Inr (h', q2') \<and>
    rep h' q' (List.tl as) xs \<and> rep h' q2' (bs @ [a]) (ys @ [x]) \<and>
    set (List.tl as) \<inter> set (bs @ [a]) = {}"
proof -
  obtain q' where q': "pop h q = Inr (h, q')" "rep h q' (List.tl as) xs"
    using pop_law [OF assms(1)] by blast
  obtain h' q2' a where p: "push h q2 x = Inr (h', q2')" "rep h' q2' (bs @ [a]) (ys @ [x])"
    and frame: "\<And>q3 cs zs. rep h q3 cs zs \<Longrightarrow> a \<notin> set cs \<and> (set bs \<inter> set cs = {} \<longrightarrow> rep h' q3 cs zs)"
    using push_law [OF assms(2), of x] by blast
  have sub: "set (List.tl as) \<subseteq> set as" by (cases as) auto
  then have "rep h' q' (List.tl as) xs" "a \<notin> set (List.tl as)"
    using frame [OF q'(2)] assms(3) by blast+
  then show ?thesis using front_law [OF assms(1)] q' p sub assms(3) by fastforce
qed

end

section \<open>The linked implementation meets the contract\<close>

fun chain_from :: "'a store \<Rightarrow> nat option \<Rightarrow> nat list \<Rightarrow> 'a list \<Rightarrow> bool" where
  "chain_from h p [] [] = (p = None)"
| "chain_from h p (a # as) (x # xs) =
     (p = Some a \<and> a < fresh h \<and>
      (case cells h a of None \<Rightarrow> False | Some n \<Rightarrow> node_value n = x \<and> chain_from h (node_next n) as xs))"
| "chain_from h p _ _ = False"

definition queue_rep :: "'a store \<Rightarrow> queue \<Rightarrow> nat list \<Rightarrow> 'a list \<Rightarrow> bool" where
  "queue_rep h q as xs \<longleftrightarrow>
     chain_from h (head q) as xs \<and> distinct as \<and> tail q = (if as = [] then None else Some (last as))"

lemma chain_from_length: "chain_from h p as xs \<Longrightarrow> length as = length xs"
  by (induction h p as xs rule: chain_from.induct) (auto split: option.splits)

lemma chain_from_fresh: "chain_from h p as xs \<Longrightarrow> a \<in> set as \<Longrightarrow> a < fresh h"
  by (induction h p as xs rule: chain_from.induct) (auto split: option.splits)

lemma chain_from_not_fresh: "chain_from h p as xs \<Longrightarrow> fresh h \<notin> set as"
  by (auto dest: chain_from_fresh)

lemma chain_from_frame:
  assumes "chain_from h p as xs" "fresh h \<le> fresh h'" "\<And>a. a \<in> set as \<Longrightarrow> cells h' a = cells h a"
  shows "chain_from h' p as xs"
  using assms by (induction h p as xs rule: chain_from.induct) (auto split: option.splits)

lemma chain_from_last:
  "chain_from h p (as @ [a]) xs \<Longrightarrow> \<exists>n ys. cells h a = Some n \<and> node_next n = None \<and> xs = ys @ [node_value n]"
proof (induction as arbitrary: p xs)
  case Nil
  then show ?case
    by (cases xs; cases "tl xs") (auto split: option.splits)
next
  case (Cons b bs)
  then obtain x ys n where "xs = x # ys" "cells h b = Some n" "chain_from h (node_next n) (bs @ [a]) ys"
    by (cases xs) (auto split: option.splits)
  with Cons.IH show ?case by force
qed

lemma chain_from_snoc:
  assumes "chain_from h p (as @ [l]) xs" "distinct (as @ [l])" "cells h l = Some n" "b = fresh h"
    "cells h' = (cells h)(b \<mapsto> \<lparr>node_next = None, node_value = v\<rparr>, l \<mapsto> n\<lparr>node_next := Some b\<rparr>)"
    "fresh h' = Suc b"
  shows "chain_from h' p (as @ [l, b]) (xs @ [v])"
  using assms(1,2)
proof (induction as arbitrary: p xs)
  case Nil
  then obtain x where "xs = [x]" "p = Some l" "node_value n = x" "l < b"
    using assms(3,4) by (cases xs; cases "tl xs") (auto split: option.splits)
  then show ?case using assms by simp
next
  case (Cons c cs)
  then obtain x ys m where m: "xs = x # ys" "cells h c = Some m" "p = Some c" "node_value m = x"
    "c < fresh h" "chain_from h (node_next m) (cs @ [l]) ys"
    by (cases xs) (auto split: option.splits)
  moreover have "cells h' c = cells h c" using Cons.prems(2) assms(4,5) m(5) by auto
  moreover have "chain_from h' (node_next m) (cs @ [l, b]) (ys @ [v])"
    using Cons.IH [OF m(6)] Cons.prems(2) by simp
  ultimately show ?case using assms(4,6) by simp
qed

lemma destroy_loop_ends:
  "chain_from h p as xs \<Longrightarrow> destroy_loop h p = Some (Inr h)"
proof (induction h p as xs rule: chain_from.induct)
  case (1 h p)
  then show ?case by (simp add: destroy_loop.simps)
next
  case (2 h p a as x xs)
  then show ?case
    by (auto simp: destroy_loop.simps [of h "Some a"] deref_def delete_node_def split: option.splits)
qed simp_all

lemma queue_rep_push:
  assumes "queue_rep h q as xs"
  shows "\<exists>h' q'. push_back h q v = Inr (h', q') \<and> queue_rep h' q' (as @ [fresh h]) (xs @ [v]) \<and>
    (\<forall>q2 bs ys. queue_rep h q2 bs ys \<longrightarrow>
       fresh h \<notin> set bs \<and> (set as \<inter> set bs = {} \<longrightarrow> queue_rep h' q2 bs ys))"
proof (cases as rule: rev_cases)
  case Nil
  let ?h = "h\<lparr>cells := (cells h)(fresh h \<mapsto> \<lparr>node_next = None, node_value = v\<rparr>), fresh := Suc (fresh h)\<rparr>"
  have "head q = None" "xs = []" using assms Nil by (cases xs; simp add: queue_rep_def)+
  then have "push_back h q v = Inr (?h, \<lparr>head = Some (fresh h), tail = Some (fresh h)\<rparr>)"
    by (simp add: push_back_def Let_def)
  moreover have "queue_rep ?h q2 bs ys" if "queue_rep h q2 bs ys" for q2 bs ys
    using that chain_from_not_fresh [of h "head q2" bs ys]
    by (auto simp: queue_rep_def intro!: chain_from_frame [of h])
  ultimately show ?thesis using Nil \<open>xs = []\<close>
    by (auto simp: queue_rep_def dest: chain_from_fresh)
next
  case (snoc ls l)
  let ?n = "\<lparr>node_next = None, node_value = v\<rparr>"
  have ch: "chain_from h (head q) (ls @ [l]) xs" and d: "distinct (ls @ [l])" and t: "tail q = Some l"
    using assms snoc by (auto simp: queue_rep_def)
  obtain n where n: "cells h l = Some n" using chain_from_last [OF ch] by blast
  have lf: "l < fresh h" using chain_from_fresh [OF ch] by simp
  have hd: "head q \<noteq> None" using ch by (cases ls; cases xs) auto
  let ?h = "h\<lparr>cells := (cells h)(fresh h \<mapsto> ?n, l \<mapsto> n\<lparr>node_next := Some (fresh h)\<rparr>),
    fresh := Suc (fresh h)\<rparr>"
  let ?q = "q\<lparr>tail := Some (fresh h)\<rparr>"
  have "push_back h q v = Inr (?h, ?q)"
    using hd t n lf by (auto simp: push_back_def Let_def deref_def)
  moreover have "chain_from ?h (head q) (ls @ [l, fresh h]) (xs @ [v])"
    by (rule chain_from_snoc [OF ch d n refl]) simp_all
  then have "queue_rep ?h ?q (as @ [fresh h]) (xs @ [v])"
    using d snoc chain_from_fresh [OF ch] by (auto simp: queue_rep_def)
  moreover have "fresh h \<notin> set bs \<and> (set as \<inter> set bs = {} \<longrightarrow> queue_rep ?h q2 bs ys)"
    if "queue_rep h q2 bs ys" for q2 bs ys
    using that chain_from_not_fresh [of h "head q2" bs ys] snoc
    by (auto simp: queue_rep_def intro!: chain_from_frame [of h])
  ultimately show ?thesis by blast
qed

lemma queue_rep_pop:
  assumes "queue_rep h q as (x # xs)"
  shows "\<exists>q'. pop_front h q = Inr (h, q') \<and> queue_rep h q' (List.tl as) xs"
proof -
  obtain a bs n where a: "as = a # bs" "head q = Some a" "cells h a = Some n"
    "chain_from h (node_next n) bs xs" "distinct (a # bs)" "tail q = Some (last as)"
    using assms by (cases as) (auto simp: queue_rep_def split: option.splits)
  have "node_next n = None \<longleftrightarrow> bs = []" using a(4) by (cases bs; cases xs) auto
  then show ?thesis using a
    by (auto simp: pop_front_def q_empty_def deref_def delete_node_def Let_def queue_rep_def)
qed

interpretation lq: shared_fifo queue_rep new_QueueContainer q_empty q_front push_back pop_front
proof unfold_locales
  fix h :: "'a store" and q as xs and x v :: 'a
  show "queue_rep h new_QueueContainer [] []"
    by (simp add: queue_rep_def new_QueueContainer_def)
  show "q_empty q \<longleftrightarrow> xs = []" if "queue_rep h q as xs"
    using that by (cases as; cases xs) (auto simp: queue_rep_def q_empty_def)
  show "q_front h q = Inr x" if "queue_rep h q as (x # xs)"
    using that by (cases as) (auto simp: queue_rep_def q_front_def q_empty_def deref_def split: option.splits)
  show "\<exists>q'. pop_front h q = Inr (h, q') \<and> queue_rep h q' (List.tl as) xs" if "queue_rep h q as (x # xs)"
    using that by (rule queue_rep_pop)
  show "pop_front h q = Inl AssertionFailed" if "queue_rep h q as []"
    using that by (cases as) (auto simp: queue_rep_def pop_front_def q_empty_def)
  show "\<exists>h' q' a. push_back h q v = Inr (h', q') \<and> queue_rep h' q' (as @ [a]) (xs @ [v]) \<and>
      (\<forall>q2 bs ys. queue_rep h q2 bs ys \<longrightarrow>
         a \<notin> set bs \<and> (set as \<inter> set bs = {} \<longrightarrow> queue_rep h' q2 bs ys))"
    if "queue_rep h q as xs"
    using queue_rep_push [OF that, of v] by blast
qed

section \<open>Properties\<close>

text \<open>
  C27: the linked queue refines a list. Whenever the pointers of \<open>q\<close> represent \<open>xs\<close>, \<open>push_back\<close>
  succeeds and represents \<open>xs @ [v]\<close>, \<open>empty\<close> is emptiness of \<open>xs\<close>, \<open>front\<close> and \<open>pop_front\<close> read and
  drop its first element or fail their assertion when there is none, the destructor comes to an
  end, and a push leaves every other queue of the store as it was.
\<close>

theorem queue_refines_list:
  assumes "queue_rep h q as xs"
  shows "(\<exists>h' q' a. push_back h q v = Inr (h', q') \<and> queue_rep h' q' (as @ [a]) (xs @ [v]) \<and>
      (\<forall>q2 bs ys. queue_rep h q2 bs ys \<and> set as \<inter> set bs = {} \<longrightarrow> queue_rep h' q2 bs ys)) \<and>
    (q_empty q \<longleftrightarrow> xs = []) \<and>
    (case xs of
       [] \<Rightarrow> q_front h q = Inl AssertionFailed \<and> pop_front h q = Inl AssertionFailed
     | x # ys \<Rightarrow> q_front h q = Inr x \<and>
         (\<exists>q'. pop_front h q = Inr (h, q') \<and> queue_rep h q' (List.tl as) ys)) \<and>
    destroy_QueueContainer h q = Some (Inr (h, \<lparr>head = None, tail = None\<rparr>))"
proof (intro conjI)
  show "\<exists>h' q' a. push_back h q v = Inr (h', q') \<and> queue_rep h' q' (as @ [a]) (xs @ [v]) \<and>
      (\<forall>q2 bs ys. queue_rep h q2 bs ys \<and> set as \<inter> set bs = {} \<longrightarrow> queue_rep h' q2 bs ys)"
    using lq.push_law [OF assms, of v] by blast
  show empty: "q_empty q \<longleftrightarrow> xs = []" using assms by (rule lq.empty_law)
  show "case xs of
       [] \<Rightarrow> q_front h q = Inl AssertionFailed \<and> pop_front h q = Inl AssertionFailed
     | x # ys \<Rightarrow> q_front h q = Inr x \<and>
         (\<exists>q'. pop_front h q = Inr (h, q') \<and> queue_rep h q' (List.tl as) ys)"
  proof (cases xs)
    case Nil
    then show ?thesis using assms empty lq.pop_empty_law [of h q as] by (simp add: q_front_def)
  next
    case (Cons x ys)
    then show ?thesis using assms lq.front_law [of h q as x ys] lq.pop_law [of h q as x ys] by simp
  qed
  show "destroy_QueueContainer h q = Some (Inr (h, \<lparr>head = None, tail = None\<rparr>))"
    using assms destroy_loop_ends [of h "head q" as xs]
    by (simp add: destroy_QueueContainer_def queue_rep_def)
qed

definition example_store :: "nat store" where
  "example_store =
     \<lparr>cells = [0 \<mapsto> \<lparr>node_next = Some 1, node_value = 7\<rparr>, 1 \<mapsto> \<lparr>node_next = None, node_value = 8\<rparr>],
      fresh = 2\<rparr>"

theorem queue_refines_list_witness:
  "queue_rep example_store \<lparr>head = Some 0, tail = Some 1\<rparr> [0, 1] [7, 8] \<and>
   q_front example_store \<lparr>head = Some 0, tail = Some 1\<rparr> = Inr 7"
proof -
  have rep: "queue_rep example_store \<lparr>head = Some 0, tail = Some 1\<rparr> [0, 1] [7, 8]"
    by (simp add: queue_rep_def example_store_def)
  show ?thesis using rep queue_refines_list [OF rep] by simp
qed

end
