(* ===== verification/Lib_HashMap.thy ===== *)
theory Lib_HashMap
  imports Kernel_Prelude
begin

unbundle bit_operations_syntax

text \<open>
  \<open>kernel/lib/hash_map.h\<close> and \<open>kernel/lib/hash_set.h\<close>: a chained hash table with a fixed number
  of buckets. A \<open>Node*\<close> is the list of the key-value pairs from that node to the end of its
  chain, \<open>nullptr\<close> the empty list; \<open>std::vector<Node*>\<close> is a list of chains, and an access
  outside of it is \<open>Undefined\<close>. \<open>std::hash<Key>\<close> belongs to the C++ library and is the field
  \<open>makeHash\<close>, as in the class. Pointers into the table (\<open>Value&\<close>) are read and assigned through
  the operations here. \<open>operator delete\<close> of this kernel is empty, so unlinking a node frees
  nothing.
\<close>

section \<open>The table\<close>

type_synonym ('k, 'v) chain = "('k \<times> 'v) list"

record ('k, 'v) hash_map =
  makeHash :: "'k \<Rightarrow> u64"
  capacity :: nat
  capacityMask :: u64
  nodes :: "('k, 'v) chain list"

text \<open>\<open>capacityMask |= 1 << i\<close>: the literal is a 32-bit \<open>int\<close>, widened with its sign; a shift by
  32 or more has no defined result.\<close>

fun mask_loop :: "nat \<Rightarrow> nat \<Rightarrow> u64 \<Rightarrow> u64 outcome" where
  "mask_loop 0 i msk = Inr msk"
| "mask_loop (Suc left) i msk =
     (if i < 32 then mask_loop left (Suc i) (msk OR scast (push_bit i 1 :: u32)) else Inl Undefined)"

definition new_HashMap :: "('k \<Rightarrow> u64) \<Rightarrow> nat \<Rightarrow> ('k, 'v) hash_map outcome" where
  "new_HashMap h cap =
     (if cap < 64
      then andThen (mask_loop cap 0 0) (\<lambda>msk.
             Inr \<lparr>makeHash = h, capacity = cap, capacityMask = msk,
                  nodes = replicate (2 ^ cap) []\<rparr>)
      else Inl Undefined)"

definition index_of :: "('k, 'v) hash_map \<Rightarrow> 'k \<Rightarrow> nat" where
  "index_of hm key = unat (makeHash hm key AND capacityMask hm)"

text \<open>The search loop shared by the operations: \<open>prev\<close> is the node visited before, \<open>node\<close> the one
  where the loop stops.\<close>

fun seek :: "'k \<Rightarrow> ('k, 'v) chain \<Rightarrow> ('k, 'v) chain \<Rightarrow> ('k, 'v) chain \<times> ('k, 'v) chain" where
  "seek key prev [] = (prev, [])"
| "seek key prev (n # ns) = (if fst n = key then (prev, n # ns) else seek key (n # ns) ns)"

definition bucket :: "('k, 'v) hash_map \<Rightarrow> 'k \<Rightarrow> ('k, 'v) chain outcome" where
  "bucket hm key =
     (if index_of hm key < length (nodes hm) then Inr (nodes hm ! index_of hm key)
      else Inl Undefined)"

text \<open>\<open>operator[]\<close>: the table afterwards and the value the returned reference holds. A missing key
  gets a new node with \<open>Value{}\<close> (here \<open>v0\<close>) whose \<open>next\<close> is \<open>prev\<close>, the last node of the
  chain.\<close>

definition subscript :: "('k, 'v) hash_map \<Rightarrow> 'k \<Rightarrow> 'v \<Rightarrow> (('k, 'v) hash_map \<times> 'v) outcome" where
  "subscript hm key v0 =
     andThen (bucket hm key) (\<lambda>chain.
       case seek key [] chain of
         (prev, []) \<Rightarrow>
           Inr (hm\<lparr>nodes := (nodes hm)[index_of hm key := (key, v0) # prev]\<rparr>, v0)
       | (prev, node # _) \<Rightarrow> Inr (hm, snd node))"

fun set_value :: "'k \<Rightarrow> 'v \<Rightarrow> ('k, 'v) chain \<Rightarrow> ('k, 'v) chain" where
  "set_value key v [] = []"
| "set_value key v (n # ns) = (if fst n = key then (key, v) # ns else n # set_value key v ns)"

text \<open>\<open>map[key] = v\<close>: \<open>operator[]\<close>, then an assignment through the reference.\<close>

definition assign :: "('k, 'v) hash_map \<Rightarrow> 'k \<Rightarrow> 'v \<Rightarrow> 'v \<Rightarrow> ('k, 'v) hash_map outcome" where
  "assign hm key v0 v =
     andThen (subscript hm key v0) (\<lambda>(hm', _).
       andThen (bucket hm' key) (\<lambda>chain.
         Inr (hm'\<lparr>nodes := (nodes hm')[index_of hm' key := set_value key v chain]\<rparr>)))"

fun unlink :: "'k \<Rightarrow> ('k, 'v) chain \<Rightarrow> ('k, 'v) chain" where
  "unlink key [] = []"
| "unlink key (n # ns) = (if fst n = key then ns else n # unlink key ns)"

definition erase :: "('k, 'v) hash_map \<Rightarrow> 'k \<Rightarrow> ('k, 'v) hash_map outcome" where
  "erase hm key =
     andThen (bucket hm key) (\<lambda>chain.
       case seek key [] chain of
         (prev, []) \<Rightarrow> Inr hm
       | (prev, node # _) \<Rightarrow>
           Inr (hm\<lparr>nodes := (nodes hm)[index_of hm key := unlink key chain]\<rparr>))"

definition contains :: "('k, 'v) hash_map \<Rightarrow> 'k \<Rightarrow> bool outcome" where
  "contains hm key = andThen (bucket hm key) (\<lambda>chain. Inr (snd (seek key [] chain) \<noteq> []))"

definition hm_size :: "('k, 'v) hash_map \<Rightarrow> nat" where
  "hm_size hm = length (filter (\<lambda>node. node \<noteq> []) (nodes hm))"

definition hm_empty :: "('k, 'v) hash_map \<Rightarrow> bool" where
  "hm_empty hm = list_all (\<lambda>node. node = []) (nodes hm)"

section \<open>Iterators\<close>

text \<open>Two nodes of the same bucket are the same node exactly when the rests of the chain from them
  are equal, so comparing \<open>elem\<close> as lists is comparing the pointers.\<close>

record ('k, 'v) iterator =
  vecIndex :: nat
  elem :: "('k, 'v) chain"

definition it_deref :: "('k, 'v) iterator \<Rightarrow> ('k \<times> 'v) outcome" where
  "it_deref it = (case elem it of [] \<Rightarrow> Inl Undefined | kv # _ \<Rightarrow> Inr kv)"

definition it_next :: "('k, 'v) hash_map \<Rightarrow> ('k, 'v) iterator \<Rightarrow> ('k, 'v) iterator outcome" where
  "it_next hm it =
     (case elem it of
        [] \<Rightarrow> Inl Undefined
      | _ # next \<Rightarrow>
          if next \<noteq> [] then Inr (it\<lparr>elem := next\<rparr>)
          else if vecIndex it < length (nodes hm) - 1
            then Inr \<lparr>vecIndex = vecIndex it + 1, elem = nodes hm ! (vecIndex it + 1)\<rparr>
            else Inr it)"

definition it_eq :: "('k, 'v) iterator \<Rightarrow> ('k, 'v) iterator \<Rightarrow> bool" where
  "it_eq a b \<longleftrightarrow> vecIndex a = vecIndex b \<and> elem a = elem b"

definition hm_end :: "('k, 'v) hash_map \<Rightarrow> ('k, 'v) iterator" where
  "hm_end hm = \<lparr>vecIndex = length (nodes hm), elem = []\<rparr>"

definition hm_begin :: "('k, 'v) hash_map \<Rightarrow> ('k, 'v) iterator" where
  "hm_begin hm =
     (case nodes hm of [] \<Rightarrow> hm_end hm | front # _ \<Rightarrow> \<lparr>vecIndex = 0, elem = front\<rparr>)"

text \<open>The constant versions of \<open>begin\<close> and \<open>end\<close>.\<close>

definition hm_cend :: "('k, 'v) hash_map \<Rightarrow> ('k, 'v) iterator" where
  "hm_cend hm = \<lparr>vecIndex = length (nodes hm), elem = []\<rparr>"

definition hm_cbegin :: "('k, 'v) hash_map \<Rightarrow> ('k, 'v) iterator" where
  "hm_cbegin hm = (if nodes hm = [] then hm_cend hm else \<lparr>vecIndex = 0, elem = hd (nodes hm)\<rparr>)"

section \<open>The set\<close>

type_synonym 'a hash_set = "('a, 'a) hash_map"

definition new_HashSet :: "('a \<Rightarrow> u64) \<Rightarrow> nat \<Rightarrow> 'a hash_set outcome" where
  "new_HashSet h cap = new_HashMap h cap"

definition hs_insert :: "'a hash_set \<Rightarrow> 'a \<Rightarrow> 'a \<Rightarrow> 'a hash_set outcome" where
  "hs_insert hs v0 v = assign hs v v0 v"

definition hs_erase :: "'a hash_set \<Rightarrow> 'a \<Rightarrow> 'a hash_set outcome" where
  "hs_erase hs v = erase hs v"

definition hs_contains :: "'a hash_set \<Rightarrow> 'a \<Rightarrow> bool outcome" where
  "hs_contains hs v = contains hs v"

definition hs_empty :: "'a hash_set \<Rightarrow> bool" where
  "hs_empty hs = hm_empty hs"

definition hs_size :: "'a hash_set \<Rightarrow> nat" where
  "hs_size hs = hm_size hs"

text \<open>An iterator of the set wraps one of the table and shows the first component.\<close>

definition hs_deref :: "('a, 'a) iterator \<Rightarrow> 'a outcome" where
  "hs_deref it = andThen (it_deref it) (\<lambda>kv. Inr (fst kv))"

definition hs_next :: "'a hash_set \<Rightarrow> ('a, 'a) iterator \<Rightarrow> ('a, 'a) iterator outcome" where
  "hs_next hs it = it_next hs it"

definition hs_it_eq :: "('a, 'a) iterator \<Rightarrow> ('a, 'a) iterator \<Rightarrow> bool" where
  "hs_it_eq a b \<longleftrightarrow> it_eq a b"

definition hs_end :: "'a hash_set \<Rightarrow> ('a, 'a) iterator" where
  "hs_end hs = hm_end hs"

definition hs_begin :: "'a hash_set \<Rightarrow> ('a, 'a) iterator" where
  "hs_begin hs = (if hs_empty hs then hs_end hs else hm_begin hs)"

text \<open>The constant \<open>cend\<close> of the set returns the underlying \<open>begin\<close>, and the constant \<open>cbegin\<close>
  and \<open>begin\<close> return \<open>cend\<close> for an empty set.\<close>

definition hs_cend :: "'a hash_set \<Rightarrow> ('a, 'a) iterator" where
  "hs_cend hs = hm_begin hs"

definition hs_cbegin :: "'a hash_set \<Rightarrow> ('a, 'a) iterator" where
  "hs_cbegin hs = (if hs_empty hs then hs_cend hs else hm_begin hs)"

section \<open>Contract of a keyed store\<close>

text \<open>
  What the clients of the table (buffer cache, inode table, sleep table, system call table) rely
  on: a lookup after a store or a removal is that of a finite map. \<open>room m k\<close> says that storing
  \<open>k\<close> does not push another key out.
\<close>

locale keyed_store =
  fixes invar :: "'m \<Rightarrow> bool"
    and lookup :: "'m \<Rightarrow> 'k \<Rightarrow> 'v option"
    and room :: "'m \<Rightarrow> 'k \<Rightarrow> bool"
    and put :: "'m \<Rightarrow> 'k \<Rightarrow> 'v \<Rightarrow> 'm outcome"
    and del :: "'m \<Rightarrow> 'k \<Rightarrow> 'm outcome"
  assumes put_law: "invar m \<Longrightarrow> room m k \<Longrightarrow>
      \<exists>m'. put m k v = Inr m' \<and> invar m' \<and> lookup m' = (lookup m)(k \<mapsto> v)"
    and del_law: "invar m \<Longrightarrow>
      \<exists>m'. del m k = Inr m' \<and> invar m' \<and> lookup m' = (lookup m)(k := None)"
    and room_known: "invar m \<Longrightarrow> lookup m k \<noteq> None \<Longrightarrow> room m k"
begin

lemma put_get:
  assumes "invar m" "room m k" "put m k v = Inr m'"
  shows "lookup m' j = (if j = k then Some v else lookup m j)"
  using put_law [OF assms(1,2), of v] assms(3) by auto

lemma put_overwrite:
  assumes "invar m" "room m k"
  shows "\<exists>m1 m2. put m k v = Inr m1 \<and> put m1 k w = Inr m2 \<and> lookup m2 = (lookup m)(k \<mapsto> w)"
proof -
  obtain m1 where m1: "put m k v = Inr m1" "invar m1" "lookup m1 = (lookup m)(k \<mapsto> v)"
    using put_law [OF assms, of v] by blast
  then have "room m1 k" by (intro room_known) auto
  then show ?thesis using put_law [OF m1(2), of k w] m1 by (metis fun_upd_upd)
qed

lemma put_del:
  assumes "invar m" "room m k" "lookup m k = None"
  shows "\<exists>m1 m2. put m k v = Inr m1 \<and> del m1 k = Inr m2 \<and> lookup m2 = lookup m"
proof -
  obtain m1 where m1: "put m k v = Inr m1" "invar m1" "lookup m1 = (lookup m)(k \<mapsto> v)"
    using put_law [OF assms(1,2), of v] by blast
  have "(lookup m)(k := None) = lookup m" using assms(3) by (simp add: fun_upd_idem_iff)
  then show ?thesis using del_law [OF m1(2), of k] m1 by (metis fun_upd_upd)
qed

end

section \<open>Invariant and abstraction\<close>

definition hm_invar :: "('k, 'v) hash_map \<Rightarrow> bool" where
  "hm_invar hm \<longleftrightarrow>
     capacity hm < 32 \<and> capacityMask hm = mask (capacity hm) \<and>
     length (nodes hm) = 2 ^ capacity hm \<and>
     (\<forall>i < length (nodes hm).
        distinct (map fst (nodes hm ! i)) \<and> (\<forall>kv \<in> set (nodes hm ! i). index_of hm (fst kv) = i))"

definition hm_chain :: "('k, 'v) hash_map \<Rightarrow> 'k \<Rightarrow> ('k, 'v) chain" where
  "hm_chain hm k = nodes hm ! index_of hm k"

definition hm_lookup :: "('k, 'v) hash_map \<Rightarrow> 'k \<Rightarrow> 'v option" where
  "hm_lookup hm k = map_of (hm_chain hm k) k"

definition hm_room :: "('k, 'v) hash_map \<Rightarrow> 'k \<Rightarrow> bool" where
  "hm_room hm k \<longleftrightarrow> hm_lookup hm k \<noteq> None \<or> length (hm_chain hm k) \<le> 1"

text \<open>What a store does to the chain of its bucket.\<close>

definition last_node :: "('k, 'v) chain \<Rightarrow> ('k, 'v) chain" where
  "last_node c = (if c = [] then [] else [last c])"

definition chain_put :: "'k \<Rightarrow> 'v \<Rightarrow> ('k, 'v) chain \<Rightarrow> ('k, 'v) chain" where
  "chain_put k v c = (if k \<in> fst ` set c then set_value k v c else (k, v) # last_node c)"

section \<open>Chains\<close>

lemma snd_seek: "snd (seek k prev c) = dropWhile (\<lambda>n. fst n \<noteq> k) c"
  by (induction c arbitrary: prev) auto

lemma seek_absent:
  "k \<notin> fst ` set c \<Longrightarrow> seek k prev c = (if c = [] then prev else [last c], [])"
  by (induction c arbitrary: prev) auto

lemma seek_present:
  assumes "k \<in> fst ` set c"
  shows "\<exists>p n ns. seek k prev c = (p, n # ns) \<and> n \<in> set c \<and> fst n = k \<and> map_of c k = Some (snd n)"
  using assms
proof (induction c arbitrary: prev)
  case (Cons n ns)
  show ?case
  proof (cases "fst n = k")
    case True
    then show ?thesis by (cases n) auto
  next
    case False
    then have "k \<in> fst ` set ns" using Cons.prems by auto
    from Cons.IH [OF this, of "n # ns"] show ?thesis using False by (cases n) auto
  qed
qed simp

lemma keys_set_value [simp]: "map fst (set_value k v c) = map fst c"
  by (induction c) auto

lemma fst_set_value [simp]: "fst ` set (set_value k v c) = fst ` set c"
  by (induction c) auto

lemma map_of_set_value: "k \<in> fst ` set c \<Longrightarrow> map_of (set_value k v c) = (map_of c)(k \<mapsto> v)"
proof (induction c)
  case (Cons n ns)
  then show ?case by (cases "fst n = k") (auto simp: fun_eq_iff)
qed simp

lemma keys_unlink: "fst ` set (unlink k c) \<subseteq> fst ` set c"
  by (induction c) auto

lemma distinct_unlink: "distinct (map fst c) \<Longrightarrow> distinct (map fst (unlink k c))"
proof (induction c)
  case (Cons n ns)
  then have "fst n \<notin> fst ` set (unlink k ns)" using keys_unlink [of k ns] by auto
  then show ?case using Cons by simp
qed simp

lemma map_of_unlink: "distinct (map fst c) \<Longrightarrow> map_of (unlink k c) = (map_of c)(k := None)"
proof (induction c)
  case (Cons n ns)
  then show ?case
    by (cases n) (auto simp: fun_upd_twist fun_upd_idem_iff map_of_eq_None_iff rev_image_eqI)
qed simp

lemma last_node_subset: "set (last_node c) \<subseteq> set c"
  by (simp add: last_node_def)

lemma chain_put_keys: "fst ` set (chain_put k v c) \<subseteq> insert k (fst ` set c)"
  using last_node_subset [of c] by (auto simp: chain_put_def)

lemma distinct_chain_put: "distinct (map fst c) \<Longrightarrow> distinct (map fst (chain_put k v c))"
  by (auto simp: chain_put_def last_node_def image_iff)

lemma map_of_chain_put_same: "map_of (chain_put k v c) k = Some v"
  by (simp add: chain_put_def map_of_set_value)

lemma map_of_chain_put_other:
  assumes "j \<noteq> k"
  shows "map_of (chain_put k v c) j =
    (if k \<in> fst ` set c then map_of c j else map_of (last_node c) j)"
  using assms by (simp add: chain_put_def map_of_set_value)

lemma last_node_short: "length c \<le> 1 \<Longrightarrow> last_node c = c"
  by (cases c) (auto simp: last_node_def)

lemma map_of_last_node:
  assumes "distinct (map fst c)"
  shows "map_of (last_node c) j = (if c \<noteq> [] \<and> j = fst (last c) then map_of c j else None)"
proof (cases c rule: rev_cases)
  case (snoc ys y)
  then have "map_of ys (fst y) = None" using assms by (simp add: map_of_eq_None_iff)
  then show ?thesis using snoc by (simp add: last_node_def map_add_def)
qed (simp add: last_node_def)

section \<open>The table's operations under the invariant\<close>

lemma mask_step: "i < 31 \<Longrightarrow> mask i OR scast (2 ^ i :: u32) = (mask (Suc i) :: u64)"
  by (rule bit_word_eqI) (auto simp: bit_simps min_def less_Suc_eq)

lemma mask_loop_mask: "i + n < 32 \<Longrightarrow> mask_loop n i (mask i) = Inr (mask (i + n))"
  by (induction n arbitrary: i) (simp_all add: mask_step)

lemma index_in_bounds: "hm_invar hm \<Longrightarrow> index_of hm k < length (nodes hm)"
  by (simp add: hm_invar_def index_of_def unsigned_take_bit_eq flip: take_bit_eq_mask)

lemma bucket_chain: "hm_invar hm \<Longrightarrow> bucket hm k = Inr (hm_chain hm k)"
  by (simp add: bucket_def hm_chain_def index_in_bounds)

lemma new_HashMap_invar:
  fixes h :: "'k \<Rightarrow> u64"
  assumes "cap < 32"
  shows "\<exists>hm :: ('k, 'v) hash_map. new_HashMap h cap = Inr hm \<and> hm_invar hm \<and> makeHash hm = h \<and>
    capacityMask hm = mask cap \<and> hm_lookup hm = Map.empty"
proof -
  define hm :: "('k, 'v) hash_map" where
    "hm = \<lparr>makeHash = h, capacity = cap, capacityMask = mask cap, nodes = replicate (2 ^ cap) []\<rparr>"
  have "mask_loop cap 0 0 = Inr (mask cap)"
    using mask_loop_mask [of 0 cap] assms by simp
  then have "new_HashMap h cap = Inr hm" using assms by (simp add: new_HashMap_def hm_def)
  moreover have inv: "hm_invar hm" using assms by (simp add: hm_invar_def hm_def)
  moreover have "hm_lookup hm k = None" for k
    using index_in_bounds [OF inv, of k] by (simp add: hm_lookup_def hm_chain_def) (simp add: hm_def)
  moreover have "makeHash hm = h" "capacityMask hm = mask cap" by (simp_all add: hm_def)
  ultimately show ?thesis by blast
qed

text \<open>Replacing the chain of one bucket, the common effect of every update.\<close>

definition hm_set_chain :: "('k, 'v) hash_map \<Rightarrow> 'k \<Rightarrow> ('k, 'v) chain \<Rightarrow> ('k, 'v) hash_map" where
  "hm_set_chain hm k c = hm\<lparr>nodes := (nodes hm)[index_of hm k := c]\<rparr>"

lemma index_of_set_chain [simp]: "index_of (hm_set_chain hm k c) j = index_of hm j"
  by (simp add: index_of_def hm_set_chain_def)

lemma hm_chain_set_chain:
  "hm_invar hm \<Longrightarrow> hm_chain (hm_set_chain hm k c) j =
     (if index_of hm j = index_of hm k then c else hm_chain hm j)"
  using index_in_bounds [of hm k] by (simp add: hm_chain_def hm_set_chain_def index_of_def)

lemma hm_invar_set_chain:
  assumes inv: "hm_invar hm" and d: "distinct (map fst c)"
    and k: "\<And>kv. kv \<in> set c \<Longrightarrow> index_of hm (fst kv) = index_of hm k"
  shows "hm_invar (hm_set_chain hm k c)"
proof -
  let ?hm = "hm_set_chain hm k c"
  have "distinct (map fst (nodes ?hm ! i)) \<and> (\<forall>kv \<in> set (nodes ?hm ! i). index_of ?hm (fst kv) = i)"
    if "i < length (nodes ?hm)" for i
  proof (cases "i = index_of hm k")
    case True
    then have "nodes ?hm ! i = c" using that by (simp add: hm_set_chain_def)
    then show ?thesis using d k True by simp
  next
    case False
    then have "nodes ?hm ! i = nodes hm ! i" "i < length (nodes hm)"
      using that by (simp_all add: hm_set_chain_def)
    then show ?thesis using inv by (simp add: hm_invar_def)
  qed
  then show ?thesis using inv by (simp add: hm_invar_def [of ?hm]) (simp add: hm_invar_def hm_set_chain_def)
qed

lemma hm_chain_keys:
  assumes "hm_invar hm" "kv \<in> set (hm_chain hm k)"
  shows "index_of hm (fst kv) = index_of hm k"
  using assms index_in_bounds [OF assms(1), of k] by (simp add: hm_invar_def hm_chain_def)

lemma hm_chain_distinct: "hm_invar hm \<Longrightarrow> distinct (map fst (hm_chain hm k))"
  using index_in_bounds [of hm k] by (simp add: hm_invar_def hm_chain_def)

lemma hm_lookup_None: "hm_lookup hm k = None \<longleftrightarrow> k \<notin> fst ` set (hm_chain hm k)"
  by (simp add: hm_lookup_def map_of_eq_None_iff)

lemma contains_iff: "hm_invar hm \<Longrightarrow> contains hm k = Inr (hm_lookup hm k \<noteq> None)"
  by (auto simp: contains_def bucket_chain snd_seek hm_lookup_None)

lemma subscript_absent:
  "hm_invar hm \<Longrightarrow> hm_lookup hm k = None \<Longrightarrow>
     subscript hm k v0 = Inr (hm_set_chain hm k ((k, v0) # last_node (hm_chain hm k)), v0)"
  by (simp add: subscript_def bucket_chain seek_absent hm_lookup_None hm_set_chain_def last_node_def)

lemma subscript_present:
  assumes "hm_invar hm" "hm_lookup hm k = Some v"
  shows "subscript hm k v0 = Inr (hm, v)"
proof -
  have "k \<in> fst ` set (hm_chain hm k)" using assms hm_lookup_None [of hm k] by auto
  from seek_present [OF this, of "[]"] show ?thesis
    using assms by (auto simp: subscript_def bucket_chain hm_lookup_def)
qed

lemma assign_chain:
  assumes inv: "hm_invar hm"
  shows "assign hm k v0 v = Inr (hm_set_chain hm k (chain_put k v (hm_chain hm k)))"
proof (cases "hm_lookup hm k")
  case None
  let ?hm = "hm_set_chain hm k ((k, v0) # last_node (hm_chain hm k))"
  have "index_of hm k < length (nodes hm)" using inv by (rule index_in_bounds)
  then have "bucket ?hm k = Inr ((k, v0) # last_node (hm_chain hm k))"
    by (simp add: bucket_def hm_set_chain_def index_of_def)
  then show ?thesis
    using None inv by (simp add: assign_def subscript_absent chain_put_def hm_lookup_None)
      (simp add: hm_set_chain_def index_of_def)
next
  case (Some w)
  then have "k \<in> fst ` set (hm_chain hm k)" using hm_lookup_None [of hm k] by auto
  then show ?thesis
    using Some inv by (simp add: assign_def subscript_present bucket_chain chain_put_def hm_set_chain_def)
qed

lemma assign_invar: "hm_invar hm \<Longrightarrow> hm_invar (hm_set_chain hm k (chain_put k v (hm_chain hm k)))"
  by (intro hm_invar_set_chain distinct_chain_put hm_chain_distinct)
    (use chain_put_keys [of k v "hm_chain hm k"] hm_chain_keys in \<open>fastforce+\<close>)

lemma erase_chain:
  assumes inv: "hm_invar hm"
  shows "erase hm k = Inr (hm_set_chain hm k (unlink k (hm_chain hm k)))"
proof (cases "k \<in> fst ` set (hm_chain hm k)")
  case True
  from seek_present [OF True, of "[]"] show ?thesis
    using inv by (auto simp: erase_def bucket_chain hm_set_chain_def)
next
  case False
  have "unlink k c = c" if "k \<notin> fst ` set c" for c :: "('a, 'b) chain"
    using that by (induction c) auto
  then show ?thesis using False inv
    by (simp add: erase_def bucket_chain seek_absent hm_set_chain_def hm_chain_def)
qed

lemma erase_invar: "hm_invar hm \<Longrightarrow> hm_invar (hm_set_chain hm k (unlink k (hm_chain hm k)))"
  by (intro hm_invar_set_chain distinct_unlink hm_chain_distinct)
    (use keys_unlink [of k "hm_chain hm k"] hm_chain_keys in \<open>fastforce+\<close>)

lemma erase_lookup:
  "hm_invar hm \<Longrightarrow> hm_lookup (hm_set_chain hm k (unlink k (hm_chain hm k))) = (hm_lookup hm)(k := None)"
  by (rule ext) (simp add: hm_lookup_def hm_chain_set_chain map_of_unlink hm_chain_distinct,
      simp add: hm_chain_def)

lemma assign_lookup:
  assumes "hm_invar hm"
  shows "hm_lookup (hm_set_chain hm k (chain_put k v (hm_chain hm k))) j =
    (if j = k then Some v
     else if index_of hm j \<noteq> index_of hm k \<or> hm_lookup hm k \<noteq> None then hm_lookup hm j
     else map_of (last_node (hm_chain hm k)) j)"
proof -
  have "hm_chain hm j = hm_chain hm k" if "index_of hm j = index_of hm k"
    using that by (simp add: hm_chain_def)
  then show ?thesis using assms hm_lookup_None [of hm k]
    by (auto simp: hm_lookup_def hm_chain_set_chain map_of_chain_put_same map_of_chain_put_other)
qed

lemma assign_lookup_room:
  assumes "hm_invar hm" "hm_room hm k"
  shows "hm_lookup (hm_set_chain hm k (chain_put k v (hm_chain hm k))) = (hm_lookup hm)(k \<mapsto> v)"
proof (rule ext)
  fix j
  have "hm_chain hm j = hm_chain hm k" if "index_of hm j = index_of hm k"
    using that by (simp add: hm_chain_def)
  then show "hm_lookup (hm_set_chain hm k (chain_put k v (hm_chain hm k))) j = ((hm_lookup hm)(k \<mapsto> v)) j"
    using assms by (auto simp: assign_lookup hm_room_def last_node_short) (simp_all add: hm_lookup_def)
qed

lemma subscript_law:
  assumes "hm_invar hm"
  shows "\<exists>t. subscript hm k v0 = Inr (t, case hm_lookup hm k of None \<Rightarrow> v0 | Some v \<Rightarrow> v) \<and> hm_invar t \<and>
    (\<forall>j. hm_lookup t j =
      (if j = k then Some (case hm_lookup hm k of None \<Rightarrow> v0 | Some v \<Rightarrow> v)
       else if index_of hm j \<noteq> index_of hm k \<or> hm_lookup hm k \<noteq> None then hm_lookup hm j
       else map_of (last_node (hm_chain hm k)) j))"
proof (cases "hm_lookup hm k")
  case None
  then have "chain_put k v0 (hm_chain hm k) = (k, v0) # last_node (hm_chain hm k)"
    by (simp add: chain_put_def hm_lookup_None)
  then show ?thesis
    using None assms subscript_absent [of hm k v0] assign_invar [of hm k v0] assign_lookup [of hm k v0] by simp
next
  case (Some v)
  then show ?thesis using assms by (simp add: subscript_present)
qed

text \<open>The table meets the contract: for every choice of \<open>Value{}\<close>, since the store overwrites it.\<close>

interpretation hm: keyed_store hm_invar hm_lookup hm_room
  "\<lambda>hm k v. assign hm k v0 v" erase
proof unfold_locales
  fix m :: "('a, 'b) hash_map" and k v
  assume inv: "hm_invar m"
  { assume "hm_room m k"
    with inv show "\<exists>m'. assign m k v0 v = Inr m' \<and> hm_invar m' \<and> hm_lookup m' = (hm_lookup m)(k \<mapsto> v)"
      by (simp add: assign_chain assign_invar assign_lookup_room) }
  { show "\<exists>m'. erase m k = Inr m' \<and> hm_invar m' \<and> hm_lookup m' = (hm_lookup m)(k := None)"
      using inv by (simp add: erase_chain erase_invar erase_lookup) }
  { assume "hm_lookup m k \<noteq> None"
    then show "hm_room m k" by (simp add: hm_room_def) }
qed

section \<open>Iteration\<close>

fun it_advance :: "('k, 'v) hash_map \<Rightarrow> nat \<Rightarrow> ('k, 'v) iterator \<Rightarrow> ('k, 'v) iterator outcome" where
  "it_advance hm 0 it = Inr it"
| "it_advance hm (Suc n) it = andThen (it_next hm it) (it_advance hm n)"

lemma it_next_index:
  "it_next hm it = Inr it' \<Longrightarrow> vecIndex it < length (nodes hm) \<Longrightarrow> vecIndex it' < length (nodes hm)"
  by (auto simp: it_next_def split: list.splits if_splits)

lemma it_advance_index:
  "it_advance hm n it = Inr it' \<Longrightarrow> vecIndex it < length (nodes hm) \<Longrightarrow> vecIndex it' < length (nodes hm)"
  by (induction n arbitrary: it) (auto simp: outcome_simps dest: it_next_index)

lemma hm_begin_index: "hm_invar hm \<Longrightarrow> vecIndex (hm_begin hm) < length (nodes hm)"
  by (auto simp: hm_begin_def hm_invar_def split: list.split)

section \<open>Properties\<close>

definition example_table :: "(u64, nat) hash_map" where
  "example_table =
     \<lparr>makeHash = (\<lambda>k. k), capacity = 1, capacityMask = 1, nodes = [[(4, 40), (2, 20)], [(3, 30)]]\<rparr>"

lemma example_table_invar: "hm_invar example_table"
  by (auto simp: hm_invar_def example_table_def index_of_def less_Suc_eq nth_Cons' mask_eq_exp_minus_1)

text \<open>
  C35: storing through \<open>operator[]\<close> on a well-formed table succeeds, keeps it well-formed and makes
  the stored value the one found under the key. Other keys keep their values unless the key was
  missing and they share its bucket: of such a bucket only the last node of the chain survives.
\<close>

theorem hash_map_store:
  assumes "hm_invar hm"
  shows "\<exists>hm'. assign hm k v0 v = Inr hm' \<and> hm_invar hm' \<and> hm_lookup hm' k = Some v \<and>
    (\<forall>j. j \<noteq> k \<longrightarrow> hm_lookup hm' j =
      (if index_of hm j \<noteq> index_of hm k \<or> hm_lookup hm k \<noteq> None then hm_lookup hm j
       else if hm_chain hm k \<noteq> [] \<and> j = fst (last (hm_chain hm k)) then hm_lookup hm j else None))"
proof (intro exI conjI allI impI)
  let ?hm' = "hm_set_chain hm k (chain_put k v (hm_chain hm k))"
  show "assign hm k v0 v = Inr ?hm'" using assms by (rule assign_chain)
  show "hm_invar ?hm'" using assms by (rule assign_invar)
  show "hm_lookup ?hm' k = Some v" using assms by (simp add: assign_lookup)
  fix j assume "j \<noteq> k"
  moreover have "hm_chain hm j = hm_chain hm k" if "index_of hm j = index_of hm k"
    using that by (simp add: hm_chain_def)
  then have "map_of (last_node (hm_chain hm k)) j =
      (if hm_chain hm k \<noteq> [] \<and> j = fst (last (hm_chain hm k)) then hm_lookup hm j else None)"
    if "index_of hm j = index_of hm k"
    using that by (simp only: map_of_last_node [OF hm_chain_distinct [OF assms]] hm_lookup_def)
  ultimately show "hm_lookup ?hm' j =
      (if index_of hm j \<noteq> index_of hm k \<or> hm_lookup hm k \<noteq> None then hm_lookup hm j
       else if hm_chain hm k \<noteq> [] \<and> j = fst (last (hm_chain hm k)) then hm_lookup hm j else None)"
    using assign_lookup [OF assms, of k v j] by simp
qed

theorem hash_map_store_witness:
  "hm_invar example_table \<and>
   (\<exists>hm'. assign example_table 6 0 60 = Inr hm' \<and> hm_lookup hm' 6 = Some 60 \<and>
      hm_lookup hm' 2 = Some 20 \<and> hm_lookup hm' 4 = None \<and> hm_lookup hm' 3 = Some 30)"
proof -
  have e: "index_of example_table 6 = 0" "index_of example_table 2 = 0" "index_of example_table 4 = 0"
    "index_of example_table 3 = 1" "hm_lookup example_table 6 = None"
    "hm_lookup example_table 2 = Some 20" "hm_lookup example_table 4 = Some 40"
    "hm_lookup example_table 3 = Some 30" "hm_chain example_table 6 = [(4, 40), (2, 20)]"
    by (simp_all add: index_of_def example_table_def hm_lookup_def hm_chain_def)
  show ?thesis
    using hash_map_store [OF example_table_invar, of 6 0 60] e example_table_invar by auto
qed

text \<open>
  \<open>erase\<close> removes exactly its key and \<open>contains\<close> answers by the map the table stands for; both
  stay inside the bucket vector and erasing keeps the table well-formed.
\<close>

theorem hash_map_erase_contains:
  assumes "hm_invar hm"
  shows "contains hm k = Inr (hm_lookup hm k \<noteq> None) \<and>
    (\<exists>hm'. erase hm k = Inr hm' \<and> hm_invar hm' \<and> contains hm' k = Inr False \<and>
       (\<forall>j. j \<noteq> k \<longrightarrow> hm_lookup hm' j = hm_lookup hm j))"
  using assms by (simp add: contains_iff erase_chain erase_invar erase_lookup)

theorem hash_map_erase_contains_witness:
  "hm_invar example_table \<and> contains example_table 4 = Inr True \<and>
   (\<exists>hm'. erase example_table 4 = Inr hm' \<and> contains hm' 4 = Inr False \<and> hm_lookup hm' 2 = Some 20)"
proof -
  have "hm_lookup example_table 4 = Some 40" "hm_lookup example_table 2 = Some 20"
    by (simp_all add: index_of_def example_table_def hm_lookup_def hm_chain_def)
  then show ?thesis
    using hash_map_erase_contains [OF example_table_invar, of 4] example_table_invar by auto
qed

text \<open>
  A loop over a table from \<open>begin()\<close> never compares equal to \<open>end()\<close>: whatever number of
  increments is made, the bucket index stays below the one of \<open>end()\<close>.
\<close>

theorem hash_map_iteration_misses_end:
  assumes "hm_invar hm"
  shows "\<forall>n it. it_advance hm n (hm_begin hm) = Inr it \<longrightarrow> \<not> it_eq it (hm_end hm)"
  using assms by (auto simp: it_eq_def hm_end_def dest!: it_advance_index [OF _ hm_begin_index])

theorem hash_map_iteration_misses_end_witness:
  "hm_invar example_table \<and> it_advance example_table 2 (hm_begin example_table) =
     Inr \<lparr>vecIndex = 1, elem = [(3, 30)]\<rparr> \<and>
   \<not> it_eq \<lparr>vecIndex = 1, elem = [(3, 30)]\<rparr> (hm_end example_table)"
proof -
  have "it_advance example_table 2 (hm_begin example_table) = Inr \<lparr>vecIndex = 1, elem = [(3, 30)]\<rparr>"
    by (simp add: numeral_2_eq_2 it_next_def hm_begin_def example_table_def)
  then show ?thesis
    using hash_map_iteration_misses_end [OF example_table_invar] example_table_invar by blast
qed

end
