(* ===== verification/Mutex.thy ===== *)
theory Mutex
  imports Kernel_Prelude
begin

unbundle bit_operations_syntax

text \<open>
  Locks: \<open>kernel/mutex/spin_mutex.cpp\<close>, \<open>sleep_mutex.cpp\<close>, \<open>lock_guard.h\<close>, with the part of
  \<open>process/cpu.h\<close> they use. The spin mutex is modelled by its atomic steps on several harts: a
  program counter per hart says how far a call of \<open>lock\<close> or \<open>unlock\<close> has come, and a step relation
  interleaves the harts. The sleep mutex is modelled above it, with the threads that wait for it.
\<close>

section \<open>Processor state\<close>

definition NUM_CPUS :: nat where "NUM_CPUS = 8"

definition SSTATUS_SIE :: u64 where "SSTATUS_SIE = push_bit 1 1"

record cpu =
  sstatus :: u64
  numLocks :: u64
  interruptEnabled :: bool

record spin_mutex =
  locked :: bool
  hartid :: u64

definition new_SpinMutex :: spin_mutex where
  "new_SpinMutex = \<lparr>locked = False, hartid = - 1\<rparr>"

section \<open>Spin mutex: the pieces of its operations\<close>

definition push :: "cpu \<Rightarrow> cpu" where
  "push c =
     (let old = sstatus c AND SSTATUS_SIE \<noteq> 0;
          c1 = c\<lparr>sstatus := sstatus c AND NOT SSTATUS_SIE\<rparr>;
          c2 = (if numLocks c1 = 0 then c1\<lparr>interruptEnabled := old\<rparr> else c1)
      in c2\<lparr>numLocks := numLocks c2 + 1\<rparr>)"

definition pop :: "cpu \<Rightarrow> cpu outcome" where
  "pop c =
     andThen (assert_that (sstatus c AND SSTATUS_SIE = 0)) (\<lambda>_.
     andThen (assert_that (numLocks c > 0)) (\<lambda>_.
       let c1 = c\<lparr>numLocks := numLocks c - 1\<rparr>
       in if numLocks c1 = 0 \<and> interruptEnabled c1
          then Inr (c1\<lparr>sstatus := sstatus c1 OR SSTATUS_SIE\<rparr>) else Inr c1))"

definition holding :: "spin_mutex \<Rightarrow> u64 \<Rightarrow> bool" where
  "holding m tp \<longleftrightarrow> locked m \<and> hartid m = tp"

text \<open>\<open>__sync_lock_test_and_set(&locked, true)\<close>: the mutex afterwards and the old value.\<close>

definition test_and_set :: "spin_mutex \<Rightarrow> spin_mutex \<times> bool" where
  "test_and_set m = (m\<lparr>locked := True\<rparr>, locked m)"

text \<open>A whole call on an uncontended mutex, as code that runs without other harts sees it.\<close>

definition spin_lock :: "cpu \<Rightarrow> u64 \<Rightarrow> spin_mutex \<Rightarrow> (cpu \<times> spin_mutex) outcome" where
  "spin_lock c tp m =
     (let c1 = push c in
      andThen (assert_that (\<not> holding m tp)) (\<lambda>_.
        case test_and_set m of (m1, busy) \<Rightarrow>
          if busy then Inl Sleeping else Inr (c1, m1\<lparr>hartid := tp\<rparr>)))"

definition spin_unlock :: "cpu \<Rightarrow> u64 \<Rightarrow> spin_mutex \<Rightarrow> (cpu \<times> spin_mutex) outcome" where
  "spin_unlock c tp m =
     andThen (assert_that (holding m tp)) (\<lambda>_.
       let m1 = m\<lparr>hartid := - 1\<rparr>; m2 = m1\<lparr>locked := False\<rparr>
       in andThen (pop c) (\<lambda>c1. Inr (c1, m2)))"

text \<open>\<open>LockGuard\<close>: the body runs between the constructor's \<open>lock\<close> and the destructor's \<open>unlock\<close>.\<close>

definition with_guard ::
    "cpu \<Rightarrow> u64 \<Rightarrow> spin_mutex \<Rightarrow> (cpu \<Rightarrow> 's \<Rightarrow> ('s \<times> cpu) outcome) \<Rightarrow> 's \<Rightarrow> ('s \<times> cpu \<times> spin_mutex) outcome" where
  "with_guard c tp m body s =
     andThen (spin_lock c tp m) (\<lambda>(c1, m1).
     andThen (body c1 s) (\<lambda>(s1, c2).
     andThen (spin_unlock c2 tp m1) (\<lambda>(c3, m2). Inr (s1, c3, m2))))"

section \<open>Spin mutex: interleaving harts\<close>

text \<open>Mutexes are numbered; each is an object in memory, so there are fewer than this many.\<close>

definition max_mutexes :: nat where "max_mutexes = 2 ^ 32"

text \<open>
  How far a hart has come: \<open>Run\<close> outside of the mutex code, \<open>Spin l\<close> in the test-and-set loop,
  \<open>Taken l\<close> after winning it but before \<open>hartid\<close> is set, \<open>Cleared l\<close> in \<open>unlock\<close> after \<open>hartid\<close> is
  reset, \<open>Released l\<close> after \<open>locked\<close> is reset but before \<open>pop\<close>, \<open>Halted\<close> after a failed assertion.
\<close>

datatype pc = Run | Spin nat | Taken nat | Cleared nat | Released nat | Halted

record hart =
  cpu_of :: cpu
  pc_of :: pc
  held :: "nat set"

record system =
  harts :: "nat \<Rightarrow> hart"
  mutexes :: "nat \<Rightarrow> spin_mutex"

definition tp_of :: "nat \<Rightarrow> u64" where
  "tp_of h = of_nat h"

definition upd_hart :: "system \<Rightarrow> nat \<Rightarrow> hart \<Rightarrow> system" where
  "upd_hart s h x = s\<lparr>harts := (harts s)(h := x)\<rparr>"

definition upd_mutex :: "system \<Rightarrow> nat \<Rightarrow> spin_mutex \<Rightarrow> system" where
  "upd_mutex s l m = s\<lparr>mutexes := (mutexes s)(l := m)\<rparr>"

inductive step :: "system \<Rightarrow> system \<Rightarrow> bool" where
  lock_enter: "\<lbrakk>h < NUM_CPUS; l < max_mutexes; x = harts s h; pc_of x = Run; \<not> holding (mutexes s l) (tp_of h)\<rbrakk> \<Longrightarrow>
    step s (upd_hart s h (x\<lparr>cpu_of := push (cpu_of x), pc_of := Spin l\<rparr>))"
| lock_assert: "\<lbrakk>h < NUM_CPUS; x = harts s h; pc_of x = Run; holding (mutexes s l) (tp_of h)\<rbrakk> \<Longrightarrow>
    step s (upd_hart s h (x\<lparr>cpu_of := push (cpu_of x), pc_of := Halted\<rparr>))"
| lock_spin: "\<lbrakk>h < NUM_CPUS; x = harts s h; pc_of x = Spin l; test_and_set (mutexes s l) = (m, True)\<rbrakk> \<Longrightarrow>
    step s (upd_mutex s l m)"
| lock_win: "\<lbrakk>h < NUM_CPUS; x = harts s h; pc_of x = Spin l; test_and_set (mutexes s l) = (m, False)\<rbrakk> \<Longrightarrow>
    step s (upd_hart (upd_mutex s l m) h (x\<lparr>pc_of := Taken l\<rparr>))"
| lock_done: "\<lbrakk>h < NUM_CPUS; x = harts s h; pc_of x = Taken l\<rbrakk> \<Longrightarrow>
    step s (upd_hart (upd_mutex s l ((mutexes s l)\<lparr>hartid := tp_of h\<rparr>)) h
      (x\<lparr>pc_of := Run, held := insert l (held x)\<rparr>))"
| unlock_enter: "\<lbrakk>h < NUM_CPUS; x = harts s h; pc_of x = Run; holding (mutexes s l) (tp_of h)\<rbrakk> \<Longrightarrow>
    step s (upd_hart (upd_mutex s l ((mutexes s l)\<lparr>hartid := - 1\<rparr>)) h
      (x\<lparr>pc_of := Cleared l, held := held x - {l}\<rparr>))"
| unlock_assert: "\<lbrakk>h < NUM_CPUS; x = harts s h; pc_of x = Run; \<not> holding (mutexes s l) (tp_of h)\<rbrakk> \<Longrightarrow>
    step s (upd_hart s h (x\<lparr>pc_of := Halted\<rparr>))"
| unlock_release: "\<lbrakk>h < NUM_CPUS; x = harts s h; pc_of x = Cleared l\<rbrakk> \<Longrightarrow>
    step s (upd_hart (upd_mutex s l ((mutexes s l)\<lparr>locked := False\<rparr>)) h (x\<lparr>pc_of := Released l\<rparr>))"
| unlock_pop: "\<lbrakk>h < NUM_CPUS; x = harts s h; pc_of x = Released l; pop (cpu_of x) = Inr c\<rbrakk> \<Longrightarrow>
    step s (upd_hart s h (x\<lparr>cpu_of := c, pc_of := Run\<rparr>))"
| unlock_pop_assert: "\<lbrakk>h < NUM_CPUS; x = harts s h; pc_of x = Released l; pop (cpu_of x) = Inl e\<rbrakk> \<Longrightarrow>
    step s (upd_hart s h (x\<lparr>pc_of := Halted\<rparr>))"

inductive_cases stepE: "step s s'"

text \<open>At start-up every mutex is free, no hart holds one, and interrupts may be on or off.\<close>

definition initial :: "system \<Rightarrow> bool" where
  "initial s \<longleftrightarrow> (\<forall>l. mutexes s l = new_SpinMutex) \<and>
     (\<forall>h. pc_of (harts s h) = Run \<and> held (harts s h) = {} \<and> numLocks (cpu_of (harts s h)) = 0)"

inductive reachable :: "system \<Rightarrow> bool" where
  start: "initial s \<Longrightarrow> reachable s"
| more: "reachable s \<Longrightarrow> step s s' \<Longrightarrow> reachable s'"

section \<open>Sleep mutex\<close>

record sleep_mutex =
  sm_locked :: bool
  sm_pid :: u64

definition sleep_lock :: "u64 \<Rightarrow> sleep_mutex \<Rightarrow> sleep_mutex outcome" where
  "sleep_lock pid m =
     (if sm_locked m then Inl Sleeping else Inr (m\<lparr>sm_locked := True, sm_pid := pid\<rparr>))"

definition sleep_unlock :: "sleep_mutex \<Rightarrow> sleep_mutex" where
  "sleep_unlock m = m\<lparr>sm_locked := False, sm_pid := 0\<rparr>"

definition sleep_holding :: "u64 \<Rightarrow> sleep_mutex \<Rightarrow> bool" where
  "sleep_holding pid m \<longleftrightarrow> sm_locked m \<and> sm_pid m = pid"

text \<open>
  The waiters: a thread runs, sleeps on the channel of a mutex, or owns it. \<open>unlock\<close> does not call
  \<open>wakeup\<close>, so it changes only its own thread and the mutex.
\<close>

datatype activity = Active | Waiting nat

record sleepers =
  activity_of :: "u64 \<Rightarrow> activity"
  sleep_mutexes :: "nat \<Rightarrow> sleep_mutex"

inductive sleep_step :: "sleepers \<Rightarrow> sleepers \<Rightarrow> bool" where
  acquire: "\<lbrakk>activity_of s pid = Active; sleep_lock pid (sleep_mutexes s l) = Inr m\<rbrakk> \<Longrightarrow>
    sleep_step s (s\<lparr>sleep_mutexes := (sleep_mutexes s)(l := m)\<rparr>)"
| wait: "\<lbrakk>activity_of s pid = Active; sleep_lock pid (sleep_mutexes s l) = Inl Sleeping\<rbrakk> \<Longrightarrow>
    sleep_step s (s\<lparr>activity_of := (activity_of s)(pid := Waiting l)\<rparr>)"
| release: "\<lbrakk>activity_of s pid = Active; sleep_holding pid (sleep_mutexes s l)\<rbrakk> \<Longrightarrow>
    sleep_step s (s\<lparr>sleep_mutexes := (sleep_mutexes s)(l := sleep_unlock (sleep_mutexes s l))\<rparr>)"

section \<open>Invariant of the spin mutexes\<close>

definition owns :: "system \<Rightarrow> nat \<Rightarrow> nat \<Rightarrow> bool" where
  "owns s h l \<longleftrightarrow> pc_of (harts s h) = Taken l \<or> pc_of (harts s h) = Cleared l \<or> l \<in> held (harts s h)"

fun pending :: "pc \<Rightarrow> nat" where
  "pending Run = 0"
| "pending Halted = 0"
| "pending (Spin l) = 1"
| "pending (Taken l) = 1"
| "pending (Cleared l) = 1"
| "pending (Released l) = 1"

text \<open>The processor of a running hart counts its locks, and has interrupts off while it has any.\<close>

definition cpu_ok :: "hart \<Rightarrow> bool" where
  "cpu_ok x \<longleftrightarrow> numLocks (cpu_of x) = of_nat (card (held x) + pending (pc_of x)) \<and>
     (card (held x) + pending (pc_of x) > 0 \<longrightarrow> sstatus (cpu_of x) AND SSTATUS_SIE = 0)"

definition hart_ok :: "hart \<Rightarrow> bool" where
  "hart_ok x \<longleftrightarrow> held x \<subseteq> {..<max_mutexes} \<and>
     (\<forall>l. pc_of x = Spin l \<or> pc_of x = Taken l \<longrightarrow> l < max_mutexes \<and> l \<notin> held x) \<and>
     (\<forall>l. pc_of x = Cleared l \<longrightarrow> l \<notin> held x) \<and> (pc_of x \<noteq> Halted \<longrightarrow> cpu_ok x)"

definition mutex_ok :: "system \<Rightarrow> nat \<Rightarrow> bool" where
  "mutex_ok s l \<longleftrightarrow> (locked (mutexes s l) \<longleftrightarrow> (\<exists>h. owns s h l)) \<and>
     (\<forall>h h'. owns s h l \<longrightarrow> owns s h' l \<longrightarrow> h = h') \<and>
     (\<forall>h < NUM_CPUS. hartid (mutexes s l) = tp_of h \<longleftrightarrow> l \<in> held (harts s h))"

definition system_ok :: "system \<Rightarrow> bool" where
  "system_ok s \<longleftrightarrow> (\<forall>h. hart_ok (harts s h)) \<and> (\<forall>l. mutex_ok s l) \<and> (\<forall>h l. owns s h l \<longrightarrow> h < NUM_CPUS)"

lemma tp_of_inj: "h < NUM_CPUS \<Longrightarrow> h' < NUM_CPUS \<Longrightarrow> tp_of h = tp_of h' \<longleftrightarrow> h = h'"
proof
  assume *: "h < NUM_CPUS" "h' < NUM_CPUS" "tp_of h = tp_of h'"
  then have "unat (of_nat h :: u64) = unat (of_nat h' :: u64)" by (simp add: tp_of_def)
  then show "h = h'" using *(1,2) by (simp add: NUM_CPUS_def unat_of_nat_small)
qed simp

lemma tp_of_not_minus_1: "h < NUM_CPUS \<Longrightarrow> tp_of h \<noteq> - 1"
proof
  assume *: "h < NUM_CPUS" "tp_of h = - 1"
  then have "unat (of_nat h :: u64) = unat (- 1 :: u64)" by (simp add: tp_of_def)
  then show False using *(1) by (simp add: NUM_CPUS_def unat_of_nat_small)
qed

lemma harts_upd [simp]:
  "harts (upd_hart s h x) = (harts s)(h := x)" "mutexes (upd_hart s h x) = mutexes s"
  "harts (upd_mutex s l m) = harts s" "mutexes (upd_mutex s l m) = (mutexes s)(l := m)"
  by (simp_all add: upd_hart_def upd_mutex_def)

lemma initial_ok: "initial s \<Longrightarrow> system_ok s"
  by (auto simp: initial_def system_ok_def hart_ok_def mutex_ok_def owns_def cpu_ok_def new_SpinMutex_def
      tp_of_not_minus_1 [symmetric])

lemma push_cpu_ok:
  assumes "cpu_ok x" "pc_of x = Run"
  shows "cpu_ok (x\<lparr>cpu_of := push (cpu_of x), pc_of := Spin l\<rparr>)"
proof -
  have "(a AND NOT b) AND b = 0" for a b :: u64 by (simp add: bit_eq_iff bit_simps)
  then show ?thesis using assms by (simp add: cpu_ok_def push_def Let_def)
qed

lemma held_count:
  assumes "hart_ok x"
  shows "finite (held x)" "card (held x) + 1 < 2 ^ 64"
proof -
  have sub: "held x \<subseteq> {..<max_mutexes}" using assms by (simp add: hart_ok_def)
  then show "finite (held x)" using finite_subset by blast
  have "card (held x) \<le> max_mutexes" using card_mono [OF _ sub] by simp
  then show "card (held x) + 1 < 2 ^ 64" by (simp add: max_mutexes_def)
qed

lemma pop_cpu_ok:
  assumes "hart_ok x" "pc_of x = Released l"
  shows "\<exists>c. pop (cpu_of x) = Inr c \<and> cpu_ok (x\<lparr>cpu_of := c, pc_of := Run\<rparr>)"
proof -
  have ok: "cpu_ok x" using assms by (simp add: hart_ok_def)
  have n: "numLocks (cpu_of x) = of_nat (card (held x) + 1)" "sstatus (cpu_of x) AND SSTATUS_SIE = 0"
    using ok assms(2) by (auto simp: cpu_ok_def)
  have "unat (numLocks (cpu_of x)) = card (held x) + 1"
    unfolding n(1) by (rule unat_of_nat_small [OF held_count(2) [OF assms(1)]])
  then have pos: "numLocks (cpu_of x) > 0" by (simp add: word_less_nat_alt)
  have m: "numLocks (cpu_of x) - 1 = of_nat (card (held x))" using n(1) by simp
  have z: "(of_nat (card (held x)) :: u64) = 0 \<longleftrightarrow> card (held x) = 0"
  proof
    assume "(of_nat (card (held x)) :: u64) = 0"
    then have "unat (of_nat (card (held x)) :: u64) = 0" by simp
    then show "card (held x) = 0" using held_count(2) [OF assms(1)] by (simp add: unat_of_nat_small)
  qed simp
  show ?thesis
    using n(2) pos m z by (auto simp: pop_def cpu_ok_def Let_def)
qed

text \<open>A step that changes only one hart and not what it owns.\<close>

lemma system_ok_hart:
  assumes "system_ok s" "hart_ok x" "held x = held (harts s h)"
    "\<And>l. pc_of x \<noteq> Taken l" "\<And>l. pc_of x \<noteq> Cleared l"
    "\<And>l. pc_of (harts s h) \<noteq> Taken l" "\<And>l. pc_of (harts s h) \<noteq> Cleared l"
  shows "system_ok (upd_hart s h x)"
proof -
  have own: "owns (upd_hart s h x) h' l = owns s h' l" for h' l using assms(3-7) by (auto simp: owns_def)
  have held: "held (((harts s)(h := x)) h') = held (harts s h')" for h' using assms(3) by simp
  show ?thesis
    using assms(1-3) by (auto simp: system_ok_def mutex_ok_def own held split: if_splits)
qed

text \<open>A step that changes one hart and one mutex: the other mutexes are as before.\<close>

lemma system_ok_both:
  assumes ok: "system_ok s" and x: "hart_ok x" and h: "h < NUM_CPUS"
    and others: "\<And>l'. l' \<noteq> l \<Longrightarrow> owns (upd_hart s h x) h l' = owns s h l'"
      "\<And>l'. l' \<noteq> l \<Longrightarrow> l' \<in> held x \<longleftrightarrow> l' \<in> held (harts s h)"
    and this_mutex: "mutex_ok (upd_hart (upd_mutex s l m) h x) l"
  shows "system_ok (upd_hart (upd_mutex s l m) h x)"
proof -
  let ?s = "upd_hart (upd_mutex s l m) h x"
  have own: "owns ?s h' l' = owns s h' l'" if "l' \<noteq> l" for h' l'
    using others(1) [OF that] by (cases "h' = h") (auto simp: owns_def)
  have "mutex_ok ?s l'" for l'
  proof (cases "l' = l")
    case False
    then have held: "l' \<in> held (((harts s)(h := x)) h') \<longleftrightarrow> l' \<in> held (harts s h')" for h'
      using others(2) by simp
    have "mutex_ok s l'" using ok by (simp add: system_ok_def)
    then show ?thesis using False by (simp add: mutex_ok_def own held fun_upd_other del: fun_upd_apply)
  qed (use this_mutex in simp)
  moreover have "h' < NUM_CPUS" if "owns ?s h' l'" for h' l'
    using that h ok by (cases "h' = h") (auto simp: system_ok_def owns_def)
  ultimately show ?thesis using ok x by (auto simp: system_ok_def)
qed

lemma mutex_okD: "system_ok s \<Longrightarrow> mutex_ok s l" "system_ok s \<Longrightarrow> hart_ok (harts s h)"
  by (simp_all add: system_ok_def)

lemma only_owner: "system_ok s \<Longrightarrow> owns s h l \<Longrightarrow> owns s h' l \<longleftrightarrow> h' = h"
  using mutex_okD(1) [of s l] by (auto simp: mutex_ok_def)

text \<open>The four steps that write a mutex.\<close>

lemma lock_win_ok:
  assumes ok: "system_ok s" and a: "h < NUM_CPUS" "x = harts s h" "pc_of x = Spin l" "test_and_set (mutexes s l) = (m, False)"
  shows "system_ok (upd_hart (upd_mutex s l m) h (x\<lparr>pc_of := Taken l\<rparr>))"
proof -
  note mutex = mutex_okD(1) [OF ok] and hart = mutex_okD(2) [OF ok]
  have m: "m = (mutexes s l)\<lparr>locked := True\<rparr>" "\<not> locked (mutexes s l)" using a(4) by (auto simp: test_and_set_def)
  have none: "\<not> owns s h' l" for h' using mutex [of l] m(2) by (auto simp: mutex_ok_def)
  have x: "hart_ok (x\<lparr>pc_of := Taken l\<rparr>)" using hart [of h] a by (auto simp: hart_ok_def cpu_ok_def)
  show ?thesis
  proof (rule system_ok_both [OF ok x a(1)])
    show "mutex_ok (upd_hart (upd_mutex s l m) h (x\<lparr>pc_of := Taken l\<rparr>)) l"
      using mutex [of l] none m(1) a(2) by (auto simp: mutex_ok_def owns_def)
  qed (use a in \<open>auto simp: owns_def\<close>)
qed

lemma lock_done_ok:
  assumes ok: "system_ok s" and a: "h < NUM_CPUS" "x = harts s h" "pc_of x = Taken l"
  shows "system_ok (upd_hart (upd_mutex s l ((mutexes s l)\<lparr>hartid := tp_of h\<rparr>)) h (x\<lparr>pc_of := Run, held := insert l (held x)\<rparr>))"
proof -
  note mutex = mutex_okD(1) [OF ok] and hart = mutex_okD(2) [OF ok]
  have own: "owns s h l" using a by (simp add: owns_def)
  have lk: "locked (mutexes s l)" using own mutex [of l] by (auto simp: mutex_ok_def)
  have "l < max_mutexes" "l \<notin> held x" "finite (held x)" using hart [of h] a held_count(1) by (auto simp: hart_ok_def)
  then have x: "hart_ok (x\<lparr>pc_of := Run, held := insert l (held x)\<rparr>)" using hart [of h] a by (auto simp: hart_ok_def cpu_ok_def)
  show ?thesis
  proof (rule system_ok_both [OF ok x a(1)])
    show "mutex_ok (upd_hart (upd_mutex s l ((mutexes s l)\<lparr>hartid := tp_of h\<rparr>)) h (x\<lparr>pc_of := Run, held := insert l (held x)\<rparr>)) l"
      using only_owner [OF ok own] lk a(1) tp_of_inj by (auto simp: mutex_ok_def owns_def)
  qed (use a in \<open>auto simp: owns_def\<close>)
qed

lemma unlock_enter_ok:
  assumes ok: "system_ok s" and a: "h < NUM_CPUS" "x = harts s h" "pc_of x = Run" "holding (mutexes s l) (tp_of h)"
  shows "system_ok (upd_hart (upd_mutex s l ((mutexes s l)\<lparr>hartid := - 1\<rparr>)) h (x\<lparr>pc_of := Cleared l, held := held x - {l}\<rparr>))"
proof -
  note mutex = mutex_okD(1) [OF ok] and hart = mutex_okD(2) [OF ok]
  have in_held: "l \<in> held x" using a mutex [of l] by (auto simp: mutex_ok_def holding_def)
  then have only: "owns s h' l \<longleftrightarrow> h' = h" for h' using mutex [of l] a(2) by (auto simp: mutex_ok_def owns_def)
  have "finite (held x)" using held_count(1) hart a(2) by blast
  then have "Suc (card (held x - {l})) = card (held x)" using in_held by (rule card_Suc_Diff1)
  then have x: "hart_ok (x\<lparr>pc_of := Cleared l, held := held x - {l}\<rparr>)"
    using hart [of h] a in_held by (auto simp: hart_ok_def cpu_ok_def card_gt_0_iff)
  show ?thesis
  proof (rule system_ok_both [OF ok x a(1)])
    show "mutex_ok (upd_hart (upd_mutex s l ((mutexes s l)\<lparr>hartid := - 1\<rparr>)) h (x\<lparr>pc_of := Cleared l, held := held x - {l}\<rparr>)) l"
      using only mutex [of l] a tp_of_not_minus_1 by (auto simp: mutex_ok_def owns_def holding_def) metis+
  qed (use a in \<open>auto simp: owns_def\<close>)
qed

lemma unlock_release_ok:
  assumes ok: "system_ok s" and a: "h < NUM_CPUS" "x = harts s h" "pc_of x = Cleared l"
  shows "system_ok (upd_hart (upd_mutex s l ((mutexes s l)\<lparr>locked := False\<rparr>)) h (x\<lparr>pc_of := Released l\<rparr>))"
proof -
  note mutex = mutex_okD(1) [OF ok] and hart = mutex_okD(2) [OF ok]
  have own: "owns s h l" using a by (simp add: owns_def)
  have l: "l \<notin> held x" using hart [of h] a by (auto simp: hart_ok_def)
  have x: "hart_ok (x\<lparr>pc_of := Released l\<rparr>)" using hart [of h] a by (auto simp: hart_ok_def cpu_ok_def)
  show ?thesis
  proof (rule system_ok_both [OF ok x a(1)])
    show "mutex_ok (upd_hart (upd_mutex s l ((mutexes s l)\<lparr>locked := False\<rparr>)) h (x\<lparr>pc_of := Released l\<rparr>)) l"
      using only_owner [OF ok own] mutex [of l] a l by (auto simp: mutex_ok_def owns_def)
  qed (use a in \<open>auto simp: owns_def\<close>)
qed

lemma step_ok:
  assumes "step s s'" "system_ok s"
  shows "system_ok s'"
  using assms(1)
proof cases
  note ok = assms(2)
  note mutex = mutex_okD(1) [OF ok] and hart = mutex_okD(2) [OF ok]
  {
    case (lock_enter h l x)
    have "l \<notin> held x"
    proof
      assume l: "l \<in> held x"
      then have "owns s h l" using lock_enter by (simp add: owns_def)
      then show False using lock_enter mutex [of l] l by (auto simp: mutex_ok_def holding_def)
    qed
    then have "hart_ok (x\<lparr>cpu_of := push (cpu_of x), pc_of := Spin l\<rparr>)"
      using hart [of h] lock_enter push_cpu_ok [of x l] by (auto simp: hart_ok_def)
    then show ?thesis unfolding lock_enter using lock_enter(4,5) by (intro system_ok_hart [OF ok]) auto
  next
    case (lock_spin h x l m)
    then have "m = mutexes s l" by (auto simp: test_and_set_def)
    then have "upd_mutex s l m = s" by (simp add: upd_mutex_def)
    then show ?thesis using lock_spin ok by simp
  next
    case (unlock_pop h x l c)
    have "hart_ok (x\<lparr>cpu_of := c, pc_of := Run\<rparr>)"
      using hart [of h] unlock_pop pop_cpu_ok [of x l] by (auto simp: hart_ok_def)
    then show ?thesis unfolding unlock_pop using unlock_pop(3,4) by (intro system_ok_hart [OF ok]) auto
  }
qed (use mutex_okD(2) [OF assms(2)] in \<open>auto intro!: system_ok_hart [OF assms(2)] lock_win_ok [OF assms(2)] lock_done_ok [OF assms(2)]
  unlock_enter_ok [OF assms(2)] unlock_release_ok [OF assms(2)] simp: hart_ok_def\<close>)

lemma reachable_ok: "reachable s \<Longrightarrow> system_ok s"
  by (induction rule: reachable.induct) (auto intro: initial_ok step_ok)

section \<open>Nesting of interrupt state\<close>

lemma push_again:
  assumes "numLocks c \<noteq> 0" "sstatus c AND SSTATUS_SIE = 0"
  shows "push c = c\<lparr>numLocks := numLocks c + 1\<rparr>"
proof -
  have "sstatus c AND NOT SSTATUS_SIE = sstatus c"
    using assms(2) by (simp add: bit_eq_iff bit_simps) blast
  then show ?thesis using assms(1) by (simp add: push_def Let_def)
qed

text \<open>\<open>n\<close> nested critical sections entered and left.\<close>

fun nest :: "nat \<Rightarrow> cpu \<Rightarrow> cpu outcome" where
  "nest 0 c = Inr c"
| "nest (Suc n) c = andThen (nest n (push c)) pop"

lemma nest_inner:
  assumes "numLocks c \<noteq> 0" "sstatus c AND SSTATUS_SIE = 0" "unat (numLocks c) + n < 2 ^ 64"
  shows "nest n c = Inr c"
  using assms
proof (induction n arbitrary: c)
  case (Suc n)
  let ?c = "c\<lparr>numLocks := numLocks c + 1\<rparr>"
  have u: "unat (numLocks c + 1) = unat (numLocks c) + 1"
    using Suc.prems(3) by (simp add: unat_plus_if')
  then have "numLocks c + 1 \<noteq> 0" by (metis add_is_0 one_neq_zero unat_0)
  then have "nest n ?c = Inr ?c" using Suc.IH [of ?c] Suc.prems(2,3) u by simp
  moreover have "pop ?c = Inr c"
    using Suc.prems(1,2) \<open>numLocks c + 1 \<noteq> 0\<close> by (simp add: pop_def word_gt_0)
  ultimately show ?case using push_again [OF Suc.prems(1,2)] by simp
qed simp

section \<open>Properties\<close>

text \<open>
  C3: mutual exclusion. In every reachable state of any number of lock and unlock calls interleaved
  on the harts, a spin mutex is held by at most one hart; it is marked locked exactly while some
  hart has won the test-and-set and not yet released it, and \<open>holding\<close> is true exactly on the hart
  that holds it.
\<close>

theorem spin_mutual_exclusion:
  assumes "reachable s" "l \<in> held (harts s h)"
  shows "(l \<in> held (harts s h') \<longrightarrow> h' = h) \<and> pc_of (harts s h') \<noteq> Taken l \<and> locked (mutexes s l) \<and>
    (\<forall>k < NUM_CPUS. holding (mutexes s l) (tp_of k) \<longleftrightarrow> k = h)"
proof -
  have ok: "system_ok s" using assms(1) by (rule reachable_ok)
  then have m: "mutex_ok s l" and hart: "\<And>h. hart_ok (harts s h)" by (simp_all add: system_ok_def)
  have own: "owns s h l" using assms(2) by (simp add: owns_def)
  then have only: "owns s k l \<longleftrightarrow> k = h" for k using m by (auto simp: mutex_ok_def)
  have lk: "locked (mutexes s l)" using own m by (auto simp: mutex_ok_def)
  have "pc_of (harts s h') \<noteq> Taken l"
  proof
    assume t: "pc_of (harts s h') = Taken l"
    then have "h' = h" using only [of h'] by (simp add: owns_def)
    then show False using t assms(2) hart [of h] by (auto simp: hart_ok_def)
  qed
  moreover have "holding (mutexes s l) (tp_of k) \<longleftrightarrow> k = h" if "k < NUM_CPUS" for k
    using that m lk only [of k] assms(2) by (auto simp: holding_def mutex_ok_def owns_def)
  ultimately show ?thesis using only [of h'] lk by (auto simp: owns_def)
qed

definition example_hart :: hart where
  "example_hart = \<lparr>cpu_of = \<lparr>sstatus = 2, numLocks = 0, interruptEnabled = False\<rparr>, pc_of = Run, held = {}\<rparr>"

definition example_locked :: system where
  "example_locked =
     \<lparr>harts = (\<lambda>_. example_hart)(0 := \<lparr>cpu_of = \<lparr>sstatus = 0, numLocks = 1, interruptEnabled = True\<rparr>, pc_of = Run, held = {5}\<rparr>),
      mutexes = (\<lambda>_. new_SpinMutex)(5 := \<lparr>locked = True, hartid = 0\<rparr>)\<rparr>"

lemma example_locked_reachable: "reachable example_locked"
proof -
  define s0 where "s0 = \<lparr>harts = (\<lambda>_. example_hart), mutexes = (\<lambda>_. new_SpinMutex)\<rparr>"
  let ?c = "\<lparr>sstatus = 0, numLocks = 1, interruptEnabled = True\<rparr>"
  define s1 where "s1 = upd_hart s0 0 \<lparr>cpu_of = ?c, pc_of = Spin 5, held = {}\<rparr>"
  define s2 where "s2 = upd_hart (upd_mutex s1 5 \<lparr>locked = True, hartid = - 1\<rparr>) 0 \<lparr>cpu_of = ?c, pc_of = Taken 5, held = {}\<rparr>"
  have p: "push (cpu_of example_hart) = ?c" by (simp add: push_def example_hart_def SSTATUS_SIE_def)
  have "step s0 s1"
    using step.lock_enter [of 0 5 example_hart s0] p
    by (simp add: s0_def s1_def NUM_CPUS_def max_mutexes_def holding_def new_SpinMutex_def example_hart_def)
  moreover have "step s1 s2"
    using step.lock_win [of 0 "harts s1 0" s1 5 "\<lparr>locked = True, hartid = - 1\<rparr>"]
    by (simp add: s0_def s1_def s2_def NUM_CPUS_def test_and_set_def new_SpinMutex_def)
  moreover have "step s2 example_locked"
    using step.lock_done [of 0 "harts s2 0" s2 5]
    by (simp add: s0_def s1_def s2_def NUM_CPUS_def tp_of_def example_locked_def upd_hart_def upd_mutex_def)
  moreover have "initial s0" by (simp add: s0_def initial_def example_hart_def)
  ultimately show ?thesis by (meson reachable.intros)
qed

theorem spin_mutual_exclusion_witness:
  "5 \<in> held (harts example_locked 0) \<and> 5 \<notin> held (harts example_locked 1) \<and> holding (mutexes example_locked 5) (tp_of 0)"
  using spin_mutual_exclusion [OF example_locked_reachable, of 5 0 1] by (auto simp: example_locked_def NUM_CPUS_def)



text \<open>
  C23: nested critical sections restore the interrupt flag. From a processor that holds no lock,
  \<open>n\<close> calls of \<open>push\<close> and \<open>n\<close> of \<open>pop\<close> succeed and leave \<open>sstatus\<close> and the lock count as they were.
\<close>

theorem nested_locks_restore_interrupts:
  assumes "numLocks c = 0" "n < 2 ^ 64"
  shows "\<exists>c'. nest n c = Inr c' \<and> sstatus c' = sstatus c \<and> numLocks c' = 0"
proof (cases n)
  case 0
  then show ?thesis using assms by simp
next
  case (Suc k)
  have z: "(a AND NOT b) AND b = 0" for a b :: u64 by (simp add: bit_eq_iff bit_simps)
  have r: "(a AND NOT b) OR b = a" if "a AND b \<noteq> 0" "b = push_bit 1 1" for a b :: u64
  proof -
    have b: "bit b n \<longleftrightarrow> n = 1" for n using that(2) by (auto simp: bit_simps)
    have "bit a 1"
    proof (rule ccontr)
      assume "\<not> bit a 1"
      then have "a AND b = 0" using b by (intro bit_word_eqI) (auto simp: bit_and_iff)
      then show False using that(1) by simp
    qed
    then show ?thesis using b by (intro bit_word_eqI) (auto simp: bit_and_iff bit_or_iff bit_not_iff)
  qed
  have k: "a AND NOT b = a" if "a AND b = 0" for a b :: u64
    using that by (simp add: bit_eq_iff bit_simps) blast
  let ?c = "push c"
  have "nest k ?c = Inr ?c"
    using assms Suc z by (intro nest_inner) (simp_all add: push_def Let_def)
  moreover have "pop ?c = Inr (c\<lparr>interruptEnabled := sstatus c AND SSTATUS_SIE \<noteq> 0\<rparr>)"
    using assms(1) z r [OF _ SSTATUS_SIE_def, of "sstatus c"] k [of "sstatus c" SSTATUS_SIE]
    by (cases c) (auto simp: push_def pop_def Let_def)
  ultimately show ?thesis using Suc assms(1) by simp
qed

theorem nested_locks_restore_interrupts_witness:
  "\<exists>c'. nest 3 (cpu_of example_hart) = Inr c' \<and> sstatus c' = 2"
  using nested_locks_restore_interrupts [of "cpu_of example_hart" 3] by (auto simp: example_hart_def)



end
