(* ===== verification/Proc_Scheduler.thy ===== *)
theory Proc_Scheduler
  imports Lib_Queue Lib_HashMap Mutex
begin

unbundle bit_operations_syntax

text \<open>
  The scheduler: \<open>kernel/process/scheduler.cpp\<close>, \<open>sleep.cpp\<close>, \<open>cpu.cpp\<close> and the data of
  \<open>process.h\<close>, \<open>context.h\<close>, \<open>trap_frame.h\<close>. A \<open>Process*\<close> is a number that selects a process (\<open>None\<close> is
  \<open>nullptr\<close>). The state is what one hart works on: its own \<open>Cpu\<close>, the processes, the ready queue in the
  store of its nodes, and the table of the sleeping processes. A lock that another hart owns makes
  the thread spin, which is the outcome \<open>Sleeping\<close> of \<open>spin_lock\<close>. \<open>switchContext\<close> saves and loads registers in
  assembly; a routine that calls it is split there into the part before and the part after.
\<close>

section \<open>Data\<close>

record cpu_context =
  ctx_ra :: u64
  ctx_sp :: u64
  ctx_s0 :: u64
  ctx_s1 :: u64
  ctx_s2 :: u64
  ctx_s3 :: u64
  ctx_s4 :: u64
  ctx_s5 :: u64
  ctx_s6 :: u64
  ctx_s7 :: u64
  ctx_s8 :: u64
  ctx_s9 :: u64
  ctx_s10 :: u64
  ctx_s11 :: u64

record trap_frame =
  kernel_satp :: u64
  kernel_sp :: u64
  kernel_trap :: u64
  epc :: u64
  kernel_hartid :: u64
  tf_ra :: u64
  tf_sp :: u64
  tf_gp :: u64
  tf_tp :: u64
  tf_t0 :: u64
  tf_t1 :: u64
  tf_t2 :: u64
  tf_s0 :: u64
  tf_s1 :: u64
  tf_a0 :: u64
  tf_a1 :: u64
  tf_a2 :: u64
  tf_a3 :: u64
  tf_a4 :: u64
  tf_a5 :: u64
  tf_a6 :: u64
  tf_a7 :: u64
  tf_s2 :: u64
  tf_s3 :: u64
  tf_s4 :: u64
  tf_s5 :: u64
  tf_s6 :: u64
  tf_s7 :: u64
  tf_s8 :: u64
  tf_s9 :: u64
  tf_s10 :: u64
  tf_s11 :: u64
  tf_t3 :: u64
  tf_t4 :: u64
  tf_t5 :: u64
  tf_t6 :: u64

definition new_TrapFrame :: trap_frame where
  "new_TrapFrame =
     \<lparr>kernel_satp = 0, kernel_sp = 0, kernel_trap = 0, epc = 0, kernel_hartid = 0, tf_ra = 0, tf_sp = 0, tf_gp
      = 0, tf_tp = 0, tf_t0 = 0, tf_t1 = 0, tf_t2 = 0, tf_s0 = 0, tf_s1 = 0, tf_a0 = 0, tf_a1 = 0, tf_a2 = 0,
      tf_a3 = 0, tf_a4 = 0, tf_a5 = 0, tf_a6 = 0, tf_a7 = 0, tf_s2 = 0, tf_s3 = 0, tf_s4 = 0, tf_s5 = 0, tf_s6
      = 0, tf_s7 = 0, tf_s8 = 0, tf_s9 = 0, tf_s10 = 0, tf_s11 = 0, tf_t3 = 0, tf_t4 = 0, tf_t5 = 0, tf_t6 = 0\<rparr>"

definition zero_context :: cpu_context where
  "zero_context =
     \<lparr>ctx_ra = 0, ctx_sp = 0, ctx_s0 = 0, ctx_s1 = 0, ctx_s2 = 0, ctx_s3 = 0, ctx_s4 = 0, ctx_s5 = 0, ctx_s6 = 0,
      ctx_s7 = 0, ctx_s8 = 0, ctx_s9 = 0, ctx_s10 = 0, ctx_s11 = 0\<rparr>"

datatype process_state = Used | Asleep | Ready | Running | Zombie

text \<open>\<open>trapFrame\<close> is the address of the page that holds the trap frame, \<open>frame\<close> its contents.\<close>

record process =
  p_pid :: u64
  p_parent :: "nat option"
  children :: "nat list"
  p_state :: process_state
  p_mutex :: spin_mutex
  p_context :: cpu_context
  trapFrame :: u64
  frame :: trap_frame
  pageTable :: u64
  kernelStackPage :: u64
  kernelStack :: u64
  memorySize :: u64
  chan :: u64
  p_cwd :: "nat option"
  openFiles :: "nat option list"
  p_name :: "u8 list"
  killed :: bool
  exitStatus :: u32

record sched_state =
  process_of :: "nat \<Rightarrow> process"
  queue_nodes :: "nat store"
  readyQueue :: queue
  sleepTable :: "(u64, nat list) hash_map"
  sched_mutex :: spin_mutex
  this_cpu :: cpu
  tp :: u64
  cpu_process :: "nat option"

type_synonym 'a sstate = "'a sched_state_scheme"

section \<open>Model\<close>

definition upd_process :: "'a sstate \<Rightarrow> nat \<Rightarrow> (process \<Rightarrow> process) \<Rightarrow> 'a sstate" where
  "upd_process s p f = s\<lparr>process_of := (process_of s)(p := f (process_of s p))\<rparr>"

definition lock_sched :: "'a sstate \<Rightarrow> 'a sstate outcome" where
  "lock_sched s =
     andThen (spin_lock (this_cpu s) (tp s) (sched_mutex s)) (\<lambda>(c, m). Inr (s\<lparr>this_cpu := c, sched_mutex := m\<rparr>))"

definition unlock_sched :: "'a sstate \<Rightarrow> 'a sstate outcome" where
  "unlock_sched s =
     andThen (spin_unlock (this_cpu s) (tp s) (sched_mutex s)) (\<lambda>(c, m). Inr (s\<lparr>this_cpu := c, sched_mutex := m\<rparr>))"

definition lock_process :: "'a sstate \<Rightarrow> nat \<Rightarrow> 'a sstate outcome" where
  "lock_process s p =
     andThen (spin_lock (this_cpu s) (tp s) (p_mutex (process_of s p))) (\<lambda>(c, m).
       Inr (upd_process (s\<lparr>this_cpu := c\<rparr>) p (\<lambda>x. x\<lparr>p_mutex := m\<rparr>)))"

definition unlock_process :: "'a sstate \<Rightarrow> nat \<Rightarrow> 'a sstate outcome" where
  "unlock_process s p =
     andThen (spin_unlock (this_cpu s) (tp s) (p_mutex (process_of s p))) (\<lambda>(c, m).
       Inr (upd_process (s\<lparr>this_cpu := c\<rparr>) p (\<lambda>x. x\<lparr>p_mutex := m\<rparr>)))"

text \<open>\<open>delete process\<close>: the destructor clears two pointers; \<open>operator delete\<close> is empty.\<close>

definition destroy_Process :: "process \<Rightarrow> process" where
  "destroy_Process x =
     (let x1 = (if trapFrame x \<noteq> 0 then x\<lparr>trapFrame := 0\<rparr> else x)
      in if kernelStackPage x1 \<noteq> 0 then x1\<lparr>kernelStackPage := 0\<rparr> else x1)"

definition killZombie :: "'a sstate \<Rightarrow> nat \<Rightarrow> 'a sstate outcome" where
  "killZombie s p =
     andThen (assert_that (p_state (process_of s p) = Zombie)) (\<lambda>_. Inr (upd_process s p destroy_Process))"

definition enqueue :: "'a sstate \<Rightarrow> nat \<Rightarrow> 'a sstate outcome" where
  "enqueue s p =
     (case p_state (process_of s p) of
        Ready \<Rightarrow> andThen (push_back (queue_nodes s) (readyQueue s) p) (\<lambda>(h, q).
          Inr (s\<lparr>queue_nodes := h, readyQueue := q\<rparr>))
      | Asleep \<Rightarrow>
          let ch = chan (process_of s p) in
          andThen (subscript (sleepTable s) ch []) (\<lambda>(t, ps).
          andThen (assign t ch [] (ps @ [p])) (\<lambda>t'. Inr (s\<lparr>sleepTable := t'\<rparr>)))
      | Used \<Rightarrow> Inr s
      | Running \<Rightarrow> Inr s
      | Zombie \<Rightarrow> Inr s)"

definition registerProcess :: "'a sstate \<Rightarrow> nat option \<Rightarrow> 'a sstate outcome" where
  "registerProcess s proc =
     (case proc of
        None \<Rightarrow> Inl AssertionFailed
      | Some p \<Rightarrow> andThen (lock_sched s) (\<lambda>s1. andThen (enqueue s1 p) unlock_sched))"

text \<open>The loop of \<open>unregisterProcess\<close> moves the nodes of the ready queue to \<open>que\<close>.\<close>

partial_function (option) drain_loop :: "nat \<Rightarrow> nat store \<Rightarrow> queue \<Rightarrow> queue \<Rightarrow> ((nat store \<times> queue) outcome) option" where
  "drain_loop p h q que =
     (if q_empty q then Some (Inr (h, que))
      else case andThen (q_front h q) (\<lambda>proc. andThen (pop_front h q) (\<lambda>(h1, q1).
                  if proc \<noteq> p then andThen (push_back h1 que proc) (\<lambda>(h2, que2). Inr (h2, q1, que2))
                  else Inr (h1, q1, que))) of
             Inl e \<Rightarrow> Some (Inl e)
           | Inr (h', q', que') \<Rightarrow> drain_loop p h' q' que')"

text \<open>\<open>readyQueue = que\<close> copies the two pointers; the destructor of \<open>que\<close> then walks its nodes.\<close>

definition unregister_locked :: "'a sstate \<Rightarrow> nat \<Rightarrow> ('a sstate outcome) option" where
  "unregister_locked s p =
     Option.bind (drain_loop p (queue_nodes s) (readyQueue s) new_QueueContainer) (\<lambda>r.
       case r of
         Inl e \<Rightarrow> Some (Inl e)
       | Inr (h, que) \<Rightarrow>
           map_option (\<lambda>d. andThen d (\<lambda>(h', _). Inr (s\<lparr>queue_nodes := h', readyQueue := que\<rparr>)))
             (destroy_QueueContainer h que))"

definition unregisterProcess :: "'a sstate \<Rightarrow> nat option \<Rightarrow> ('a sstate outcome) option" where
  "unregisterProcess s proc =
     (case proc of
        None \<Rightarrow> Some (Inl AssertionFailed)
      | Some p \<Rightarrow>
          (case lock_sched s of
             Inl e \<Rightarrow> Some (Inl e)
           | Inr s1 \<Rightarrow> map_option (\<lambda>r. andThen r unlock_sched) (unregister_locked s1 p)))"

text \<open>\<open>reschedule\<close> up to the switch (with the saved flag), and after it.\<close>

definition reschedule_enter :: "'a sstate \<Rightarrow> (bool \<times> 'a sstate) outcome" where
  "reschedule_enter s =
     (case cpu_process s of
        None \<Rightarrow> Inl Undefined
      | Some p \<Rightarrow>
          andThen (assert_that (holding (p_mutex (process_of s p)) (tp s))) (\<lambda>_.
          andThen (assert_that (numLocks (this_cpu s) = 1)) (\<lambda>_.
          andThen (assert_that (p_state (process_of s p) \<noteq> Running)) (\<lambda>_.
          andThen (assert_that (sstatus (this_cpu s) AND SSTATUS_SIE = 0)) (\<lambda>_.
          andThen (registerProcess s (Some p)) (\<lambda>s1. Inr (interruptEnabled (this_cpu s), s1)))))))"

definition reschedule_leave :: "'a sstate \<Rightarrow> bool \<Rightarrow> 'a sstate" where
  "reschedule_leave s flag = s\<lparr>this_cpu := (this_cpu s)\<lparr>interruptEnabled := flag\<rparr>\<rparr>"

text \<open>\<open>wakeup\<close>; the loop runs over the vector of the channel.\<close>

fun wakeup_loop :: "'a sstate \<Rightarrow> nat list \<Rightarrow> 'a sstate outcome" where
  "wakeup_loop s [] = Inr s"
| "wakeup_loop s (p # ps) =
     andThen (lock_process s p) (\<lambda>s1.
     andThen (unlock_sched (upd_process s1 p (\<lambda>x. x\<lparr>p_state := Ready\<rparr>))) (\<lambda>s2.
     andThen (registerProcess s2 (Some p)) (\<lambda>s3.
     andThen (lock_sched s3) (\<lambda>s4.
     andThen (unlock_process s4 p) (\<lambda>s5. wakeup_loop s5 ps)))))"

definition wakeup :: "'a sstate \<Rightarrow> u64 \<Rightarrow> 'a sstate outcome" where
  "wakeup s ch =
     andThen (lock_sched s) (\<lambda>s1.
     andThen (subscript (sleepTable s1) ch []) (\<lambda>(t, ps).
     andThen (wakeup_loop (s1\<lparr>sleepTable := t\<rparr>) ps) (\<lambda>s2.
     andThen (erase (sleepTable s2) ch) (\<lambda>t'. unlock_sched (s2\<lparr>sleepTable := t'\<rparr>)))))"

text \<open>
  A turn of the inner loop of \<open>run\<close> up to the switch to the process it picks, and after the process
  has switched back. Without a process to run the loop breaks and \<open>run_enable\<close> turns interrupts on.
\<close>

definition run_enable :: "'a sstate \<Rightarrow> 'a sstate" where
  "run_enable s = s\<lparr>this_cpu := (this_cpu s)\<lparr>sstatus := sstatus (this_cpu s) OR SSTATUS_SIE\<rparr>\<rparr>"

definition take_front :: "'a sstate \<Rightarrow> (nat option \<times> 'a sstate) outcome" where
  "take_front s =
     (if q_empty (readyQueue s) then Inr (None, s)
      else andThen (q_front (queue_nodes s) (readyQueue s)) (\<lambda>p.
           andThen (pop_front (queue_nodes s) (readyQueue s)) (\<lambda>(h, q).
             Inr (Some p, s\<lparr>queue_nodes := h, readyQueue := q\<rparr>))))"

definition run_pick :: "'a sstate \<Rightarrow> (nat option \<times> 'a sstate) outcome" where
  "run_pick s =
     andThen (lock_sched s) (\<lambda>s1.
     andThen (take_front s1) (\<lambda>(r, s2).
     andThen (unlock_sched s2) (\<lambda>s3.
       case r of
         None \<Rightarrow> Inr (None, s3)
       | Some p \<Rightarrow>
           if p_state (process_of s3 p) \<noteq> Ready then
             andThen (if p_state (process_of s3 p) = Zombie then killZombie s3 p else registerProcess s3 (Some p))
               (\<lambda>s4. Inr (None, s4))
           else
             andThen (lock_process s3 p) (\<lambda>s4.
               Inr (Some p, upd_process s4 p (\<lambda>x. x\<lparr>p_state := Running\<rparr>)\<lparr>cpu_process := Some p\<rparr>)))))"

definition run_return :: "'a sstate \<Rightarrow> nat \<Rightarrow> 'a sstate outcome" where
  "run_return s p =
     andThen (unlock_process (s\<lparr>cpu_process := None\<rparr>) p) (\<lambda>s1. registerProcess s1 (Some p))"

text \<open>\<open>yield\<close> and \<open>sleep\<close>; \<open>m\<close> is the mutex given to \<open>sleep\<close>.\<close>

definition yield_enter :: "'a sstate \<Rightarrow> ((bool \<times> 'a sstate) outcome) option" where
  "yield_enter s =
     (case cpu_process s of
        None \<Rightarrow> Some (Inr (False, s))
      | Some p \<Rightarrow>
          (case lock_process s p of
             Inl e \<Rightarrow> Some (Inl e)
           | Inr s1 \<Rightarrow>
               map_option (\<lambda>r. andThen r (\<lambda>s2. reschedule_enter (upd_process s2 p (\<lambda>x. x\<lparr>p_state := Ready\<rparr>))))
                 (unregisterProcess s1 (Some p))))"

definition yield_leave :: "'a sstate \<Rightarrow> nat \<Rightarrow> bool \<Rightarrow> 'a sstate outcome" where
  "yield_leave s p flag = unlock_process (reschedule_leave s flag) p"

definition sleep_enter :: "'a sstate \<Rightarrow> u64 \<Rightarrow> spin_mutex \<Rightarrow> (bool \<times> spin_mutex \<times> 'a sstate) outcome" where
  "sleep_enter s ch m =
     (case cpu_process s of
        None \<Rightarrow> Inl Undefined
      | Some p \<Rightarrow>
          andThen (lock_process s p) (\<lambda>s1.
          andThen (spin_unlock (this_cpu s1) (tp s1) m) (\<lambda>(c, m').
          andThen (reschedule_enter (upd_process (s1\<lparr>this_cpu := c\<rparr>) p (\<lambda>x. x\<lparr>chan := ch, p_state := Asleep\<rparr>))) (\<lambda>(flag, s2).
            Inr (flag, m', s2)))))"

definition sleep_leave :: "'a sstate \<Rightarrow> nat \<Rightarrow> bool \<Rightarrow> spin_mutex \<Rightarrow> (spin_mutex \<times> 'a sstate) outcome" where
  "sleep_leave s p flag m =
     andThen (unlock_process (upd_process (reschedule_leave s flag) p (\<lambda>x. x\<lparr>chan := 0\<rparr>)) p) (\<lambda>s1.
     andThen (spin_lock (this_cpu s1) (tp s1) m) (\<lambda>(c, m'). Inr (m', s1\<lparr>this_cpu := c\<rparr>)))"

section \<open>Locks of the scheduler\<close>

text \<open>
  \<open>quiet n c\<close>: the processor can take \<open>n\<close> locks more, and has interrupts off when it has a lock. A lock
  that is taken and given back leaves the processor as it was, up to the flag that \<open>push\<close> records when
  it is the first one (\<open>settle\<close>).
\<close>

definition quiet :: "nat \<Rightarrow> cpu \<Rightarrow> bool" where
  "quiet n c \<longleftrightarrow> unat (numLocks c) + n < 2 ^ 64 \<and> (numLocks c \<noteq> 0 \<longrightarrow> sstatus c AND SSTATUS_SIE = 0)"

definition settle :: "cpu \<Rightarrow> cpu" where
  "settle c = (if numLocks c = 0 then c\<lparr>interruptEnabled := sstatus c AND SSTATUS_SIE \<noteq> 0\<rparr> else c)"

lemma numLocks_push: "quiet (Suc n) c \<Longrightarrow> unat (numLocks (push c)) = unat (numLocks c) + 1"
  by (auto simp: push_def Let_def quiet_def unat_plus_if')

lemma quiet_push_pos: "quiet (Suc n) c \<Longrightarrow> numLocks (push c) \<noteq> 0"
  using numLocks_push [of n c] by auto

lemma quiet_mono: "quiet n c \<Longrightarrow> m \<le> n \<Longrightarrow> quiet m c"
  by (simp add: quiet_def)

lemma sie_masked [simp]: "(w AND NOT SSTATUS_SIE) AND SSTATUS_SIE = (0 :: u64)"
  by (simp add: and.assoc)

lemma push_masks: "sstatus (push c) AND SSTATUS_SIE = 0"
  by (simp add: push_def Let_def)

lemma sie_bit: "(w :: u64) AND SSTATUS_SIE = 0 \<longleftrightarrow> \<not> bit w 1"
  using and_exp_eq_0_iff_not_bit [of w 1] by (simp add: SSTATUS_SIE_def)

lemma sie_restored: "(w :: u64) AND SSTATUS_SIE \<noteq> 0 \<Longrightarrow> (w AND NOT SSTATUS_SIE) OR SSTATUS_SIE = w"
  unfolding sie_bit by (intro bit_word_eqI) (auto simp: SSTATUS_SIE_def bit_simps)

lemma sie_clear: "(w :: u64) AND SSTATUS_SIE = 0 \<Longrightarrow> w AND NOT SSTATUS_SIE = w"
  unfolding sie_bit by (intro bit_word_eqI) (auto simp: SSTATUS_SIE_def bit_simps)

lemma pop_push: "quiet (Suc n) c \<Longrightarrow> pop (push c) = Inr (settle c)"
  using quiet_push_pos [of n c]
  by (cases c) (auto simp: pop_def push_masks word_gt_0 push_def Let_def settle_def quiet_def sie_restored sie_clear)

lemma quiet_push: "quiet (Suc n) c \<Longrightarrow> quiet n (push c)"
  using numLocks_push [of n c] by (simp add: quiet_def push_masks)

lemma settle_locked: "numLocks c \<noteq> 0 \<Longrightarrow> settle c = c"
  by (simp add: settle_def)

definition own :: "u64 \<Rightarrow> spin_mutex" where
  "own t = \<lparr>locked = True, hartid = t\<rparr>"

lemma spin_lock_free [simp]: "spin_lock c t new_SpinMutex = Inr (push c, own t)"
  by (simp add: spin_lock_def new_SpinMutex_def holding_def test_and_set_def own_def Let_def)

lemma spin_unlock_own: "spin_unlock c t (own t) = andThen (pop c) (\<lambda>c'. Inr (c', new_SpinMutex))"
  by (simp add: spin_unlock_def own_def holding_def new_SpinMutex_def Let_def)

lemma holding_own [simp]: "holding (own t) t"
  by (simp add: holding_def own_def)

section \<open>Contract of a guarded state\<close>

text \<open>
  A spin mutex inside a larger state, with the processor that takes it: \<open>put\<close> stores both. A free mutex can be taken, an own one be given
  back, and a section of code between the two that leaves mutex and processor alone ends with the mutex free again.
\<close>

locale guarded_state =
  fixes cpu_of :: "'s \<Rightarrow> cpu"
    and hart :: "'s \<Rightarrow> u64"
    and guard :: "'s \<Rightarrow> spin_mutex"
    and put :: "'s \<Rightarrow> cpu \<Rightarrow> spin_mutex \<Rightarrow> 's"
    and acquire :: "'s \<Rightarrow> 's outcome"
    and release :: "'s \<Rightarrow> 's outcome"
  assumes acquire_eq: "acquire s = andThen (spin_lock (cpu_of s) (hart s) (guard s)) (\<lambda>(c, m). Inr (put s c m))"
    and release_eq: "release s = andThen (spin_unlock (cpu_of s) (hart s) (guard s)) (\<lambda>(c, m). Inr (put s c m))"
    and put_fields [simp]: "cpu_of (put s c m) = c" "hart (put s c m) = hart s" "guard (put s c m) = m"
begin

lemma acquire_free: "guard s = new_SpinMutex \<Longrightarrow> acquire s = Inr (put s (push (cpu_of s)) (own (hart s)))"
  by (simp add: acquire_eq)

lemma release_own:
  assumes "guard s = own (hart s)" "cpu_of s = push c" "quiet (Suc n) c"
  shows "release s = Inr (put s (settle c) new_SpinMutex)"
  by (simp add: release_eq spin_unlock_own assms(1,2) pop_push [OF assms(3)])

lemma critical_section:
  assumes "guard s = new_SpinMutex" "quiet (Suc n) (cpu_of s)"
    and f: "\<And>c m. cpu_of (f (put s c m)) = c" "\<And>c m. hart (f (put s c m)) = hart s" "\<And>c m. guard (f (put s c m)) = m"
  shows "andThen (acquire s) (\<lambda>s1. release (f s1)) =
    Inr (put (f (put s (push (cpu_of s)) (own (hart s)))) (settle (cpu_of s)) new_SpinMutex)"
  using release_own [of "f (put s (push (cpu_of s)) (own (hart s)))" "cpu_of s" n] assms(2) f
  by (simp add: acquire_free [OF assms(1)])

end

interpretation sched_lock: guarded_state this_cpu tp sched_mutex "\<lambda>s c m. s\<lparr>this_cpu := c, sched_mutex := m\<rparr>" lock_sched unlock_sched
  by unfold_locales (simp_all add: lock_sched_def unlock_sched_def)

interpretation process_lock: guarded_state this_cpu tp "\<lambda>s. p_mutex (process_of s p)"
  "\<lambda>s c m. upd_process (s\<lparr>this_cpu := c\<rparr>) p (\<lambda>x. x\<lparr>p_mutex := m\<rparr>)" "\<lambda>s. lock_process s p" "\<lambda>s. unlock_process s p" for p
  by unfold_locales (simp_all add: lock_process_def unlock_process_def upd_process_def)

lemma quiet_settle [simp]: "quiet n (settle c) = quiet n c"
  by (simp add: quiet_def settle_def)

lemma settle_settle [simp]: "settle (settle c) = settle c"
  by (simp add: settle_def)

section \<open>The ready queue as a list\<close>

definition ready :: "'a sstate \<Rightarrow> nat list \<Rightarrow> bool" where
  "ready s xs \<longleftrightarrow> (\<exists>as. queue_rep (queue_nodes s) (readyQueue s) as xs)"

lemma registerProcess_ready:
  assumes "sched_mutex s = new_SpinMutex" "quiet (Suc n) (this_cpu s)" "p_state (process_of s p) = Ready" "ready s xs"
  shows "\<exists>h q. registerProcess s (Some p) =
      Inr (s\<lparr>queue_nodes := h, readyQueue := q, this_cpu := settle (this_cpu s)\<rparr>) \<and>
    ready (s\<lparr>queue_nodes := h, readyQueue := q, this_cpu := settle (this_cpu s)\<rparr>) (xs @ [p])"
proof -
  obtain as where "queue_rep (queue_nodes s) (readyQueue s) as xs" using assms(4) by (auto simp: ready_def)
  from lq.push_law [OF this, of p] obtain h q a where
    q: "push_back (queue_nodes s) (readyQueue s) p = Inr (h, q)" "queue_rep h q (as @ [a]) (xs @ [p])" by blast
  have "registerProcess s (Some p) =
      Inr (s\<lparr>queue_nodes := h, readyQueue := q, this_cpu := settle (this_cpu s)\<rparr>)"
    using assms q(1) pop_push [OF assms(2)]
    by (simp add: registerProcess_def lock_sched_def enqueue_def unlock_sched_def spin_unlock_own)
  then show ?thesis using q(2) by (auto simp: ready_def)
qed

section \<open>Waking up\<close>

definition woken :: "(nat \<Rightarrow> process) \<Rightarrow> nat list \<Rightarrow> nat \<Rightarrow> process" where
  "woken f ps p = (if p \<in> set ps then (f p)\<lparr>p_state := Ready\<rparr> else f p)"

definition sleepers :: "'a sstate \<Rightarrow> u64 \<Rightarrow> nat list" where
  "sleepers s ch = (case hm_lookup (sleepTable s) ch of None \<Rightarrow> [] | Some ps \<Rightarrow> ps)"

lemma wakeup_turn:
  assumes "sched_mutex s = own (tp s)" "quiet (Suc n) (this_cpu s)" "numLocks (this_cpu s) \<noteq> 0" "ready s xs"
    "p_mutex (process_of s p) = new_SpinMutex"
  shows "\<exists>h q. wakeup_loop s (p # ps) =
      wakeup_loop (s\<lparr>process_of := woken (process_of s) [p], queue_nodes := h, readyQueue := q\<rparr>) ps \<and>
    ready (s\<lparr>process_of := woken (process_of s) [p], queue_nodes := h, readyQueue := q\<rparr>) (xs @ [p])"
proof -
  let ?c = "this_cpu s" and ?x = "process_of s p"
  let ?s2 = "s\<lparr>sched_mutex := new_SpinMutex, process_of := (process_of s)(p := ?x\<lparr>p_mutex := own (tp s), p_state := Ready\<rparr>)\<rparr>"
  have c: "settle ?c = ?c" using assms(3) by (rule settle_locked)
  have l: "lock_process s p = Inr (s\<lparr>this_cpu := push ?c, process_of := (process_of s)(p := ?x\<lparr>p_mutex := own (tp s)\<rparr>)\<rparr>)"
    by (simp add: lock_process_def assms(5) upd_process_def)
  have u: "unlock_sched (upd_process (s\<lparr>this_cpu := push ?c, process_of := (process_of s)(p := ?x\<lparr>p_mutex := own (tp s)\<rparr>)\<rparr>)
      p (\<lambda>x. x\<lparr>p_state := Ready\<rparr>)) = Inr ?s2"
    by (simp add: unlock_sched_def upd_process_def assms(1) spin_unlock_own pop_push [OF assms(2)] c)
  have "ready ?s2 xs" using assms(4) by (simp add: ready_def)
  from registerProcess_ready [OF _ _ _ this, of n p] obtain h q where
    r: "registerProcess ?s2 (Some p) = Inr (?s2\<lparr>queue_nodes := h, readyQueue := q, this_cpu := settle ?c\<rparr>)"
    and q: "ready (?s2\<lparr>queue_nodes := h, readyQueue := q, this_cpu := settle ?c\<rparr>) (xs @ [p])"
    using assms(2) by auto
  let ?s3 = "?s2\<lparr>queue_nodes := h, readyQueue := q, this_cpu := settle ?c\<rparr>"
  have x: "(?x\<lparr>p_mutex := own (tp s), p_state := Ready\<rparr>)\<lparr>p_mutex := new_SpinMutex\<rparr> = ?x\<lparr>p_state := Ready\<rparr>"
    using assms(5) by (cases ?x) simp
  have f: "(process_of s)(p := ?x\<lparr>p_state := Ready\<rparr>) = woken (process_of s) [p]"
    by (rule ext) (simp add: woken_def)
  have "lock_sched ?s3 = Inr (?s3\<lparr>this_cpu := push ?c, sched_mutex := own (tp s)\<rparr>)"
    by (simp add: lock_sched_def c)
  moreover have "unlock_process (?s3\<lparr>this_cpu := push ?c, sched_mutex := own (tp s)\<rparr>) p =
      Inr (s\<lparr>process_of := woken (process_of s) [p], queue_nodes := h, readyQueue := q\<rparr>)"
    using x f assms(1) by (simp add: unlock_process_def spin_unlock_own pop_push [OF assms(2)] c upd_process_def)
  ultimately have "wakeup_loop s (p # ps) =
      wakeup_loop (s\<lparr>process_of := woken (process_of s) [p], queue_nodes := h, readyQueue := q\<rparr>) ps"
    using l u r by simp
  moreover have "ready (s\<lparr>process_of := woken (process_of s) [p], queue_nodes := h, readyQueue := q\<rparr>) (xs @ [p])"
    using q by (simp add: ready_def)
  ultimately show ?thesis by blast
qed

lemma wakeup_loop_law:
  assumes "sched_mutex s = own (tp s)" "quiet (Suc n) (this_cpu s)" "numLocks (this_cpu s) \<noteq> 0" "ready s xs"
    "\<forall>p \<in> set ps. p_mutex (process_of s p) = new_SpinMutex"
  shows "\<exists>h q. wakeup_loop s ps = Inr (s\<lparr>process_of := woken (process_of s) ps, queue_nodes := h, readyQueue := q\<rparr>) \<and>
    ready (s\<lparr>process_of := woken (process_of s) ps, queue_nodes := h, readyQueue := q\<rparr>) (xs @ ps)"
  using assms
proof (induction ps arbitrary: s xs)
  case Nil
  have "woken (process_of s) [] = process_of s" by (rule ext) (simp add: woken_def)
  then have "s\<lparr>process_of := woken (process_of s) [], queue_nodes := queue_nodes s, readyQueue := readyQueue s\<rparr> = s" by simp
  then show ?case using Nil.prems(4) by (metis append_Nil2 wakeup_loop.simps(1))
next
  case (Cons p ps)
  obtain h q where t: "wakeup_loop s (p # ps) =
      wakeup_loop (s\<lparr>process_of := woken (process_of s) [p], queue_nodes := h, readyQueue := q\<rparr>) ps"
    and r: "ready (s\<lparr>process_of := woken (process_of s) [p], queue_nodes := h, readyQueue := q\<rparr>) (xs @ [p])"
    using wakeup_turn [OF Cons.prems(1-4), of p ps] Cons.prems(5) by auto
  let ?s = "s\<lparr>process_of := woken (process_of s) [p], queue_nodes := h, readyQueue := q\<rparr>"
  have "\<forall>x \<in> set ps. p_mutex (process_of ?s x) = new_SpinMutex" using Cons.prems(5) by (simp add: woken_def)
  from Cons.IH [OF _ _ _ r this] Cons.prems obtain h' q' where
    i: "wakeup_loop ?s ps = Inr (?s\<lparr>process_of := woken (process_of ?s) ps, queue_nodes := h', readyQueue := q'\<rparr>)"
    "ready (?s\<lparr>process_of := woken (process_of ?s) ps, queue_nodes := h', readyQueue := q'\<rparr>) ((xs @ [p]) @ ps)"
    by auto
  have "woken (woken (process_of s) [p]) ps = woken (process_of s) (p # ps)" by (rule ext) (auto simp: woken_def)
  then show ?case using t i by auto
qed

lemma wakeup_law:
  assumes "sched_mutex s = new_SpinMutex" "quiet 2 (this_cpu s)" "hm_invar (sleepTable s)" "ready s xs"
    "\<forall>p \<in> set (sleepers s ch). p_mutex (process_of s p) = new_SpinMutex"
  shows "\<exists>h q t. wakeup s ch = Inr (s\<lparr>process_of := woken (process_of s) (sleepers s ch), queue_nodes := h, readyQueue := q,
      sleepTable := t, this_cpu := settle (this_cpu s)\<rparr>) \<and>
    (\<exists>as. queue_rep h q as (xs @ sleepers s ch)) \<and> hm_invar t \<and>
    (\<forall>d. hm_lookup t d =
      (if d = ch then None
       else if index_of (sleepTable s) d \<noteq> index_of (sleepTable s) ch \<or> hm_lookup (sleepTable s) ch \<noteq> None
       then hm_lookup (sleepTable s) d else map_of (last_node (hm_chain (sleepTable s) ch)) d))"
proof -
  have q2: "quiet (Suc 1) (this_cpu s)" using assms(2) by (simp add: numeral_2_eq_2)
  obtain t where t: "subscript (sleepTable s) ch [] = Inr (t, sleepers s ch)" "hm_invar t"
    "\<forall>d. d \<noteq> ch \<longrightarrow> hm_lookup t d = (if index_of (sleepTable s) d \<noteq> index_of (sleepTable s) ch \<or> hm_lookup (sleepTable s) ch \<noteq> None
       then hm_lookup (sleepTable s) d else map_of (last_node (hm_chain (sleepTable s) ch)) d)"
    using subscript_law [OF assms(3), of ch "[]"] by (auto simp: sleepers_def)
  let ?s1 = "s\<lparr>this_cpu := push (this_cpu s), sched_mutex := own (tp s), sleepTable := t\<rparr>"
  have l: "lock_sched s = Inr (s\<lparr>this_cpu := push (this_cpu s), sched_mutex := own (tp s)\<rparr>)"
    by (simp add: lock_sched_def assms(1))
  obtain h q where w: "wakeup_loop ?s1 (sleepers s ch) =
      Inr (?s1\<lparr>process_of := woken (process_of s) (sleepers s ch), queue_nodes := h, readyQueue := q\<rparr>)"
    and r: "\<exists>as. queue_rep h q as (xs @ sleepers s ch)"
    using wakeup_loop_law [of ?s1 0 xs "sleepers s ch"] quiet_push [OF q2] quiet_push_pos [OF q2] assms(4,5)
    by (auto simp: ready_def)
  obtain t' where e: "erase t ch = Inr t'" "hm_invar t'" "hm_lookup t' = (hm_lookup t)(ch := None)"
    using hm.del_law [OF t(2), of ch] by blast
  have "wakeup s ch = Inr (s\<lparr>process_of := woken (process_of s) (sleepers s ch), queue_nodes := h, readyQueue := q,
      sleepTable := t', this_cpu := settle (this_cpu s)\<rparr>)"
    using l t(1) w e(1) assms(1) by (simp add: wakeup_def unlock_sched_def spin_unlock_own pop_push [OF q2])
  moreover have "hm_lookup t' d =
      (if d = ch then None
       else if index_of (sleepTable s) d \<noteq> index_of (sleepTable s) ch \<or> hm_lookup (sleepTable s) ch \<noteq> None
       then hm_lookup (sleepTable s) d else map_of (last_node (hm_chain (sleepTable s) ch)) d)" for d
    using e(3) t(3) by simp
  ultimately show ?thesis using r e(2) by blast
qed

section \<open>Properties of sleep and wakeup\<close>

text \<open>
  C29: \<open>wakeup(chan)\<close> moves the processes that sleep on the channel, in the order in which they went to
  sleep, to the end of the ready queue, makes them \<open>Ready\<close> and forgets the channel. When the channel is
  in the table or its bucket has room, the sleepers of the other channels stay, and the locks and the
  processor are as before.
\<close>

theorem wakeup_wakes_sleepers:
  assumes "sched_mutex s = new_SpinMutex" "quiet 2 (this_cpu s)" "hm_invar (sleepTable s)" "ready s xs"
    "\<forall>p \<in> set (sleepers s ch). p_mutex (process_of s p) = new_SpinMutex"
  shows "\<exists>s'. wakeup s ch = Inr s' \<and> ready s' (xs @ sleepers s ch) \<and>
    (\<forall>p. process_of s' p =
       (if p \<in> set (sleepers s ch) then (process_of s p)\<lparr>p_state := Ready\<rparr> else process_of s p)) \<and>
    sleepers s' ch = [] \<and> hm_invar (sleepTable s') \<and>
    (hm_room (sleepTable s) ch \<longrightarrow> (\<forall>d. d \<noteq> ch \<longrightarrow> sleepers s' d = sleepers s d)) \<and>
    sched_mutex s' = new_SpinMutex \<and> this_cpu s' = settle (this_cpu s) \<and> cpu_process s' = cpu_process s"
proof -
  obtain h q t where w: "wakeup s ch = Inr (s\<lparr>process_of := woken (process_of s) (sleepers s ch), queue_nodes := h,
      readyQueue := q, sleepTable := t, this_cpu := settle (this_cpu s)\<rparr>)"
    and r: "\<exists>as. queue_rep h q as (xs @ sleepers s ch)" and i: "hm_invar t"
    and t: "\<forall>d. hm_lookup t d =
      (if d = ch then None
       else if index_of (sleepTable s) d \<noteq> index_of (sleepTable s) ch \<or> hm_lookup (sleepTable s) ch \<noteq> None
       then hm_lookup (sleepTable s) d else map_of (last_node (hm_chain (sleepTable s) ch)) d)"
    using wakeup_law [OF assms] by blast
  have "hm_lookup t d = hm_lookup (sleepTable s) d" if "hm_room (sleepTable s) ch" "d \<noteq> ch" for d
    using that t by (auto simp: hm_room_def last_node_short hm_lookup_def hm_chain_def)
  then show ?thesis using w r i t assms(1) by (auto simp: ready_def sleepers_def woken_def)
qed

text \<open>
  \<open>wakeup\<close> of a channel nobody sleeps on is not harmless: \<open>operator[]\<close> makes a node for it, and in a
  bucket with two channels or more all but the last of them leave the table with their
  sleepers, which nobody will wake again; they are not in the ready queue either.
\<close>

theorem idle_wakeup_loses_sleepers:
  assumes "sched_mutex s = new_SpinMutex" "quiet 2 (this_cpu s)" "hm_invar (sleepTable s)" "ready s xs"
    "hm_lookup (sleepTable s) ch = None" "(d, ps) \<in> set (hm_chain (sleepTable s) ch)"
    "d \<noteq> fst (last (hm_chain (sleepTable s) ch))"
  shows "sleepers s d = ps \<and> (\<exists>s'. wakeup s ch = Inr s' \<and> sleepers s' d = [] \<and> ready s' xs \<and> process_of s' = process_of s)"
proof -
  let ?m = "sleepTable s"
  have e: "sleepers s ch = []" using assms(5) by (simp add: sleepers_def)
  have ix: "index_of ?m d = index_of ?m ch" using hm_chain_keys [OF assms(3,6)] by simp
  then have c: "hm_chain ?m d = hm_chain ?m ch" by (simp add: hm_chain_def)
  have "hm_lookup ?m d = Some ps"
    using assms(6) hm_chain_distinct [OF assms(3), of ch] by (simp add: hm_lookup_def c)
  moreover have "map_of (last_node (hm_chain ?m ch)) d = None" "d \<noteq> ch"
    using assms(5-7) by (force simp: last_node_def hm_lookup_None)+
  moreover have "woken f [] = f" for f by (rule ext) (simp add: woken_def)
  moreover obtain h q t where "wakeup s ch = Inr (s\<lparr>process_of := woken (process_of s) (sleepers s ch), queue_nodes := h,
      readyQueue := q, sleepTable := t, this_cpu := settle (this_cpu s)\<rparr>)"
    "\<exists>as. queue_rep h q as (xs @ sleepers s ch)" "\<forall>d. hm_lookup t d =
      (if d = ch then None
       else if index_of ?m d \<noteq> index_of ?m ch \<or> hm_lookup ?m ch \<noteq> None
       then hm_lookup ?m d else map_of (last_node (hm_chain ?m ch)) d)"
    using wakeup_law [OF assms(1-4), of ch] e by auto
  ultimately show ?thesis using e ix assms(5) by (simp add: sleepers_def ready_def)
qed

section \<open>Leaving the ready queue\<close>

lemma drain_loop_law:
  "queue_rep h q as xs \<Longrightarrow> queue_rep h que bs ys \<Longrightarrow> set as \<inter> set bs = {} \<Longrightarrow>
   \<exists>h' que' cs. drain_loop p h q que = Some (Inr (h', que')) \<and> queue_rep h' que' cs (ys @ filter (\<lambda>x. x \<noteq> p) xs)"
proof (induction xs arbitrary: h q as que bs ys)
  case Nil
  then have "q_empty q" by (simp add: lq.empty_law)
  then show ?case using Nil.prems(2) by (auto simp: drain_loop.simps)
next
  case (Cons x xs)
  have ne: "\<not> q_empty q" using Cons.prems(1) by (simp add: lq.empty_law)
  show ?case
  proof (cases "x = p")
    case True
    obtain q' where q': "pop_front h q = Inr (h, q')" "queue_rep h q' (List.tl as) xs"
      using lq.pop_law [OF Cons.prems(1)] by blast
    have "drain_loop p h q que = drain_loop p h q' que"
      using ne q'(1) lq.front_law [OF Cons.prems(1)] True by (simp add: drain_loop.simps [of p h q])
    moreover have "set (List.tl as) \<inter> set bs = {}" using Cons.prems(3) by (cases as) auto
    ultimately show ?thesis using Cons.IH [OF q'(2) Cons.prems(2)] True by simp
  next
    case False
    obtain q' h' que' a where m: "q_front h q = Inr x" "pop_front h q = Inr (h, q')" "push_back h que x = Inr (h', que')"
      "queue_rep h' q' (List.tl as) xs" "queue_rep h' que' (bs @ [a]) (ys @ [x])" "set (List.tl as) \<inter> set (bs @ [a]) = {}"
      using lq.move_front [OF Cons.prems] by blast
    have "drain_loop p h q que = drain_loop p h' q' que'"
      using ne m(1-3) False by (simp add: drain_loop.simps [of p h q])
    then show ?thesis using Cons.IH [OF m(4-6)] False by simp
  qed
qed

lemma unregisterProcess_law:
  assumes "sched_mutex s = new_SpinMutex" "quiet (Suc n) (this_cpu s)" "ready s xs"
  shows "\<exists>h q. unregisterProcess s (Some p) =
      Some (Inr (s\<lparr>queue_nodes := h, readyQueue := q, this_cpu := settle (this_cpu s)\<rparr>)) \<and>
    ready (s\<lparr>queue_nodes := h, readyQueue := q, this_cpu := settle (this_cpu s)\<rparr>) (filter (\<lambda>x. x \<noteq> p) xs)"
proof -
  obtain as where a: "queue_rep (queue_nodes s) (readyQueue s) as xs" using assms(3) by (auto simp: ready_def)
  obtain h q cs where d: "drain_loop p (queue_nodes s) (readyQueue s) new_QueueContainer = Some (Inr (h, q))"
    "queue_rep h q cs (filter (\<lambda>x. x \<noteq> p) xs)"
    using drain_loop_law [OF a lq.new_law, of p] by auto
  have "destroy_QueueContainer h q = Some (Inr (h, \<lparr>head = None, tail = None\<rparr>))"
    using d(2) destroy_loop_ends [of h "head q" cs "filter (\<lambda>x. x \<noteq> p) xs"]
    by (simp add: destroy_QueueContainer_def queue_rep_def)
  then have "unregisterProcess s (Some p) =
      Some (Inr (s\<lparr>queue_nodes := h, readyQueue := q, this_cpu := settle (this_cpu s)\<rparr>))"
    using assms(1) d(1) pop_push [OF assms(2)]
    by (simp add: unregisterProcess_def lock_sched_def unregister_locked_def unlock_sched_def spin_unlock_own)
  then show ?thesis using d(2) by (auto simp: ready_def)
qed

text \<open>On a processor with nothing to settle only the queue changes.\<close>

lemma settled_queue:
  assumes "settle (this_cpu s) = this_cpu s"
  shows "s\<lparr>queue_nodes := h, readyQueue := q, this_cpu := settle (this_cpu s)\<rparr> = s\<lparr>queue_nodes := h, readyQueue := q\<rparr>"
  by (cases s) (use assms in simp)

lemma registerProcess_settled:
  assumes "sched_mutex s = new_SpinMutex" "quiet (Suc n) (this_cpu s)" "p_state (process_of s p) = Ready" "ready s xs"
    "settle (this_cpu s) = this_cpu s"
  obtains h q where "registerProcess s (Some p) = Inr (s\<lparr>queue_nodes := h, readyQueue := q\<rparr>)"
    "ready (s\<lparr>queue_nodes := h, readyQueue := q\<rparr>) (xs @ [p])"
  using registerProcess_ready [OF assms(1-4)] unfolding settled_queue [OF assms(5)] by blast

lemma unregisterProcess_settled:
  assumes "sched_mutex s = new_SpinMutex" "quiet (Suc n) (this_cpu s)" "ready s xs" "settle (this_cpu s) = this_cpu s"
  obtains h q where "unregisterProcess s (Some p) = Some (Inr (s\<lparr>queue_nodes := h, readyQueue := q\<rparr>))"
    "ready (s\<lparr>queue_nodes := h, readyQueue := q\<rparr>) (filter (\<lambda>x. x \<noteq> p) xs)"
  using unregisterProcess_law [OF assms(1-3)] unfolding settled_queue [OF assms(4)] by blast

text \<open>
  C30: \<open>yield\<close> of the running process comes back to the scheduler: taking the process out of the ready
  queue ends for every queue, no assertion of \<open>reschedule\<close> fails, and \<open>run\<close> goes on with all locks free.
  The process is then \<open>Ready\<close> and in the queue twice, since \<open>reschedule\<close> and the end of the turn of \<open>run\<close>
  both register it; the other processes keep their order.
\<close>

theorem yield_returns_to_scheduler:
  assumes "sched_mutex s = new_SpinMutex" "numLocks (this_cpu s) = 0" "cpu_process s = Some p"
    "p_mutex (process_of s p) = new_SpinMutex" "ready s xs"
  shows "\<exists>flag s1 s2. yield_enter s = Some (Inr (flag, s1)) \<and> run_return s1 p = Inr s2 \<and>
    ready s1 (filter (\<lambda>x. x \<noteq> p) xs @ [p]) \<and> ready s2 (filter (\<lambda>x. x \<noteq> p) xs @ [p, p]) \<and>
    flag = (sstatus (this_cpu s) AND SSTATUS_SIE \<noteq> 0) \<and>
    process_of s2 = (process_of s)(p := (process_of s p)\<lparr>p_state := Ready\<rparr>) \<and>
    cpu_process s2 = None \<and> sched_mutex s2 = new_SpinMutex \<and> this_cpu s2 = settle (this_cpu s)"
proof -
  let ?c = "this_cpu s" and ?x = "process_of s p"
  have q: "quiet (Suc (Suc n)) ?c" if "n < 8" for n using assms(2) that by (simp add: quiet_def)
  have q1: "quiet (Suc 0) (push ?c)" using q [of 0] quiet_push by simp
  have n1: "numLocks (push ?c) = 1" using assms(2) by (simp add: push_def Let_def)
  have sp: "settle (push ?c) = push ?c" using n1 by (simp add: settle_locked)
  let ?s1 = "s\<lparr>this_cpu := push ?c, process_of := (process_of s)(p := ?x\<lparr>p_mutex := own (tp s)\<rparr>)\<rparr>"
  have l: "lock_process s p = Inr ?s1" by (simp add: lock_process_def assms(4) upd_process_def)
  have e1: "sched_mutex ?s1 = new_SpinMutex" "this_cpu ?s1 = push ?c" "ready ?s1 xs"
    using assms(1,5) by (simp_all add: ready_def)
  obtain h r where
    u: "unregisterProcess ?s1 (Some p) = Some (Inr (?s1\<lparr>queue_nodes := h, readyQueue := r\<rparr>))"
    and r: "ready (?s1\<lparr>queue_nodes := h, readyQueue := r\<rparr>) (filter (\<lambda>x. x \<noteq> p) xs)"
    using unregisterProcess_settled [OF e1(1) _ e1(3), of 0 p] q1 sp unfolding e1(2) by metis
  let ?s2 = "upd_process (?s1\<lparr>queue_nodes := h, readyQueue := r\<rparr>) p (\<lambda>x. x\<lparr>p_state := Ready\<rparr>)"
  have e: "sched_mutex ?s2 = new_SpinMutex" "this_cpu ?s2 = push ?c" "p_state (process_of ?s2 p) = Ready"
    "ready ?s2 (filter (\<lambda>x. x \<noteq> p) xs)"
    using r assms(1) by (simp_all add: ready_def upd_process_def)
  obtain h2 r2 where
    g: "registerProcess ?s2 (Some p) = Inr (?s2\<lparr>queue_nodes := h2, readyQueue := r2\<rparr>)"
    and r2: "ready (?s2\<lparr>queue_nodes := h2, readyQueue := r2\<rparr>) (filter (\<lambda>x. x \<noteq> p) xs @ [p])"
    using registerProcess_settled [OF e(1) _ e(3,4), of 0] q1 sp unfolding e(2) by metis
  let ?s3 = "?s2\<lparr>queue_nodes := h2, readyQueue := r2\<rparr>"
  have fl: "interruptEnabled (push ?c) = (sstatus ?c AND SSTATUS_SIE \<noteq> 0)" using assms(2) by (simp add: push_def Let_def)
  have "reschedule_enter ?s2 = Inr (sstatus ?c AND SSTATUS_SIE \<noteq> 0, ?s3)"
    using g assms(3) n1 fl by (simp add: reschedule_enter_def upd_process_def push_masks)
  then have y: "yield_enter s = Some (Inr (sstatus ?c AND SSTATUS_SIE \<noteq> 0, ?s3))"
    using l u assms(3) by (simp add: yield_enter_def)
  let ?s4 = "s\<lparr>this_cpu := settle ?c, process_of := (process_of s)(p := ?x\<lparr>p_state := Ready\<rparr>), cpu_process := None,
    queue_nodes := h2, readyQueue := r2\<rparr>"
  have x: "(?x\<lparr>p_mutex := own (tp s), p_state := Ready\<rparr>)\<lparr>p_mutex := new_SpinMutex\<rparr> = ?x\<lparr>p_state := Ready\<rparr>"
    using assms(4) by (cases ?x) simp
  have v: "unlock_process (?s3\<lparr>cpu_process := None\<rparr>) p = Inr ?s4"
    using x q [of 0] pop_push [of 1 ?c] by (simp add: unlock_process_def spin_unlock_own upd_process_def)
  have ss: "settle (settle ?c) = settle ?c" "quiet (Suc 0) (settle ?c)"
    using q [of 0] by (simp_all add: quiet_def settle_def)
  have e4: "sched_mutex ?s4 = new_SpinMutex" "this_cpu ?s4 = settle ?c" "p_state (process_of ?s4 p) = Ready"
    "ready ?s4 (filter (\<lambda>x. x \<noteq> p) xs @ [p])"
    using r2 assms(1) by (simp_all add: ready_def upd_process_def)
  obtain h5 r5 where "registerProcess ?s4 (Some p) = Inr (?s4\<lparr>queue_nodes := h5, readyQueue := r5\<rparr>)"
    "ready (?s4\<lparr>queue_nodes := h5, readyQueue := r5\<rparr>) ((filter (\<lambda>x. x \<noteq> p) xs @ [p]) @ [p])"
    using registerProcess_settled [OF e4(1) _ e4(3,4), of 0] ss unfolding e4(2) by metis
  then show ?thesis using y v r2 assms(1) by (auto simp: run_return_def)
qed

section \<open>Concrete runs\<close>

definition example_process :: process where
  "example_process =
     \<lparr>p_pid = 1, p_parent = None, children = [], p_state = Asleep, p_mutex = new_SpinMutex, p_context = zero_context,
      trapFrame = 0, frame = new_TrapFrame, pageTable = 0, kernelStackPage = 0, kernelStack = 0, memorySize = 0,
      chan = 2, p_cwd = None, openFiles = [], p_name = [], killed = False, exitStatus = 0\<rparr>"

definition example_sched :: sched_state where
  "example_sched =
     \<lparr>process_of = (\<lambda>_. example_process), queue_nodes = \<lparr>cells = \<lambda>_. None, fresh = 0\<rparr>, readyQueue = new_QueueContainer,
      sleepTable = \<lparr>makeHash = (\<lambda>k. k), capacity = 1, capacityMask = 1, nodes = [[(2, [3, 7]), (4, [5])], []]\<rparr>,
      sched_mutex = new_SpinMutex, this_cpu = \<lparr>sstatus = 2, numLocks = 0, interruptEnabled = False\<rparr>,
      tp = 0, cpu_process = Some 9\<rparr>"

lemma example_sched_facts:
  "sched_mutex example_sched = new_SpinMutex" "quiet 2 (this_cpu example_sched)" "numLocks (this_cpu example_sched) = 0"
  "cpu_process example_sched = Some 9" "ready example_sched []" "p_mutex (process_of example_sched p) = new_SpinMutex"
  using lq.new_law [of "queue_nodes example_sched"]
  by (auto simp: example_sched_def quiet_def ready_def example_process_def)

lemma example_table_facts:
  "hm_invar (sleepTable example_sched)" "sleepers example_sched 2 = [3, 7]" "hm_lookup (sleepTable example_sched) 6 = None"
  "hm_chain (sleepTable example_sched) 6 = [(2, [3, 7]), (4, [5])]"
  by (auto simp: example_sched_def hm_invar_def sleepers_def hm_lookup_def hm_chain_def index_of_def less_Suc_eq)

theorem wakeup_wakes_sleepers_witness:
  "\<exists>s'. wakeup example_sched 2 = Inr s' \<and> ready s' [3, 7] \<and> p_state (process_of s' 7) = Ready"
  using wakeup_wakes_sleepers [of example_sched "[]" 2] example_sched_facts example_table_facts by auto

theorem idle_wakeup_loses_sleepers_witness:
  "sleepers example_sched 2 = [3, 7] \<and> (\<exists>s'. wakeup example_sched 6 = Inr s' \<and> sleepers s' 2 = [] \<and> ready s' [])"
  using idle_wakeup_loses_sleepers [of example_sched "[]" 6 2 "[3, 7]"] example_sched_facts example_table_facts by auto

theorem yield_returns_to_scheduler_witness:
  "\<exists>flag s1 s2. yield_enter example_sched = Some (Inr (flag, s1)) \<and> run_return s1 9 = Inr s2 \<and> ready s2 [9, 9] \<and> flag"
  using yield_returns_to_scheduler [of example_sched 9 "[]"] example_sched_facts
  by (auto simp: example_sched_def sie_bit bit_simps)

end
