(* ===== verification/Fs_Buffer.thy ===== *)
theory Fs_Buffer
  imports Lib_HashMap Mutex
begin

unbundle bit_operations_syntax

text \<open>
  The buffer cache, \<open>kernel/fs/buffer.cpp\<close>, on the hash map and the sleep mutex. A \<open>Buffer*\<close> is a
  number that selects a buffer of the heap \<open>buffer_of\<close>. The disk is an array of blocks;
  \<open>diskRead\<close> and \<open>diskWrite\<close> are complete transfers, whose descriptors and interrupts are the subject
  of \<open>Fs_Virtio\<close>. \<open>disk_trace\<close> records the completed writes in their order. The code is seen from one
  process, \<open>pid_now\<close>; taking a buffer lock that another call holds ends in \<open>Sleeping\<close>.
\<close>

section \<open>Model\<close>

definition BLOCK_SIZE :: nat where "BLOCK_SIZE = 1024"

record buffer =
  b_valid :: bool
  b_disk :: bool
  b_device :: u32
  b_block :: u32
  b_refCount :: u32
  b_mutex :: sleep_mutex
  b_data :: "u8 list"

record cache_state =
  pid_now :: u64
  disk_blocks :: "u32 \<Rightarrow> u8 list"
  disk_trace :: "(u32 \<times> u8 list) list"
  buffer_of :: "nat \<Rightarrow> buffer"
  next_buffer :: nat
  bufferTable :: "(u64, nat) hash_map"

definition new_Buffer :: buffer where
  "new_Buffer =
     \<lparr>b_valid = False, b_disk = False, b_device = 0, b_block = 0, b_refCount = 0,
      b_mutex = \<lparr>sm_locked = False, sm_pid = 0\<rparr>, b_data = replicate BLOCK_SIZE 0\<rparr>"

definition upd_buffer :: "'a cache_state_scheme \<Rightarrow> nat \<Rightarrow> (buffer \<Rightarrow> buffer) \<Rightarrow> 'a cache_state_scheme" where
  "upd_buffer s b f = s\<lparr>buffer_of := (buffer_of s)(b := f (buffer_of s b))\<rparr>"

text \<open>\<open>initializeBufferCache\<close>: a table with the default capacity of 2^8 buckets.\<close>

definition initializeBufferCache :: "(u64 \<Rightarrow> u64) \<Rightarrow> 'a cache_state_scheme \<Rightarrow> 'a cache_state_scheme outcome" where
  "initializeBufferCache h s =
     andThen (new_HashMap h 8) (\<lambda>t. Inr (s\<lparr>bufferTable := t\<rparr>))"

definition buffer_key :: "u32 \<Rightarrow> u32 \<Rightarrow> u64" where
  "buffer_key device block = push_bit 32 (ucast device) OR ucast block"

definition cache_get :: "'a cache_state_scheme \<Rightarrow> u32 \<Rightarrow> u32 \<Rightarrow> (nat \<times> 'a cache_state_scheme) outcome" where
  "cache_get s device block =
     (let key = buffer_key device block in
      andThen (contains (bufferTable s) key) (\<lambda>present.
      andThen
        (if present
         then andThen (subscript (bufferTable s) key 0) (\<lambda>(t, b). Inr (b, s\<lparr>bufferTable := t\<rparr>))
         else
           let b = next_buffer s;
               new = new_Buffer\<lparr>b_device := device, b_block := block, b_valid := False\<rparr>;
               s1 = s\<lparr>next_buffer := Suc b, buffer_of := (buffer_of s)(b := new)\<rparr>
           in andThen (assign (bufferTable s1) key 0 b) (\<lambda>t. Inr (b, s1\<lparr>bufferTable := t\<rparr>)))
        (\<lambda>(b, s2).
          let s3 = upd_buffer s2 b (\<lambda>x. x\<lparr>b_refCount := b_refCount x + 1\<rparr>) in
          andThen (sleep_lock (pid_now s3) (b_mutex (buffer_of s3 b))) (\<lambda>m.
            Inr (b, upd_buffer s3 b (\<lambda>x. x\<lparr>b_mutex := m\<rparr>))))))"

definition cache_release :: "'a cache_state_scheme \<Rightarrow> nat \<Rightarrow> 'a cache_state_scheme outcome" where
  "cache_release s b =
     andThen (assert_that (sleep_holding (pid_now s) (b_mutex (buffer_of s b)))) (\<lambda>_.
       let s1 = upd_buffer s b (\<lambda>x. x\<lparr>b_mutex := sleep_unlock (b_mutex x)\<rparr>);
           s2 = upd_buffer s1 b (\<lambda>x. x\<lparr>b_refCount := b_refCount x - 1\<rparr>);
           x = buffer_of s2 b
       in if b_refCount x = 0
          then andThen (erase (bufferTable s2) (buffer_key (b_device x) (b_block x))) (\<lambda>t.
                 Inr (s2\<lparr>bufferTable := t\<rparr>))
          else Inr s2)"

definition cache_pin :: "'a cache_state_scheme \<Rightarrow> nat \<Rightarrow> 'a cache_state_scheme" where
  "cache_pin s b = upd_buffer s b (\<lambda>x. x\<lparr>b_refCount := b_refCount x + 1\<rparr>)"

definition cache_unpin :: "'a cache_state_scheme \<Rightarrow> nat \<Rightarrow> 'a cache_state_scheme outcome" where
  "cache_unpin s b =
     andThen (assert_that (b_refCount (buffer_of s b) \<ge> 1)) (\<lambda>_.
       Inr (upd_buffer s b (\<lambda>x. x\<lparr>b_refCount := b_refCount x - 1\<rparr>)))"

definition diskRead :: "'a cache_state_scheme \<Rightarrow> nat \<Rightarrow> 'a cache_state_scheme" where
  "diskRead s b = upd_buffer s b (\<lambda>x. x\<lparr>b_data := disk_blocks s (b_block x)\<rparr>)"

definition diskWrite :: "'a cache_state_scheme \<Rightarrow> nat \<Rightarrow> 'a cache_state_scheme" where
  "diskWrite s b =
     (let x = buffer_of s b in
      s\<lparr>disk_blocks := (disk_blocks s)(b_block x := b_data x),
        disk_trace := disk_trace s @ [(b_block x, b_data x)]\<rparr>)"

definition buffer_read :: "'a cache_state_scheme \<Rightarrow> nat \<Rightarrow> 'a cache_state_scheme" where
  "buffer_read s b =
     (if \<not> b_valid (buffer_of s b)
      then upd_buffer (diskRead s b) b (\<lambda>x. x\<lparr>b_valid := True\<rparr>) else s)"

definition buffer_write :: "'a cache_state_scheme \<Rightarrow> nat \<Rightarrow> 'a cache_state_scheme outcome" where
  "buffer_write s b =
     andThen (assert_that (sleep_holding (pid_now s) (b_mutex (buffer_of s b)))) (\<lambda>_.
       Inr (diskWrite s b))"

text \<open>A store through \<open>buf->data\<close> by the code that holds the buffer.\<close>

definition set_data :: "'a cache_state_scheme \<Rightarrow> nat \<Rightarrow> u8 list \<Rightarrow> 'a cache_state_scheme" where
  "set_data s b d = upd_buffer s b (\<lambda>x. x\<lparr>b_data := d\<rparr>)"

section \<open>Abstract cache\<close>

text \<open>
  What a client sees of the blocks of one device: for every cached block its data (\<open>None\<close> before
  the first read), the number of references and whether it is locked.
\<close>

record cell =
  c_data :: "u8 list option"
  c_ref :: nat
  c_lock :: bool

definition cell_of :: "buffer \<Rightarrow> cell" where
  "cell_of x = \<lparr>c_data = (if b_valid x then Some (b_data x) else None),
      c_ref = unat (b_refCount x), c_lock = sm_locked (b_mutex x)\<rparr>"

definition ptr :: "u32 \<Rightarrow> 'a cache_state_scheme \<Rightarrow> u32 \<Rightarrow> nat option" where
  "ptr D s n = hm_lookup (bufferTable s) (buffer_key D n)"

definition cells :: "u32 \<Rightarrow> 'a cache_state_scheme \<Rightarrow> u32 \<Rightarrow> cell option" where
  "cells D s n = map_option (\<lambda>b. cell_of (buffer_of s b)) (ptr D s n)"

text \<open>
  \<open>B\<close> is the set of blocks in use. No bucket of the table is shared by three of them: with more, a
  store would drop an entry of the table (\<open>Lib_HashMap\<close>).
\<close>

definition bucket_fit :: "u32 \<Rightarrow> (u64, nat) hash_map \<Rightarrow> u32 set \<Rightarrow> bool" where
  "bucket_fit D t B \<longleftrightarrow> finite B \<and>
     (\<forall>n \<in> B. card {k \<in> B. index_of t (buffer_key D k) = index_of t (buffer_key D n)} \<le> 2)"

definition cache_inv :: "u32 \<Rightarrow> u32 set \<Rightarrow> 'a cache_state_scheme \<Rightarrow> bool" where
  "cache_inv D B s \<longleftrightarrow> hm_invar (bufferTable s) \<and> bucket_fit D (bufferTable s) B \<and>
     (\<forall>n. length (disk_blocks s n) = BLOCK_SIZE) \<and>
     (\<forall>k b. hm_lookup (bufferTable s) k = Some b \<longrightarrow>
        (\<exists>n \<in> B. k = buffer_key D n \<and> b_block (buffer_of s b) = n \<and> b_device (buffer_of s b) = D) \<and>
        b < next_buffer s \<and> 0 < b_refCount (buffer_of s b) \<and> length (b_data (buffer_of s b)) = BLOCK_SIZE \<and>
        (sm_locked (b_mutex (buffer_of s b)) \<longrightarrow> sm_pid (b_mutex (buffer_of s b)) = pid_now s))"

lemma buffer_key_inj: "buffer_key D n = buffer_key D k \<longleftrightarrow> n = k"
proof
  assume eq: "buffer_key D n = buffer_key D k"
  show "n = k"
  proof (rule bit_word_eqI)
    fix i assume "i < LENGTH(32)"
    then show "bit n i = bit k i" using arg_cong [OF eq, of "\<lambda>w. bit w i"] by (simp add: buffer_key_def bit_simps)
  qed
qed simp

lemma bucket_fit_room:
  assumes inv: "cache_inv D B s" and n: "n \<in> B" and none: "ptr D s n = None"
  shows "hm_room (bufferTable s) (buffer_key D n)"
proof -
  let ?t = "bufferTable s"
  let ?c = "hm_chain ?t (buffer_key D n)"
  let ?S = "{k \<in> B. index_of ?t (buffer_key D k) = index_of ?t (buffer_key D n)}"
  have hm: "hm_invar ?t" and fit: "card ?S \<le> 2" "finite ?S"
    using inv n by (auto simp: cache_inv_def bucket_fit_def)
  have "fst kv \<in> buffer_key D ` (?S - {n})" if kv: "kv \<in> set ?c" for kv
  proof -
    have idx: "index_of ?t (fst kv) = index_of ?t (buffer_key D n)" using hm_chain_keys [OF hm kv] .
    then have "hm_chain ?t (fst kv) = ?c" by (simp add: hm_chain_def)
    then have "hm_lookup ?t (fst kv) \<noteq> None" using kv hm_lookup_None [of ?t "fst kv"] by auto
    then obtain k where k: "k \<in> B" "fst kv = buffer_key D k" using inv by (auto simp: cache_inv_def)
    moreover have "k \<noteq> n" using \<open>hm_lookup ?t (fst kv) \<noteq> None\<close> none k(2) by (auto simp: ptr_def)
    ultimately show ?thesis using idx by auto
  qed
  then have sub: "fst ` set ?c \<subseteq> buffer_key D ` (?S - {n})" by blast
  have "length ?c = card (fst ` set ?c)"
    using hm_chain_distinct [OF hm] by (metis distinct_card length_map set_map)
  also have "\<dots> \<le> card (?S - {n})"
    using card_mono [OF _ sub] card_image_le [of "?S - {n}" "buffer_key D"] fit(2) by (meson finite_Diff finite_imageI le_trans)
  also have "\<dots> \<le> 1" using fit n by simp
  finally show ?thesis by (simp add: hm_room_def)
qed

section \<open>Laws of the operations\<close>

definition cache_frame :: "'a cache_state_scheme \<Rightarrow> 'a cache_state_scheme \<Rightarrow> bool" where
  "cache_frame s s' \<longleftrightarrow> pid_now s' = pid_now s \<and> disk_blocks s' = disk_blocks s \<and>
     disk_trace s' = disk_trace s \<and> cache_state.more s' = cache_state.more s"

lemma cache_frame_refl [simp]: "cache_frame s s"
  by (simp add: cache_frame_def)

lemma cache_frame_trans: "cache_frame s1 s2 \<Longrightarrow> cache_frame s2 s3 \<Longrightarrow> cache_frame s1 s3"
  by (simp add: cache_frame_def)

lemma upd_buffer_fields [simp]:
  "pid_now (upd_buffer s b f) = pid_now s" "disk_blocks (upd_buffer s b f) = disk_blocks s"
  "disk_trace (upd_buffer s b f) = disk_trace s" "bufferTable (upd_buffer s b f) = bufferTable s"
  "next_buffer (upd_buffer s b f) = next_buffer s" "cache_state.more (upd_buffer s b f) = cache_state.more s"
  "buffer_of (upd_buffer s b f) = (buffer_of s)(b := f (buffer_of s b))"
  by (simp_all add: upd_buffer_def)

lemma upd_buffer_frame [simp]: "cache_frame s (upd_buffer s b f)"
  by (simp add: cache_frame_def)

lemma ptr_buffer:
  assumes "cache_inv D B s" "ptr D s n = Some b"
  shows "n \<in> B" "b_block (buffer_of s b) = n" "b_device (buffer_of s b) = D" "b < next_buffer s"
    "0 < b_refCount (buffer_of s b)" "length (b_data (buffer_of s b)) = BLOCK_SIZE"
    "sm_locked (b_mutex (buffer_of s b)) \<Longrightarrow> sm_pid (b_mutex (buffer_of s b)) = pid_now s"
  using assms unfolding cache_inv_def ptr_def by (metis buffer_key_inj)+

lemma ptr_unique: "cache_inv D B s \<Longrightarrow> ptr D s n = Some b \<Longrightarrow> ptr D s k = Some b \<Longrightarrow> n = k"
  using ptr_buffer(2) by metis

lemma upd_buffer_law:
  assumes inv: "cache_inv D B s" and p: "ptr D s n = Some b" and y: "y = f (buffer_of s b)"
    and f: "b_block y = n" "b_device y = D" "0 < b_refCount y" "length (b_data y) = BLOCK_SIZE"
      "sm_locked (b_mutex y) \<longrightarrow> sm_pid (b_mutex y) = pid_now s"
  shows "cache_inv D B (upd_buffer s b f)" "ptr D (upd_buffer s b f) = ptr D s"
    "cells D (upd_buffer s b f) = (cells D s)(n \<mapsto> cell_of y)"
proof -
  let ?s = "upd_buffer s b f"
  have "(\<exists>n \<in> B. k = buffer_key D n \<and> b_block (buffer_of ?s c) = n \<and> b_device (buffer_of ?s c) = D) \<and>
      c < next_buffer ?s \<and> 0 < b_refCount (buffer_of ?s c) \<and> length (b_data (buffer_of ?s c)) = BLOCK_SIZE \<and>
      (sm_locked (b_mutex (buffer_of ?s c)) \<longrightarrow> sm_pid (b_mutex (buffer_of ?s c)) = pid_now ?s)"
    if l: "hm_lookup (bufferTable ?s) k = Some c" for k c
  proof (cases "c = b")
    case True
    have "\<exists>n \<in> B. k = buffer_key D n \<and> b_block (buffer_of s b) = n" using inv l True by (auto simp: cache_inv_def)
    then show ?thesis using True f y ptr_buffer [OF inv p] by auto
  qed (use inv l in \<open>auto simp: cache_inv_def\<close>)
  then show "cache_inv D B ?s" using inv by (simp add: cache_inv_def)
  show pt: "ptr D ?s = ptr D s" by (rule ext) (simp add: ptr_def)
  show "cells D ?s = (cells D s)(n \<mapsto> cell_of y)"
  proof (rule ext)
    fix k
    show "cells D ?s k = ((cells D s)(n \<mapsto> cell_of y)) k"
      using p y ptr_unique [OF inv p, of k] by (cases "ptr D s k") (auto simp: cells_def pt)
  qed
qed

lemma cells_Some:
  assumes "cells D s n = Some c"
  obtains b where "ptr D s n = Some b" "c = cell_of (buffer_of s b)"
  using assms by (auto simp: cells_def)

definition fresh_cell :: cell where
  "fresh_cell = \<lparr>c_data = None, c_ref = 0, c_lock = False\<rparr>"

definition cell_at :: "u32 \<Rightarrow> 'a cache_state_scheme \<Rightarrow> u32 \<Rightarrow> cell" where
  "cell_at D s n = (case cells D s n of None \<Rightarrow> fresh_cell | Some c \<Rightarrow> c)"

lemma insert_buffer:
  assumes inv: "cache_inv D B s" and n: "n \<in> B" and none: "ptr D s n = None"
    and new: "new = new_Buffer\<lparr>b_device := D, b_block := n, b_valid := False, b_refCount := 1\<rparr>"
  shows "\<exists>t. assign (bufferTable s) (buffer_key D n) 0 (next_buffer s) = Inr t \<and>
    (let s' = s\<lparr>next_buffer := Suc (next_buffer s), buffer_of := (buffer_of s)(next_buffer s := new), bufferTable := t\<rparr>
     in cache_inv D B s' \<and> ptr D s' = (ptr D s)(n \<mapsto> next_buffer s) \<and>
        cells D s' = (cells D s)(n \<mapsto> fresh_cell\<lparr>c_ref := 1\<rparr>))"
proof -
  let ?b = "next_buffer s" and ?k = "buffer_key D n"
  have hm: "hm_invar (bufferTable s)" using inv by (simp add: cache_inv_def)
  have room: "hm_room (bufferTable s) ?k" by (rule bucket_fit_room [OF inv n none])
  define t where "t = hm_set_chain (bufferTable s) ?k (chain_put ?k ?b (hm_chain (bufferTable s) ?k))"
  have t: "assign (bufferTable s) ?k 0 ?b = Inr t" "hm_invar t" "hm_lookup t = (hm_lookup (bufferTable s))(?k \<mapsto> ?b)"
    unfolding t_def using hm room by (simp_all add: assign_chain assign_invar assign_lookup_room)
  have idx: "index_of t k = index_of (bufferTable s) k" for k by (simp add: t_def)
  define s' where "s' = s\<lparr>next_buffer := Suc ?b, buffer_of := (buffer_of s)(?b := new), bufferTable := t\<rparr>"
  have old: "b \<noteq> ?b" if "hm_lookup (bufferTable s) k = Some b" for k b
    using inv that by (auto simp: cache_inv_def)
  have lk: "hm_lookup t k = Some b \<longleftrightarrow> (if k = ?k then b = ?b else hm_lookup (bufferTable s) k = Some b)" for k b
    unfolding t(3) by auto
  have "cache_inv D B s'"
    unfolding cache_inv_def
  proof (intro conjI allI impI)
    show "bucket_fit D (bufferTable s') B" using inv idx by (simp add: cache_inv_def bucket_fit_def s'_def)
    fix k b assume l: "hm_lookup (bufferTable s') k = Some b"
    have "k = ?k \<and> b = ?b \<or> (b \<noteq> ?b \<and> hm_lookup (bufferTable s) k = Some b)"
      using l lk [of k b] old [of k b] by (auto simp: s'_def split: if_splits)
    then show "\<exists>n \<in> B. k = buffer_key D n \<and> b_block (buffer_of s' b) = n \<and> b_device (buffer_of s' b) = D"
      "b < next_buffer s'" "0 < b_refCount (buffer_of s' b)" "length (b_data (buffer_of s' b)) = BLOCK_SIZE"
      "sm_locked (b_mutex (buffer_of s' b)) \<Longrightarrow> sm_pid (b_mutex (buffer_of s' b)) = pid_now s'"
      using inv n new by (auto simp: s'_def new_Buffer_def cache_inv_def less_Suc_eq)
  qed (use inv t(2) in \<open>auto simp: cache_inv_def s'_def\<close>)
  moreover have pt: "ptr D s' = (ptr D s)(n \<mapsto> ?b)"
    by (rule ext) (auto simp: ptr_def s'_def t(3) buffer_key_inj)
  moreover have "cells D s' = (cells D s)(n \<mapsto> fresh_cell\<lparr>c_ref := 1\<rparr>)"
  proof (rule ext)
    fix k
    show "cells D s' k = ((cells D s)(n \<mapsto> fresh_cell\<lparr>c_ref := 1\<rparr>)) k"
    proof (cases "k = n")
      case True
      then show ?thesis unfolding cells_def pt
        by (simp add: s'_def new new_Buffer_def cell_of_def fresh_cell_def)
    next
      case False
      have "b \<noteq> ?b" if "ptr D s k = Some b" for b using old that by (simp add: ptr_def)
      then show ?thesis using False unfolding cells_def pt
        by (cases "ptr D s k") (auto simp: s'_def)
    qed
  qed
  ultimately show ?thesis using t(1) by (auto simp: s'_def Let_def)
qed

lemma lock_buffer:
  assumes inv: "cache_inv D B s" and p: "ptr D s n = Some b"
    and c: "cells D s n = Some c" "\<not> c_lock c"
  shows "\<exists>m. sleep_lock (pid_now s) (b_mutex (buffer_of s b)) = Inr m \<and>
    (let s' = upd_buffer s b (\<lambda>x. x\<lparr>b_mutex := m\<rparr>) in
     cache_inv D B s' \<and> ptr D s' = ptr D s \<and> cells D s' = (cells D s)(n \<mapsto> c\<lparr>c_lock := True\<rparr>))"
proof -
  let ?x = "buffer_of s b"
  have c': "c = cell_of ?x" using c(1) p by (simp add: cells_def)
  define m where "m = (b_mutex ?x)\<lparr>sm_locked := True, sm_pid := pid_now s\<rparr>"
  have "sleep_lock (pid_now s) (b_mutex ?x) = Inr m"
    using c(2) c' by (simp add: sleep_lock_def cell_of_def m_def)
  moreover note upd_buffer_law [OF inv p refl, of "\<lambda>x. x\<lparr>b_mutex := m\<rparr>"]
  moreover have "cell_of (?x\<lparr>b_mutex := m\<rparr>) = c\<lparr>c_lock := True\<rparr>" by (simp add: c' cell_of_def m_def)
  ultimately show ?thesis using ptr_buffer [OF inv p] by (simp add: Let_def m_def)
qed

lemma cache_get_law:
  assumes inv: "cache_inv D B s" and n: "n \<in> B" and c: "c = cell_at D s n"
    and free: "\<not> c_lock c" "c_ref c + 1 < 2 ^ 32"
  shows "\<exists>b s'. cache_get s D n = Inr (b, s') \<and> cache_inv D B s' \<and> ptr D s' = (ptr D s)(n \<mapsto> b) \<and>
    cells D s' = (cells D s)(n \<mapsto> c\<lparr>c_ref := c_ref c + 1, c_lock := True\<rparr>) \<and> cache_frame s s'"
proof -
  have hm: "hm_invar (bufferTable s)" using inv by (simp add: cache_inv_def)
  have "\<exists>b s3. cache_inv D B s3 \<and> ptr D s3 = (ptr D s)(n \<mapsto> b) \<and>
      cells D s3 = (cells D s)(n \<mapsto> c\<lparr>c_ref := c_ref c + 1\<rparr>) \<and> cache_frame s s3 \<and>
      cache_get s D n = andThen (sleep_lock (pid_now s3) (b_mutex (buffer_of s3 b))) (\<lambda>m.
            Inr (b, upd_buffer s3 b (\<lambda>x. x\<lparr>b_mutex := m\<rparr>)))"
  proof (cases "ptr D s n")
    case None
    define new where "new = new_Buffer\<lparr>b_device := D, b_block := n, b_valid := False, b_refCount := 1\<rparr>"
    obtain t where t: "assign (bufferTable s) (buffer_key D n) 0 (next_buffer s) = Inr t"
      "let s' = s\<lparr>next_buffer := Suc (next_buffer s), buffer_of := (buffer_of s)(next_buffer s := new), bufferTable := t\<rparr>
       in cache_inv D B s' \<and> ptr D s' = (ptr D s)(n \<mapsto> next_buffer s) \<and>
          cells D s' = (cells D s)(n \<mapsto> fresh_cell\<lparr>c_ref := 1\<rparr>)"
      using insert_buffer [OF inv n None new_def] by blast
    let ?s3 = "s\<lparr>next_buffer := Suc (next_buffer s), buffer_of := (buffer_of s)(next_buffer s := new), bufferTable := t\<rparr>"
    have "c = fresh_cell" using c None by (simp add: cell_at_def cells_def)
    moreover have "cache_get s D n = andThen (sleep_lock (pid_now ?s3) (b_mutex (buffer_of ?s3 (next_buffer s)))) (\<lambda>m.
            Inr (next_buffer s, upd_buffer ?s3 (next_buffer s) (\<lambda>x. x\<lparr>b_mutex := m\<rparr>)))"
      using None t(1) contains_iff [OF hm, of "buffer_key D n"]
      by (simp add: cache_get_def Let_def ptr_def upd_buffer_def new_def new_Buffer_def)
    ultimately show ?thesis using t(2)
      by (intro exI [of _ "next_buffer s"] exI [of _ ?s3]) (simp add: Let_def cache_frame_def fresh_cell_def)
  next
    case (Some b)
    let ?f = "\<lambda>x :: buffer. x\<lparr>b_refCount := b_refCount x + 1\<rparr>"
    have c': "c = cell_of (buffer_of s b)" using c Some by (simp add: cell_at_def cells_def)
    have r: "unat (b_refCount (buffer_of s b) + 1) = unat (b_refCount (buffer_of s b)) + 1"
      using free(2) c' by (simp add: cell_of_def unat_plus_if')
    then have pos: "0 < b_refCount (buffer_of s b) + 1" by (simp add: word_less_nat_alt)
    note u = upd_buffer_law [OF inv Some refl, of ?f]
    have "cell_of (?f (buffer_of s b)) = c\<lparr>c_ref := c_ref c + 1\<rparr>" using r by (simp add: c' cell_of_def)
    moreover have "s\<lparr>bufferTable := bufferTable s\<rparr> = s" by simp
    then have "cache_get s D n = andThen (sleep_lock (pid_now (upd_buffer s b ?f)) (b_mutex (buffer_of (upd_buffer s b ?f) b))) (\<lambda>m.
            Inr (b, upd_buffer (upd_buffer s b ?f) b (\<lambda>x. x\<lparr>b_mutex := m\<rparr>)))"
      using Some contains_iff [OF hm, of "buffer_key D n"] subscript_present [OF hm, of "buffer_key D n" b 0]
      by (simp add: cache_get_def Let_def ptr_def)
    ultimately show ?thesis
      using u ptr_buffer [OF inv Some] pos Some
      by (intro exI [of _ b] exI [of _ "upd_buffer s b ?f"]) (simp add: fun_upd_idem)
  qed
  then obtain b s3 where s3: "cache_inv D B s3" "ptr D s3 = (ptr D s)(n \<mapsto> b)"
      "cells D s3 = (cells D s)(n \<mapsto> c\<lparr>c_ref := c_ref c + 1\<rparr>)" "cache_frame s s3"
      "cache_get s D n = andThen (sleep_lock (pid_now s3) (b_mutex (buffer_of s3 b))) (\<lambda>m.
            Inr (b, upd_buffer s3 b (\<lambda>x. x\<lparr>b_mutex := m\<rparr>)))" by blast
  have pc: "ptr D s3 n = Some b" "cells D s3 n = Some (c\<lparr>c_ref := c_ref c + 1\<rparr>)" "\<not> c_lock (c\<lparr>c_ref := c_ref c + 1\<rparr>)"
    using s3(2,3) free(1) by simp_all
  from lock_buffer [OF s3(1) pc] obtain m where
    "sleep_lock (pid_now s3) (b_mutex (buffer_of s3 b)) = Inr m"
    "let s' = upd_buffer s3 b (\<lambda>x. x\<lparr>b_mutex := m\<rparr>) in cache_inv D B s' \<and> ptr D s' = ptr D s3 \<and>
       cells D s' = (cells D s3)(n \<mapsto> c\<lparr>c_ref := c_ref c + 1, c_lock := True\<rparr>)" by auto
  then show ?thesis
    using s3 cache_frame_trans [OF s3(4) upd_buffer_frame] by (auto simp: Let_def)
qed

lemma buffer_read_law:
  assumes inv: "cache_inv D B s" and p: "ptr D s n = Some b" and c: "cells D s n = Some c"
  shows "cache_inv D B (buffer_read s b)" "ptr D (buffer_read s b) = ptr D s"
    "cells D (buffer_read s b) =
       (cells D s)(n \<mapsto> c\<lparr>c_data := Some (case c_data c of None \<Rightarrow> disk_blocks s n | Some d \<Rightarrow> d)\<rparr>)"
    "cache_frame s (buffer_read s b)"
proof -
  let ?x = "buffer_of s b"
  have c': "c = cell_of ?x" using c p by (simp add: cells_def)
  note x = ptr_buffer [OF inv p]
  have "length (disk_blocks s n) = BLOCK_SIZE" using inv by (simp add: cache_inv_def)
  moreover have "buffer_read s b = (if b_valid ?x then s else
      upd_buffer s b (\<lambda>x. x\<lparr>b_data := disk_blocks s n, b_valid := True\<rparr>))"
    using x(2) by (simp add: buffer_read_def diskRead_def upd_buffer_def)
  moreover note upd_buffer_law [OF inv p refl, of "\<lambda>x. x\<lparr>b_data := disk_blocks s n, b_valid := True\<rparr>"]
  ultimately show "cache_inv D B (buffer_read s b)" "ptr D (buffer_read s b) = ptr D s"
    "cells D (buffer_read s b) =
       (cells D s)(n \<mapsto> c\<lparr>c_data := Some (case c_data c of None \<Rightarrow> disk_blocks s n | Some d \<Rightarrow> d)\<rparr>)"
    "cache_frame s (buffer_read s b)"
    using inv x c c' by (auto simp: cell_of_def fun_upd_idem)
qed

lemma set_data_law:
  assumes inv: "cache_inv D B s" and p: "ptr D s n = Some b" and c: "cells D s n = Some c" "c_data c = Some d0"
    and d: "length d = BLOCK_SIZE"
  shows "cache_inv D B (set_data s b d)" "ptr D (set_data s b d) = ptr D s"
    "cells D (set_data s b d) = (cells D s)(n \<mapsto> c\<lparr>c_data := Some d\<rparr>)"
    "cache_frame s (set_data s b d)"
proof -
  let ?x = "buffer_of s b"
  have c': "c = cell_of ?x" using c p by (simp add: cells_def)
  then have v: "b_valid ?x" using c(2) by (simp add: cell_of_def split: if_splits)
  note u = upd_buffer_law [OF inv p refl, of "\<lambda>x. x\<lparr>b_data := d\<rparr>"]
  show "cache_inv D B (set_data s b d)" "ptr D (set_data s b d) = ptr D s"
    "cells D (set_data s b d) = (cells D s)(n \<mapsto> c\<lparr>c_data := Some d\<rparr>)" "cache_frame s (set_data s b d)"
    unfolding set_data_def using u ptr_buffer [OF inv p] d v c' by (simp_all add: cell_of_def)
qed

lemma buffer_data:
  "ptr D s n = Some b \<Longrightarrow> cells D s n = Some c \<Longrightarrow> c_data c = Some d \<Longrightarrow> b_data (buffer_of s b) = d"
  by (auto simp: cells_def cell_of_def split: if_splits)

lemma holding_cell:
  assumes "cache_inv D B s" "ptr D s n = Some b" "cells D s n = Some c" "c_lock c"
  shows "sleep_holding (pid_now s) (b_mutex (buffer_of s b))"
  using assms ptr_buffer(7) [OF assms(1,2)] by (auto simp: sleep_holding_def cells_def cell_of_def)

lemma buffer_write_law:
  assumes inv: "cache_inv D B s" and p: "ptr D s n = Some b" and c: "cells D s n = Some c" "c_data c = Some d" "c_lock c"
  shows "\<exists>s'. buffer_write s b = Inr s' \<and> cache_inv D B s' \<and> ptr D s' = ptr D s \<and> cells D s' = cells D s \<and>
    disk_blocks s' = (disk_blocks s)(n := d) \<and> disk_trace s' = disk_trace s @ [(n, d)] \<and>
    pid_now s' = pid_now s \<and> cache_state.more s' = cache_state.more s"
proof -
  let ?s = "diskWrite s b"
  have d: "b_data (buffer_of s b) = d" "b_block (buffer_of s b) = n" "length d = BLOCK_SIZE"
    using buffer_data [OF p c(1,2)] ptr_buffer [OF inv p] by auto
  have eq: "bufferTable ?s = bufferTable s" "buffer_of ?s = buffer_of s" "next_buffer ?s = next_buffer s"
    by (simp_all add: diskWrite_def Let_def)
  have "cache_inv D B ?s"
    using inv d eq by (auto simp: cache_inv_def) (simp_all add: diskWrite_def Let_def)
  moreover have "ptr D ?s = ptr D s" "cells D ?s = cells D s"
    by (rule ext, simp add: cells_def ptr_def eq)+
  ultimately show ?thesis
    using holding_cell [OF inv p c(1,3)] d by (simp add: buffer_write_def) (simp add: diskWrite_def Let_def)
qed

lemma cache_pin_law:
  assumes inv: "cache_inv D B s" and p: "ptr D s n = Some b" and c: "cells D s n = Some c" "c_ref c + 1 < 2 ^ 32"
  shows "cache_inv D B (cache_pin s b)" "ptr D (cache_pin s b) = ptr D s"
    "cells D (cache_pin s b) = (cells D s)(n \<mapsto> c\<lparr>c_ref := c_ref c + 1\<rparr>)" "cache_frame s (cache_pin s b)"
proof -
  let ?f = "\<lambda>x :: buffer. x\<lparr>b_refCount := b_refCount x + 1\<rparr>"
  have c': "c = cell_of (buffer_of s b)" using c(1) p by (simp add: cells_def)
  have r: "unat (b_refCount (buffer_of s b) + 1) = unat (b_refCount (buffer_of s b)) + 1"
    using c(2) c' by (simp add: cell_of_def unat_plus_if')
  then have "0 < b_refCount (buffer_of s b) + 1" by (simp add: word_less_nat_alt)
  moreover note upd_buffer_law [OF inv p refl, of ?f]
  moreover have "cell_of (?f (buffer_of s b)) = c\<lparr>c_ref := c_ref c + 1\<rparr>" using r by (simp add: c' cell_of_def)
  ultimately show "cache_inv D B (cache_pin s b)" "ptr D (cache_pin s b) = ptr D s"
    "cells D (cache_pin s b) = (cells D s)(n \<mapsto> c\<lparr>c_ref := c_ref c + 1\<rparr>)" "cache_frame s (cache_pin s b)"
    unfolding cache_pin_def using ptr_buffer [OF inv p] by simp_all
qed

text \<open>\<open>unpin\<close> keeps the buffer: the callers hold another reference.\<close>

lemma cache_unpin_law:
  assumes inv: "cache_inv D B s" and p: "ptr D s n = Some b" and c: "cells D s n = Some c" "2 \<le> c_ref c"
  shows "\<exists>s'. cache_unpin s b = Inr s' \<and> cache_inv D B s' \<and> ptr D s' = ptr D s \<and>
    cells D s' = (cells D s)(n \<mapsto> c\<lparr>c_ref := c_ref c - 1\<rparr>) \<and> cache_frame s s'"
proof -
  let ?f = "\<lambda>x :: buffer. x\<lparr>b_refCount := b_refCount x - 1\<rparr>"
  let ?r = "b_refCount (buffer_of s b)"
  have c': "c = cell_of (buffer_of s b)" using c(1) p by (simp add: cells_def)
  then have r: "2 \<le> unat ?r" using c(2) by (simp add: cell_of_def)
  then have "?r \<noteq> 0" by auto
  then have r1: "unat (?r - 1) = unat ?r - 1" by (rule unat_pred)
  then have "0 < ?r - 1" "1 \<le> ?r" using r by (simp_all add: word_less_nat_alt word_le_nat_alt)
  moreover note upd_buffer_law [OF inv p refl, of ?f]
  moreover have "cell_of (?f (buffer_of s b)) = c\<lparr>c_ref := c_ref c - 1\<rparr>" using r1 by (simp add: c' cell_of_def)
  ultimately show ?thesis
    unfolding cache_unpin_def using ptr_buffer [OF inv p] by simp
qed

text \<open>A buffer that nobody uses any more leaves the table, and the others stay as they are.\<close>

lemma drop_buffer_law:
  assumes inv: "cache_inv D B s" and p: "ptr D s n = Some b"
  shows "\<exists>t. erase (bufferTable s) (buffer_key D n) = Inr t \<and>
    cache_inv D B (upd_buffer s b f\<lparr>bufferTable := t\<rparr>) \<and>
    ptr D (upd_buffer s b f\<lparr>bufferTable := t\<rparr>) = (ptr D s)(n := None) \<and>
    cells D (upd_buffer s b f\<lparr>bufferTable := t\<rparr>) = (cells D s)(n := None)"
proof -
  let ?k = "buffer_key D n"
  note x = ptr_buffer [OF inv p]
  have hm: "hm_invar (bufferTable s)" using inv by (simp add: cache_inv_def)
  define t where "t = hm_set_chain (bufferTable s) ?k (unlink ?k (hm_chain (bufferTable s) ?k))"
  have t: "erase (bufferTable s) ?k = Inr t" "hm_invar t" "hm_lookup t = (hm_lookup (bufferTable s))(?k := None)"
    unfolding t_def using hm by (simp_all add: erase_chain erase_invar erase_lookup)
  have idx: "index_of t k = index_of (bufferTable s) k" for k by (simp add: t_def)
  define s' where "s' = upd_buffer s b f\<lparr>bufferTable := t\<rparr>"
  have old: "hm_lookup (bufferTable s) k = Some d \<and> d \<noteq> b" if "hm_lookup t k = Some d" for k d
  proof -
    have l: "hm_lookup (bufferTable s) k = Some d" "k \<noteq> ?k" using that t(3) by (auto split: if_splits)
    then show ?thesis using inv x(2) by (auto simp: cache_inv_def)
  qed
  have same: "buffer_of s' d = buffer_of s d" if "d \<noteq> b" for d using that by (simp add: s'_def)
  have "cache_inv D B s'"
    unfolding cache_inv_def
  proof (intro conjI allI impI)
    show "bucket_fit D (bufferTable s') B" using inv idx by (simp add: cache_inv_def bucket_fit_def s'_def)
    fix k d assume "hm_lookup (bufferTable s') k = Some d"
    then have o: "hm_lookup (bufferTable s) k = Some d" "d \<noteq> b" using old by (auto simp: s'_def)
    have n: "next_buffer s' = next_buffer s" "pid_now s' = pid_now s" by (simp_all add: s'_def)
    show "\<exists>n \<in> B. k = buffer_key D n \<and> b_block (buffer_of s' d) = n \<and> b_device (buffer_of s' d) = D"
      "d < next_buffer s'" "0 < b_refCount (buffer_of s' d)" "length (b_data (buffer_of s' d)) = BLOCK_SIZE"
      "sm_locked (b_mutex (buffer_of s' d)) \<Longrightarrow> sm_pid (b_mutex (buffer_of s' d)) = pid_now s'"
      unfolding same [OF o(2)] n using inv o(1) by (auto simp: cache_inv_def)
  qed (use inv t(2) in \<open>auto simp: cache_inv_def s'_def\<close>)
  moreover have pt: "ptr D s' = (ptr D s)(n := None)"
    by (rule ext) (simp add: ptr_def s'_def t(3) buffer_key_inj)
  moreover have "cells D s' = (cells D s)(n := None)"
  proof (rule ext)
    fix k
    have "d \<noteq> b" if "ptr D s k = Some d" "k \<noteq> n" for d using that ptr_unique [OF inv p] by auto
    then show "cells D s' k = ((cells D s)(n := None)) k"
      using same unfolding cells_def pt by (cases "ptr D s k") auto
  qed
  ultimately show ?thesis unfolding s'_def using t(1) by blast
qed

lemma cache_release_law:
  assumes inv: "cache_inv D B s" and p: "ptr D s n = Some b" and c: "cells D s n = Some c" "c_lock c"
  shows "\<exists>s'. cache_release s b = Inr s' \<and> cache_inv D B s' \<and>
    (\<forall>k. k \<noteq> n \<longrightarrow> ptr D s' k = ptr D s k) \<and>
    cells D s' = (cells D s)(n := (if c_ref c = 1 then None else Some (c\<lparr>c_ref := c_ref c - 1, c_lock := False\<rparr>))) \<and>
    cache_frame s s'"
proof -
  let ?x = "buffer_of s b" and ?f = "\<lambda>x. x\<lparr>b_mutex := sleep_unlock (b_mutex x), b_refCount := b_refCount x - 1\<rparr>"
  let ?y = "?f ?x" and ?s2 = "upd_buffer s b ?f"
  have c': "c = cell_of ?x" using c(1) p by (simp add: cells_def)
  note x = ptr_buffer [OF inv p]
  have r0: "b_refCount ?x \<noteq> 0" using x(5) by auto
  have r1: "unat (b_refCount ?x - 1) = unat (b_refCount ?x) - 1" using r0 by (rule unat_pred)
  have rel: "cache_release s b = (if b_refCount ?y = 0
      then andThen (erase (bufferTable s) (buffer_key D n)) (\<lambda>t. Inr (?s2\<lparr>bufferTable := t\<rparr>)) else Inr ?s2)"
    using holding_cell [OF inv p c] x(2,3) by (simp add: cache_release_def Let_def upd_buffer_def)
  have one: "b_refCount ?y = 0 \<longleftrightarrow> c_ref c = 1" using r0 r1 c' by (auto simp: cell_of_def word_unat_eq_iff)
  show ?thesis
  proof (cases "c_ref c = 1")
    case False
    have pos: "0 < b_refCount ?y" using False one by (simp add: word_gt_0)
    have "cell_of ?y = c\<lparr>c_ref := c_ref c - 1, c_lock := False\<rparr>" using r1 by (simp add: c' cell_of_def sleep_unlock_def)
    then show ?thesis
      using rel one False upd_buffer_law [OF inv p refl, of ?f] pos x by (simp add: sleep_unlock_def)
  next
    case True
    obtain t where t: "erase (bufferTable s) (buffer_key D n) = Inr t" "cache_inv D B (?s2\<lparr>bufferTable := t\<rparr>)"
      "ptr D (?s2\<lparr>bufferTable := t\<rparr>) = (ptr D s)(n := None)" "cells D (?s2\<lparr>bufferTable := t\<rparr>) = (cells D s)(n := None)"
      using drop_buffer_law [OF inv p, of ?f] by blast
    then show ?thesis
      using rel one True by (intro exI [of _ "?s2\<lparr>bufferTable := t\<rparr>"]) (simp add: cache_frame_def)
  qed
qed

section \<open>Contract of a block cache\<close>

text \<open>The contents of a block as its users see them, and the state of a block nobody works on.\<close>

definition view_of :: "(u32 \<Rightarrow> cell option) \<Rightarrow> (u32 \<Rightarrow> u8 list) \<Rightarrow> u32 \<Rightarrow> u8 list" where
  "view_of l d n = (case l n of None \<Rightarrow> d n | Some c \<Rightarrow> (case c_data c of None \<Rightarrow> d n | Some x \<Rightarrow> x))"

definition idle :: "(u32 \<Rightarrow> cell option) \<Rightarrow> u32 \<Rightarrow> bool" where
  "idle l n \<longleftrightarrow> (case l n of None \<Rightarrow> True | Some c \<Rightarrow> \<not> c_lock c \<and> 0 < c_ref c \<and> c_ref c + 2 < 2 ^ 32)"

definition held_cell :: "(u32 \<Rightarrow> cell option) \<Rightarrow> (u32 \<Rightarrow> u8 list) \<Rightarrow> u32 \<Rightarrow> cell" where
  "held_cell l d n = \<lparr>c_data = Some (view_of l d n),
     c_ref = (case l n of None \<Rightarrow> 1 | Some c \<Rightarrow> c_ref c + 1), c_lock = True\<rparr>"

text \<open>
  What the log, the bitmap and the inodes rely on. \<open>look s n\<close> is the client's view of block \<open>n\<close>;
  a block in use can be fetched, and releasing it takes the reference back.
\<close>

locale block_cache =
  fixes ok :: "'s \<Rightarrow> bool"
    and blocks :: "u32 set"
    and at :: "'s \<Rightarrow> u32 \<Rightarrow> 'b option"
    and look :: "'s \<Rightarrow> u32 \<Rightarrow> cell option"
    and disk :: "'s \<Rightarrow> u32 \<Rightarrow> u8 list"
    and frame :: "'s \<Rightarrow> 's \<Rightarrow> bool"
    and get :: "'s \<Rightarrow> u32 \<Rightarrow> ('b \<times> 's) outcome"
    and fill :: "'s \<Rightarrow> 'b \<Rightarrow> 's"
    and release :: "'s \<Rightarrow> 'b \<Rightarrow> 's outcome"
    and bytes :: "'s \<Rightarrow> 'b \<Rightarrow> u8 list"
  assumes get_law: "ok s \<Longrightarrow> n \<in> blocks \<Longrightarrow> c = (case look s n of None \<Rightarrow> fresh_cell | Some c \<Rightarrow> c) \<Longrightarrow>
      \<not> c_lock c \<Longrightarrow> c_ref c + 1 < 2 ^ 32 \<Longrightarrow>
      \<exists>b s'. get s n = Inr (b, s') \<and> ok s' \<and> at s' = (at s)(n \<mapsto> b) \<and>
        look s' = (look s)(n \<mapsto> c\<lparr>c_ref := c_ref c + 1, c_lock := True\<rparr>) \<and> frame s s'"
    and fill_law: "ok s \<Longrightarrow> at s n = Some b \<Longrightarrow> look s n = Some c \<Longrightarrow>
      ok (fill s b) \<and> at (fill s b) = at s \<and> frame s (fill s b) \<and>
      look (fill s b) = (look s)(n \<mapsto> c\<lparr>c_data := Some (case c_data c of None \<Rightarrow> disk s n | Some d \<Rightarrow> d)\<rparr>)"
    and release_law: "ok s \<Longrightarrow> at s n = Some b \<Longrightarrow> look s n = Some c \<Longrightarrow> c_lock c \<Longrightarrow>
      \<exists>s'. release s b = Inr s' \<and> ok s' \<and> (\<forall>k. k \<noteq> n \<longrightarrow> at s' k = at s k) \<and> frame s s' \<and>
        look s' = (look s)(n := (if c_ref c = 1 then None else Some (c\<lparr>c_ref := c_ref c - 1, c_lock := False\<rparr>)))"
    and bytes_law: "at s n = Some b \<Longrightarrow> look s n = Some c \<Longrightarrow> c_data c = Some d \<Longrightarrow> bytes s b = d"
    and frame_trans: "frame s1 s2 \<Longrightarrow> frame s2 s3 \<Longrightarrow> frame s1 s3"
    and frame_disk: "frame s1 s2 \<Longrightarrow> disk s2 = disk s1"
begin

text \<open>\<open>get\<close> and \<open>read\<close>: the caller holds the block, with its contents.\<close>

lemma fetch:
  assumes "ok s" "n \<in> blocks" "idle (look s) n"
  shows "\<exists>b s1. get s n = Inr (b, s1) \<and> ok (fill s1 b) \<and> at (fill s1 b) = (at s)(n \<mapsto> b) \<and>
    look (fill s1 b) = (look s)(n \<mapsto> held_cell (look s) (disk s) n) \<and> frame s (fill s1 b) \<and> bytes (fill s1 b) b = view_of (look s) (disk s) n"
proof -
  let ?c = "case look s n of None \<Rightarrow> fresh_cell | Some c \<Rightarrow> c"
  have "\<not> c_lock ?c" "c_ref ?c + 1 < 2 ^ 32"
    using assms(3) by (auto simp: idle_def fresh_cell_def split: option.splits)
  then obtain b s1 where s1: "get s n = Inr (b, s1)" "ok s1" "at s1 = (at s)(n \<mapsto> b)"
    "look s1 = (look s)(n \<mapsto> ?c\<lparr>c_ref := c_ref ?c + 1, c_lock := True\<rparr>)" "frame s s1"
    using get_law [OF assms(1,2) refl] by blast
  have d: "disk s1 = disk s" using frame_disk [OF s1(5)] .
  have "at s1 n = Some b" "look s1 n = Some (?c\<lparr>c_ref := c_ref ?c + 1, c_lock := True\<rparr>)" using s1 by auto
  note fl = fill_law [OF s1(2) this]
  have l: "look (fill s1 b) = (look s)(n \<mapsto> held_cell (look s) (disk s) n)"
    using fl s1(4) d
    by (cases "look s n"; cases "the (look s n)") (auto simp: held_cell_def view_of_def fresh_cell_def split: option.split)
  moreover have "bytes (fill s1 b) b = view_of (look s) (disk s) n"
  proof (rule bytes_law)
    show "at (fill s1 b) n = Some b" using fl s1(3) by simp
    show "look (fill s1 b) n = Some (held_cell (look s) (disk s) n)" by (simp add: l)
  qed (simp add: held_cell_def)
  moreover have "frame s (fill s1 b)" using s1(5) fl frame_trans by blast
  ultimately show ?thesis using s1(1,3) fl by (intro exI [of _ b] exI [of _ s1]) simp
qed

text \<open>\<open>get\<close>, \<open>read\<close>, look at the data, \<open>release\<close>: the view of every block is as before.\<close>

lemma fetch_release:
  assumes "ok s" "n \<in> blocks" "idle (look s) n"
  shows "\<exists>b s1 s2. get s n = Inr (b, s1) \<and> bytes (fill s1 b) b = view_of (look s) (disk s) n \<and> release (fill s1 b) b = Inr s2 \<and>
    ok s2 \<and> frame s s2 \<and> view_of (look s2) (disk s2) = view_of (look s) (disk s) \<and>
    (\<forall>k. k \<noteq> n \<longrightarrow> look s2 k = look s k) \<and> (look s n = None \<longrightarrow> look s2 n = None) \<and>
    (\<forall>c. look s n = Some c \<longrightarrow> look s2 n = Some (c\<lparr>c_data := Some (view_of (look s) (disk s) n)\<rparr>))"
proof -
  obtain b s1 where s1: "get s n = Inr (b, s1)" "ok (fill s1 b)" "at (fill s1 b) = (at s)(n \<mapsto> b)"
    "look (fill s1 b) = (look s)(n \<mapsto> held_cell (look s) (disk s) n)" "frame s (fill s1 b)" "bytes (fill s1 b) b = view_of (look s) (disk s) n"
    using fetch [OF assms] by blast
  have "at (fill s1 b) n = Some b" "look (fill s1 b) n = Some (held_cell (look s) (disk s) n)" "c_lock (held_cell (look s) (disk s) n)"
    using s1 by (auto simp: held_cell_def)
  from release_law [OF s1(2) this] obtain s2 where s2: "release (fill s1 b) b = Inr s2" "ok s2" "frame (fill s1 b) s2"
    "look s2 = (look (fill s1 b))(n := (if c_ref (held_cell (look s) (disk s) n) = 1 then None
       else Some ((held_cell (look s) (disk s) n)\<lparr>c_ref := c_ref (held_cell (look s) (disk s) n) - 1, c_lock := False\<rparr>)))" by blast
  have fr: "frame s s2" using s1(5) s2(3) frame_trans by blast
  have some: "look s2 n = Some (c\<lparr>c_data := Some (view_of (look s) (disk s) n)\<rparr>)" if "look s n = Some c" for c
    using s2(4) that assms(3) by (cases c) (auto simp: held_cell_def idle_def)
  have none: "look s2 n = None" if "look s n = None" using s2(4) that by (simp add: held_cell_def)
  have other: "look s2 k = look s k" if "k \<noteq> n" for k using s2(4) s1(4) that by simp
  have "view_of (look s2) (disk s2) k = view_of (look s) (disk s) k" for k
    using other [of k] some none frame_disk [OF fr]
    by (cases "k = n"; cases "look s n") (auto simp: view_of_def split: option.splits)
  then have "view_of (look s2) (disk s2) = view_of (look s) (disk s)" by (rule ext)
  then show ?thesis
    using s1(1,6) s2(1,2) fr some none other
    by (intro exI [of _ b] exI [of _ s1] exI [of _ s2]) simp
qed

end

interpretation bc: block_cache "cache_inv D B" B "ptr D" "cells D" disk_blocks cache_frame
  "\<lambda>s n. cache_get s D n" buffer_read cache_release "\<lambda>s b. b_data (buffer_of s b)"
  for D B
proof unfold_locales
  show "\<exists>b s'. cache_get s D n = Inr (b, s') \<and> cache_inv D B s' \<and> ptr D s' = (ptr D s)(n \<mapsto> b) \<and>
      cells D s' = (cells D s)(n \<mapsto> c\<lparr>c_ref := c_ref c + 1, c_lock := True\<rparr>) \<and> cache_frame s s'"
    if "cache_inv D B s" "n \<in> B" "c = (case cells D s n of None \<Rightarrow> fresh_cell | Some c \<Rightarrow> c)" "\<not> c_lock c"
      "c_ref c + 1 < 2 ^ 32" for s :: "'a cache_state_scheme" and n c
    using cache_get_law [OF that(1,2) _ that(4,5)] that(3) by (simp add: cell_at_def)
  show "cache_inv D B (buffer_read s b) \<and> ptr D (buffer_read s b) = ptr D s \<and> cache_frame s (buffer_read s b) \<and>
      cells D (buffer_read s b) =
        (cells D s)(n \<mapsto> c\<lparr>c_data := Some (case c_data c of None \<Rightarrow> disk_blocks s n | Some d \<Rightarrow> d)\<rparr>)"
    if "cache_inv D B s" "ptr D s n = Some b" "cells D s n = Some c" for s :: "'a cache_state_scheme" and n b c
    using buffer_read_law [OF that] by simp
  show "\<exists>s'. cache_release s b = Inr s' \<and> cache_inv D B s' \<and> (\<forall>k. k \<noteq> n \<longrightarrow> ptr D s' k = ptr D s k) \<and>
      cache_frame s s' \<and>
      cells D s' = (cells D s)(n := (if c_ref c = 1 then None else Some (c\<lparr>c_ref := c_ref c - 1, c_lock := False\<rparr>)))"
    if "cache_inv D B s" "ptr D s n = Some b" "cells D s n = Some c" "c_lock c" for s :: "'a cache_state_scheme" and n b c
    using cache_release_law [OF that] by blast
  show "b_data (buffer_of s b) = d"
    if "ptr D s n = Some b" "cells D s n = Some c" "c_data c = Some d" for s :: "'a cache_state_scheme" and n b c d
    using buffer_data [OF that] .
qed (auto simp: cache_frame_def)

section \<open>Properties\<close>

text \<open>
  C10: the cache refines a map from blocks to cells. For the blocks in use (no three in one bucket
  of the table) \<open>get\<close> returns the one buffer of the block, new and not yet valid if it was not cached,
  with one more reference and locked; \<open>read\<close> fills it from the disk once; \<open>release\<close> unlocks it, takes
  the reference back and drops the buffer with the last one. All other blocks are untouched.
\<close>

theorem buffer_cache_refines_cells:
  assumes "cache_inv D B s" "n \<in> B" "idle (cells D s) n"
  shows "\<exists>b s1 s2. cache_get s D n = Inr (b, s1) \<and> cells D s1 = (cells D s)(n \<mapsto>
        (case cells D s n of None \<Rightarrow> \<lparr>c_data = None, c_ref = 1, c_lock = True\<rparr>
                           | Some c \<Rightarrow> c\<lparr>c_ref := c_ref c + 1, c_lock := True\<rparr>)) \<and>
    cells D (buffer_read s1 b) = (cells D s)(n \<mapsto> held_cell (cells D s) (disk_blocks s) n) \<and>
    b_data (buffer_of (buffer_read s1 b) b) = view_of (cells D s) (disk_blocks s) n \<and>
    cache_release (buffer_read s1 b) b = Inr s2 \<and> cache_inv D B s2 \<and> cache_frame s s2 \<and>
    cells D s2 = (cells D s)(n := map_option (\<lambda>c. c\<lparr>c_data := Some (view_of (cells D s) (disk_blocks s) n)\<rparr>) (cells D s n))"
proof -
  let ?c = "cell_at D s n"
  have c: "\<not> c_lock ?c" "c_ref ?c + 1 < 2 ^ 32"
    using assms(3) by (auto simp: idle_def cell_at_def fresh_cell_def split: option.splits)
  obtain b s1 where g: "cache_get s D n = Inr (b, s1)" "cells D s1 = (cells D s)(n \<mapsto> ?c\<lparr>c_ref := c_ref ?c + 1, c_lock := True\<rparr>)"
    using cache_get_law [OF assms(1,2) refl c] by blast
  have "?c\<lparr>c_ref := c_ref ?c + 1, c_lock := True\<rparr> =
      (case cells D s n of None \<Rightarrow> \<lparr>c_data = None, c_ref = 1, c_lock = True\<rparr>
                         | Some c \<Rightarrow> c\<lparr>c_ref := c_ref c + 1, c_lock := True\<rparr>)"
    by (simp add: cell_at_def fresh_cell_def split: option.split)
  moreover have "cells D (buffer_read s1 b) = (cells D s)(n \<mapsto> held_cell (cells D s) (disk_blocks s) n)"
    using bc.fetch [OF assms] g(1) by auto
  moreover obtain s2 where s2: "b_data (buffer_of (buffer_read s1 b) b) = view_of (cells D s) (disk_blocks s) n"
    "cache_release (buffer_read s1 b) b = Inr s2" "cache_inv D B s2" "cache_frame s s2"
    "\<forall>k. k \<noteq> n \<longrightarrow> cells D s2 k = cells D s k" "cells D s n = None \<longrightarrow> cells D s2 n = None"
    "\<forall>c. cells D s n = Some c \<longrightarrow> cells D s2 n = Some (c\<lparr>c_data := Some (view_of (cells D s) (disk_blocks s) n)\<rparr>)"
    using bc.fetch_release [OF assms] g(1) by auto
  moreover have "cells D s2 =
      (cells D s)(n := map_option (\<lambda>c. c\<lparr>c_data := Some (view_of (cells D s) (disk_blocks s) n)\<rparr>) (cells D s n))"
  proof (rule ext)
    fix k
    show "cells D s2 k = ((cells D s)(n := map_option (\<lambda>c. c\<lparr>c_data := Some (view_of (cells D s) (disk_blocks s) n)\<rparr>) (cells D s n))) k"
      using s2(5-7) by (cases "k = n"; cases "cells D s n") auto
  qed
  ultimately show ?thesis using g by (intro exI [of _ b] exI [of _ s1] exI [of _ s2]) simp
qed

text \<open>An empty cache over a disk of zeros.\<close>

definition example_cache :: "cache_state" where
  "example_cache =
     \<lparr>pid_now = 1, disk_blocks = (\<lambda>_. replicate BLOCK_SIZE 0), disk_trace = [], buffer_of = (\<lambda>_. new_Buffer),
      next_buffer = 0,
      bufferTable = \<lparr>makeHash = (\<lambda>k. k), capacity = 8, capacityMask = 255, nodes = replicate 256 []\<rparr>\<rparr>"

lemma example_cache_inv:
  assumes "finite B" "card B \<le> 2"
  shows "cache_inv 1 B example_cache" "cells 1 example_cache n = None"
proof -
  let ?t = "bufferTable example_cache"
  have m: "(255 :: u64) = mask 8" by (simp add: mask_eq_exp_minus_1)
  have inv: "hm_invar ?t" by (simp add: hm_invar_def example_cache_def m)
  have "index_of ?t k < 256" for k using index_in_bounds [OF inv] by (simp add: example_cache_def)
  then have none: "hm_lookup ?t k = None" for k by (simp add: hm_lookup_def hm_chain_def example_cache_def)
  have "card {k \<in> B. index_of ?t (buffer_key 1 k) = index_of ?t (buffer_key 1 n)} \<le> 2" for n
    using card_mono [OF assms(1), of "{k \<in> B. index_of ?t (buffer_key 1 k) = index_of ?t (buffer_key 1 n)}"] assms(2)
    by (simp add: le_trans)
  then show "cache_inv 1 B example_cache"
    using inv none assms(1) by (simp add: cache_inv_def bucket_fit_def) (simp add: example_cache_def)
  show "cells 1 example_cache n = None" by (simp add: cells_def ptr_def none)
qed

theorem buffer_cache_refines_cells_witness:
  "\<exists>b s1 s2. cache_get example_cache 1 7 = Inr (b, s1) \<and> cache_release (buffer_read s1 b) b = Inr s2 \<and>
     b_data (buffer_of (buffer_read s1 b) b) = replicate BLOCK_SIZE 0 \<and> cells 1 s2 7 = None"
proof -
  have i: "cache_inv 1 {7} example_cache" "cells 1 example_cache 7 = None" 
    using example_cache_inv [of "{7}"] by simp_all
  then have "idle (cells 1 example_cache) 7" by (simp add: idle_def)
  moreover have "view_of (cells 1 example_cache) (disk_blocks example_cache) 7 = replicate BLOCK_SIZE 0"
    using i(2) by (simp add: view_of_def) (simp add: example_cache_def)
  ultimately show ?thesis using buffer_cache_refines_cells [OF i(1), of 7] i(2) by auto
qed

end
