(* ===== verification/Fs_Log.thy ===== *)
theory Fs_Log
  imports Fs_Buffer
begin

unbundle bit_operations_syntax

text \<open>
  The write-ahead log, \<open>kernel/fs/log.cpp\<close>, on the buffer cache. The global \<open>log\<close> extends the state
  of the cache; \<open>log.start\<close> is kept at the 32 bits that reach \<open>BufferCache::get\<close>. A \<open>beginOp\<close> that
  has to wait ends in \<open>Sleeping\<close>; \<open>wakeup\<close> calls belong to the scheduler and change nothing here.
  A write of one block is atomic with respect to a crash.
\<close>

section \<open>Integers in blocks\<close>

definition put_bytes :: "u8 list \<Rightarrow> nat \<Rightarrow> u8 list \<Rightarrow> u8 list" where
  "put_bytes d off bs = take off d @ bs @ drop (off + length bs) d"

definition get_bytes :: "u8 list \<Rightarrow> nat \<Rightarrow> nat \<Rightarrow> u8 list" where
  "get_bytes d off n = take n (drop off d)"

definition get32 :: "u8 list \<Rightarrow> nat \<Rightarrow> u32" where
  "get32 d off = word_of_bytes (get_bytes d off 4)"

definition put32 :: "u8 list \<Rightarrow> nat \<Rightarrow> u32 \<Rightarrow> u8 list" where
  "put32 d off v = put_bytes d off (bytes_of_word 4 v)"

definition get64 :: "u8 list \<Rightarrow> nat \<Rightarrow> u64" where
  "get64 d off = word_of_bytes (get_bytes d off 8)"

definition put64 :: "u8 list \<Rightarrow> nat \<Rightarrow> u64 \<Rightarrow> u8 list" where
  "put64 d off v = put_bytes d off (bytes_of_word 8 v)"

section \<open>Model\<close>

definition MAX_OP_BLOCKS :: nat where "MAX_OP_BLOCKS = 10"

definition LOG_SIZE :: nat where "LOG_SIZE = MAX_OP_BLOCKS * 3"

record log_state = cache_state +
  log_start :: u32
  log_size :: u64
  outstanding :: int
  committing :: bool
  log_device :: u32
  header_n :: u64
  header_block :: "u32 list"

type_synonym 'a lstate = "'a log_state_scheme"

text \<open>\<open>LogHeader\<close> in a block: \<open>n\<close> in the first eight bytes, then the array of block numbers.\<close>

fun put_blocks :: "u8 list \<Rightarrow> nat \<Rightarrow> u32 list \<Rightarrow> u8 list" where
  "put_blocks d i [] = d"
| "put_blocks d i (b # bs) = put_blocks (put32 d (8 + 4 * i) b) (Suc i) bs"

definition get_blocks :: "u8 list \<Rightarrow> nat \<Rightarrow> u32 list" where
  "get_blocks d n = map (\<lambda>i. get32 d (8 + 4 * i)) [0..<n]"

definition put_header :: "u8 list \<Rightarrow> u64 \<Rightarrow> u32 list \<Rightarrow> u8 list" where
  "put_header d n bs = put_blocks (put64 d 0 n) 0 (take (unat n) bs)"

text \<open>\<open>readHead\<close>: a count above the length of the array runs over its end.\<close>

definition readHead :: "'a lstate \<Rightarrow> 'a lstate outcome" where
  "readHead s =
     andThen (cache_get s (log_device s) (log_start s)) (\<lambda>(b, s1).
       let s2 = buffer_read s1 b;
           d = b_data (buffer_of s2 b);
           n = get64 d 0
       in if unat n > LOG_SIZE then Inl Undefined
          else cache_release
                 (s2\<lparr>header_n := n, header_block := get_blocks d (unat n) @ drop (unat n) (header_block s2)\<rparr>) b)"

definition writeHead :: "'a lstate \<Rightarrow> 'a lstate outcome" where
  "writeHead s =
     andThen (cache_get s (log_device s) (log_start s)) (\<lambda>(b, s1).
       let s2 = buffer_read s1 b;
           s3 = set_data s2 b (put_header (b_data (buffer_of s2 b)) (header_n s2) (header_block s2))
       in andThen (buffer_write s3 b) (\<lambda>s4. cache_release s4 b))"

text \<open>The two copying loops; \<open>k\<close> is the number of blocks left.\<close>

fun install_loop :: "'a lstate \<Rightarrow> bool \<Rightarrow> nat \<Rightarrow> nat \<Rightarrow> 'a lstate outcome" where
  "install_loop s recover tail 0 = Inr s"
| "install_loop s recover tail (Suc k) =
     andThen (cache_get s (log_device s) (log_start s + of_nat tail + 1)) (\<lambda>(lbuf, s1).
     andThen (cache_get s1 (log_device s1) (header_block s1 ! tail)) (\<lambda>(dbuf, s2).
       let s3 = buffer_read s2 lbuf;
           s4 = buffer_read s3 dbuf;
           s5 = set_data s4 dbuf (b_data (buffer_of s4 lbuf))
       in andThen (buffer_write s5 dbuf) (\<lambda>s6.
          andThen (if recover then Inr s6 else cache_unpin s6 dbuf) (\<lambda>s7.
          andThen (cache_release s7 lbuf) (\<lambda>s8.
          andThen (cache_release s8 dbuf) (\<lambda>s9. install_loop s9 recover (Suc tail) k))))))"

definition installTransaction :: "'a lstate \<Rightarrow> bool \<Rightarrow> 'a lstate outcome" where
  "installTransaction s recover = install_loop s recover 0 (unat (header_n s))"

definition recover :: "'a lstate \<Rightarrow> 'a lstate outcome" where
  "recover s =
     andThen (readHead s) (\<lambda>s1.
     andThen (installTransaction s1 True) (\<lambda>s2. writeHead (s2\<lparr>header_n := 0\<rparr>)))"

fun writeLog_loop :: "'a lstate \<Rightarrow> nat \<Rightarrow> nat \<Rightarrow> 'a lstate outcome" where
  "writeLog_loop s tail 0 = Inr s"
| "writeLog_loop s tail (Suc k) =
     andThen (cache_get s (log_device s) (log_start s + of_nat tail + 1)) (\<lambda>(dst, s1).
     andThen (cache_get s1 (log_device s1) (header_block s1 ! tail)) (\<lambda>(src, s2).
       let s3 = buffer_read s2 dst;
           s4 = buffer_read s3 src;
           s5 = set_data s4 dst (b_data (buffer_of s4 src))
       in andThen (buffer_write s5 dst) (\<lambda>s6.
          andThen (cache_release s6 src) (\<lambda>s7.
          andThen (cache_release s7 dst) (\<lambda>s8. writeLog_loop s8 (Suc tail) k)))))"

definition commit :: "'a lstate \<Rightarrow> 'a lstate outcome" where
  "commit s =
     (if header_n s > 0
      then andThen (writeLog_loop s 0 (unat (header_n s))) (\<lambda>s1.
           andThen (writeHead s1) (\<lambda>s2.
           andThen (installTransaction s2 False) (\<lambda>s3. writeHead (s3\<lparr>header_n := 0\<rparr>))))
      else Inr s)"

record super_block =
  magic :: u32
  sb_size :: u32
  numBlocks :: u32
  numInodes :: u32
  numLogs :: u32
  logStart :: u32
  inodeStart :: u32
  bmapStart :: u32

definition initializeLog :: "'a lstate \<Rightarrow> u32 \<Rightarrow> super_block \<Rightarrow> 'a lstate outcome" where
  "initializeLog s device sb =
     recover (s\<lparr>log_start := logStart sb, log_size := ucast (numLogs sb), log_device := device\<rparr>)"

text \<open>\<open>log.header.n + (log.outstanding + 1) * MAX_OP_BLOCKS > LOG_SIZE\<close> is an unsigned comparison.\<close>

definition log_full :: "'a lstate \<Rightarrow> bool" where
  "log_full s \<longleftrightarrow> header_n s + of_int (outstanding s + 1) * of_nat MAX_OP_BLOCKS > of_nat LOG_SIZE"

definition beginOp :: "'a lstate \<Rightarrow> 'a lstate outcome" where
  "beginOp s =
     (if committing s then Inl Sleeping
      else if log_full s then Inl Sleeping
      else Inr (s\<lparr>outstanding := outstanding s + 1\<rparr>))"

text \<open>The first critical section of \<open>endOp\<close>, and the whole of it.\<close>

definition endOp_enter :: "'a lstate \<Rightarrow> (bool \<times> 'a lstate) outcome" where
  "endOp_enter s =
     andThen (assert_that (\<not> committing s)) (\<lambda>_.
       let s1 = s\<lparr>outstanding := outstanding s - 1\<rparr>
       in if outstanding s1 = 0 then Inr (True, s1\<lparr>committing := True\<rparr>) else Inr (False, s1))"

definition endOp :: "'a lstate \<Rightarrow> 'a lstate outcome" where
  "endOp s =
     andThen (endOp_enter s) (\<lambda>(doCommit, s1).
       if doCommit then andThen (commit s1) (\<lambda>s2. Inr (s2\<lparr>committing := False\<rparr>)) else Inr s1)"

text \<open>The search loop of \<open>writeLog\<close>: the first index below \<open>n\<close> with this block, or \<open>n\<close>.\<close>

fun find_block :: "u32 list \<Rightarrow> u32 \<Rightarrow> nat \<Rightarrow> nat \<Rightarrow> nat" where
  "find_block bs b i 0 = i"
| "find_block bs b i (Suc k) = (if bs ! i = b then i else find_block bs b (Suc i) k)"

definition writeLog :: "'a lstate \<Rightarrow> nat \<Rightarrow> 'a lstate outcome" where
  "writeLog s buf =
     andThen (assert_that (header_n s < of_nat LOG_SIZE)) (\<lambda>_.
     andThen (assert_that (header_n s < log_size s - 1)) (\<lambda>_.
     andThen (assert_that (outstanding s \<ge> 1)) (\<lambda>_.
       let blk = b_block (buffer_of s buf);
           i = find_block (header_block s) blk 0 (unat (header_n s));
           s1 = s\<lparr>header_block := (header_block s)[i := blk]\<rparr>
       in if i = unat (header_n s)
          then Inr ((cache_pin s1 buf)\<lparr>header_n := header_n s + 1\<rparr>)
          else Inr s1)))"

section \<open>Integers in blocks: round trips\<close>

lemma length_put_bytes [simp]: "off + length bs \<le> length d \<Longrightarrow> length (put_bytes d off bs) = length d"
  by (simp add: put_bytes_def)

lemma get_put_bytes [simp]: "off + length bs \<le> length d \<Longrightarrow> n = length bs \<Longrightarrow> get_bytes (put_bytes d off bs) off n = bs"
  by (simp add: put_bytes_def get_bytes_def)

lemma nth_put_bytes:
  "off + length bs \<le> length d \<Longrightarrow> i < length d \<Longrightarrow>
     put_bytes d off bs ! i = (if off \<le> i \<and> i < off + length bs then bs ! (i - off) else d ! i)"
  by (auto simp: put_bytes_def nth_append min_def)

lemma get_put_bytes_other:
  assumes "off + length bs \<le> length d" "o' + n \<le> length d" "o' + n \<le> off \<or> off + length bs \<le> o'"
  shows "get_bytes (put_bytes d off bs) o' n = get_bytes d o' n"
  by (rule list_eq_nthI) (use assms in \<open>auto simp: get_bytes_def nth_put_bytes\<close>)

lemma length_put32 [simp]: "off + 4 \<le> length d \<Longrightarrow> length (put32 d off v) = length d"
  and length_put64 [simp]: "off + 8 \<le> length d \<Longrightarrow> length (put64 d off w) = length d"
  by (simp_all add: put32_def put64_def)

lemma get32_put32 [simp]: "off + 4 \<le> length d \<Longrightarrow> get32 (put32 d off v) off = v"
  and get64_put64 [simp]: "off + 8 \<le> length d \<Longrightarrow> get64 (put64 d off w) off = w"
  by (simp_all add: get32_def put32_def get64_def put64_def word_of_bytes_of_word)

lemma get32_put32_other:
  "off + 4 \<le> length d \<Longrightarrow> o' + 4 \<le> length d \<Longrightarrow> o' + 4 \<le> off \<or> off + 4 \<le> o' \<Longrightarrow> get32 (put32 d off v) o' = get32 d o'"
  and get64_put32_other:
  "off + 4 \<le> length d \<Longrightarrow> o' + 8 \<le> length d \<Longrightarrow> o' + 8 \<le> off \<or> off + 4 \<le> o' \<Longrightarrow> get64 (put32 d off v) o' = get64 d o'"
  by (simp_all add: get32_def put32_def get64_def get_put_bytes_other)

lemma length_put_blocks [simp]: "8 + 4 * (i + length bs) \<le> length d \<Longrightarrow> length (put_blocks d i bs) = length d"
  by (induction bs arbitrary: d i) auto

lemma get64_put_blocks [simp]: "8 + 4 * (i + length bs) \<le> length d \<Longrightarrow> get64 (put_blocks d i bs) 0 = get64 d 0"
  by (induction bs arbitrary: d i) (auto simp: get64_put32_other)

lemma get32_put_blocks:
  "8 + 4 * (i + length bs) \<le> length d \<Longrightarrow> j < i + length bs \<Longrightarrow>
     get32 (put_blocks d i bs) (8 + 4 * j) = (if i \<le> j then bs ! (j - i) else get32 d (8 + 4 * j))"
proof (induction bs arbitrary: d i)
  case (Cons b bs)
  let ?d = "put32 d (8 + 4 * i) b"
  have "get32 ?d (8 + 4 * j) = (if j = i then b else get32 d (8 + 4 * j))" if "j \<le> i"
    using Cons.prems that by (auto simp: get32_put32_other)
  then show ?case using Cons.IH [of "Suc i" ?d] Cons.prems by (auto simp: nth_Cons')
qed simp

definition header_fits :: "u8 list \<Rightarrow> u64 \<Rightarrow> u32 list \<Rightarrow> bool" where
  "header_fits d n bs \<longleftrightarrow> length d = BLOCK_SIZE \<and> unat n \<le> LOG_SIZE \<and> unat n \<le> length bs"

lemma put_header_round_trip:
  assumes "header_fits d n bs"
  shows "length (put_header d n bs) = BLOCK_SIZE" "get64 (put_header d n bs) 0 = n"
    "get_blocks (put_header d n bs) (unat n) = take (unat n) bs"
proof -
  have a: "length d = 1024" "unat n \<le> 30" "unat n \<le> length bs"
    using assms by (simp_all add: header_fits_def BLOCK_SIZE_def LOG_SIZE_def MAX_OP_BLOCKS_def)
  then show "length (put_header d n bs) = BLOCK_SIZE" "get64 (put_header d n bs) 0 = n"
    by (simp_all add: put_header_def BLOCK_SIZE_def)
  show "get_blocks (put_header d n bs) (unat n) = take (unat n) bs"
    by (rule list_eq_nthI) (use a in \<open>auto simp: get_blocks_def put_header_def get32_put_blocks\<close>)
qed

section \<open>The log on the cache\<close>

lemma log_fields:
  assumes "cache_state.more s' = cache_state.more s"
  shows "log_start s' = log_start s" "log_size s' = log_size s" "outstanding s' = outstanding s"
    "committing s' = committing s" "log_device s' = log_device s" "header_n s' = header_n s" "header_block s' = header_block s"
  using assms by (cases s; cases s'; simp)+

lemma cache_frame_more: "cache_frame s s' \<Longrightarrow> cache_state.more s' = cache_state.more s"
  by (simp add: cache_frame_def)

text \<open>A block at rest: not cached, or cached with its data, unlocked and referenced.\<close>

definition calm :: "(u32 \<Rightarrow> cell option) \<Rightarrow> u32 \<Rightarrow> bool" where
  "calm l n \<longleftrightarrow> (case l n of None \<Rightarrow> True | Some c \<Rightarrow> \<not> c_lock c \<and> c_data c \<noteq> None \<and> 0 < c_ref c \<and> c_ref c + 2 < 2 ^ 32)"

definition released :: "cell \<Rightarrow> cell option" where
  "released c = (if c_ref c = 1 then None else Some (c\<lparr>c_ref := c_ref c - 1, c_lock := False\<rparr>))"

lemma calm_idle: "calm l n \<Longrightarrow> idle l n"
  by (auto simp: calm_def idle_def split: option.splits)

lemma released_held: "calm l n \<Longrightarrow> released (held_cell l d n) = l n"
  by (cases "l n") (auto simp: calm_def released_def held_cell_def view_of_def intro!: cell.equality)

lemma held_cell_simps [simp]:
  "c_data (held_cell l d n) = Some (view_of l d n)" "c_lock (held_cell l d n)" "0 < c_ref (held_cell l d n)"
  by (simp_all add: held_cell_def split: option.split)

lemma held_cell_cong: "l n = l' n \<Longrightarrow> d n = d' n \<Longrightarrow> held_cell l d n = held_cell l' d' n"
  by (simp add: held_cell_def view_of_def split: option.split)

lemma view_of_None [simp]: "l n = None \<Longrightarrow> view_of l d n = d n"
  by (simp add: view_of_def)

text \<open>Two blocks fetched and read, as the copying loops do.\<close>

lemma two_held:
  assumes inv: "cache_inv D B s" and xy: "x \<noteq> y" "x \<in> B" "y \<in> B" "calm (cells D s) x" "calm (cells D s) y"
  shows "\<exists>bx s1 bw s2. cache_get s D x = Inr (bx, s1) \<and> cache_state.more s1 = cache_state.more s \<and>
    cache_get s1 D y = Inr (bw, s2) \<and>
    (let s4 = buffer_read (buffer_read s2 bx) bw in
     cache_inv D B s4 \<and> ptr D s4 x = Some bx \<and> ptr D s4 y = Some bw \<and> cache_frame s s4 \<and>
     cells D s4 = (cells D s)(x \<mapsto> held_cell (cells D s) (disk_blocks s) x, y \<mapsto> held_cell (cells D s) (disk_blocks s) y))"
proof -
  let ?c = "cell_at D s x" and ?e = "cell_at D s y"
  have c: "\<not> c_lock ?c" "c_ref ?c + 1 < 2 ^ 32" "\<not> c_lock ?e" "c_ref ?e + 1 < 2 ^ 32"
    using xy(4,5) by (auto simp: calm_def cell_at_def fresh_cell_def split: option.splits)
  obtain bx s1 where g: "cache_get s D x = Inr (bx, s1)" "cache_inv D B s1" "ptr D s1 = (ptr D s)(x \<mapsto> bx)"
    "cells D s1 = (cells D s)(x \<mapsto> ?c\<lparr>c_ref := c_ref ?c + 1, c_lock := True\<rparr>)" "cache_frame s s1"
    using cache_get_law [OF inv xy(2) refl c(1,2)] by blast
  have e1: "cell_at D s1 y = ?e" using g(4) xy(1) by (simp add: cell_at_def)
  obtain bw s2 where h: "cache_get s1 D y = Inr (bw, s2)" "cache_inv D B s2" "ptr D s2 = (ptr D s1)(y \<mapsto> bw)"
    "cells D s2 = (cells D s1)(y \<mapsto> ?e\<lparr>c_ref := c_ref ?e + 1, c_lock := True\<rparr>)" "cache_frame s1 s2"
    using cache_get_law [OF g(2) xy(3) e1 [symmetric] c(3,4)] by blast
  have px: "ptr D s2 x = Some bx" "cells D s2 x = Some (?c\<lparr>c_ref := c_ref ?c + 1, c_lock := True\<rparr>)"
    using g h xy(1) by auto
  note r = buffer_read_law [OF h(2) px]
  have py: "ptr D (buffer_read s2 bx) y = Some bw"
    "cells D (buffer_read s2 bx) y = Some (?e\<lparr>c_ref := c_ref ?e + 1, c_lock := True\<rparr>)"
    using r h xy(1) by auto
  note q = buffer_read_law [OF r(1) py]
  have d: "disk_blocks s2 = disk_blocks s" "disk_blocks (buffer_read s2 bx) = disk_blocks s"
    using g(5) h(5) r(4) by (auto simp: cache_frame_def)
  have hx: "?c\<lparr>c_ref := c_ref ?c + 1, c_lock := True, c_data := Some (case c_data ?c of None \<Rightarrow> disk_blocks s x | Some d \<Rightarrow> d)\<rparr>
      = held_cell (cells D s) (disk_blocks s) x"
    by (cases "cells D s x") (auto simp: held_cell_def view_of_def fresh_cell_def cell_at_def split: option.split)
  have hy: "?e\<lparr>c_ref := c_ref ?e + 1, c_lock := True, c_data := Some (case c_data ?e of None \<Rightarrow> disk_blocks s y | Some d \<Rightarrow> d)\<rparr>
      = held_cell (cells D s) (disk_blocks s) y"
    by (cases "cells D s y") (auto simp: held_cell_def view_of_def fresh_cell_def cell_at_def split: option.split)
  have fr: "cache_frame s (buffer_read (buffer_read s2 bx) bw)"
    using g(5) h(5) r(4) q(4) cache_frame_trans by blast
  have cl: "cells D (buffer_read (buffer_read s2 bx) bw) =
      (cells D s)(x \<mapsto> held_cell (cells D s) (disk_blocks s) x, y \<mapsto> held_cell (cells D s) (disk_blocks s) y)"
    unfolding q(3) r(3) h(4) g(4) d using hx hy xy(1) by (simp add: fun_eq_iff)
  show ?thesis
    using g(1,3,5) h(1,3) q(1,2) r(2) fr cl xy(1)
    by (intro exI [of _ bx] exI [of _ s1] exI [of _ bw] exI [of _ s2]) (simp add: Let_def cache_frame_more)
qed

text \<open>Storing into a held buffer and writing it to the disk.\<close>

lemma store_write:
  assumes inv: "cache_inv D B s" and p: "ptr D s x = Some b" and c: "cells D s x = Some c" "c_data c = Some d0" "c_lock c"
    and d: "length d = BLOCK_SIZE"
  shows "\<exists>s'. buffer_write (set_data s b d) b = Inr s' \<and> cache_inv D B s' \<and> ptr D s' = ptr D s \<and>
    cells D s' = (cells D s)(x \<mapsto> c\<lparr>c_data := Some d\<rparr>) \<and>
    disk_blocks s' = (disk_blocks s)(x := d) \<and> disk_trace s' = disk_trace s @ [(x, d)] \<and>
    pid_now s' = pid_now s \<and> cache_state.more s' = cache_state.more s"
proof -
  note u = set_data_law [OF inv p c(1,2) d]
  have "ptr D (set_data s b d) x = Some b" "cells D (set_data s b d) x = Some (c\<lparr>c_data := Some d\<rparr>)"
    using u p by simp_all
  from buffer_write_law [OF u(1) this] c(3) obtain s' where
    "buffer_write (set_data s b d) b = Inr s'" "cache_inv D B s'" "ptr D s' = ptr D (set_data s b d)"
    "cells D s' = cells D (set_data s b d)" "disk_blocks s' = (disk_blocks (set_data s b d))(x := d)"
    "disk_trace s' = disk_trace (set_data s b d) @ [(x, d)]" "pid_now s' = pid_now (set_data s b d)"
    "cache_state.more s' = cache_state.more (set_data s b d)" by auto
  then show ?thesis using u(2-4) by (intro exI [of _ s']) (simp add: cache_frame_def)
qed

text \<open>The effect of a piece of log code on the disk: a sequence of block writes.\<close>

definition apply_writes :: "(u32 \<Rightarrow> u8 list) \<Rightarrow> (u32 \<times> u8 list) list \<Rightarrow> u32 \<Rightarrow> u8 list" where
  "apply_writes d ws = foldl (\<lambda>d (n, v). d(n := v)) d ws"

definition wrote :: "u32 \<Rightarrow> u32 set \<Rightarrow> 'a lstate \<Rightarrow> 'a lstate \<Rightarrow> (u32 \<times> u8 list) list \<Rightarrow> bool" where
  "wrote D B s s' ws \<longleftrightarrow> cache_inv D B s' \<and> disk_blocks s' = apply_writes (disk_blocks s) ws \<and>
     disk_trace s' = disk_trace s @ ws \<and> pid_now s' = pid_now s \<and> cache_state.more s' = cache_state.more s"

lemma apply_writes_simps [simp]:
  "apply_writes d [] = d" "apply_writes d ((n, v) # ws) = apply_writes (d(n := v)) ws"
  "apply_writes d (ws @ ws') = apply_writes (apply_writes d ws) ws'"
  by (simp_all add: apply_writes_def)

lemma apply_writes_other: "n \<notin> fst ` set ws \<Longrightarrow> apply_writes d ws n = d n"
  by (induction ws arbitrary: d) auto

lemma apply_writes_at:
  "distinct (map f xs) \<Longrightarrow> i \<in> set xs \<Longrightarrow> apply_writes d (map (\<lambda>i. (f i, g i)) xs) (f i) = g i"
proof (induction xs arbitrary: d)
  case (Cons x xs)
  show ?case
  proof (cases "i \<in> set xs")
    case False
    then have "i = x" "f x \<notin> f ` set xs" using Cons.prems by auto
    moreover have "fst ` set (map (\<lambda>i. (f i, g i)) xs) = f ` set xs" by force
    ultimately show ?thesis using apply_writes_other [of "f x" "map (\<lambda>i. (f i, g i)) xs"] by simp
  qed (use Cons in simp)
qed simp

lemma wrote_refl: "cache_inv D B s \<Longrightarrow> wrote D B s s []"
  by (simp add: wrote_def)

lemma wrote_trans: "wrote D B s s' ws \<Longrightarrow> wrote D B s' s'' ws' \<Longrightarrow> wrote D B s s'' (ws @ ws')"
  by (simp add: wrote_def)

lemma wrote_frame: "wrote D B s s' ws \<Longrightarrow> cache_inv D B s'' \<Longrightarrow> cache_frame s' s'' \<Longrightarrow> wrote D B s s'' ws"
  by (simp add: wrote_def cache_frame_def)

lemma release_wrote:
  assumes w: "wrote D B s s1 ws" and p: "ptr D s1 n = Some b" and c: "cells D s1 n = Some c" "c_lock c"
  shows "\<exists>s'. cache_release s1 b = Inr s' \<and> wrote D B s s' ws \<and> (\<forall>k. k \<noteq> n \<longrightarrow> ptr D s' k = ptr D s1 k) \<and>
    cells D s' = (cells D s1)(n := released c)"
proof -
  have "cache_inv D B s1" using w by (simp add: wrote_def)
  from cache_release_law [OF this p c] obtain s' where s': "cache_release s1 b = Inr s'" "cache_inv D B s'"
    "\<forall>k. k \<noteq> n \<longrightarrow> ptr D s' k = ptr D s1 k" "cells D s' = (cells D s1)(n := released c)" "cache_frame s1 s'"
    unfolding released_def by blast
  then show ?thesis using wrote_frame [OF w s'(2,5)] by (intro exI [of _ s']) simp
qed

lemma copy_write:
  assumes inv: "cache_inv D B s" and px: "ptr D s x = Some bx" and pw: "ptr D s y = Some bw"
    and c: "cells D s x = Some c" "c_data c = Some d0" "c_lock c" and e: "cells D s y = Some e" "c_data e = Some v"
  shows "\<exists>s'. buffer_write (set_data s bx (b_data (buffer_of s bw))) bx = Inr s' \<and> wrote D B s s' [(x, v)] \<and>
    ptr D s' = ptr D s \<and> cells D s' = (cells D s)(x \<mapsto> c\<lparr>c_data := Some v\<rparr>)"
proof -
  have v: "b_data (buffer_of s bw) = v" "length v = BLOCK_SIZE"
    using buffer_data [OF pw e] ptr_buffer(6) [OF inv pw] by auto
  show ?thesis using store_write [OF inv px c v(2)] v(1) by (auto simp: wrote_def)
qed

lemma writeLog_loop_step:
  assumes inv: "cache_inv D B s" and D: "log_device s = D" and x: "x = log_start s + of_nat tail + 1"
    and y: "y = header_block s ! tail" and xy: "x \<noteq> y" "x \<in> B" "y \<in> B" "cells D s x = None" "calm (cells D s) y"
  shows "\<exists>s'. writeLog_loop s tail (Suc k) = writeLog_loop s' (Suc tail) k \<and>
    wrote D B s s' [(x, view_of (cells D s) (disk_blocks s) y)] \<and> cells D s' = cells D s"
proof -
  let ?l = "cells D s" and ?d = "disk_blocks s"
  have cx: "calm ?l x" using xy(4) by (simp add: calm_def)
  obtain bx s1 bw s2 s4 where t: "cache_get s D x = Inr (bx, s1)" "cache_state.more s1 = cache_state.more s"
    "cache_get s1 D y = Inr (bw, s2)" "s4 = buffer_read (buffer_read s2 bx) bw" "cache_inv D B s4"
    "ptr D s4 x = Some bx" "ptr D s4 y = Some bw" "cache_frame s s4"
    "cells D s4 = ?l(x \<mapsto> held_cell ?l ?d x, y \<mapsto> held_cell ?l ?d y)"
    using two_held [OF inv xy(1-3) cx xy(5)] unfolding Let_def by blast
  have "cells D s4 x = Some (held_cell ?l ?d x)" "cells D s4 y = Some (held_cell ?l ?d y)" using t(9) xy(1) by auto
  from copy_write [OF t(5-7) this(1) _ _ this(2)] obtain s6 where w: "buffer_write (set_data s4 bx (b_data (buffer_of s4 bw))) bx = Inr s6"
    "wrote D B s4 s6 [(x, view_of ?l ?d y)]" "ptr D s6 = ptr D s4" "cells D s6 = (cells D s4)(x \<mapsto> (held_cell ?l ?d x)\<lparr>c_data := Some (view_of ?l ?d y)\<rparr>)"
    by auto
  have ws: "wrote D B s s6 [(x, view_of ?l ?d y)]" using w(2) t(8) by (simp add: wrote_def cache_frame_def)
  have "ptr D s6 y = Some bw" "cells D s6 y = Some (held_cell ?l ?d y)" using w t xy(1) by auto
  from release_wrote [OF ws this] obtain s7 where r: "cache_release s6 bw = Inr s7" "wrote D B s s7 [(x, view_of ?l ?d y)]"
    "\<forall>k. k \<noteq> y \<longrightarrow> ptr D s7 k = ptr D s6 k" "cells D s7 = (cells D s6)(y := released (held_cell ?l ?d y))" by auto
  have "ptr D s7 x = Some bx" "cells D s7 x = Some ((held_cell ?l ?d x)\<lparr>c_data := Some (view_of ?l ?d y)\<rparr>)"
    using r(3,4) w t(6) xy(1) by auto
  from release_wrote [OF r(2) this] obtain s8 where q: "cache_release s7 bx = Inr s8" "wrote D B s s8 [(x, view_of ?l ?d y)]"
    "cells D s8 = (cells D s7)(x := released ((held_cell ?l ?d x)\<lparr>c_data := Some (view_of ?l ?d y)\<rparr>))" by auto
  have "released ((held_cell ?l ?d x)\<lparr>c_data := Some (view_of ?l ?d y)\<rparr>) = None"
    using xy(4) by (simp add: released_def held_cell_def)
  then have "cells D s8 = ?l"
    using q(3) r(4) w(4) t(9) xy(1,4) released_held [OF xy(5), of ?d] by (auto simp: fun_eq_iff)
  moreover have "writeLog_loop s tail (Suc k) = writeLog_loop s8 (Suc tail) k"
    using t(1,3,4) w(1) r(1) q(1) D log_fields [OF t(2)] by (simp add: x y Let_def)
  ultimately show ?thesis using q(2) by blast
qed

section \<open>The phases of a commit\<close>

definition log_block :: "u32 \<Rightarrow> nat \<Rightarrow> u32" where
  "log_block S i = S + of_nat i + 1"

text \<open>The copies that the assertions of \<open>writeLog\<close> admit, and the blocks of the log: the header and these copies.\<close>

definition log_cap :: "'a lstate \<Rightarrow> nat" where
  "log_cap s = min LOG_SIZE (unat (log_size s - 1))"

definition log_region :: "'a lstate \<Rightarrow> u32 set" where
  "log_region s = insert (log_start s) (log_block (log_start s) ` {..<log_cap s})"

definition logged :: "'a lstate \<Rightarrow> u32 list" where
  "logged s = take (unat (header_n s)) (header_block s)"

text \<open>The blocks of the log are in use and nobody has them cached; the count is within the array.\<close>

definition log_layout :: "u32 \<Rightarrow> u32 set \<Rightarrow> 'a lstate \<Rightarrow> bool" where
  "log_layout D B s \<longleftrightarrow> cache_inv D B s \<and> log_device s = D \<and> log_region s \<subseteq> B \<and>
     (\<forall>x \<in> log_region s. cells D s x = None) \<and> length (header_block s) = LOG_SIZE \<and>
     unat (header_n s) \<le> LOG_SIZE \<and> unat (header_n s) \<le> log_cap s"

text \<open>The blocks to install are distinct, outside the log and at rest.\<close>

definition log_targets :: "u32 \<Rightarrow> u32 set \<Rightarrow> 'a lstate \<Rightarrow> bool" where
  "log_targets D B s \<longleftrightarrow> distinct (logged s) \<and> set (logged s) \<subseteq> B - log_region s \<and>
     (\<forall>x \<in> set (logged s). calm (cells D s) x)"

lemma of_nat_eq_u32: "i < 2 ^ 32 \<Longrightarrow> j < 2 ^ 32 \<Longrightarrow> (of_nat i :: u32) = of_nat j \<longleftrightarrow> i = j"
  by (simp add: word_of_nat_eq_iff take_bit_nat_eq_self)

lemma LOG_SIZE_eq: "LOG_SIZE = 30"
  by (simp add: LOG_SIZE_def MAX_OP_BLOCKS_def)

lemma log_block_start: assumes "i < LOG_SIZE" shows "log_block S i \<noteq> S"
proof
  assume "log_block S i = S"
  then have "(of_nat (Suc i) :: u32) = of_nat 0" by (simp add: log_block_def algebra_simps)
  then show False using assms by (subst (asm) of_nat_eq_u32) (auto simp: LOG_SIZE_eq)
qed

lemma log_block_inj: "i < LOG_SIZE \<Longrightarrow> j < LOG_SIZE \<Longrightarrow> log_block S i = log_block S j \<longleftrightarrow> i = j"
  by (simp add: log_block_def of_nat_eq_u32 LOG_SIZE_eq)

lemma log_cap_le: "log_cap s \<le> LOG_SIZE"
  by (simp add: log_cap_def)

lemma log_block_region: "i < log_cap s \<Longrightarrow> log_block (log_start s) i \<in> log_region s" "log_start s \<in> log_region s"
  by (auto simp: log_region_def)

lemma log_region_cong:
  "log_start s' = log_start s \<Longrightarrow> log_size s' = log_size s \<Longrightarrow> log_region s' = log_region s"
  "log_size s' = log_size s \<Longrightarrow> log_cap s' = log_cap s"
  by (simp_all add: log_region_def log_cap_def)

lemma log_region_update [simp]:
  "log_region (s\<lparr>header_n := n\<rparr>) = log_region s" "log_cap (s\<lparr>header_n := n\<rparr>) = log_cap s"
  "log_region (s\<lparr>header_block := h\<rparr>) = log_region s" "log_cap (s\<lparr>header_block := h\<rparr>) = log_cap s"
  "log_region (s\<lparr>outstanding := k\<rparr>) = log_region s" "log_cap (s\<lparr>outstanding := k\<rparr>) = log_cap s"
  "log_region (s\<lparr>committing := c\<rparr>) = log_region s" "log_cap (s\<lparr>committing := c\<rparr>) = log_cap s"
  by (simp_all add: log_region_def log_cap_def)

lemma log_region_more:
  assumes "cache_state.more s' = cache_state.more s"
  shows "log_region s' = log_region s" "log_cap s' = log_cap s"
  using log_fields(1,2) [OF assms] by (simp_all add: log_region_def log_cap_def)

lemma logged_nth: "i < unat (header_n s) \<Longrightarrow> log_layout D B s \<Longrightarrow> header_block s ! i = logged s ! i"
  "log_layout D B s \<Longrightarrow> length (logged s) = unat (header_n s)"
  by (auto simp: logged_def log_layout_def)

text \<open>The log's own fields and the blocks of the log keep their state through writes.\<close>

lemma log_layout_wrote:
  assumes "log_layout D B s" "wrote D B s s' ws" "\<forall>x \<in> log_region s. cells D s' x = None"
  shows "log_layout D B s'" "logged s' = logged s"
proof -
  have "cache_state.more s' = cache_state.more s" "cache_inv D B s'" using assms(2) by (simp_all add: wrote_def)
  note log_fields [OF this(1)] log_region_more [OF this(1)] this(2)
  then show "log_layout D B s'" "logged s' = logged s"
    using assms(1,3) by (simp_all add: log_layout_def logged_def)
qed

lemma writeLog_loop_law:
  assumes "log_layout D B s" "log_targets D B s" "tail + k = unat (header_n s)"
  shows "\<exists>s'. writeLog_loop s tail k = Inr s' \<and> cells D s' = cells D s \<and>
    wrote D B s s' (map (\<lambda>i. (log_block (log_start s) i, view_of (cells D s) (disk_blocks s) (logged s ! i))) [tail..<tail + k])"
  using assms
proof (induction k arbitrary: s tail)
  case 0
  then show ?case by (auto simp: log_layout_def wrote_refl)
next
  case (Suc k)
  let ?S = "log_start s" and ?x = "log_block (log_start s) tail" and ?y = "logged s ! tail"
  let ?v = "\<lambda>s i. view_of (cells D s) (disk_blocks s) (logged s ! i)"
  have le: "tail < log_cap s" "tail < length (logged s)" "tail < unat (header_n s)"
    using Suc.prems by (auto simp: log_layout_def logged_def)
  have yS: "logged s ! i \<notin> log_region s" "logged s ! i \<in> B" "calm (cells D s) (logged s ! i)" if "i < length (logged s)" for i
    using Suc.prems(2) that by (auto simp: log_targets_def dest: nth_mem)
  have x: "?x \<in> log_region s" "?x \<in> B" "cells D s ?x = None"
    using Suc.prems(1) log_block_region(1) [OF le(1)] by (auto simp: log_layout_def)
  have "?x \<noteq> ?y" using x(1) yS(1) [OF le(2)] by metis
  then obtain s1 where s1: "writeLog_loop s tail (Suc k) = writeLog_loop s1 (Suc tail) k" "wrote D B s s1 [(?x, ?v s tail)]"
    "cells D s1 = cells D s"
    using writeLog_loop_step [of D B s ?x tail ?y k] Suc.prems(1) x yS [OF le(2)] logged_nth(1) [OF le(3)]
    by (auto simp: log_layout_def log_block_def)
  note l1 = log_layout_wrote [OF Suc.prems(1) s1(2)]
  have st: "log_start s1 = ?S" "header_n s1 = header_n s" "log_region s1 = log_region s"
    using log_fields(1,6) [of s1 s] log_region_more(1) [of s1 s] s1(2) by (simp_all add: wrote_def)
  have lay: "log_layout D B s1" "logged s1 = logged s" using l1 s1(3) Suc.prems(1) by (auto simp: log_layout_def)
  moreover have "log_targets D B s1" using Suc.prems(2) lay(2) st s1(3) by (simp add: log_targets_def)
  ultimately obtain s' where s': "writeLog_loop s1 (Suc tail) k = Inr s'" "cells D s' = cells D s1"
    "wrote D B s1 s' (map (\<lambda>i. (log_block ?S i, ?v s1 i)) [Suc tail..<Suc tail + k])"
    using Suc.IH [of s1 "Suc tail"] Suc.prems(3) st by auto
  have "?v s1 i = ?v s i" if "i \<in> set [Suc tail..<Suc tail + k]" for i
  proof -
    have "i < length (logged s)" using that Suc.prems(3) logged_nth(2) [OF Suc.prems(1)] by auto
    then have "logged s ! i \<noteq> ?x" using yS(1) x(1) by metis
    then show ?thesis using s1(2,3) lay(2) by (simp add: view_of_def wrote_def split: option.split)
  qed
  then have "map (\<lambda>i. (log_block ?S i, ?v s1 i)) [Suc tail..<Suc tail + k] = map (\<lambda>i. (log_block ?S i, ?v s i)) [Suc tail..<Suc tail + k]"
    by (intro map_cong refl) simp
  moreover have "[tail..<tail + Suc k] = tail # [Suc tail..<Suc tail + k]" by (simp add: upt_rec)
  ultimately have "wrote D B s s' (map (\<lambda>i. (log_block ?S i, ?v s i)) [tail..<tail + Suc k])"
    using wrote_trans [OF s1(2) s'(3)] by (simp only: list.map append.simps)
  then show ?case using s1(1,3) s'(1,2) by (intro exI [of _ s']) simp
qed

text \<open>What installing \<open>v\<close> leaves of the cached copy; a commit also drops the pin of \<open>writeLog\<close>.\<close>

definition installed :: "bool \<Rightarrow> u8 list \<Rightarrow> cell option \<Rightarrow> cell option" where
  "installed rec v o' = (case o' of None \<Rightarrow> None
     | Some c \<Rightarrow> if rec then Some (c\<lparr>c_data := Some v\<rparr>)
                else if c_ref c = 1 then None else Some (c\<lparr>c_ref := c_ref c - 1, c_data := Some v\<rparr>))"

lemma unpin_wrote:
  assumes w: "wrote D B s s1 ws" and p: "ptr D s1 n = Some b" and c: "cells D s1 n = Some c" "2 \<le> c_ref c"
  shows "\<exists>s'. cache_unpin s1 b = Inr s' \<and> wrote D B s s' ws \<and> ptr D s' = ptr D s1 \<and>
    cells D s' = (cells D s1)(n \<mapsto> c\<lparr>c_ref := c_ref c - 1\<rparr>)"
proof -
  have "cache_inv D B s1" using w by (simp add: wrote_def)
  from cache_unpin_law [OF this p c] obtain s' where s': "cache_unpin s1 b = Inr s'" "cache_inv D B s'"
    "ptr D s' = ptr D s1" "cells D s' = (cells D s1)(n \<mapsto> c\<lparr>c_ref := c_ref c - 1\<rparr>)" "cache_frame s1 s'" by blast
  then show ?thesis using wrote_frame [OF w s'(2,5)] by (intro exI [of _ s']) simp
qed

lemma released_installed:
  assumes "calm l n" "\<not> rec \<longrightarrow> l n \<noteq> None"
    and "c = (held_cell l d n)\<lparr>c_data := Some v\<rparr>" "c' = (if rec then c else c\<lparr>c_ref := c_ref c - 1\<rparr>)"
  shows "c_lock c'" "released c' = installed rec v (l n)"
  using assms by (cases "l n"; auto simp: calm_def released_def held_cell_def installed_def intro!: cell.equality)+

lemma install_loop_step:
  assumes inv: "cache_inv D B s" and D: "log_device s = D" and x: "x = log_start s + of_nat tail + 1"
    and y: "y = header_block s ! tail" and xy: "x \<noteq> y" "x \<in> B" "y \<in> B" "cells D s x = None" "calm (cells D s) y"
    and pinned: "\<not> rec \<longrightarrow> cells D s y \<noteq> None"
  shows "\<exists>s'. install_loop s rec tail (Suc k) = install_loop s' rec (Suc tail) k \<and>
    wrote D B s s' [(y, disk_blocks s x)] \<and> cells D s' = (cells D s)(y := installed rec (disk_blocks s x) (cells D s y))"
proof -
  let ?l = "cells D s" and ?d = "disk_blocks s"
  let ?c = "(held_cell ?l ?d y)\<lparr>c_data := Some (?d x)\<rparr>"
  let ?c' = "if rec then ?c else ?c\<lparr>c_ref := c_ref ?c - 1\<rparr>"
  have cx: "calm ?l x" using xy(4) by (simp add: calm_def)
  obtain bx s1 bw s2 s4 where t: "cache_get s D x = Inr (bx, s1)" "cache_state.more s1 = cache_state.more s"
    "cache_get s1 D y = Inr (bw, s2)" "s4 = buffer_read (buffer_read s2 bx) bw" "cache_inv D B s4"
    "ptr D s4 x = Some bx" "ptr D s4 y = Some bw" "cache_frame s s4"
    "cells D s4 = ?l(x \<mapsto> held_cell ?l ?d x, y \<mapsto> held_cell ?l ?d y)"
    using two_held [OF inv xy(1-3) cx xy(5)] unfolding Let_def by blast
  have "cells D s4 y = Some (held_cell ?l ?d y)" "cells D s4 x = Some (held_cell ?l ?d x)" using t(9) xy(1) by auto
  from copy_write [OF t(5,7,6) this(1) _ _ this(2)] xy(4) obtain s6 where w: "buffer_write (set_data s4 bw (b_data (buffer_of s4 bx))) bw = Inr s6"
    "wrote D B s4 s6 [(y, ?d x)]" "ptr D s6 = ptr D s4" "cells D s6 = (cells D s4)(y \<mapsto> ?c)"
    by auto
  have ws: "wrote D B s s6 [(y, ?d x)]" using w(2) t(8) by (simp add: wrote_def cache_frame_def)
  have "ptr D s6 y = Some bw" "cells D s6 y = Some ?c" using w(3,4) t(7) by auto
  moreover have "2 \<le> c_ref ?c" if "\<not> rec" using that pinned xy(5) by (auto simp: held_cell_def calm_def)
  ultimately obtain s7 where u: "(if rec then Inr s6 else cache_unpin s6 bw) = Inr s7" "wrote D B s s7 [(y, ?d x)]"
    "ptr D s7 = ptr D s6" "cells D s7 = (cells D s6)(y \<mapsto> ?c')"
    using unpin_wrote [OF ws, of y bw ?c] ws by (cases rec) (auto simp: fun_upd_idem)
  have "ptr D s7 x = Some bx" "cells D s7 x = Some (held_cell ?l ?d x)" using u(3,4) w t(6,9) xy(1) by auto
  from release_wrote [OF u(2) this] obtain s8 where q: "cache_release s7 bx = Inr s8" "wrote D B s s8 [(y, ?d x)]"
    "\<forall>k. k \<noteq> x \<longrightarrow> ptr D s8 k = ptr D s7 k" "cells D s8 = (cells D s7)(x := released (held_cell ?l ?d x))" by auto
  note ri = released_installed [OF xy(5) pinned refl refl, where d = ?d and v = "?d x"]
  have "ptr D s8 y = Some bw" "cells D s8 y = Some ?c'" using q(3,4) u(3,4) w(3) t(7) xy(1) by auto
  from release_wrote [OF q(2) this ri(1)] obtain s9 where r: "cache_release s8 bw = Inr s9" "wrote D B s s9 [(y, ?d x)]"
    "cells D s9 = (cells D s8)(y := released ?c')" by auto
  have "cells D s9 = ?l(y := installed rec (?d x) (?l y))"
    using r(3) q(4) u(4) w(4) t(9) xy(1,4) released_held [OF cx, of ?d] ri(2) by (auto simp: fun_eq_iff)
  moreover have "install_loop s rec tail (Suc k) = install_loop s9 rec (Suc tail) k"
    using t(1,3,4) w(1) u(1) r(1) q(1) D log_fields [OF t(2)] by (simp add: x y Let_def)
  ultimately show ?thesis using r(2) by blast
qed

declare install_loop.simps(2) [simp del] writeLog_loop.simps(2) [simp del]

lemma install_loop_law:
  assumes "log_layout D B s" "distinct (logged s)" "set (logged s) \<subseteq> B - log_region s"
    "\<forall>x \<in> set (drop tail (logged s)). calm (cells D s) x \<and> (\<not> rec \<longrightarrow> cells D s x \<noteq> None)"
    "tail + k = unat (header_n s)"
  shows "\<exists>s'. install_loop s rec tail k = Inr s' \<and>
    wrote D B s s' (map (\<lambda>i. (logged s ! i, disk_blocks s (log_block (log_start s) i))) [tail..<tail + k]) \<and>
    (\<forall>n. n \<notin> set (drop tail (logged s)) \<longrightarrow> cells D s' n = cells D s n) \<and>
    (\<forall>i. tail \<le> i \<longrightarrow> i < tail + k \<longrightarrow> cells D s' (logged s ! i) =
       installed rec (disk_blocks s (log_block (log_start s) i)) (cells D s (logged s ! i)))"
  using assms
proof (induction k arbitrary: s tail)
  case 0
  then show ?case by (auto simp: log_layout_def wrote_refl)
next
  case (Suc k)
  let ?S = "log_start s" and ?x = "log_block (log_start s) tail" and ?y = "logged s ! tail"
  let ?w = "\<lambda>s i. (logged s ! i, disk_blocks s (log_block (log_start s) i))"
  have len: "length (logged s) = tail + Suc k" using Suc.prems(5) logged_nth(2) [OF Suc.prems(1)] by simp
  have le: "tail < log_cap s" "tail < unat (header_n s)" "tail + Suc k \<le> log_cap s"
    using Suc.prems by (auto simp: log_layout_def)
  have yS: "logged s ! i \<notin> log_region s" "logged s ! i \<in> B" if "i < tail + Suc k" for i
    using subsetD [OF Suc.prems(3) nth_mem [of i "logged s"]] that len by auto
  have dr: "drop tail (logged s) = ?y # drop (Suc tail) (logged s)" using len by (simp add: Cons_nth_drop_Suc)
  have x: "?x \<in> log_region s" "?x \<in> B" "cells D s ?x = None"
    using Suc.prems(1) log_block_region(1) [OF le(1)] by (auto simp: log_layout_def)
  have "cache_inv D B s" "log_device s = D" "?x = ?S + of_nat tail + 1" "?y = header_block s ! tail" "?x \<noteq> ?y"
    "calm (cells D s) ?y" "\<not> rec \<longrightarrow> cells D s ?y \<noteq> None"
    using Suc.prems(1,4) x(1) yS [of tail] logged_nth(1) [OF le(2) Suc.prems(1)] dr by (auto simp: log_layout_def log_block_def)
  from install_loop_step [OF this(1-5) x(2) yS(2) x(3) this(6,7)]
  obtain s1 where s1: "install_loop s rec tail (Suc k) = install_loop s1 rec (Suc tail) k"
    "wrote D B s s1 [(?y, disk_blocks s ?x)]" "cells D s1 = (cells D s)(?y := installed rec (disk_blocks s ?x) (cells D s ?y))"
    by auto
  have st: "log_start s1 = ?S" "header_n s1 = header_n s" "log_region s1 = log_region s"
    using log_fields(1,6) [of s1 s] log_region_more(1) [of s1 s] s1(2) by (simp_all add: wrote_def)
  have "\<forall>x \<in> log_region s. cells D s1 x = None" using s1(3) Suc.prems(1) yS(1) [of tail] by (auto simp: log_layout_def)
  note lay = log_layout_wrote [OF Suc.prems(1) s1(2) this]
  have ny: "?y \<notin> set (drop (Suc tail) (logged s))" using Suc.prems(2) dr distinct_drop [of "logged s" tail] by simp
  then have "\<forall>x \<in> set (drop (Suc tail) (logged s1)). calm (cells D s1) x \<and> (\<not> rec \<longrightarrow> cells D s1 x \<noteq> None)"
    using Suc.prems(4) dr lay(2) s1(3) by (auto simp: calm_def)
  then obtain s' where s': "install_loop s1 rec (Suc tail) k = Inr s'"
    "wrote D B s1 s' (map (?w s1) [Suc tail..<Suc tail + k])"
    "\<forall>n. n \<notin> set (drop (Suc tail) (logged s)) \<longrightarrow> cells D s' n = cells D s1 n"
    "\<forall>i. Suc tail \<le> i \<longrightarrow> i < Suc tail + k \<longrightarrow> cells D s' (logged s ! i) =
       installed rec (disk_blocks s1 (log_block ?S i)) (cells D s1 (logged s ! i))"
    using Suc.IH [of s1 "Suc tail"] Suc.prems(2,3,5) lay st by auto
  have same: "disk_blocks s1 (log_block ?S i) = disk_blocks s (log_block ?S i)" if "i < tail + Suc k" for i
  proof -
    have "log_block ?S i \<in> log_region s" using log_block_region(1) [of _ s] le(3) that by simp
    then have "log_block ?S i \<noteq> ?y" using yS(1) [of tail] by auto
    then show ?thesis using s1(2) by (simp add: wrote_def)
  qed
  then have "map (?w s1) [Suc tail..<Suc tail + k] = map (?w s) [Suc tail..<Suc tail + k]"
    using lay(2) st(1) by (intro map_cong refl) auto
  moreover have "[tail..<tail + Suc k] = tail # [Suc tail..<Suc tail + k]" by (simp add: upt_rec)
  ultimately have w: "wrote D B s s' (map (?w s) [tail..<tail + Suc k])"
    using wrote_trans [OF s1(2) s'(2)] by (simp only: list.map append.simps)
  have keep: "cells D s' n = cells D s n" if "n \<notin> set (drop tail (logged s))" for n
    using that dr s'(3) s1(3) by simp
  have "cells D s' (logged s ! i) = installed rec (disk_blocks s (log_block ?S i)) (cells D s (logged s ! i))"
    if i: "tail \<le> i" "i < tail + Suc k" for i
  proof (cases "i = tail")
    case False
    moreover have "logged s ! i \<noteq> ?y" using False i Suc.prems(2) len by (simp add: nth_eq_iff_index_eq)
    ultimately show ?thesis using s'(4) i same [of i] s1(3) by simp
  qed (use s'(3) ny s1(3) in simp)
  then show ?case using s1(1) s'(1) w keep by (intro exI [of _ s']) simp
qed

lemma writeHead_law:
  assumes lay: "log_layout D B s"
  shows "\<exists>s'. writeHead s = Inr s' \<and> cells D s' = cells D s \<and>
    wrote D B s s' [(log_start s, put_header (disk_blocks s (log_start s)) (header_n s) (header_block s))]"
proof -
  let ?S = "log_start s" and ?l = "cells D s" and ?d = "disk_blocks s"
  have a: "cache_inv D B s" "?S \<in> B" "?l ?S = None" "log_device s = D"
    using lay log_block_region(2) [of s] by (auto simp: log_layout_def)
  have cS: "calm ?l ?S" using a(3) by (simp add: calm_def)
  obtain b s1 s2 where f: "cache_get s D ?S = Inr (b, s1)" "s2 = buffer_read s1 b" "cache_inv D B s2" "ptr D s2 ?S = Some b"
    "cells D s2 = ?l(?S \<mapsto> held_cell ?l ?d ?S)" "cache_frame s s2" "b_data (buffer_of s2 b) = ?d ?S"
    using bc.fetch [OF a(1,2) calm_idle [OF cS]] a(3) by auto
  note fl = log_fields [OF cache_frame_more [OF f(6)]]
  let ?h = "put_header (?d ?S) (header_n s) (header_block s)"
  have "length (?d ?S) = BLOCK_SIZE" using a(1) by (simp add: cache_inv_def)
  then have h: "length ?h = BLOCK_SIZE"
    using lay by (intro put_header_round_trip) (simp add: header_fits_def log_layout_def)
  have "cells D s2 ?S = Some (held_cell ?l ?d ?S)" using f(5) by simp
  from store_write [OF f(3,4) this held_cell_simps(1,2) h] obtain s4 where
    w: "buffer_write (set_data s2 b ?h) b = Inr s4" "ptr D s4 = ptr D s2" "wrote D B s s4 [(?S, ?h)]"
      "cells D s4 = (cells D s2)(?S \<mapsto> (held_cell ?l ?d ?S)\<lparr>c_data := Some ?h\<rparr>)"
    using f(6) by (auto simp: wrote_def cache_frame_def)
  have "ptr D s4 ?S = Some b" "cells D s4 ?S = Some ((held_cell ?l ?d ?S)\<lparr>c_data := Some ?h\<rparr>)" using w f(4) by auto
  from release_wrote [OF w(3) this] obtain s5 where r: "cache_release s4 b = Inr s5" "wrote D B s s5 [(?S, ?h)]"
    "cells D s5 = (cells D s4)(?S := released ((held_cell ?l ?d ?S)\<lparr>c_data := Some ?h\<rparr>))" by auto
  have "released ((held_cell ?l ?d ?S)\<lparr>c_data := Some ?h\<rparr>) = None" using a(3) by (simp add: released_def held_cell_def)
  then have "cells D s5 = ?l" using r(3) w(4) f(5) a(3) by (auto simp: fun_eq_iff)
  moreover have "writeHead s = Inr s5"
    using f(1,2,7) w(1) r(1) a(4) fl by (simp add: writeHead_def Let_def)
  ultimately show ?thesis using r(2) by blast
qed

lemma readHead_law:
  assumes lay: "log_layout D B s" and n: "n = get64 (disk_blocks s (log_start s)) 0" "unat n \<le> LOG_SIZE"
  shows "\<exists>s'. readHead s = Inr (s'\<lparr>header_n := n, header_block :=
      get_blocks (disk_blocks s (log_start s)) (unat n) @ drop (unat n) (header_block s)\<rparr>) \<and>
    cells D s' = cells D s \<and> wrote D B s s' []"
proof -
  let ?S = "log_start s" and ?l = "cells D s" and ?d = "disk_blocks s"
  let ?u = "\<lambda>s. s\<lparr>header_n := n, header_block := get_blocks (?d ?S) (unat n) @ drop (unat n) (header_block s)\<rparr>"
  have a: "cache_inv D B s" "?S \<in> B" "?l ?S = None" "log_device s = D"
    using lay log_block_region(2) [of s] by (auto simp: log_layout_def)
  have cS: "calm ?l ?S" using a(3) by (simp add: calm_def)
  obtain b s1 s2 s3 where f: "cache_get s D ?S = Inr (b, s1)" "s2 = buffer_read s1 b" "b_data (buffer_of s2 b) = ?d ?S"
    "cache_release s2 b = Inr s3" "cache_inv D B s3" "cache_frame s s3" "\<forall>k. k \<noteq> ?S \<longrightarrow> cells D s3 k = ?l k" "cells D s3 ?S = None"
    using bc.fetch_release [OF a(1,2) calm_idle [OF cS]] a(3) by auto
  have s2: "cache_frame s s2" using bc.fetch [OF a(1,2) calm_idle [OF cS]] f(1,2) by auto
  have eq: "cache_release (?u s2) b = map_sum id ?u (cache_release s2 b)"
    by (simp add: cache_release_def Let_def assert_that_def upd_buffer_def andThen_def split: sum.split)
  have "readHead s = Inr (?u s3)"
    using f(1-4) a(4) n eq by (simp add: readHead_def Let_def log_fields(7) [OF cache_frame_more [OF s2]])
  moreover have "header_block s3 = header_block s" using log_fields(7) [OF cache_frame_more [OF f(6)]] .
  moreover have "cells D s3 = ?l" using f(7,8) a(3) by (metis ext)
  moreover have "wrote D B s s3 []" using f(5,6) by (simp add: wrote_def cache_frame_def)
  ultimately show ?thesis by (intro exI [of _ s3]) simp
qed

lemma header_update [simp]:
  "cache_inv D B (s\<lparr>header_n := n\<rparr>) = cache_inv D B s" "cells D (s\<lparr>header_n := n\<rparr>) = cells D s"
  "cache_inv D B (s\<lparr>header_block := h\<rparr>) = cache_inv D B s" "cells D (s\<lparr>header_block := h\<rparr>) = cells D s"
  by (simp_all add: cache_inv_def cells_def ptr_def fun_eq_iff)

text \<open>The writes of a commit: the copies in the log, the header, the blocks themselves, the empty header.\<close>

definition commit_writes :: "'a lstate \<Rightarrow> (u32 \<Rightarrow> u8 list) \<Rightarrow> (u32 \<times> u8 list) list" where
  "commit_writes s v =
     (let S = log_start s; h = put_header (disk_blocks s S) (header_n s) (header_block s) in
      map (\<lambda>i. (log_block S i, v (logged s ! i))) [0..<unat (header_n s)] @ [(S, h)] @
      map (\<lambda>i. (logged s ! i, v (logged s ! i))) [0..<unat (header_n s)] @ [(S, put_header h 0 (header_block s))])"

lemma copies_at:
  assumes "n \<le> LOG_SIZE" "i < n"
  shows "apply_writes d (map (\<lambda>i. (log_block S i, v i)) [0..<n]) (log_block S i) = v i"
  using assms by (intro apply_writes_at) (auto simp: distinct_map inj_on_def log_block_inj)

lemma copies_other:
  assumes "x \<notin> log_block S ` {..<k}" "n \<le> k"
  shows "apply_writes d (map (\<lambda>i. (log_block S i, v i)) [0..<n]) x = d x"
  using assms by (intro apply_writes_other) auto

lemma start_not_copy: "S \<notin> log_block S ` {..<LOG_SIZE}" "S \<notin> log_block S ` {..<log_cap s}"
  using log_block_start log_cap_le by (metis imageE lessThan_iff, metis imageE lessThan_iff less_le_trans)

lemma commit_law:
  assumes lay: "log_layout D B s" and tgt: "log_targets D B s" and n: "0 < header_n s"
    and pinned: "\<forall>x \<in> set (logged s). cells D s x \<noteq> None"
    and v: "v = view_of (cells D s) (disk_blocks s)"
  shows "\<exists>s'. commit s = Inr s' \<and> cache_inv D B s' \<and> disk_blocks s' = apply_writes (disk_blocks s) (commit_writes s v) \<and>
    disk_trace s' = disk_trace s @ commit_writes s v \<and> header_n s' = 0 \<and> outstanding s' = outstanding s \<and>
    (\<forall>x. x \<notin> set (logged s) \<longrightarrow> cells D s' x = cells D s x) \<and>
    (\<forall>x \<in> set (logged s). cells D s' x = installed False (v x) (cells D s x))"
proof -
  let ?S = "log_start s" and ?n = "unat (header_n s)" and ?d = "disk_blocks s"
  let ?w = "map (\<lambda>i. (log_block ?S i, v (logged s ! i))) [0..<?n]"
  let ?h = "put_header (?d ?S) (header_n s) (header_block s)"
  have nn: "?n \<le> LOG_SIZE" "length (logged s) = ?n" using lay by (simp_all add: log_layout_def logged_def)
  obtain s1 where s1: "writeLog_loop s 0 ?n = Inr s1" "cells D s1 = cells D s" "wrote D B s s1 ?w"
    using writeLog_loop_law [OF lay tgt, of 0 ?n] v by auto
  note f1 = log_fields [of s1 s]
  have m1: "cache_state.more s1 = cache_state.more s" using s1(3) by (simp add: wrote_def)
  have l1: "log_layout D B s1" using log_layout_wrote(1) [OF lay s1(3)] lay s1(2) by (simp add: log_layout_def)
  have dS: "disk_blocks s1 ?S = ?d ?S" using s1(3) copies_other [OF start_not_copy(1) nn(1)] by (simp add: wrote_def)
  obtain s2 where s2: "writeHead s1 = Inr s2" "cells D s2 = cells D s1" "wrote D B s1 s2 [(?S, ?h)]"
    using writeHead_law [OF l1] dS log_fields [OF m1] by auto
  have w2: "wrote D B s s2 (?w @ [(?S, ?h)])" using wrote_trans [OF s1(3) s2(3)] .
  have m2: "cache_state.more s2 = cache_state.more s" using w2 by (simp add: wrote_def)
  have l2: "log_layout D B s2" "logged s2 = logged s"
    using log_layout_wrote [OF lay w2] lay s1(2) s2(2) by (simp_all add: log_layout_def)
  have d2: "disk_blocks s2 (log_block ?S i) = v (logged s ! i)" if "i < ?n" for i
    using w2 log_block_start [of i ?S] nn(1) that copies_at [OF nn(1) that] by (simp add: wrote_def)
  have t2: "distinct (logged s2)" "set (logged s2) \<subseteq> B - log_region s2"
    "\<forall>x \<in> set (drop 0 (logged s2)). calm (cells D s2) x \<and> (\<not> False \<longrightarrow> cells D s2 x \<noteq> None)" "0 + ?n = unat (header_n s2)"
    using tgt l2(2) log_fields [OF m2] log_region_more [OF m2] s1(2) s2(2) pinned by (simp_all add: log_targets_def)
  obtain s3 where s3: "installTransaction s2 False = Inr s3"
    "wrote D B s2 s3 (map (\<lambda>i. (logged s ! i, disk_blocks s2 (log_block ?S i))) [0..<?n])"
    "\<forall>x. x \<notin> set (logged s) \<longrightarrow> cells D s3 x = cells D s x"
    "\<forall>i < ?n. cells D s3 (logged s ! i) = installed False (disk_blocks s2 (log_block ?S i)) (cells D s (logged s ! i))"
    using install_loop_law [OF l2(1) t2] l2(2) log_fields [OF m2] s1(2) s2(2) by (auto simp: installTransaction_def)
  let ?v = "map (\<lambda>i. (logged s ! i, v (logged s ! i))) [0..<?n]"
  have "map (\<lambda>i. (logged s ! i, disk_blocks s2 (log_block ?S i))) [0..<?n] = ?v" using d2 by (intro map_cong refl) auto
  then have w3: "wrote D B s s3 (?w @ [(?S, ?h)] @ ?v)" using wrote_trans [OF w2 s3(2)] by (simp only: append_assoc)
  have reg: "x \<notin> set (logged s)" if "x \<in> log_region s" for x using that tgt by (auto simp: log_targets_def)
  have m3: "cache_state.more s3 = cache_state.more s" using w3 by (simp add: wrote_def)
  have l3: "log_layout D B s3" using log_layout_wrote(1) [OF lay w3] lay s3(3) reg by (simp add: log_layout_def)
  have "?S \<notin> (\<lambda>i. logged s ! i) ` {0..<?n}" using reg [OF log_block_region(2)] nn(2) nth_mem by fastforce
  then have "?S \<notin> fst ` set ?v" by (auto simp: image_image)
  then have h3: "disk_blocks s3 ?S = ?h" using w3 by (simp add: wrote_def apply_writes_other)
  have "log_layout D B (s3\<lparr>header_n := 0\<rparr>)" using l3 by (simp add: log_layout_def)
  from writeHead_law [OF this] obtain s4 where s4: "writeHead (s3\<lparr>header_n := 0\<rparr>) = Inr s4" "cells D s4 = cells D s3"
    "wrote D B (s3\<lparr>header_n := 0\<rparr>) s4 [(?S, put_header ?h 0 (header_block s))]"
    using h3 log_fields [OF m3] by auto
  have ws: "commit_writes s v = (?w @ [(?S, ?h)] @ ?v) @ [(?S, put_header ?h 0 (header_block s))]"
    by (simp add: commit_writes_def Let_def)
  have dk: "disk_blocks s4 = apply_writes ?d (commit_writes s v)" "disk_trace s4 = disk_trace s @ commit_writes s v" "cache_inv D B s4"
    using w3 s4(3) unfolding ws by (auto simp: wrote_def)
  have m4: "cache_state.more s4 = cache_state.more (s3\<lparr>header_n := 0\<rparr>)" using s4(3) by (simp add: wrote_def)
  have "commit s = Inr s4"
    using n s1(1) s2(1) s3(1) s4(1) by (simp add: commit_def)
  moreover have "cells D s4 x = installed False (v x) (cells D s x)" if "x \<in> set (logged s)" for x
    using that s3(4) s4(2) d2 nn(2) by (auto simp: in_set_conv_nth)
  ultimately show ?thesis
    using dk s3(3) s4(2) log_fields [OF m4] log_fields [OF m3] by (intro exI [of _ s4]) auto
qed

lemma recover_law:
  assumes lay: "log_layout D B s" and h: "n = get64 (disk_blocks s (log_start s)) 0" "unat n \<le> log_cap s"
    and bs: "bs = get_blocks (disk_blocks s (log_start s)) (unat n)" "distinct bs" "set bs \<subseteq> B - log_region s"
    and cl: "\<forall>x \<in> set bs. calm (cells D s) x"
  shows "\<exists>s' e. recover s = Inr s' \<and> cache_inv D B s' \<and> header_n s' = 0 \<and> get64 e 0 = 0 \<and>
    disk_blocks s' = (apply_writes (disk_blocks s)
       (map (\<lambda>i. (bs ! i, disk_blocks s (log_block (log_start s) i))) [0..<unat n]))(log_start s := e)"
proof -
  let ?S = "log_start s" and ?n = "unat n"
  obtain s1 where s1: "readHead s = Inr (s1\<lparr>header_n := n, header_block := bs @ drop ?n (header_block s)\<rparr>)"
    "cells D s1 = cells D s" "wrote D B s s1 []"
    using readHead_law [OF lay h(1)] h(2) log_cap_le [of s] bs(1) by auto
  define t where "t = s1\<lparr>header_n := n, header_block := bs @ drop ?n (header_block s)\<rparr>"
  have m1: "cache_state.more s1 = cache_state.more s" "disk_blocks s1 = disk_blocks s" "cache_inv D B s1"
    using s1(3) by (simp_all add: wrote_def)
  have tf: "log_start t = ?S" "header_n t = n" "cells D t = cells D s" "disk_blocks t = disk_blocks s"
    using log_fields [OF m1(1)] m1 s1(2) by (simp_all add: t_def)
  have tr: "log_region t = log_region s" using log_region_more [OF m1(1)] by (simp add: t_def)
  have len: "length bs = ?n" by (simp add: bs(1) get_blocks_def)
  have lt: "log_layout D B t" "logged t = bs"
    using lay m1 log_fields [OF m1(1)] log_region_more [OF m1(1)] tf h(2) len log_cap_le [of s] by (simp_all add: log_layout_def t_def logged_def)
  have tt: "distinct (logged t)" "set (logged t) \<subseteq> B - log_region t"
    "\<forall>x \<in> set (drop 0 (logged t)). calm (cells D t) x \<and> (\<not> True \<longrightarrow> cells D t x \<noteq> None)" "0 + ?n = unat (header_n t)"
    using lt(2) bs tf tr cl by simp_all
  let ?v = "map (\<lambda>i. (bs ! i, disk_blocks s (log_block ?S i))) [0..<?n]"
  obtain s2 where s2: "installTransaction t True = Inr s2" "wrote D B t s2 ?v" "\<forall>x. x \<notin> set bs \<longrightarrow> cells D s2 x = cells D s x"
    using install_loop_law [OF lt(1) tt] lt(2) tf by (auto simp: installTransaction_def)
  have m2: "cache_state.more s2 = cache_state.more t" using s2(2) by (simp add: wrote_def)
  have "\<forall>x \<in> log_region t. cells D s2 x = None" using lay s2(3) bs(3) tr by (auto simp: log_layout_def)
  then have "log_layout D B s2" by (rule log_layout_wrote(1) [OF lt(1) s2(2)])
  then have l2: "log_layout D B (s2\<lparr>header_n := 0\<rparr>)" by (simp add: log_layout_def)
  let ?e = "put_header (disk_blocks s2 ?S) 0 (header_block s2)"
  from writeHead_law [OF l2] obtain s3 where s3: "writeHead (s2\<lparr>header_n := 0\<rparr>) = Inr s3" "wrote D B (s2\<lparr>header_n := 0\<rparr>) s3 [(?S, ?e)]"
    using log_fields [OF m2] tf by auto
  have "header_n s3 = 0" using log_fields(6) [of s3 "s2\<lparr>header_n := 0\<rparr>"] s3(2) by (simp add: wrote_def)
  moreover have "recover s = Inr s3" using s1(1) s2(1) s3(1) by (simp add: recover_def t_def)
  moreover have "get64 ?e 0 = 0"
    using l2 by (intro put_header_round_trip) (simp add: header_fits_def log_layout_def cache_inv_def)
  moreover have "disk_blocks s3 = (apply_writes (disk_blocks s) ?v)(?S := ?e)" "cache_inv D B s3"
    using s3(2) s2(2) tf by (simp_all add: wrote_def)
  ultimately show ?thesis by blast
qed

section \<open>Crashes during a commit\<close>

lemma fst_set_take: "fst ` set (take k (map (\<lambda>i. (f i, g i)) xs)) \<subseteq> f ` set xs"
  using set_take_subset [of k "map (\<lambda>i. (f i, g i)) xs"] by fastforce

lemma crash_prefix:
  assumes lay: "log_layout D B s" and tgt: "log_targets D B s"
    and d: "d = apply_writes (disk_blocks s) (take j (commit_writes s v))"
    and n: "n = unat (header_n s)" and S: "S = log_start s" and h: "h = put_header (disk_blocks s S) (header_n s) (header_block s)"
  shows "j \<le> n \<Longrightarrow> d S = disk_blocks s S \<and> (\<forall>x. x \<notin> log_region s \<longrightarrow> d x = disk_blocks s x)"
    "n < j \<Longrightarrow> j \<le> 2 * n + 1 \<Longrightarrow> d S = h \<and> (\<forall>i < n. d (log_block S i) = v (logged s ! i)) \<and>
       (\<forall>x. x \<notin> log_region s \<longrightarrow> x \<notin> set (logged s) \<longrightarrow> d x = disk_blocks s x)"
    "2 * n + 1 < j \<Longrightarrow> d S = put_header h 0 (header_block s) \<and>
       (\<forall>x. x \<notin> log_region s \<longrightarrow> d x = (if x \<in> set (logged s) then v x else disk_blocks s x))"
proof -
  let ?d = "disk_blocks s"
  define W where "W = map (\<lambda>i. (log_block S i, v (logged s ! i))) [0..<n]"
  define V where "V = map (\<lambda>i. (logged s ! i, v (logged s ! i))) [0..<n]"
  have nn: "n \<le> LOG_SIZE" "length (logged s) = n" "n \<le> log_cap s" using lay n by (simp_all add: log_layout_def logged_def)
  have ws: "commit_writes s v = W @ [(S, h)] @ V @ [(S, put_header h 0 (header_block s))]"
    by (simp add: commit_writes_def Let_def W_def V_def n S h)
  have len: "length W = n" "length V = n" by (simp_all add: W_def V_def)
  have WS: "fst ` set (take k W) \<subseteq> log_block S ` {..<log_cap s}" for k
    unfolding W_def by (rule subset_trans [OF fst_set_take]) (use nn(3) in auto)
  have "(\<lambda>i. logged s ! i) ` set [0..<n] = set (logged s)" unfolding set_map [symmetric] nn(2) [symmetric] by (simp only: map_nth)
  then have VS: "fst ` set (take k V) \<subseteq> set (logged s)" for k
    unfolding V_def using fst_set_take [of k "(!) (logged s)" "\<lambda>i. v (logged s ! i)" "[0..<n]"] by simp
  have reg: "x \<in> log_region s \<Longrightarrow> x \<notin> set (logged s)" for x using tgt S by (auto simp: log_targets_def)
  have out: "x \<notin> log_region s \<Longrightarrow> x \<noteq> S \<and> x \<notin> log_block S ` {..<log_cap s}" for x using S by (auto simp: log_region_def)
  have Wx: "apply_writes e (take k W) x = e x" if "x \<notin> log_block S ` {..<log_cap s}" for e k x
    using WS [of k] that by (intro apply_writes_other) auto
  have Vx: "apply_writes e (take k V) x = e x" if "x \<notin> set (logged s)" for e k x
    using VS [of k] that by (intro apply_writes_other) auto
  have Wi: "apply_writes e W (log_block S i) = v (logged s ! i)" if "i < n" for e i
    unfolding W_def by (rule copies_at [OF nn(1) that])
  have Vi: "apply_writes e V x = v x" if x: "x \<in> set (logged s)" for e x
  proof -
    obtain i where i: "i < n" "x = logged s ! i" using x nn(2) by (metis in_set_conv_nth)
    have "distinct (map ((!) (logged s)) [0..<n])" using tgt nn(2) by (simp add: log_targets_def map_nth flip: nn(2))
    from apply_writes_at [OF this, of i] show ?thesis using i by (simp add: V_def)
  qed
  show "d S = ?d S \<and> (\<forall>x. x \<notin> log_region s \<longrightarrow> d x = ?d x)" if "j \<le> n"
    using that len d ws Wx [OF start_not_copy(2)] Wx out by simp
  show "d S = h \<and> (\<forall>i < n. d (log_block S i) = v (logged s ! i)) \<and>
       (\<forall>x. x \<notin> log_region s \<longrightarrow> x \<notin> set (logged s) \<longrightarrow> d x = ?d x)" if j: "n < j" "j \<le> 2 * n + 1"
  proof -
    obtain k where k: "j = n + 1 + k" "k \<le> n" using j by (metis add.assoc add_le_cancel_left less_eqE mult_2 add.commute Suc_leI Suc_eq_plus1)
    then have dj: "d = apply_writes ((apply_writes ?d W)(S := h)) (take k V)" using d ws len by simp
    have "log_block S i \<notin> set (logged s)" "log_block S i \<noteq> S" if "i < n" for i
      using that nn(1,3) S reg [OF log_block_region(1)] log_block_start by auto
    then show ?thesis
      using dj Vx reg [OF log_block_region(2)] S Wi out Wx [of _ _ n] len by simp
  qed
  show "d S = put_header h 0 (header_block s) \<and>
       (\<forall>x. x \<notin> log_region s \<longrightarrow> d x = (if x \<in> set (logged s) then v x else ?d x))" if j: "2 * n + 1 < j"
  proof -
    have "d = (apply_writes ((apply_writes ?d W)(S := h)) V)(S := put_header h 0 (header_block s))"
      using j d ws len by simp
    then show ?thesis using Vi Vx [of _ _ n] out Wx [of _ _ n] len by simp
  qed
qed

text \<open>A machine that has started again: nothing is cached, the disk is what the crash left.\<close>

definition rebooted :: "u32 \<Rightarrow> u32 set \<Rightarrow> 'a lstate \<Rightarrow> 'a lstate \<Rightarrow> bool" where
  "rebooted D B s r \<longleftrightarrow> log_layout D B r \<and> log_start r = log_start s \<and> log_size r = log_size s \<and> (\<forall>x. cells D r x = None)"

lemma recover_rebooted:
  assumes r: "rebooted D B s r" and h: "n = get64 (disk_blocks r (log_start s)) 0" "unat n \<le> log_cap s"
    and bs: "bs = get_blocks (disk_blocks r (log_start s)) (unat n)" "distinct bs" "set bs \<subseteq> B - log_region s"
  shows "\<exists>r'. recover r = Inr r' \<and> cache_inv D B r' \<and> get64 (disk_blocks r' (log_start s)) 0 = 0 \<and>
    (\<forall>x. x \<notin> log_region s \<longrightarrow> x \<notin> set bs \<longrightarrow> disk_blocks r' x = disk_blocks r x) \<and>
    (\<forall>i < unat n. disk_blocks r' (bs ! i) = disk_blocks r (log_block (log_start s) i))"
proof -
  let ?S = "log_start s" and ?w = "map (\<lambda>i. (bs ! i, disk_blocks r (log_block (log_start s) i))) [0..<unat n]"
  have len: "length bs = unat n" by (simp add: bs(1) get_blocks_def)
  have "\<forall>x \<in> set bs. calm (cells D r) x" using r by (simp add: rebooted_def calm_def)
  then obtain r' e where r': "recover r = Inr r'" "cache_inv D B r'" "get64 e 0 = 0"
    "disk_blocks r' = (apply_writes (disk_blocks r) ?w)(?S := e)"
    using recover_law [of D B r n bs] r h bs log_region_cong [of r s] by (auto simp: rebooted_def)
  have dist: "distinct (map ((!) bs) [0..<unat n])" using bs(2) len by (simp add: map_nth flip: len)
  have at: "disk_blocks r' (bs ! i) = disk_blocks r (log_block ?S i)" if i: "i < unat n" for i
  proof -
    have "bs ! i \<in> set bs" using i len by simp
    then have "bs ! i \<noteq> ?S" using subsetD [OF bs(3)] log_block_region(2) [of s] by (metis DiffD2)
    then show ?thesis using r'(4) i apply_writes_at [OF dist, of i] by simp
  qed
  have "disk_blocks r' x = disk_blocks r x" if x: "x \<notin> log_region s" "x \<notin> set bs" for x
  proof -
    have "map fst ?w = bs" unfolding len [symmetric] by (simp add: comp_def map_nth)
    then have "fst ` set ?w = set bs" by (metis set_map)
    then have "apply_writes (disk_blocks r) ?w x = disk_blocks r x" using x(2) by (intro apply_writes_other) simp
    then show ?thesis using x(1) log_block_region(2) [of s] r'(4) by auto
  qed
  then show ?thesis using at r' by (intro exI [of _ r']) simp
qed

text \<open>
  C1: a commit is atomic with respect to a crash. Stop the machine after any number \<open>j\<close> of the block
  writes of \<open>commit\<close> and start it again: \<open>recover\<close> succeeds, leaves an empty log header, and outside the
  log every block of the disk is as before the transaction when the header was not yet written, and
  has the contents of the transaction from then on. Without a crash \<open>commit\<close> succeeds.
\<close>

theorem commit_is_crash_atomic:
  assumes lay: "log_layout D B s" and tgt: "log_targets D B s" and n: "0 < header_n s"
    and pinned: "\<forall>x \<in> set (logged s). cells D s x \<noteq> None"
    and clean: "get64 (disk_blocks s (log_start s)) 0 = 0"
  shows "\<exists>s' ws. commit s = Inr s' \<and> disk_trace s' = disk_trace s @ ws \<and> disk_blocks s' = apply_writes (disk_blocks s) ws \<and>
    (\<forall>j r. rebooted D B s r \<and> disk_blocks r = apply_writes (disk_blocks s) (take j ws) \<longrightarrow>
       (\<exists>r'. recover r = Inr r' \<and> get64 (disk_blocks r' (log_start s)) 0 = 0 \<and>
          (\<forall>x. x \<notin> log_region s \<longrightarrow> disk_blocks r' x =
             (if unat (header_n s) < j \<and> x \<in> set (logged s) then view_of (cells D s) (disk_blocks s) x else disk_blocks s x))))"
proof -
  let ?S = "log_start s" and ?n = "unat (header_n s)" and ?v = "view_of (cells D s) (disk_blocks s)"
  let ?h = "put_header (disk_blocks s ?S) (header_n s) (header_block s)"
  have fits: "header_fits (disk_blocks s ?S) (header_n s) (header_block s)"
    using lay by (simp add: header_fits_def log_layout_def cache_inv_def)
  note rt = put_header_round_trip [OF fits]
  have "header_fits ?h 0 (header_block s)" using rt(1) by (simp add: header_fits_def)
  note rt' = put_header_round_trip [OF this]
  have nn: "?n \<le> log_cap s" "length (logged s) = ?n" using lay by (simp_all add: log_layout_def logged_def)
  obtain s' where s': "commit s = Inr s'" "disk_blocks s' = apply_writes (disk_blocks s) (commit_writes s ?v)"
    "disk_trace s' = disk_trace s @ commit_writes s ?v"
    using commit_law [OF lay tgt n pinned refl] by blast
  have "\<exists>r'. recover r = Inr r' \<and> get64 (disk_blocks r' ?S) 0 = 0 \<and>
      (\<forall>x. x \<notin> log_region s \<longrightarrow> disk_blocks r' x = (if ?n < j \<and> x \<in> set (logged s) then ?v x else disk_blocks s x))"
    if r: "rebooted D B s r" "disk_blocks r = apply_writes (disk_blocks s) (take j (commit_writes s ?v))" for j r
  proof -
    note cp = crash_prefix [OF lay tgt r(2) refl refl refl]
    note empty = recover_rebooted [OF r(1) _ _ refl, of 0, simplified]
    consider "j \<le> ?n" | "?n < j" "j \<le> 2 * ?n + 1" | "2 * ?n + 1 < j" by linarith
    then show ?thesis
    proof cases
      case 1
      then show ?thesis using cp(1) empty clean by (auto simp: get_blocks_def)
    next
      case 2
      have "get64 (disk_blocks r ?S) 0 = header_n s" "get_blocks (disk_blocks r ?S) ?n = logged s"
        using cp(2) [OF 2] rt by (simp_all add: logged_def)
      from recover_rebooted [OF r(1) this(1) [symmetric] nn(1) this(2) [symmetric]] obtain r' where r': "recover r = Inr r'"
        "get64 (disk_blocks r' ?S) 0 = 0" "\<forall>x. x \<notin> log_region s \<longrightarrow> x \<notin> set (logged s) \<longrightarrow> disk_blocks r' x = disk_blocks r x"
        "\<forall>i < ?n. disk_blocks r' (logged s ! i) = disk_blocks r (log_block ?S i)"
        using tgt by (auto simp: log_targets_def)
      have "disk_blocks r' x = ?v x" if "x \<in> set (logged s)" for x
        using that r'(4) cp(2) [OF 2] nn(2) by (auto simp: in_set_conv_nth)
      then show ?thesis using r' cp(2) [OF 2] 2 by (intro exI [of _ r']) simp
    next
      case 3
      then show ?thesis using cp(3) empty rt'(2) by (auto simp: get_blocks_def)
    qed
  qed
  then show ?thesis using s' by (intro exI [of _ s'] exI [of _ "commit_writes s ?v"]) blast
qed

section \<open>Recording a block\<close>

lemma find_block_spec:
  "find_block bs b i k \<le> i + k \<and> i \<le> find_block bs b i k \<and>
   (if \<exists>j. i \<le> j \<and> j < i + k \<and> bs ! j = b then find_block bs b i k < i + k \<and> bs ! find_block bs b i k = b
    else find_block bs b i k = i + k)"
proof (induction k arbitrary: i)
  case (Suc k)
  show ?case
  proof (cases "bs ! i = b")
    case False
    then have "(\<exists>j. i \<le> j \<and> j < i + Suc k \<and> bs ! j = b) \<longleftrightarrow> (\<exists>j. Suc i \<le> j \<and> j < Suc i + k \<and> bs ! j = b)"
      by (metis Suc_leD Suc_leI add_Suc_shift le_neq_implies_less)
    then show ?thesis using Suc.IH [of "Suc i"] False by (auto split: if_splits)
  qed (auto intro: exI [of _ i])
qed simp

lemma find_block_logged:
  assumes "n \<le> length bs"
  shows "if b \<in> set (take n bs) then find_block bs b 0 n < n \<and> bs ! find_block bs b 0 n = b else find_block bs b 0 n = n"
proof -
  have "(\<exists>j. 0 \<le> j \<and> j < 0 + n \<and> bs ! j = b) \<longleftrightarrow> b \<in> set (take n bs)" using assms by (auto simp: in_set_conv_nth)
  then show ?thesis using find_block_spec [of bs b 0 n] by (simp split: if_splits)
qed

definition log_room :: "'a lstate \<Rightarrow> bool" where
  "log_room s \<longleftrightarrow> header_n s < of_nat LOG_SIZE \<and> header_n s < log_size s - 1 \<and> outstanding s \<ge> 1"

lemma writeLog_law:
  assumes lay: "log_layout D B s" and room: "log_room s"
    and p: "ptr D s x = Some b" and c: "cells D s x = Some c" "c_ref c + 1 < 2 ^ 32" and x: "x \<notin> log_region s"
  shows "\<exists>s'. writeLog s b = Inr s' \<and> log_layout D B s' \<and> ptr D s' = ptr D s \<and> log_start s' = log_start s \<and> log_size s' = log_size s \<and>
    outstanding s' = outstanding s \<and> committing s' = committing s \<and>
    pid_now s' = pid_now s \<and> disk_blocks s' = disk_blocks s \<and> disk_trace s' = disk_trace s \<and>
    (if x \<in> set (logged s) then logged s' = logged s \<and> header_n s' = header_n s \<and> cells D s' = cells D s
     else logged s' = logged s @ [x] \<and> header_n s' = header_n s + 1 \<and> cells D s' = (cells D s)(x \<mapsto> c\<lparr>c_ref := c_ref c + 1\<rparr>))"
proof -
  let ?n = "unat (header_n s)" and ?bs = "header_block s"
  have inv: "cache_inv D B s" and len: "length ?bs = LOG_SIZE" using lay by (simp_all add: log_layout_def)
  have n: "?n < LOG_SIZE" using room by (simp add: log_room_def word_less_nat_alt LOG_SIZE_eq)
  have n1: "unat (header_n s + 1) = ?n + 1" using n by (simp add: unat_plus_if' LOG_SIZE_eq)
  have blk: "b_block (buffer_of s b) = x" using ptr_buffer(2) [OF inv p] .
  let ?i = "find_block ?bs x 0 ?n"
  have fi: "if x \<in> set (logged s) then ?i < ?n \<and> ?bs ! ?i = x else ?i = ?n"
    using find_block_logged [of ?n ?bs x] n len by (simp add: logged_def)
  show ?thesis
  proof (cases "x \<in> set (logged s)")
    case True
    then have i: "?i < ?n" "?bs ! ?i = x" using fi by auto
    then have "?bs[?i := x] = ?bs" by (metis list_update_id)
    then have "writeLog s b = Inr s" using room i blk by (simp add: writeLog_def log_room_def Let_def)
    then show ?thesis using True lay by auto
  next
    case False
    then have i: "?i = ?n" using fi by auto
    let ?s = "s\<lparr>header_block := ?bs[?n := x]\<rparr>"
    have q: "cache_inv D B ?s" "ptr D ?s x = Some b" "cells D ?s x = Some c" using inv p c by (simp_all add: ptr_def)
    note pin = cache_pin_law [OF q c(2)]
    define t where "t = (cache_pin ?s b)\<lparr>header_n := header_n s + 1\<rparr>"
    have "writeLog s b = Inr t" using room i blk by (simp add: writeLog_def log_room_def Let_def t_def)
    moreover have m: "cache_state.more (cache_pin ?s b) = cache_state.more ?s" using pin(4) by (simp add: cache_frame_def)
    have f: "header_block t = ?bs[?n := x]" "log_device t = log_device s" "log_start t = log_start s" "log_size t = log_size s"
      "outstanding t = outstanding s" "committing t = committing s" "header_n t = header_n s + 1"
      using log_fields [OF m] by (simp_all add: t_def)
    moreover have g: "pid_now t = pid_now s" "disk_blocks t = disk_blocks s" "disk_trace t = disk_trace s"
      using pin(4) by (simp_all add: t_def cache_frame_def)
    moreover have cl: "cells D t = (cells D s)(x \<mapsto> c\<lparr>c_ref := c_ref c + 1\<rparr>)" "cache_inv D B t"
      using pin(1,3) by (simp_all add: t_def)
    moreover have "ptr D t = ptr D s" using pin(2) by (simp add: t_def ptr_def fun_eq_iff)
    moreover have "?n + 1 \<le> log_cap s" using room n by (simp add: log_room_def log_cap_def word_less_nat_alt)
    then have "log_layout D B t"
      using lay f(1,2,6,7) cl x n1 n log_region_cong(1) [OF f(3,4)] log_region_cong(2) [OF f(4)] by (auto simp: log_layout_def)
    moreover have "logged t = logged s @ [x]"
      using f(1,7) n1 n len by (simp add: logged_def take_Suc_conv_app_nth)
    ultimately show ?thesis using False by (intro exI [of _ t]) simp
  qed
qed

text \<open>An empty log at block 2 of the example disk, with all blocks up to 255 in use.\<close>

definition example_log :: "u64 \<Rightarrow> log_state" where
  "example_log num = cache_state.extend example_cache
     (log_state.fields 2 num 0 False 1 0 (replicate LOG_SIZE 0))"

lemma example_log_fields [simp]:
  "log_start (example_log k) = 2" "log_size (example_log k) = k" "outstanding (example_log k) = 0"
  "committing (example_log k) = False" "log_device (example_log k) = 1" "header_n (example_log k) = 0"
  "header_block (example_log k) = replicate LOG_SIZE 0" "disk_blocks (example_log k) = (\<lambda>_. replicate BLOCK_SIZE 0)"
  "bufferTable (example_log k) = bufferTable example_cache" "pid_now (example_log k) = 1"
  by (simp_all add: example_log_def example_cache_def cache_state.defs log_state.defs)

lemma example_bucket_fit: "bucket_fit 1 (bufferTable example_cache) {n. n < 256}"
proof -
  let ?t = "bufferTable example_cache"
  have idx: "index_of ?t (buffer_key 1 k) = unat (take_bit 8 k)" for k
  proof -
    have m: "(255 :: u64) = mask 8" by (simp add: mask_eq_exp_minus_1)
    have "(buffer_key D k AND mask 8) = ucast (take_bit 8 k)" for D
      by (rule bit_word_eqI) (auto simp: buffer_key_def bit_simps)
    moreover have "unat (ucast (take_bit 8 k) :: u64) = unat (take_bit 8 k)"
      by (simp add: unsigned_ucast_eq unsigned_take_bit_eq)
    ultimately show ?thesis by (simp add: example_cache_def index_of_def m)
  qed
  have "unat (take_bit 8 k) = unat k" if "k < 256" for k :: u32
    using that by (simp add: unsigned_take_bit_eq word_less_nat_alt take_bit_nat_eq_self)
  then have "index_of ?t (buffer_key 1 k) = unat k" if "k < 256" for k :: u32 using idx that by simp
  then have "{k \<in> {n. n < 256}. index_of ?t (buffer_key 1 k) = index_of ?t (buffer_key 1 n)} = {n}" if "n < 256" for n :: u32
    using that by (auto simp: word_unat_eq_iff)
  then show ?thesis by (auto simp: bucket_fit_def)
qed

abbreviation example_blocks :: "u32 set" where
  "example_blocks \<equiv> {n. n < 256}"

lemma example_log_block: assumes "i < LOG_SIZE" shows "unat (log_block 2 i) = i + 3"
proof -
  have "log_block 2 i = of_nat (i + 3)" by (simp add: log_block_def)
  then show ?thesis using assms by (simp add: unat_of_nat LOG_SIZE_eq take_bit_nat_eq_self del: of_nat_add)
qed

lemma example_log_layout: "log_layout 1 example_blocks (example_log k)" "cells 1 (example_log k) n = None"
proof -
  have c: "cache_inv 1 {} example_cache" "\<And>n. cells 1 example_cache n = None" using example_cache_inv [of "{}"] by simp_all
  have none: "cells 1 (example_log k) n = None" for n using c(2) [of n] by (simp add: cells_def ptr_def)
  have l: "hm_lookup (bufferTable example_cache) j = None" for j
    using c(1) unfolding cache_inv_def by (metis empty_iff not_None_eq)
  then have "cache_inv 1 example_blocks (example_log k)"
    using c(1) example_bucket_fit by (simp add: cache_inv_def)
  moreover have "log_block 2 i < 256" if "i < LOG_SIZE" for i
    using example_log_block [OF that] that by (simp add: word_less_nat_alt LOG_SIZE_eq)
  ultimately show "log_layout 1 example_blocks (example_log k)" "cells 1 (example_log k) n = None"
    using none log_cap_le [of "example_log k"] by (auto simp: log_layout_def log_region_def)
qed

lemma example_region: assumes "log_start s = 2" "x \<in> log_region s" shows "x < 33"
proof -
  have "log_block 2 i < 33" if "i < log_cap s" for i
    using that log_cap_le [of s] example_log_block [of i] by (simp add: word_less_nat_alt LOG_SIZE_eq)
  then show ?thesis using assms by (auto simp: log_region_def)
qed

text \<open>A transaction that has written block 50: begun, the block fetched, filled, recorded and released.\<close>

lemma example_transaction:
  "\<exists>b s1 s2 (s :: log_state). beginOp (example_log 31) = Inr s1 \<and> cache_get s1 1 50 = Inr (b, s2) \<and>
     andThen (writeLog (set_data (buffer_read s2 b) b (replicate BLOCK_SIZE 7)) b) (\<lambda>s3. cache_release s3 b) = Inr s \<and>
     log_layout 1 example_blocks s \<and> log_start s = 2 \<and> logged s = [50] \<and> header_n s = 1 \<and> outstanding s = 1 \<and> \<not> committing s \<and>
     cells 1 s = [50 \<mapsto> \<lparr>c_data = Some (replicate BLOCK_SIZE 7), c_ref = 1, c_lock = False\<rparr>] \<and>
     disk_blocks s = (\<lambda>_. replicate BLOCK_SIZE 0)"
proof -
  let ?B = example_blocks and ?e = "example_log 31" and ?d = "replicate BLOCK_SIZE (7 :: u8)"
  define s1 where "s1 = ?e\<lparr>outstanding := 1\<rparr>"
  have b: "beginOp ?e = Inr s1" by (simp add: beginOp_def log_full_def s1_def LOG_SIZE_eq MAX_OP_BLOCKS_def)
  have eq: "cells 1 s1 = cells 1 ?e" "ptr 1 s1 = ptr 1 ?e" "cache_inv 1 ?B s1 = cache_inv 1 ?B ?e"
    by (simp_all add: cells_def ptr_def s1_def cache_inv_def fun_eq_iff)
  have l1: "log_layout 1 ?B s1" using example_log_layout(1) [of 31] eq by (simp add: log_layout_def s1_def)
  have none: "cells 1 s1 = Map.empty" using eq(1) example_log_layout(2) by auto
  have inv: "cache_inv 1 ?B s1" using l1 by (simp add: log_layout_def)
  have "idle (cells 1 s1) 50" by (simp add: idle_def none)
  from bc.fetch [OF inv _ this] obtain b s2 t where f: "cache_get s1 1 50 = Inr (b, s2)" "t = buffer_read s2 b"
    "cache_inv 1 ?B t" "ptr 1 t 50 = Some b" "cells 1 t = [50 \<mapsto> held_cell (cells 1 s1) (disk_blocks s1) 50]" "cache_frame s1 t"
    using none by auto
  have "cells 1 t 50 = Some (held_cell (cells 1 s1) (disk_blocks s1) 50)" using f(5) by simp
  note u = set_data_law [OF f(3,4) this held_cell_simps(1), of ?d, simplified]
  let ?t = "set_data t b ?d"
  have c: "cells 1 ?t = [50 \<mapsto> \<lparr>c_data = Some ?d, c_ref = 1, c_lock = True\<rparr>]"
    using u(3) f(5) by (simp add: held_cell_def none)
  have fr: "cache_frame s1 ?t" using f(6) u(4) cache_frame_trans by blast
  note lf = log_fields [OF cache_frame_more [OF fr]]
  have notin: "(50 :: u32) \<notin> log_region t" if "log_start t = 2" for t :: log_state using example_region [OF that, of 50] by auto
  have lt: "log_layout 1 ?B ?t" "log_room ?t" "logged ?t = []"
    using l1 u(1) c lf log_region_more [OF cache_frame_more [OF fr]] notin
    by (auto simp: log_layout_def log_room_def logged_def s1_def LOG_SIZE_eq)
  have "ptr 1 ?t 50 = Some b" "cells 1 ?t 50 = Some \<lparr>c_data = Some ?d, c_ref = 1, c_lock = True\<rparr>" using u(2) f(4) c by auto
  from writeLog_law [OF lt(1,2) this] notin lt(3) lf obtain s3 where w: "writeLog ?t b = Inr s3" "log_layout 1 ?B s3"
    "ptr 1 s3 = ptr 1 ?t" "log_start s3 = 2" "outstanding s3 = 1" "\<not> committing s3" "disk_blocks s3 = disk_blocks ?t" "logged s3 = [50]"
    "header_n s3 = 1" "cells 1 s3 = [50 \<mapsto> \<lparr>c_data = Some ?d, c_ref = Suc (Suc 0), c_lock = True\<rparr>]"
    using c by (auto simp: s1_def)
  have i3: "cache_inv 1 ?B s3" using w(2) by (simp add: log_layout_def)
  have "ptr 1 s3 50 = Some b" "cells 1 s3 50 = Some \<lparr>c_data = Some ?d, c_ref = Suc (Suc 0), c_lock = True\<rparr>" using w u(2) f(4) by auto
  from cache_release_law [OF i3 this] obtain s4 where r: "cache_release s3 b = Inr s4" "cache_inv 1 ?B s4" "cache_frame s3 s4"
    "cells 1 s4 = [50 \<mapsto> \<lparr>c_data = Some ?d, c_ref = 1, c_lock = False\<rparr>]" using w(10) by auto
  note l4 = log_fields [OF cache_frame_more [OF r(3)]]
  have "log_layout 1 ?B s4"
    using w(2,4) r(2,4) l4 log_region_more [OF cache_frame_more [OF r(3)]] notin by (auto simp: log_layout_def)
  moreover have "logged s4 = [50]" using w(8) l4 by (simp add: logged_def)
  moreover have "disk_blocks s4 = (\<lambda>_. replicate BLOCK_SIZE 0)"
    using r(3) w(7) fr by (simp add: cache_frame_def s1_def)
  ultimately show ?thesis
    using b f(1,2) w(1,4,5,6,9) r(1,4) l4 by (intro exI [of _ b] exI [of _ s1] exI [of _ s2] exI [of _ s4]) simp
qed

lemma example_commit_ready:
  "\<exists>s :: log_state. log_layout 1 example_blocks s \<and> log_targets 1 example_blocks s \<and> log_start s = 2 \<and> logged s = [50] \<and> header_n s = 1 \<and>
     cells 1 s 50 = Some \<lparr>c_data = Some (replicate BLOCK_SIZE 7), c_ref = 1, c_lock = False\<rparr> \<and>
     disk_blocks s = (\<lambda>_. replicate BLOCK_SIZE 0)"
proof -
  obtain s :: log_state where s: "log_layout 1 example_blocks s" "log_start s = 2" "logged s = [50]" "header_n s = 1"
    "cells 1 s = [50 \<mapsto> \<lparr>c_data = Some (replicate BLOCK_SIZE 7), c_ref = 1, c_lock = False\<rparr>]"
    "disk_blocks s = (\<lambda>_. replicate BLOCK_SIZE 0)"
    using example_transaction by blast
  have "(50 :: u32) \<notin> log_region s" using example_region [OF s(2), of 50] by auto
  then have "log_targets 1 example_blocks s" using s by (simp add: log_targets_def calm_def)
  then show ?thesis using s by (intro exI [of _ s]) simp
qed

lemma get64_zeros: "get64 (replicate BLOCK_SIZE 0) 0 = 0"
proof -
  have "get_bytes (replicate BLOCK_SIZE 0) 0 8 = replicate 8 (0 :: u8)" by (simp add: get_bytes_def BLOCK_SIZE_def)
  then show ?thesis by (simp add: get64_def numeral_eq_Suc)
qed

theorem commit_is_crash_atomic_witness:
  "\<exists>s s' ws. header_n s = 1 \<and> logged s = [50] \<and> commit (s :: log_state) = Inr s' \<and> disk_trace s' = disk_trace s @ ws \<and>
     (\<forall>j r. rebooted 1 example_blocks s r \<and> disk_blocks r = apply_writes (disk_blocks s) (take j ws) \<longrightarrow>
       (\<exists>r'. recover r = Inr r' \<and> disk_blocks r' 50 = replicate BLOCK_SIZE (if 1 < j then 7 else 0)))"
proof -
  obtain s :: log_state where s: "log_layout 1 example_blocks s" "log_targets 1 example_blocks s" "log_start s = 2" "logged s = [50]" "header_n s = 1"
    "cells 1 s 50 = Some \<lparr>c_data = Some (replicate BLOCK_SIZE 7), c_ref = 1, c_lock = False\<rparr>"
    "disk_blocks s = (\<lambda>_. replicate BLOCK_SIZE 0)" using example_commit_ready by blast
  have "\<forall>x \<in> set (logged s). cells 1 s x \<noteq> None" "0 < header_n s" "get64 (disk_blocks s (log_start s)) 0 = 0"
    using s get64_zeros by simp_all
  note th = commit_is_crash_atomic [OF s(1,2) this(2,1,3)]
  have n50: "(50 :: u32) \<notin> log_region s" using example_region [OF s(3), of 50] by auto
  have v: "view_of (cells 1 s) (disk_blocks s) 50 = replicate BLOCK_SIZE 7" using s(6) by (simp add: view_of_def)
  from th obtain s' ws where c: "commit s = Inr s'" "disk_trace s' = disk_trace s @ ws"
    and rec: "\<forall>j r. rebooted 1 example_blocks s r \<and> disk_blocks r = apply_writes (disk_blocks s) (take j ws) \<longrightarrow>
       (\<exists>r'. recover r = Inr r' \<and> get64 (disk_blocks r' (log_start s)) 0 = 0 \<and>
          (\<forall>x. x \<notin> log_region s \<longrightarrow> disk_blocks r' x =
             (if unat (header_n s) < j \<and> x \<in> set (logged s) then view_of (cells 1 s) (disk_blocks s) x else disk_blocks s x)))" by blast
  have "\<exists>r'. recover r = Inr r' \<and> disk_blocks r' 50 = replicate BLOCK_SIZE (if 1 < j then 7 else 0)"
    if "rebooted 1 example_blocks s r \<and> disk_blocks r = apply_writes (disk_blocks s) (take j ws)" for j r
  proof -
    from rec [rule_format, OF that] obtain r' where r': "recover r = Inr r'"
      "disk_blocks r' 50 = (if unat (header_n s) < j \<and> 50 \<in> set (logged s) then view_of (cells 1 s) (disk_blocks s) 50 else disk_blocks s 50)"
      using n50 by blast
    then show ?thesis using v s(4,5,7) by simp
  qed
  then show ?thesis using s(4,5) c by blast
qed

section \<open>Space in the log\<close>

text \<open>The cache operations keep the fields of the log.\<close>

lemma cache_get_more: "cache_get s D n = Inr (b, s') \<Longrightarrow> cache_state.more s' = cache_state.more s"
  by (auto simp: cache_get_def Let_def outcome_simps split: if_splits)

lemma cache_release_more: "cache_release s b = Inr s' \<Longrightarrow> cache_state.more s' = cache_state.more s"
  by (auto simp: cache_release_def Let_def outcome_simps split: if_splits)

lemma buffer_write_more: "buffer_write s b = Inr s' \<Longrightarrow> cache_state.more s' = cache_state.more s"
  by (auto simp: buffer_write_def diskWrite_def Let_def outcome_simps)

lemma cache_unpin_more: "cache_unpin s b = Inr s' \<Longrightarrow> cache_state.more s' = cache_state.more s"
  by (auto simp: cache_unpin_def outcome_simps)

lemma buffer_read_more [simp]: "cache_state.more (buffer_read s b) = cache_state.more s"
  by (simp add: buffer_read_def diskRead_def)

lemma set_data_more [simp]: "cache_state.more (set_data s b d) = cache_state.more s"
  by (simp add: set_data_def)

lemma cache_pin_more [simp]: "cache_state.more (cache_pin s b) = cache_state.more s"
  by (simp add: cache_pin_def)

lemmas cache_pin_fields [simp] = log_fields [OF cache_pin_more]

lemmas cache_more = cache_get_more cache_release_more buffer_write_more cache_unpin_more

lemma writeHead_more: "writeHead s = Inr s' \<Longrightarrow> cache_state.more s' = cache_state.more s"
  by (auto simp: writeHead_def Let_def outcome_simps dest!: cache_more)

lemma writeLog_loop_more: "writeLog_loop s tail k = Inr s' \<Longrightarrow> cache_state.more s' = cache_state.more s"
  by (induction k arbitrary: s tail) (auto simp: writeLog_loop.simps(2) Let_def outcome_simps dest!: cache_more)

lemma install_loop_more: "install_loop s rec tail k = Inr s' \<Longrightarrow> cache_state.more s' = cache_state.more s"
  by (induction k arbitrary: s tail) (auto simp: install_loop.simps(2) Let_def outcome_simps split: if_splits dest!: cache_more)

lemma commit_fields:
  assumes "commit s = Inr s'"
  shows "header_n s' = 0" "outstanding s' = outstanding s" "committing s' = committing s" "log_size s' = log_size s"
proof -
  have "header_n s' = 0 \<and> outstanding s' = outstanding s \<and> committing s' = committing s \<and> log_size s' = log_size s"
  proof (cases "header_n s > 0")
    case True
    then obtain s1 s2 s3 where c: "writeLog_loop s 0 (unat (header_n s)) = Inr s1" "writeHead s1 = Inr s2"
      "install_loop s2 False 0 (unat (header_n s2)) = Inr s3" "writeHead (s3\<lparr>header_n := 0\<rparr>) = Inr s'"
      using assms by (auto simp: commit_def installTransaction_def outcome_simps)
    have m: "cache_state.more s3 = cache_state.more s"
      using writeLog_loop_more [OF c(1)] writeHead_more [OF c(2)] install_loop_more [OF c(3)] by simp
    show ?thesis using log_fields [OF m] log_fields [OF writeHead_more [OF c(4)]] by simp
  qed (use assms in \<open>auto simp: commit_def word_gt_0\<close>)
  then show "header_n s' = 0" "outstanding s' = outstanding s" "committing s' = committing s" "log_size s' = log_size s" by auto
qed

text \<open>
  Operations of several processes on one log. \<open>q i\<close> is the number of blocks the running operation \<open>i\<close> may
  still write; an operation writes at most \<open>MAX_OP_BLOCKS\<close> of them. Other code may change the cache
  between the steps. The last \<open>endOp\<close> commits after leaving the mutex, so the commit is a step of its own.
\<close>

inductive log_run :: "'a lstate \<Rightarrow> (nat \<rightharpoonup> nat) \<Rightarrow> bool" where
  start: "header_n s = 0 \<Longrightarrow> outstanding s = 0 \<Longrightarrow> \<not> committing s \<Longrightarrow> log_run s Map.empty"
| begin_op: "log_run s q \<Longrightarrow> q i = None \<Longrightarrow> beginOp s = Inr s' \<Longrightarrow> log_run s' (q(i \<mapsto> MAX_OP_BLOCKS))"
| write_op: "log_run s q \<Longrightarrow> q i = Some (Suc k) \<Longrightarrow> writeLog s b = Inr s' \<Longrightarrow> log_run s' (q(i \<mapsto> k))"
| other: "log_run s q \<Longrightarrow> cache_state.more s' = cache_state.more s \<Longrightarrow> log_run s' q"
| end_op: "log_run s q \<Longrightarrow> q i \<noteq> None \<Longrightarrow> endOp_enter s = Inr (c, s') \<Longrightarrow> log_run s' (q(i := None))"
| commit_op: "log_run s q \<Longrightarrow> committing s \<Longrightarrow> commit s = Inr s' \<Longrightarrow> log_run (s'\<lparr>committing := False\<rparr>) q"

definition budget :: "(nat \<rightharpoonup> nat) \<Rightarrow> nat" where
  "budget q = (\<Sum>i \<in> dom q. the (q i))"

definition space_ok :: "'a lstate \<Rightarrow> (nat \<rightharpoonup> nat) \<Rightarrow> bool" where
  "space_ok s q \<longleftrightarrow> finite (dom q) \<and> outstanding s = int (card (dom q)) \<and> card (dom q) \<le> 3 \<and>
     (committing s \<longrightarrow> dom q = {}) \<and> (\<forall>i \<in> dom q. the (q i) \<le> MAX_OP_BLOCKS) \<and>
     unat (header_n s) + budget q \<le> LOG_SIZE"

lemma budget_upd:
  assumes "finite (dom q)"
  shows "budget (q(i \<mapsto> k)) = k + budget (q(i := None))"
proof -
  have d: "dom (q(i \<mapsto> k)) = insert i (dom q - {i})" "dom (q(i := None)) = dom q - {i}" by auto
  have "(\<Sum>j \<in> dom q - {i}. the ((q(i \<mapsto> k)) j)) = (\<Sum>j \<in> dom q - {i}. the ((q(i := None)) j))"
    by (rule sum.cong) auto
  then show ?thesis unfolding budget_def d using assms by (subst sum.insert) simp_all
qed

lemma budget_le: "\<forall>i \<in> dom q. the (q i) \<le> MAX_OP_BLOCKS \<Longrightarrow> budget q \<le> card (dom q) * MAX_OP_BLOCKS"
  unfolding budget_def by (rule order_trans [OF sum_bounded_above]) auto

lemma log_full_nat:
  assumes "unat (header_n s) \<le> LOG_SIZE" "outstanding s = int o'" "o' \<le> 3"
  shows "log_full s \<longleftrightarrow> LOG_SIZE < unat (header_n s) + (o' + 1) * MAX_OP_BLOCKS"
proof -
  have "of_int (outstanding s + 1) = (of_nat (o' + 1) :: u64)" using assms(2) by simp
  then have "header_n s + of_int (outstanding s + 1) * of_nat MAX_OP_BLOCKS = of_nat (unat (header_n s) + (o' + 1) * MAX_OP_BLOCKS)"
    by (simp add: algebra_simps)
  moreover have "unat (header_n s) + (o' + 1) * MAX_OP_BLOCKS < 2 ^ 64" using assms by (simp add: LOG_SIZE_eq MAX_OP_BLOCKS_def)
  ultimately show ?thesis
    by (simp add: log_full_def word_less_nat_alt unat_of_nat_small LOG_SIZE_eq del: of_nat_add of_nat_mult)
qed

lemma writeLog_fields:
  assumes "writeLog s b = Inr s'"
  shows "outstanding s' = outstanding s" "committing s' = committing s" "log_size s' = log_size s"
    "header_n s' = header_n s \<or> header_n s' = header_n s + 1"
proof -
  have "outstanding s' = outstanding s \<and> committing s' = committing s \<and> log_size s' = log_size s \<and>
      (header_n s' = header_n s \<or> header_n s' = header_n s + 1)"
    using assms by (auto simp: writeLog_def Let_def outcome_simps split: if_splits)
  then show "outstanding s' = outstanding s" "committing s' = committing s" "log_size s' = log_size s"
    "header_n s' = header_n s \<or> header_n s' = header_n s + 1" by auto
qed

text \<open>Each step keeps the room: an operation that begins, writes or ends.\<close>

lemma begin_space:
  assumes sp: "space_ok s q" and "q i = None" "beginOp s = Inr s'"
  shows "space_ok s' (q(i \<mapsto> MAX_OP_BLOCKS))"
proof -
  let ?q = "q(i \<mapsto> MAX_OP_BLOCKS)"
  have ok: "finite (dom q)" "outstanding s = int (card (dom q))" "card (dom q) \<le> 3"
      "\<forall>i \<in> dom q. the (q i) \<le> MAX_OP_BLOCKS" "unat (header_n s) + budget q \<le> LOG_SIZE"
    using sp by (auto simp: space_ok_def)
  have st: "\<not> committing s" "\<not> log_full s" "s' = s\<lparr>outstanding := outstanding s + 1\<rparr>"
    using assms(3) by (auto simp: beginOp_def split: if_splits)
  then have room: "unat (header_n s) + (card (dom q) + 1) * MAX_OP_BLOCKS \<le> LOG_SIZE"
    using log_full_nat [OF _ ok(2,3)] ok(5) by simp
  have i: "i \<notin> dom q" "q(i := None) = q" using assms(2) by auto
  have "card (dom ?q) = card (dom q) + 1" using ok(1) i(1) by simp
  moreover have "card (dom q) + 1 \<le> 3" using room by (simp add: LOG_SIZE_eq MAX_OP_BLOCKS_def)
  moreover have "budget ?q = MAX_OP_BLOCKS + budget q" using budget_upd [OF ok(1)] i(2) by simp
  moreover have "\<forall>j \<in> dom ?q. the (?q j) \<le> MAX_OP_BLOCKS" using ok(4) by simp
  ultimately show ?thesis using ok st room budget_le [OF ok(4)] unfolding space_ok_def by simp
qed

lemma write_space:
  assumes sp: "space_ok s q" and q: "q i = Some (Suc k)" and w: "writeLog s b = Inr s'"
  shows "space_ok s' (q(i \<mapsto> k))"
proof -
  have ok: "finite (dom q)" "unat (header_n s) + budget q \<le> LOG_SIZE" "i \<in> dom q" using sp q by (auto simp: space_ok_def)
  have b: "budget q = Suc k + budget (q(i := None))" using budget_upd [OF ok(1), of i "Suc k"] q by (simp add: fun_upd_idem)
  then have "unat (header_n s + 1) = unat (header_n s) + 1" using ok(2) by (simp add: LOG_SIZE_eq unat_plus_if')
  then have "unat (header_n s') \<le> unat (header_n s) + 1" using writeLog_fields(4) [OF w] by auto
  moreover have "dom (q(i \<mapsto> k)) = dom q" using ok(3) by auto
  moreover have "the ((q(i \<mapsto> k)) j) \<le> MAX_OP_BLOCKS" if "j \<in> dom q" for j
  proof -
    have "the (q j) \<le> MAX_OP_BLOCKS" using sp that by (simp add: space_ok_def)
    then show ?thesis using q by (cases "j = i") simp_all
  qed
  ultimately show ?thesis
    using sp b budget_upd [OF ok(1), of i k] writeLog_fields [OF w] by (simp only: space_ok_def) auto
qed

lemma end_space:
  assumes sp: "space_ok s q" and q: "q i \<noteq> None" and e: "endOp_enter s = Inr (c, s')"
  shows "space_ok s' (q(i := None))"
proof -
  have ok: "finite (dom q)" "i \<in> dom q" "outstanding s = int (card (dom q))" using sp q by (auto simp: space_ok_def)
  have c: "card (dom (q(i := None))) = card (dom q) - 1" "0 < card (dom q)" using ok by (auto simp: card_gt_0_iff)
  have "budget q = the (q i) + budget (q(i := None))"
    using budget_upd [OF ok(1), of i "the (q i)"] ok(2) by (simp add: fun_upd_idem domIff)
  moreover have st: "outstanding s' = outstanding s - 1" "header_n s' = header_n s" "committing s' \<longrightarrow> outstanding s' = 0"
    using e by (auto simp: endOp_enter_def outcome_simps Let_def split: if_splits)
  moreover have "committing s' \<longrightarrow> dom (q(i := None)) = {}"
  proof
    assume "committing s'"
    then have "card (dom (q(i := None))) = 0" using st ok(3) c by simp
    then show "dom (q(i := None)) = {}" using ok(1) by simp
  qed
  moreover have "\<forall>j \<in> dom (q(i := None)). the ((q(i := None)) j) \<le> MAX_OP_BLOCKS" "finite (dom (q(i := None)))"
    using sp by (simp_all add: space_ok_def)
  moreover have "outstanding s' = int (card (dom (q(i := None))))" using st(1) ok(3) c by simp
  moreover have "card (dom q) \<le> 3" "unat (header_n s) + budget q \<le> LOG_SIZE" using sp by (simp_all add: space_ok_def)
  ultimately show ?thesis using c unfolding space_ok_def by (simp del: dom_fun_upd)
qed

lemma log_run_space: "log_run s q \<Longrightarrow> space_ok s q"
proof (induction rule: log_run.induct)
  case (start s)
  then show ?case by (simp add: space_ok_def budget_def)
next
  case (other s q s')
  then show ?case using log_fields [OF other.hyps(2)] by (simp add: space_ok_def)
next
  case (commit_op s q s')
  then show ?case using commit_fields [OF commit_op.hyps(3)] by (auto simp: space_ok_def budget_def)
qed (blast intro: begin_space write_space end_space)+



end
