(* ===== verification/Fs_Block.thy ===== *)
theory Fs_Block
  imports Fs_Log
begin

unbundle bit_operations_syntax

text \<open>
  The superblock, the block bitmap and \<open>initializeFs\<close>: \<open>kernel/fs/super_block.cpp\<close>,
  \<open>kernel/fs/block.cpp\<close>, \<open>kernel/fs/fs.cpp\<close>. The global \<open>superBlock\<close> extends the state of the log.
  The second half gives the view of a file system operation: between \<open>beginOp\<close> and \<open>endOp\<close> the blocks
  are a map from numbers to contents, which \<open>get; read; change; writeLog; release\<close> updates and which the
  commit of \<open>endOp\<close> makes the contents of the disk.
\<close>

section \<open>Model\<close>

definition FS_MAGIC :: u32 where "FS_MAGIC = 0x10203040"

definition BITS_PER_BLOCK :: nat where "BITS_PER_BLOCK = BLOCK_SIZE * 8"

record blk_state = log_state +
  superBlock :: super_block

type_synonym 'a bstate = "'a blk_state_scheme"

definition parse_super_block :: "u8 list \<Rightarrow> super_block" where
  "parse_super_block d =
     \<lparr>magic = get32 d 0, sb_size = get32 d 4, numBlocks = get32 d 8, numInodes = get32 d 12,
      numLogs = get32 d 16, logStart = get32 d 20, inodeStart = get32 d 24, bmapStart = get32 d 28\<rparr>"

definition SuperBlock_read :: "'a bstate \<Rightarrow> u32 \<Rightarrow> 'a bstate outcome" where
  "SuperBlock_read s device =
     andThen (cache_get s device 1) (\<lambda>(buf, s1).
       let s2 = buffer_read s1 buf
       in cache_release (s2\<lparr>superBlock := parse_super_block (b_data (buffer_of s2 buf))\<rparr>) buf)"

definition initializeFs :: "'a bstate \<Rightarrow> u32 \<Rightarrow> 'a bstate outcome" where
  "initializeFs s device =
     andThen (SuperBlock_read s device) (\<lambda>s1.
     andThen (assert_that (magic (superBlock s1) = FS_MAGIC)) (\<lambda>_.
       initializeLog s1 device (superBlock s1)))"

definition bblock :: "u32 \<Rightarrow> super_block \<Rightarrow> u32" where
  "bblock block sb = block div of_nat BITS_PER_BLOCK + bmapStart sb"

text \<open>\<open>memset\<close> of \<open>n\<close> bytes at the start of an object writes \<open>n - 1\<close> of them (\<open>Lib_String\<close>).\<close>

definition memset_bytes :: "u8 list \<Rightarrow> u8 \<Rightarrow> nat \<Rightarrow> u8 list" where
  "memset_bytes d ch n = put_bytes d 0 (replicate (n - 1) ch)"

definition fillBlock :: "'a bstate \<Rightarrow> u32 \<Rightarrow> u32 \<Rightarrow> u32 \<Rightarrow> 'a bstate outcome" where
  "fillBlock s device block ch =
     andThen (cache_get s device block) (\<lambda>(bp, s1).
       let s2 = buffer_read s1 bp;
           s3 = set_data s2 bp (memset_bytes (b_data (buffer_of s2 bp)) (ucast ch) BLOCK_SIZE)
       in andThen (writeLog s3 bp) (\<lambda>s4. cache_release s4 bp))"

definition bit_mask :: "nat \<Rightarrow> u8" where
  "bit_mask pos = push_bit (pos mod 8) 1"

text \<open>The inner loop of \<open>allocateBlock\<close>: the first clear bit; \<open>k\<close> bits are left in the block.\<close>

fun find_free :: "u8 list \<Rightarrow> u32 \<Rightarrow> u32 \<Rightarrow> nat \<Rightarrow> nat \<Rightarrow> nat option" where
  "find_free d block sz pos 0 = None"
| "find_free d block sz pos (Suc k) =
     (if \<not> block + of_nat pos < sz then None
      else if d ! (pos div 8) AND bit_mask pos = 0 then Some pos
      else find_free d block sz (Suc pos) k)"

definition set_bit_in :: "u8 list \<Rightarrow> nat \<Rightarrow> u8 list" where
  "set_bit_in d pos = d[pos div 8 := d ! (pos div 8) OR bit_mask pos]"

definition clear_bit_in :: "u8 list \<Rightarrow> nat \<Rightarrow> u8 list" where
  "clear_bit_in d pos = d[pos div 8 := d ! (pos div 8) AND NOT (bit_mask pos)]"

text \<open>
  The outer loop; \<open>k\<close> bounds the number of rounds. \<open>size / BITS_PER_BLOCK + 1\<close> rounds are enough when
  \<open>superBlock.size\<close> is at most \<open>2^32 - BITS_PER_BLOCK\<close>; for a larger size \<open>block\<close> would wrap to 0.
\<close>

fun allocate_loop :: "'a bstate \<Rightarrow> u32 \<Rightarrow> u32 \<Rightarrow> nat \<Rightarrow> (u32 \<times> 'a bstate) outcome" where
  "allocate_loop s device block 0 = Inr (0, s)"
| "allocate_loop s device block (Suc k) =
     (if block < sb_size (superBlock s) then
        andThen (cache_get s device (bblock block (superBlock s))) (\<lambda>(bp, s1).
          let s2 = buffer_read s1 bp;
              d = b_data (buffer_of s2 bp)
          in case find_free d block (sb_size (superBlock s2)) 0 BITS_PER_BLOCK of
               Some pos \<Rightarrow>
                 andThen (writeLog (set_data s2 bp (set_bit_in d pos)) bp) (\<lambda>s3.
                 andThen (cache_release s3 bp) (\<lambda>s4.
                 andThen (fillBlock s4 device (block + of_nat pos) 0) (\<lambda>s5.
                   Inr (block + of_nat pos, s5))))
             | None \<Rightarrow>
                 andThen (cache_release s2 bp) (\<lambda>s3.
                   allocate_loop s3 device (block + of_nat BITS_PER_BLOCK) k))
      else Inr (0, s))"

definition allocateBlock :: "'a bstate \<Rightarrow> u32 \<Rightarrow> (u32 \<times> 'a bstate) outcome" where
  "allocateBlock s device = allocate_loop s device 0 (unat (sb_size (superBlock s)) div BITS_PER_BLOCK + 1)"

definition freeBlock :: "'a bstate \<Rightarrow> u32 \<Rightarrow> u32 \<Rightarrow> 'a bstate outcome" where
  "freeBlock s device block =
     andThen (cache_get s device (bblock block (superBlock s))) (\<lambda>(bp, s1).
       let s2 = buffer_read s1 bp;
           d = b_data (buffer_of s2 bp);
           pos = unat block mod BITS_PER_BLOCK
       in andThen (assert_that (d ! (pos div 8) AND bit_mask pos \<noteq> 0)) (\<lambda>_.
          andThen (writeLog (set_data s2 bp (clear_bit_in d pos)) bp) (\<lambda>s3. cache_release s3 bp)))"

section \<open>The view of an operation\<close>

text \<open>
  Between \<open>beginOp\<close> and \<open>endOp\<close> the state stands for a map \<open>V\<close> from blocks to contents, with room for
  \<open>m\<close> more writes: a block the log has recorded is cached, pinned and has the new contents; the others
  are as on the disk.
\<close>

definition op_view :: "u32 \<Rightarrow> u32 set \<Rightarrow> 'a lstate \<Rightarrow> (u32 \<Rightarrow> u8 list) \<Rightarrow> nat \<Rightarrow> bool" where
  "op_view D B s V m \<longleftrightarrow> log_layout D B s \<and> 1 \<le> outstanding s \<and> distinct (logged s) \<and>
     set (logged s) \<subseteq> B - log_region s \<and>
     unat (header_n s) + m \<le> LOG_SIZE \<and> unat (header_n s) + m < unat (log_size s) \<and> (\<forall>x. length (V x) = BLOCK_SIZE) \<and>
     (\<forall>x. if x \<in> set (logged s) then cells D s x = Some \<lparr>c_data = Some (V x), c_ref = 1, c_lock = False\<rparr>
          else cells D s x = None \<and> V x = disk_blocks s x)"

definition op_frame :: "'a lstate \<Rightarrow> 'a lstate \<Rightarrow> bool" where
  "op_frame s s' \<longleftrightarrow> log_state.more s' = log_state.more s \<and> log_start s' = log_start s \<and> log_size s' = log_size s \<and>
     outstanding s' = outstanding s \<and> committing s' = committing s \<and> pid_now s' = pid_now s \<and> disk_blocks s' = disk_blocks s"

lemma op_frame_refl [simp]: "op_frame s s"
  by (simp add: op_frame_def)

lemma op_frame_trans: "op_frame s1 s2 \<Longrightarrow> op_frame s2 s3 \<Longrightarrow> op_frame s1 s3"
  by (simp add: op_frame_def)

lemma op_frame_region: assumes "op_frame s s'" shows "log_region s' = log_region s" "log_cap s' = log_cap s"
  using assms log_region_cong [of s' s] by (simp_all add: op_frame_def)

lemma log_more: "cache_state.more s' = cache_state.more s \<Longrightarrow> log_state.more s' = log_state.more s"
  by (cases s; cases s'; simp)

lemma cache_frame_op: "cache_frame s s' \<Longrightarrow> op_frame s s'"
  using log_fields [OF cache_frame_more, of s s'] log_more [OF cache_frame_more, of s s']
  by (simp add: op_frame_def cache_frame_def)

lemma upd_buffer_log_more: "log_state.more (upd_buffer s b f) = log_state.more (s :: 'a lstate)"
  by (simp add: upd_buffer_def)

lemma writeLog_log_more: "writeLog s b = Inr s' \<Longrightarrow> log_state.more s' = log_state.more s"
  by (auto simp: writeLog_def cache_pin_def upd_buffer_log_more Let_def outcome_simps split: if_splits)

lemma op_cells:
  assumes "op_view D B s V m"
  shows "cells D s x = (if x \<in> set (logged s) then Some \<lparr>c_data = Some (V x), c_ref = 1, c_lock = False\<rparr> else None)"
    "x \<notin> set (logged s) \<Longrightarrow> disk_blocks s x = V x" "length (V x) = BLOCK_SIZE"
proof -
  have "if x \<in> set (logged s) then cells D s x = Some \<lparr>c_data = Some (V x), c_ref = 1, c_lock = False\<rparr>
          else cells D s x = None \<and> V x = disk_blocks s x" "length (V x) = BLOCK_SIZE" using assms unfolding op_view_def by blast+
  then show "cells D s x = (if x \<in> set (logged s) then Some \<lparr>c_data = Some (V x), c_ref = 1, c_lock = False\<rparr> else None)"
    "x \<notin> set (logged s) \<Longrightarrow> disk_blocks s x = V x" "length (V x) = BLOCK_SIZE" by (simp_all split: if_splits)
qed

lemma op_view_of: assumes "op_view D B s V m" shows "view_of (cells D s) (disk_blocks s) x = V x"
  using op_cells(1,2) [OF assms, of x] by (cases "x \<in> set (logged s)") (simp_all add: view_of_def)

lemma op_idle: assumes "op_view D B s V m" shows "idle (cells D s) x"
  using op_cells(1) [OF assms, of x] by (cases "x \<in> set (logged s)") (simp_all add: idle_def)

lemma op_held:
  assumes "op_view D B s V m"
  shows "held_cell (cells D s) (disk_blocks s) x = \<lparr>c_data = Some (V x), c_ref = (if x \<in> set (logged s) then 2 else 1), c_lock = True\<rparr>"
  using op_cells(1) [OF assms, of x] op_view_of [OF assms, of x] by (simp add: held_cell_def)

lemma op_room:
  assumes "op_view D B s V m" "0 < m" "header_n t = header_n s" "log_size t = log_size s" "outstanding t = outstanding s"
  shows "log_room t"
proof -
  have "unat (log_size s - 1) = unat (log_size s) - 1" by (rule unat_pred) (use assms(1) in \<open>auto simp: op_view_def\<close>)
  moreover have "unat (header_n s) + m \<le> LOG_SIZE" "unat (header_n s) + m < unat (log_size s)" "1 \<le> outstanding s"
    using assms(1) by (simp_all add: op_view_def)
  ultimately show ?thesis using assms(2-5) by (simp add: log_room_def word_less_nat_alt LOG_SIZE_eq)
qed

text \<open>Every state that differs in the cache only stands for the same map when its cells say so.\<close>

lemma op_view_cells:
  assumes "op_view D B s V m" "cache_inv D B s'" "op_frame s s'" "header_n s' = header_n s" "header_block s' = header_block s"
    "log_device s' = log_device s" "cells D s' = cells D s"
  shows "op_view D B s' V m"
  using assms op_frame_region [OF assms(3)] by (simp add: op_view_def op_frame_def log_layout_def logged_def)

lemma op_store:
  assumes op: "op_view D B s V m" and x: "x \<in> B" "x \<notin> log_region s" and m: "0 < m" and d: "length d = BLOCK_SIZE"
    and t: "cache_inv D B t" "ptr D t x = Some b" "cache_frame s t"
      "cells D t = (cells D s)(x \<mapsto> \<lparr>c_data = Some (V x), c_ref = (if x \<in> set (logged s) then 2 else 1), c_lock = True\<rparr>)"
  shows "\<exists>s3 s'. writeLog (set_data t b d) b = Inr s3 \<and> cache_release s3 b = Inr s' \<and>
      op_view D B s' (V(x := d)) (m - 1) \<and> op_frame s s'"
proof -
  let ?h = "\<lparr>c_data = Some (V x), c_ref = (if x \<in> set (logged s) then 2 else 1), c_lock = True\<rparr> :: cell"
  let ?u = "set_data t b d" and ?c = "?h\<lparr>c_data := Some d\<rparr>"
  have "cells D t x = Some ?h" "c_data ?h = Some (V x)" using t(4) by simp_all
  note u = set_data_law [OF t(1,2) this d]
  have fu: "cache_frame s ?u" using t(3) u(4) cache_frame_trans by blast
  note lu = log_fields [OF cache_frame_more [OF fu]] and ru = log_region_more [OF cache_frame_more [OF fu]]
  have cu: "cells D ?u = (cells D s)(x \<mapsto> ?c)" using u(3) t(4) by simp
  have lay: "log_layout D B ?u" using op u(1) lu ru cu x(2) by (auto simp: op_view_def log_layout_def)
  have log: "logged ?u = logged s" using lu by (simp add: logged_def)
  have "ptr D ?u x = Some b" "cells D ?u x = Some ?c" "c_ref ?c + 1 < 2 ^ 32" "x \<notin> log_region ?u"
    using u(2) t(2) cu ru x(2) by simp_all
  from writeLog_law [OF lay op_room [OF op m lu(6,2,3)] this] obtain s3 where s3: "writeLog ?u b = Inr s3" "log_layout D B s3"
    "ptr D s3 x = Some b" "log_start s3 = log_start s" "log_size s3 = log_size s" "outstanding s3 = outstanding s"
    "committing s3 = committing s" "pid_now s3 = pid_now s" "disk_blocks s3 = disk_blocks s"
    "if x \<in> set (logged s) then logged s3 = logged s \<and> header_n s3 = header_n s \<and> cells D s3 = cells D ?u
     else logged s3 = logged s @ [x] \<and> header_n s3 = header_n s + 1 \<and> cells D s3 = (cells D ?u)(x \<mapsto> ?c\<lparr>c_ref := c_ref ?c + 1\<rparr>)"
    using fu lu u(2) t(2) log by (auto simp: cache_frame_def)
  have f3: "op_frame s s3"
    using s3 writeLog_log_more [OF s3(1)] cache_frame_op [OF fu] by (simp add: op_frame_def)
  let ?e = "\<lparr>c_data = Some d, c_ref = 2, c_lock = True\<rparr> :: cell"
  have c3: "cells D s3 = (cells D s)(x \<mapsto> ?e)" using s3(10) cu by (auto split: if_splits)
  have i3: "cache_inv D B s3" "cells D s3 x = Some ?e" "c_lock ?e" using s3(2) c3 by (simp_all add: log_layout_def)
  obtain s' where s': "cache_release s3 b = Inr s'" "cache_inv D B s'" "cache_frame s3 s'"
    "cells D s' = (cells D s3)(x := (if c_ref ?e = 1 then None else Some (?e\<lparr>c_ref := c_ref ?e - 1, c_lock := False\<rparr>)))"
    using cache_release_law [OF i3(1) s3(3) i3(2,3)] by blast
  note l' = log_fields [OF cache_frame_more [OF s'(3)]]
  have f': "op_frame s s'" using op_frame_trans [OF f3 cache_frame_op [OF s'(3)]] .
  have c': "cells D s' = (cells D s)(x \<mapsto> \<lparr>c_data = Some d, c_ref = 1, c_lock = False\<rparr>)" unfolding s'(4) c3 by simp
  have g': "set (logged s') = insert x (set (logged s))" "distinct (logged s')" "unat (header_n s') \<le> unat (header_n s) + 1"
    using s3(10) l' op by (auto simp: logged_def op_view_def unat_plus_if' split: if_splits)
  have "log_layout D B s'" using s3(2) l' log_region_more [OF cache_frame_more [OF s'(3)]] s'(2) c' x(2) op op_frame_region [OF f3]
    by (auto simp: log_layout_def op_view_def)
  moreover have "unat (header_n s') + (m - 1) \<le> LOG_SIZE" "unat (header_n s') + (m - 1) < unat (log_size s)"
    using g'(3) m op by (auto simp: op_view_def)
  moreover have "if y \<in> set (logged s') then cells D s' y = Some \<lparr>c_data = Some ((V(x := d)) y), c_ref = 1, c_lock = False\<rparr>
      else cells D s' y = None \<and> (V(x := d)) y = disk_blocks s' y" for y
    using c' g'(1) op_cells(1,2) [OF op, of y] f' by (auto simp: op_frame_def)
  ultimately have "op_view D B s' (V(x := d)) (m - 1)"
    using g'(1,2) f' op_frame_region [OF f'] x d op_cells(3) [OF op] op by (auto simp: op_view_def op_frame_def)
  then show ?thesis using s3(1) s'(1) f' by blast
qed

text \<open>
  Access to a block: \<open>get\<close> and \<open>read\<close> yield the contents of the map. Releasing the buffer leaves the map
  alone; new contents, recorded in the log before the release, change the map at the block.
\<close>

lemma op_access:
  assumes op: "op_view D B s V m" and x: "x \<in> B"
  shows "\<exists>b t1. cache_get s D x = Inr (b, t1) \<and> b_data (buffer_of (buffer_read t1 b) b) = V x \<and>
    log_state.more (buffer_read t1 b) = log_state.more s \<and>
    (\<exists>s'. cache_release (buffer_read t1 b) b = Inr s' \<and> op_view D B s' V m \<and> op_frame s s') \<and>
    (x \<notin> log_region s \<and> 0 < m \<longrightarrow> (\<forall>d. length d = BLOCK_SIZE \<longrightarrow>
       (\<exists>s3 s'. writeLog (set_data (buffer_read t1 b) b d) b = Inr s3 \<and> cache_release s3 b = Inr s' \<and>
          op_view D B s' (V(x := d)) (m - 1) \<and> op_frame s s')))"
proof -
  have lay: "log_layout D B s" using op by (simp add: op_view_def)
  then have inv: "cache_inv D B s" by (simp add: log_layout_def)
  let ?h = "\<lparr>c_data = Some (V x), c_ref = (if x \<in> set (logged s) then 2 else 1), c_lock = True\<rparr> :: cell"
  obtain b t1 where "cache_get s D x = Inr (b, t1)" "cache_inv D B (buffer_read t1 b)" "ptr D (buffer_read t1 b) = (ptr D s)(x \<mapsto> b)"
    "cells D (buffer_read t1 b) = (cells D s)(x \<mapsto> held_cell (cells D s) (disk_blocks s) x)"
    "cache_frame s (buffer_read t1 b)" "b_data (buffer_of (buffer_read t1 b) b) = view_of (cells D s) (disk_blocks s) x"
    using bc.fetch [OF inv x op_idle [OF op]] by blast
  then obtain t where t: "t = buffer_read t1 b" "cache_get s D x = Inr (b, t1)" "cache_inv D B t" "ptr D t x = Some b"
    "cells D t = (cells D s)(x \<mapsto> ?h)" "cache_frame s t" "b_data (buffer_of t b) = V x"
    unfolding op_held [OF op] op_view_of [OF op] by auto
  have ft: "op_frame s t" using cache_frame_op [OF t(6)] .
  note lt = log_fields [OF cache_frame_more [OF t(6)]]
  have ct: "cells D t x = Some ?h" "c_lock ?h" using t(5) by simp_all
  obtain s' where s': "cache_release t b = Inr s'" "cache_inv D B s'" "cache_frame t s'"
    "cells D s' = (cells D t)(x := (if c_ref ?h = 1 then None else Some (?h\<lparr>c_ref := c_ref ?h - 1, c_lock := False\<rparr>)))"
    using cache_release_law [OF t(3,4) ct] by blast
  have "cells D s' = cells D s"
    unfolding s'(4) t(5) by (rule ext) (simp add: op_cells(1) [OF op])
  moreover have fs: "op_frame s s'" using op_frame_trans [OF ft cache_frame_op [OF s'(3)]] .
  ultimately have "op_view D B s' V m"
    using op_view_cells [OF op s'(2)] log_fields [OF cache_frame_more [OF s'(3)]] lt by simp
  moreover have "\<exists>s3 s'. writeLog (set_data t b d) b = Inr s3 \<and> cache_release s3 b = Inr s' \<and>
      op_view D B s' (V(x := d)) (m - 1) \<and> op_frame s s'"
    if "x \<notin> log_region s" "0 < m" "length d = BLOCK_SIZE" for d
    using op_store [OF op x that t(3,4,6,5)] .
  ultimately show ?thesis using t(1,2,7) s'(1) fs ft by (intro exI [of _ b] exI [of _ t1]) (auto simp: op_frame_def)
qed

section \<open>Contract of a block operation\<close>

text \<open>
  What the bitmap and the inodes rely on between \<open>beginOp\<close> and \<open>endOp\<close>: the state shows a map from blocks to contents; a
  block can be looked at, and a block that is not \<open>sealed\<close> be replaced while there is room.
\<close>

locale block_operation =
  fixes view :: "'s \<Rightarrow> (u32 \<Rightarrow> u8 list) \<Rightarrow> nat \<Rightarrow> bool"
    and blocks :: "u32 set"
    and sealed :: "'s \<Rightarrow> u32 set"
    and framed :: "'s \<Rightarrow> 's \<Rightarrow> bool"
    and get :: "'s \<Rightarrow> u32 \<Rightarrow> (nat \<times> 's) outcome"
    and load :: "'s \<Rightarrow> nat \<Rightarrow> 's"
    and contents :: "'s \<Rightarrow> nat \<Rightarrow> u8 list"
    and store :: "'s \<Rightarrow> nat \<Rightarrow> u8 list \<Rightarrow> 's outcome"
    and release :: "'s \<Rightarrow> nat \<Rightarrow> 's outcome"
  assumes access: "view s V m \<Longrightarrow> x \<in> blocks \<Longrightarrow> \<exists>b t. get s x = Inr (b, t) \<and> contents (load t b) b = V x \<and>
      (\<exists>s'. release (load t b) b = Inr s' \<and> view s' V m \<and> framed s s') \<and>
      (x \<notin> sealed s \<and> 0 < m \<longrightarrow> (\<forall>d. length d = BLOCK_SIZE \<longrightarrow>
         (\<exists>s3 s'. store (load t b) b d = Inr s3 \<and> release s3 b = Inr s' \<and> view s' (V(x := d)) (m - 1) \<and> framed s s')))"
    and frame_sealed: "framed s s' \<Longrightarrow> sealed s' = sealed s"
    and frame_trans: "framed s s1 \<Longrightarrow> framed s1 s2 \<Longrightarrow> framed s s2"
begin

lemma peek:
  assumes "view s V m" "x \<in> blocks"
  shows "\<exists>b t s'. get s x = Inr (b, t) \<and> contents (load t b) b = V x \<and> release (load t b) b = Inr s' \<and> view s' V m \<and> framed s s'"
  using access [OF assms] by blast

lemma modify:
  assumes "view s V m" "x \<in> blocks - sealed s" "0 < m" "length d = BLOCK_SIZE"
  shows "\<exists>b t s3 s'. get s x = Inr (b, t) \<and> contents (load t b) b = V x \<and> store (load t b) b d = Inr s3 \<and>
    release s3 b = Inr s' \<and> view s' (V(x := d)) (m - 1) \<and> framed s s'"
proof -
  have "x \<in> blocks" "x \<notin> sealed s \<and> 0 < m" using assms(2,3) by simp_all
  then show ?thesis using access [OF assms(1)] assms(4) by meson
qed

text \<open>What one access stores, the next one sees.\<close>

lemma modify_peek:
  assumes "view s V m" "x \<in> blocks - sealed s" "0 < m" "length d = BLOCK_SIZE"
  shows "\<exists>b t s3 s1 c u s'. get s x = Inr (b, t) \<and> store (load t b) b d = Inr s3 \<and> release s3 b = Inr s1 \<and>
    get s1 x = Inr (c, u) \<and> contents (load u c) c = d \<and> release (load u c) c = Inr s' \<and> framed s s'"
proof -
  obtain b t s3 s1 where w: "get s x = Inr (b, t)" "store (load t b) b d = Inr s3" "release s3 b = Inr s1"
    "view s1 (V(x := d)) (m - 1)" "framed s s1"
    using modify [OF assms] by blast
  have "x \<in> blocks" using assms(2) by simp
  from peek [OF w(4) this] obtain c u s' where "get s1 x = Inr (c, u)" "contents (load u c) c = d" "release (load u c) c = Inr s'" "framed s1 s'"
    by auto
  then show ?thesis using w(1-3) frame_trans [OF w(5)] by blast
qed

end

interpretation tx: block_operation "op_view D B" B log_region op_frame "\<lambda>s. cache_get s D" buffer_read "\<lambda>s b. b_data (buffer_of s b)"
  "\<lambda>s b d. writeLog (set_data s b d) b" cache_release for D B
proof unfold_locales
  show "\<exists>b t. cache_get s D x = Inr (b, t) \<and> b_data (buffer_of (buffer_read t b) b) = V x \<and>
      (\<exists>s'. cache_release (buffer_read t b) b = Inr s' \<and> op_view D B s' V m \<and> op_frame s s') \<and>
      (x \<notin> log_region s \<and> 0 < m \<longrightarrow> (\<forall>d. length d = BLOCK_SIZE \<longrightarrow>
         (\<exists>s3 s'. writeLog (set_data (buffer_read t b) b d) b = Inr s3 \<and> cache_release s3 b = Inr s' \<and>
            op_view D B s' (V(x := d)) (m - 1) \<and> op_frame s s')))"
    if "op_view D B s V m" "x \<in> B" for s :: "'a lstate" and V m x
    using op_access [OF that] by blast
qed (use op_frame_region(1) op_frame_trans in blast)+

section \<open>The bitmap\<close>

definition block_used :: "(u32 \<Rightarrow> u8 list) \<Rightarrow> super_block \<Rightarrow> nat \<Rightarrow> bool" where
  "block_used V sb k \<longleftrightarrow> V (bblock (of_nat k) sb) ! (k mod BITS_PER_BLOCK div 8) AND bit_mask (k mod BITS_PER_BLOCK) \<noteq> 0"

definition first_free :: "(u32 \<Rightarrow> u8 list) \<Rightarrow> super_block \<Rightarrow> nat option" where
  "first_free V sb = find (\<lambda>k. \<not> block_used V sb k) [0..<unat (sb_size sb)]"

text \<open>The blocks that marking block \<open>k\<close> as used and clearing it leaves; \<open>memset\<close> misses the last byte.\<close>

definition claim_block :: "(u32 \<Rightarrow> u8 list) \<Rightarrow> super_block \<Rightarrow> nat \<Rightarrow> u32 \<Rightarrow> u8 list" where
  "claim_block V sb k =
     (let bb = bblock (of_nat k) sb; V1 = V(bb := set_bit_in (V bb) (k mod BITS_PER_BLOCK))
      in V1(of_nat k := memset_bytes (V1 (of_nat k)) 0 BLOCK_SIZE))"

text \<open>The bitmap and the block it offers are in use and outside the log.\<close>

definition bitmap_fits :: "u32 set \<Rightarrow> (u32 \<Rightarrow> u8 list) \<Rightarrow> super_block \<Rightarrow> bool" where
  "bitmap_fits X V sb \<longleftrightarrow> unat (sb_size sb) + BITS_PER_BLOCK \<le> 2 ^ 32 \<and>
     (\<forall>k < unat (sb_size sb). bblock (of_nat k) sb \<in> X) \<and> (\<forall>k. first_free V sb = Some k \<longrightarrow> of_nat k \<in> X)"

lemma BITS_PER_BLOCK_eq: "BITS_PER_BLOCK = 8192"
  by (simp add: BITS_PER_BLOCK_def BLOCK_SIZE_def)

lemma find_upt: "find P [0..<n] = Some k \<longleftrightarrow> k < n \<and> P k \<and> (\<forall>j < k. \<not> P j)"
  by (auto simp: find_Some_iff)

lemma bblock_of_nat: "k < 2 ^ 32 \<Longrightarrow> bblock (of_nat k) sb = of_nat (k div BITS_PER_BLOCK) + bmapStart sb"
  by (simp add: bblock_def BITS_PER_BLOCK_eq word_arith_nat_div unat_of_nat take_bit_nat_eq_self)

lemma superBlock_more: "log_state.more s' = log_state.more s \<Longrightarrow> superBlock s' = superBlock (s :: 'a bstate)"
  by (cases s; cases s'; simp)

lemma length_set_bit_in [simp]: "length (set_bit_in d pos) = length d"
  by (simp add: set_bit_in_def)

lemma length_clear_bit_in [simp]: "length (clear_bit_in d pos) = length d"
  by (simp add: clear_bit_in_def)

lemma length_memset_bytes [simp]: "length d = BLOCK_SIZE \<Longrightarrow> length (memset_bytes d ch BLOCK_SIZE) = BLOCK_SIZE"
  by (simp add: memset_bytes_def)

lemma fillBlock_law:
  assumes op: "op_view D B s V m" and x: "x \<in> B - log_region s" and m: "0 < m"
  shows "\<exists>s'. fillBlock s D x ch = Inr s' \<and> op_view D B s' (V(x := memset_bytes (V x) (ucast ch) BLOCK_SIZE)) (m - 1) \<and> op_frame s s'"
proof -
  have "length (memset_bytes (V x) (ucast ch) BLOCK_SIZE) = BLOCK_SIZE" using op_cells(3) [OF op] by simp
  from tx.modify [OF op x m this] show ?thesis by (auto simp: fillBlock_def Let_def)
qed

lemma find_free_spec:
  assumes "unat block + (pos + k) < 2 ^ 32"
  shows "case find_free d block sz pos k of
      None \<Rightarrow> \<forall>i. pos \<le> i \<and> i < pos + k \<and> unat block + i < unat sz \<longrightarrow> d ! (i div 8) AND bit_mask i \<noteq> 0
    | Some i \<Rightarrow> pos \<le> i \<and> i < pos + k \<and> unat block + i < unat sz \<and> d ! (i div 8) AND bit_mask i = 0 \<and>
        (\<forall>j. pos \<le> j \<and> j < i \<longrightarrow> d ! (j div 8) AND bit_mask j \<noteq> 0)"
  using assms
proof (induction k arbitrary: pos)
  case (Suc k)
  have lt: "block + of_nat pos < sz \<longleftrightarrow> unat block + pos < unat sz"
    using Suc.prems by (simp add: word_less_nat_alt unat_word_ariths unat_of_nat take_bit_nat_eq_self)
  have IH: "case find_free d block sz (Suc pos) k of
      None \<Rightarrow> \<forall>i. Suc pos \<le> i \<and> i < Suc pos + k \<and> unat block + i < unat sz \<longrightarrow> d ! (i div 8) AND bit_mask i \<noteq> 0
    | Some i \<Rightarrow> Suc pos \<le> i \<and> i < Suc pos + k \<and> unat block + i < unat sz \<and> d ! (i div 8) AND bit_mask i = 0 \<and>
        (\<forall>j. Suc pos \<le> j \<and> j < i \<longrightarrow> d ! (j div 8) AND bit_mask j \<noteq> 0)" using Suc by simp
  have split: "pos \<le> i \<longleftrightarrow> i = pos \<or> Suc pos \<le> i" for i by auto
  show ?case
  proof (cases "unat block + pos < unat sz \<and> d ! (pos div 8) AND bit_mask pos \<noteq> 0")
    case True
    then have e: "find_free d block sz pos (Suc k) = find_free d block sz (Suc pos) k" using lt by simp
    show ?thesis unfolding e using IH True by (auto simp: split split: option.splits)
  next
    case False
    then show ?thesis using lt by auto
  qed
qed auto

text \<open>Round \<open>r\<close> of the search looks at the bits of the blocks from \<open>r * BITS_PER_BLOCK\<close> on.\<close>

lemma round_bits:
  assumes "i < BITS_PER_BLOCK" "r * BITS_PER_BLOCK + i < 2 ^ 32"
  shows "block_used V sb (r * BITS_PER_BLOCK + i) \<longleftrightarrow>
    V (bblock (of_nat (r * BITS_PER_BLOCK)) sb) ! (i div 8) AND bit_mask i \<noteq> 0"
    "bblock (of_nat (r * BITS_PER_BLOCK + i)) sb = bblock (of_nat (r * BITS_PER_BLOCK)) sb"
proof -
  have d: "(r * BITS_PER_BLOCK + i) div BITS_PER_BLOCK = r" "(r * BITS_PER_BLOCK + i) mod BITS_PER_BLOCK = i"
    using assms(1) by (simp_all add: BITS_PER_BLOCK_eq)
  have "r * BITS_PER_BLOCK < 2 ^ 32" "r * BITS_PER_BLOCK div BITS_PER_BLOCK = r" using assms by (simp_all add: BITS_PER_BLOCK_eq)
  then show b: "bblock (of_nat (r * BITS_PER_BLOCK + i)) sb = bblock (of_nat (r * BITS_PER_BLOCK)) sb"
    using assms(2) d(1) by (simp add: bblock_of_nat del: of_nat_add of_nat_mult)
  show "block_used V sb (r * BITS_PER_BLOCK + i) \<longleftrightarrow>
    V (bblock (of_nat (r * BITS_PER_BLOCK)) sb) ! (i div 8) AND bit_mask i \<noteq> 0"
    unfolding block_used_def b d(2) ..
qed

lemma claim_step:
  assumes op: "op_view D B s V m" and m: "1 < m" and sb: "superBlock s = sb" and bb: "bblock (of_nat k) sb = bb"
    and X: "bb \<in> B - log_region s" "of_nat k \<in> B - log_region s"
    and pos: "pos = k mod BITS_PER_BLOCK" and t: "cache_get s D bb = Inr (bp, t1)"
  shows "\<exists>s'. andThen (writeLog (set_data (buffer_read t1 bp) bp (set_bit_in (V bb) pos)) bp) (\<lambda>s3.
      andThen (cache_release s3 bp) (\<lambda>s4. fillBlock s4 D (of_nat k) 0)) = Inr s' \<and>
    op_view D B s' (claim_block V sb k) (m - 2) \<and> op_frame s s'"
proof -
  have len: "length (set_bit_in (V bb) pos) = BLOCK_SIZE" using op_cells(3) [OF op] by simp
  have "bb \<in> B" "bb \<notin> log_region s \<and> 0 < m" using X(1) m by simp_all
  then have "\<forall>d. length d = BLOCK_SIZE \<longrightarrow> (\<exists>s3 s'. writeLog (set_data (buffer_read t1 bp) bp d) bp = Inr s3 \<and>
      cache_release s3 bp = Inr s' \<and> op_view D B s' (V(bb := d)) (m - 1) \<and> op_frame s s')"
    using op_access [OF op, of bb] t by simp
  with len obtain s3 s4 where w: "writeLog (set_data (buffer_read t1 bp) bp (set_bit_in (V bb) pos)) bp = Inr s3" "cache_release s3 bp = Inr s4"
    "op_view D B s4 (V(bb := set_bit_in (V bb) pos)) (m - 1)" "op_frame s s4" by blast
  have "of_nat k \<in> B - log_region s4" using X(2) op_frame_region [OF w(4)] by simp
  moreover have "claim_block V sb k = (V(bb := set_bit_in (V bb) pos))
      (of_nat k := memset_bytes ((V(bb := set_bit_in (V bb) pos)) (of_nat k)) (ucast (0 :: u32)) BLOCK_SIZE)"
    unfolding claim_block_def Let_def bb pos by simp
  ultimately obtain s5 where f: "fillBlock s4 D (of_nat k) 0 = Inr s5" "op_frame s4 s5" "op_view D B s5 (claim_block V sb k) (m - 2)"
    using fillBlock_law [OF w(3), of "of_nat k" 0] m by (auto simp: numeral_2_eq_2 simp del: fun_upd_apply)
  show ?thesis using w(1,2) f op_frame_trans [OF w(4) f(2)] by simp
qed

text \<open>One round of the search: no free bit in the bitmap block, or the first free one of the whole bitmap.\<close>

lemma scan_round:
  assumes n2: "r * BITS_PER_BLOCK + BITS_PER_BLOCK < 2 ^ 32"
    and past: "\<forall>j < r * BITS_PER_BLOCK. j < unat (sb_size sb) \<longrightarrow> block_used V sb j"
  defines "res \<equiv> find_free (V (bblock (of_nat (r * BITS_PER_BLOCK)) sb)) (of_nat (r * BITS_PER_BLOCK)) (sb_size sb) 0 BITS_PER_BLOCK"
  shows "res = None \<Longrightarrow> \<forall>j < Suc r * BITS_PER_BLOCK. j < unat (sb_size sb) \<longrightarrow> block_used V sb j"
    and "res = Some i \<Longrightarrow> r * BITS_PER_BLOCK < unat (sb_size sb) \<Longrightarrow> i < BITS_PER_BLOCK"
    and "res = Some i \<Longrightarrow> r * BITS_PER_BLOCK < unat (sb_size sb) \<Longrightarrow> r * BITS_PER_BLOCK + i < 2 ^ 32"
    and "res = Some i \<Longrightarrow> r * BITS_PER_BLOCK < unat (sb_size sb) \<Longrightarrow> first_free V sb = Some (r * BITS_PER_BLOCK + i)"
proof -
  let ?n = "r * BITS_PER_BLOCK" and ?sz = "unat (sb_size sb)"
  let ?bb = "bblock (of_nat ?n) sb"
  have un: "unat (of_nat ?n :: u32) = ?n" using n2 by (simp add: unat_of_nat take_bit_nat_eq_self del: of_nat_mult)
  have "unat (of_nat ?n :: u32) + (0 + BITS_PER_BLOCK) < 2 ^ 32" unfolding un using n2 by simp
  note ff = find_free_spec [OF this, where d = "V ?bb" and sz = "sb_size sb", unfolded un, folded res_def]
  note rb = round_bits(1) [of _ r V sb]
  show "\<forall>j < Suc r * BITS_PER_BLOCK. j < ?sz \<longrightarrow> block_used V sb j" if none: "res = None"
  proof (intro allI impI)
    fix j assume j: "j < Suc r * BITS_PER_BLOCK" "j < ?sz"
    show "block_used V sb j"
    proof (cases "j < ?n")
      case False
      then show ?thesis using ff none rb [of "j - ?n"] j n2 by simp
    qed (use past j in blast)
  qed
  show i: "i < BITS_PER_BLOCK" "?n + i < 2 ^ 32" if "res = Some i" using ff that n2 by simp_all
  show "first_free V sb = Some (?n + i)" if some: "res = Some i" and lt: "?n < ?sz"
  proof -
    have "\<not> block_used V sb (?n + i)" "?n + i < ?sz" using ff some rb [OF i [OF some]] by simp_all
    moreover have "block_used V sb j" if "j < ?n + i" for j
    proof (cases "j < ?n")
      case False
      then show ?thesis using ff some rb [of "j - ?n"] that i [OF some] by simp
    qed (use past lt in force)
    ultimately show ?thesis by (simp add: first_free_def find_upt)
  qed
qed

lemma allocate_loop_law:
  assumes op: "op_view D B s V m" and m: "1 < m" and sb: "superBlock s = sb" and fit: "bitmap_fits (B - log_region s) V sb"
    and past: "\<forall>j < r * BITS_PER_BLOCK. j < unat (sb_size sb) \<longrightarrow> block_used V sb j" "r * BITS_PER_BLOCK < unat (sb_size sb) + BITS_PER_BLOCK"
    and rounds: "unat (sb_size sb) \<le> (r + k) * BITS_PER_BLOCK"
  shows "\<exists>s'. op_frame s s' \<and> (case first_free V sb of
      None \<Rightarrow> allocate_loop s D (of_nat (r * BITS_PER_BLOCK)) k = Inr (0, s') \<and> op_view D B s' V m
    | Some j \<Rightarrow> allocate_loop s D (of_nat (r * BITS_PER_BLOCK)) k = Inr (of_nat j, s') \<and> op_view D B s' (claim_block V sb j) (m - 2))"
  using op sb fit past rounds
proof (induction k arbitrary: s r)
  case 0
  then have "first_free V sb = None" by (auto simp: first_free_def find_None_iff)
  then show ?case using 0 by auto
next
  case (Suc k)
  let ?sz = "unat (sb_size sb)" and ?n = "r * BITS_PER_BLOCK" and ?X = "B - log_region s"
  have n32: "?n < 2 ^ 32" using Suc.prems(3,5) by (simp add: bitmap_fits_def)
  then have un: "unat (of_nat ?n :: u32) = ?n" by (simp add: unat_of_nat take_bit_nat_eq_self del: of_nat_mult)
  then have lt: "(of_nat ?n :: u32) < sb_size sb \<longleftrightarrow> ?n < ?sz" by (simp only: word_less_nat_alt)
  show ?case
  proof (cases "?n < ?sz")
    case False
    then have "first_free V sb = None" using Suc.prems(4) by (auto simp: first_free_def find_None_iff)
    moreover have "allocate_loop s D (of_nat ?n) (Suc k) = Inr (0, s)" using lt False Suc.prems(2) by simp
    ultimately show ?thesis using Suc.prems(1) by (intro exI [of _ s]) simp
  next
    case True
    let ?bb = "bblock (of_nat ?n) sb"
    have n2: "?n + BITS_PER_BLOCK < 2 ^ 32" using True Suc.prems(3) by (simp add: bitmap_fits_def)
    have bb: "?bb \<in> ?X" using Suc.prems(3) True by (simp add: bitmap_fits_def del: of_nat_mult)
    obtain bp t1 s' where t: "cache_get s D ?bb = Inr (bp, t1)" "b_data (buffer_of (buffer_read t1 bp) bp) = V ?bb"
      "log_state.more (buffer_read t1 bp) = log_state.more s"
      "cache_release (buffer_read t1 bp) bp = Inr s'" "op_view D B s' V m" "op_frame s s'"
      using op_access [OF Suc.prems(1), of ?bb] bb by blast
    have sb2: "superBlock (buffer_read t1 bp) = sb" "superBlock s' = sb"
      using superBlock_more [OF t(3)] superBlock_more [of s' s] t(6) Suc.prems(2) by (simp_all add: op_frame_def)
    note sc = scan_round [OF n2 Suc.prems(4)]
    show ?thesis
    proof (cases "find_free (V ?bb) (of_nat ?n) (sb_size sb) 0 BITS_PER_BLOCK")
      case None
      have e: "allocate_loop s D (of_nat ?n) (Suc k) = allocate_loop s' D (of_nat (Suc r * BITS_PER_BLOCK)) k"
        using lt True Suc.prems(2) t sb2 None by (simp add: Let_def add.commute)
      have "bitmap_fits (B - log_region s') V sb" "\<forall>j < Suc r * BITS_PER_BLOCK. j < ?sz \<longrightarrow> block_used V sb j"
        "Suc r * BITS_PER_BLOCK < ?sz + BITS_PER_BLOCK" "?sz \<le> (Suc r + k) * BITS_PER_BLOCK"
        using Suc.prems(3,6) op_frame_region(1) [OF t(6)] sc(1) [OF None] True by auto
      from Suc.IH [OF t(5) sb2(2) this] show ?thesis unfolding e using op_frame_trans [OF t(6)] by blast
    next
      case (Some i)
      let ?k = "?n + i"
      note i = sc(2-4) [OF Some True]
      have kX: "of_nat ?k \<in> ?X" using Suc.prems(3) i(3) unfolding bitmap_fits_def by blast
      have pos: "i = ?k mod BITS_PER_BLOCK" using i(1) by simp
      obtain s'' where c: "andThen (writeLog (set_data (buffer_read t1 bp) bp (set_bit_in (V ?bb) i)) bp) (\<lambda>s3.
          andThen (cache_release s3 bp) (\<lambda>s4. fillBlock s4 D (of_nat ?k) 0)) = Inr s''"
        "op_view D B s'' (claim_block V sb ?k) (m - 2)" "op_frame s s''"
        using claim_step [OF Suc.prems(1) m Suc.prems(2) round_bits(2) [OF i(1,2)] bb kX pos t(1)] by blast
      then have "allocate_loop s D (of_nat ?n) (Suc k) = Inr (of_nat ?k, s'')"
        using lt True Suc.prems(2) t(1,2) sb2(1) Some by (auto simp: Let_def outcome_simps)
      then show ?thesis using i(3) c by auto
    qed
  qed
qed

lemma bit_mask_facts: "bit_mask pos \<noteq> 0" "w AND bit_mask pos = 0 \<Longrightarrow> (w OR bit_mask pos) AND NOT (bit_mask pos) = w"
proof -
  have "bit (bit_mask pos) (pos mod 8)" by (simp add: bit_mask_def bit_simps)
  then show "bit_mask pos \<noteq> 0" by (metis bit_0_eq bot_apply bot_bool_def)
  assume "w AND bit_mask pos = 0"
  then show "(w OR bit_mask pos) AND NOT (bit_mask pos) = w"
    by (auto simp: bit_eq_iff bit_simps)
qed

lemma bit_in_bounds: "pos mod BITS_PER_BLOCK div 8 < BLOCK_SIZE"
proof -
  have "pos mod BITS_PER_BLOCK < 8 * BLOCK_SIZE" by (simp add: BITS_PER_BLOCK_eq BLOCK_SIZE_def)
  then show ?thesis by (simp add: less_mult_imp_div_less mult.commute)
qed

lemma freeBlock_law:
  assumes op: "op_view D B s V m" and m: "0 < m" and sb: "superBlock s = sb" and k: "k < 2 ^ 32"
    and X: "bblock (of_nat k) sb \<in> B - log_region s"
  shows "if block_used V sb k then \<exists>s'. freeBlock s D (of_nat k) = Inr s' \<and> op_frame s s' \<and>
      op_view D B s' (V(bblock (of_nat k) sb := clear_bit_in (V (bblock (of_nat k) sb)) (k mod BITS_PER_BLOCK))) (m - 1)
    else freeBlock s D (of_nat k) = Inl AssertionFailed"
proof -
  let ?bb = "bblock (of_nat k) sb" and ?pos = "k mod BITS_PER_BLOCK"
  have pos: "unat (of_nat k :: u32) mod BITS_PER_BLOCK = ?pos" using k by (simp add: unat_of_nat take_bit_nat_eq_self)
  have "length (clear_bit_in (V ?bb) ?pos) = BLOCK_SIZE" using op_cells(3) [OF op] by simp
  from tx.modify [OF op X m this] obtain b t1 s3 s' where
    t: "cache_get s D ?bb = Inr (b, t1)" "b_data (buffer_of (buffer_read t1 b) b) = V ?bb"
    and w: "writeLog (set_data (buffer_read t1 b) b (clear_bit_in (V ?bb) ?pos)) b = Inr s3"
    "cache_release s3 b = Inr s'" "op_view D B s' (V(?bb := clear_bit_in (V ?bb) ?pos)) (m - 1)" "op_frame s s'" by blast
  have "freeBlock s D (of_nat k) = andThen (assert_that (block_used V sb k)) (\<lambda>_.
      andThen (writeLog (set_data (buffer_read t1 b) b (clear_bit_in (V ?bb) ?pos)) b) (\<lambda>s3. cache_release s3 b))"
    by (simp add: freeBlock_def sb t(1,2) pos Let_def block_used_def)
  then show ?thesis using w by simp
qed

section \<open>The end of an operation\<close>

lemma commit_writes_at:
  assumes "distinct (logged s)" "length (logged s) = unat (header_n s)" "unat (header_n s) \<le> log_cap s" "x \<notin> log_region s"
  shows "apply_writes d (commit_writes s v) x = (if x \<in> set (logged s) then v x else d x)"
proof -
  let ?S = "log_start s" and ?n = "unat (header_n s)"
  have x: "x \<noteq> ?S" "x \<notin> log_block ?S ` {..<log_cap s}" using assms(4) by (auto simp: log_region_def)
  have "apply_writes e (map (\<lambda>i. (logged s ! i, v (logged s ! i))) [0..<?n]) x = (if x \<in> set (logged s) then v x else e x)" for e
  proof (cases "x \<in> set (logged s)")
    case True
    then obtain i where "i < ?n" "x = logged s ! i" using assms(2) by (auto simp: in_set_conv_nth)
    moreover have "distinct (map ((!) (logged s)) [0..<?n])" using assms(1,2) map_nth [of "logged s"] by simp
    ultimately show ?thesis
      using apply_writes_at [of "(!) (logged s)" "[0..<?n]" i e "\<lambda>i. v (logged s ! i)"] True by simp
  next
    case False
    then show ?thesis using assms(2) by (subst apply_writes_other) (auto simp: image_iff)
  qed
  then show ?thesis
    using x copies_other [OF x(2) assms(3)] by (simp add: commit_writes_def Let_def)
qed

lemma op_end:
  assumes op: "op_view D B s V m" and one: "outstanding s = 1" "\<not> committing s"
  shows "\<exists>s'. endOp s = Inr s' \<and> outstanding s' = 0 \<and> \<not> committing s' \<and> cells D s' = Map.empty \<and>
    (\<forall>x. x \<notin> log_region s \<longrightarrow> disk_blocks s' x = V x)"
proof -
  define s1 where "s1 = s\<lparr>outstanding := 0, committing := True\<rparr>"
  have e: "endOp_enter s = Inr (True, s1)" using one by (simp add: endOp_enter_def s1_def Let_def)
  have c: "cells D s1 = cells D s" "cache_inv D B s1 = cache_inv D B s" "logged s1 = logged s" "disk_blocks s1 = disk_blocks s"
    "header_n s1 = header_n s" "log_start s1 = log_start s" "log_region s1 = log_region s" "log_cap s1 = log_cap s"
    by (simp_all add: s1_def cells_def ptr_def cache_inv_def logged_def fun_eq_iff)
  have lay: "log_layout D B s1" using op c by (simp add: op_view_def log_layout_def s1_def)
  have len: "length (logged s) = unat (header_n s)" "unat (header_n s) \<le> log_cap s" using op by (auto simp: op_view_def log_layout_def logged_def)
  show ?thesis
  proof (cases "header_n s = 0")
    case True
    then have "logged s = []" by (simp add: logged_def)
    then have "cells D s = Map.empty" "V = disk_blocks s" using op_cells(1,2) [OF op] by (auto simp: fun_eq_iff)
    moreover have "commit s1 = Inr s1" using True c by (simp add: commit_def)
    ultimately show ?thesis using e c by (simp add: endOp_def) (simp add: s1_def cells_def ptr_def fun_eq_iff)
  next
    case False
    have "log_targets D B s1" "\<forall>x \<in> set (logged s1). cells D s1 x \<noteq> None"
      using op op_cells(1) [OF op] c by (auto simp: log_targets_def op_view_def calm_def)
    from commit_law [OF lay this(1) _ this(2) refl] False c obtain s2 where s2: "commit s1 = Inr s2" "outstanding s2 = outstanding s1"
      "disk_blocks s2 = apply_writes (disk_blocks s) (commit_writes s1 (view_of (cells D s) (disk_blocks s)))"
      "\<forall>x. x \<notin> set (logged s) \<longrightarrow> cells D s2 x = cells D s x"
      "\<forall>x \<in> set (logged s). cells D s2 x = installed False (view_of (cells D s) (disk_blocks s) x) (cells D s x)"
      by (auto simp: word_neq_0_conv)
    have "cells D s2 x = None" for x using s2(4,5) op_cells(1) [OF op, of x] by (cases "x \<in> set (logged s)") (auto simp: installed_def)
    moreover have "disk_blocks s2 x = V x" if "x \<notin> log_region s" for x
      using commit_writes_at [of s1 x "disk_blocks s"] that op c len op_view_of [OF op] op_cells(2) [OF op]
      by (auto simp: s2(3) op_view_def)
    ultimately show ?thesis using e s2(1,2)
      by (simp add: endOp_def) (simp add: s1_def cells_def ptr_def fun_eq_iff)
  qed
qed

lemma allocateBlock_law:
  assumes "op_view D B s V m" "2 \<le> m" "bitmap_fits (B - log_region s) V (superBlock s)"
  shows "\<exists>s'. op_frame s s' \<and> (case first_free V (superBlock s) of
      None \<Rightarrow> allocateBlock s D = Inr (0, s') \<and> op_view D B s' V m
    | Some k \<Rightarrow> allocateBlock s D = Inr (of_nat k, s') \<and> op_view D B s' (claim_block V (superBlock s) k) (m - 2))"
proof -
  let ?n = "unat (sb_size (superBlock s))"
  have r: "?n \<le> (0 + (?n div BITS_PER_BLOCK + 1)) * BITS_PER_BLOCK"
    using div_mult_mod_eq [of ?n BITS_PER_BLOCK] mod_less_divisor [of BITS_PER_BLOCK ?n] by (simp add: BITS_PER_BLOCK_eq)
  have e: "allocateBlock s D = allocate_loop s D (of_nat (0 * BITS_PER_BLOCK)) (?n div BITS_PER_BLOCK + 1)"
    by (simp add: allocateBlock_def)
  show ?thesis unfolding e
    by (rule allocate_loop_law [OF assms(1) _ refl assms(3)]) (use assms(2) r in \<open>simp_all add: BITS_PER_BLOCK_eq\<close>)
qed

section \<open>Properties\<close>

text \<open>
  C19: inside an operation with room for two more writes, \<open>allocateBlock\<close> ends and returns the first block whose
  bit is clear; it sets that bit and clears the block (up to its last byte, which \<open>memset\<close> misses). When
  every block is in use it returns 0 and changes nothing.
\<close>

theorem allocateBlock_takes_first_free:
  assumes "op_view D B s V m" "2 \<le> m" "bitmap_fits (B - log_region s) V (superBlock s)"
  shows "\<exists>s'. op_frame s s' \<and> (case first_free V (superBlock s) of
      None \<Rightarrow> allocateBlock s D = Inr (0, s') \<and> op_view D B s' V m
    | Some k \<Rightarrow> allocateBlock s D = Inr (of_nat k, s') \<and> op_view D B s' (claim_block V (superBlock s) k) (m - 2))"
  using assms by (rule allocateBlock_law)

lemma claim_free:
  assumes "\<forall>x. length (V x) = BLOCK_SIZE" "\<not> block_used V sb k" "of_nat k \<noteq> bblock (of_nat k) sb"
  shows "block_used (claim_block V sb k) sb k"
    "(claim_block V sb k)(bblock (of_nat k) sb := clear_bit_in (claim_block V sb k (bblock (of_nat k) sb)) (k mod BITS_PER_BLOCK)) =
       V(of_nat k := memset_bytes (V (of_nat k)) 0 BLOCK_SIZE)"
proof -
  let ?bb = "bblock (of_nat k) sb" and ?pos = "k mod BITS_PER_BLOCK"
  have c: "claim_block V sb k ?bb = set_bit_in (V ?bb) ?pos" using assms(3) by (simp add: claim_block_def Let_def)
  have len: "?pos div 8 < length (V ?bb)" using assms(1) bit_in_bounds by simp
  have w: "V ?bb ! (?pos div 8) AND bit_mask ?pos = 0" using assms(2) by (simp add: block_used_def)
  have "(V ?bb ! (?pos div 8) OR bit_mask ?pos) AND bit_mask ?pos \<noteq> 0"
    using bit_mask_facts(1) [of ?pos] by (auto simp: bit_eq_iff bit_simps)
  then show "block_used (claim_block V sb k) sb k" using len by (simp add: block_used_def c set_bit_in_def)
  have "clear_bit_in (set_bit_in (V ?bb) ?pos) ?pos = V ?bb"
    using len bit_mask_facts(2) [OF w] by (simp add: clear_bit_in_def set_bit_in_def)
  then show "(claim_block V sb k)(?bb := clear_bit_in (claim_block V sb k ?bb) ?pos) = V(of_nat k := memset_bytes (V (of_nat k)) 0 BLOCK_SIZE)"
    unfolding c using assms(3) by (auto simp: claim_block_def Let_def)
qed

text \<open>
  C20: allocating a block, freeing it again and ending the operation writes the disk as it was before, the
  clearing of the block apart: \<open>freeBlock\<close> takes back what \<open>allocateBlock\<close> marked, and the commit of
  \<open>endOp\<close> makes the view of the operation the contents of the disk. Freeing the block once more fails the
  assertion.
\<close>

theorem allocate_free_round_trip:
  assumes op: "op_view D B s V m" and m: "4 \<le> m" and fit: "bitmap_fits (B - log_region s) V (superBlock s)"
    and k: "first_free V (superBlock s) = Some k" "of_nat k \<noteq> bblock (of_nat k) (superBlock s)"
    and one: "outstanding s = 1" "\<not> committing s"
  shows "\<exists>s1 s2 s3. allocateBlock s D = Inr (of_nat k, s1) \<and> freeBlock s1 D (of_nat k) = Inr s2 \<and>
    freeBlock s2 D (of_nat k) = Inl AssertionFailed \<and> endOp s2 = Inr s3 \<and>
    (\<forall>x. x \<notin> log_region s \<longrightarrow> disk_blocks s3 x = (if x = of_nat k then memset_bytes (V x) 0 BLOCK_SIZE else V x))"
proof -
  let ?sb = "superBlock s"
  let ?bb = "bblock (of_nat k) ?sb" and ?W = "V(of_nat k := memset_bytes (V (of_nat k)) 0 BLOCK_SIZE)" and ?X = "B - log_region s"
  have kk: "k < unat (sb_size ?sb)" "\<not> block_used V ?sb k" using k(1) by (auto simp: first_free_def find_upt)
  have k32: "k < 2 ^ 32" and bb: "?bb \<in> ?X" using kk(1) fit by (auto simp: bitmap_fits_def)
  obtain s1 where s1: "allocateBlock s D = Inr (of_nat k, s1)" "op_view D B s1 (claim_block V ?sb k) (m - 2)" "op_frame s s1"
    using allocateBlock_law [OF op _ fit] m k(1) by auto
  have len: "\<forall>x. length (V x) = BLOCK_SIZE" using op_cells(3) [OF op] by blast
  note cf = claim_free [OF len kk(2) k(2)]
  have b1: "superBlock s1 = ?sb" "?bb \<in> B - log_region s1"
    using superBlock_more [of s1 s] s1(3) op_frame_region(1) [OF s1(3)] bb by (simp_all add: op_frame_def)
  obtain s2 where s2: "freeBlock s1 D (of_nat k) = Inr s2" "op_frame s1 s2" "op_view D B s2 ?W (m - 3)"
    using freeBlock_law [OF s1(2) _ b1(1) k32 b1(2)] cf m by (auto simp: numeral_3_eq_3)
  have f2: "op_frame s s2" using op_frame_trans [OF s1(3) s2(2)] .
  have b2: "superBlock s2 = ?sb" "?bb \<in> B - log_region s2" "\<not> block_used ?W ?sb k"
    using superBlock_more [of s2 s] f2 op_frame_region(1) [OF f2] bb kk(2) k(2) by (simp_all add: op_frame_def block_used_def)
  have "freeBlock s2 D (of_nat k) = Inl AssertionFailed"
    using freeBlock_law [OF s2(3) _ b2(1) k32 b2(2)] b2(3) m by simp
  moreover obtain s3 where "endOp s2 = Inr s3" "\<forall>x. x \<notin> log_region s \<longrightarrow> disk_blocks s3 x = ?W x"
    using op_end [OF s2(3)] f2 op_frame_region(1) [OF f2] one by (auto simp: op_frame_def)
  ultimately show ?thesis using s1(1) s2(1) by auto
qed

section \<open>Concrete states\<close>

text \<open>A disk of 200 blocks: the log from block 2, the inodes from block 33, the bitmap in block 46.\<close>

definition example_super :: super_block where
  "example_super =
     \<lparr>magic = FS_MAGIC, sb_size = 200, numBlocks = 153, numInodes = 200, numLogs = 31, logStart = 2, inodeStart = 33, bmapStart = 46\<rparr>"

definition example_blk :: blk_state where
  "example_blk = log_state.extend (example_log 31) (blk_state.fields example_super)"

text \<open>An operation on a disk whose blocks before 47 are in use.\<close>

definition example_bitmap :: "u8 list" where
  "example_bitmap = [255, 255, 255, 255, 255, 127] @ replicate 1018 0"

definition example_op :: blk_state where
  "example_op = example_blk\<lparr>outstanding := 1, disk_blocks := (\<lambda>_. replicate BLOCK_SIZE 0)(46 := example_bitmap)\<rparr>"

lemma example_op_view: "op_view 1 example_blocks example_op (disk_blocks example_op) 4" "log_start example_op = 2"
  "superBlock example_op = example_super" "outstanding example_op = 1" "\<not> committing example_op"
proof -
  have e: "bufferTable example_op = bufferTable (example_log 31)" "buffer_of example_op = buffer_of (example_log 31)"
    "next_buffer example_op = next_buffer (example_log 31)" "pid_now example_op = pid_now (example_log 31)"
    "log_start example_op = 2" "log_size example_op = 31" "log_device example_op = 1" "header_n example_op = 0"
    "header_block example_op = replicate LOG_SIZE 0" "outstanding example_op = 1" "\<not> committing example_op" "superBlock example_op = example_super"
    by (simp_all add: example_op_def example_blk_def example_log_def example_cache_def cache_state.defs log_state.defs blk_state.defs)
  have d: "length (disk_blocks example_op x) = BLOCK_SIZE" for x
    by (simp add: example_op_def example_bitmap_def BLOCK_SIZE_def)
  have c: "cells 1 example_op x = None" for x using example_log_layout(2) [of 31 x] by (simp add: cells_def ptr_def e)
  have "cache_inv 1 example_blocks example_op"
    using example_log_layout(1) [of 31] d by (simp add: log_layout_def cache_inv_def e)
  moreover have "log_region example_op = log_region (example_log 31)" by (simp add: log_region_def log_cap_def e)
  ultimately have "log_layout 1 example_blocks example_op"
    using example_log_layout(1) [of 31] c by (simp add: log_layout_def e)
  then show "op_view 1 example_blocks example_op (disk_blocks example_op) 4"
    using c d by (simp add: op_view_def e logged_def LOG_SIZE_eq)
qed (simp_all add: example_op_def example_blk_def example_log_def example_cache_def cache_state.defs log_state.defs blk_state.defs)

lemma example_bits:
  assumes "k < 200"
  shows "bblock (of_nat k) example_super = 46" "block_used (disk_blocks example_op) example_super k \<longleftrightarrow> k < 47"
proof -
  have "k div BITS_PER_BLOCK = 0" "k < 2 ^ 32" using assms by (simp_all add: BITS_PER_BLOCK_eq)
  then show b: "bblock (of_nat k) example_super = 46" by (simp add: bblock_of_nat example_super_def)
  have "list_all (\<lambda>k. (example_bitmap ! (k div 8) AND bit_mask k \<noteq> 0) = (k < 47)) [0..<200]"
    by (simp add: upt_rec example_bitmap_def bit_mask_def nth_append)
  then have "(example_bitmap ! (k div 8) AND bit_mask k \<noteq> 0) = (k < 47)" using assms by (simp add: list_all_iff)
  moreover have "k mod BITS_PER_BLOCK = k" using assms by (simp add: BITS_PER_BLOCK_eq)
  ultimately show "block_used (disk_blocks example_op) example_super k \<longleftrightarrow> k < 47"
    unfolding block_used_def b by (simp add: example_op_def)
qed

lemma example_first_free:
  "first_free (disk_blocks example_op) example_super = Some 47"
  "bitmap_fits (example_blocks - log_region example_op) (disk_blocks example_op) example_super"
proof -
  have sz: "unat (sb_size example_super) = 200" by (simp add: example_super_def)
  show f: "first_free (disk_blocks example_op) example_super = Some 47"
    by (simp add: first_free_def sz find_upt example_bits)
  have "(46 :: u32) \<notin> log_region example_op" using example_region [OF example_op_view(2), of 46] by auto
  moreover have "(47 :: u32) \<notin> log_region example_op" using example_region [OF example_op_view(2), of 47] by auto
  ultimately show "bitmap_fits (example_blocks - log_region example_op) (disk_blocks example_op) example_super"
    using example_bits(1) f by (auto simp: bitmap_fits_def sz BITS_PER_BLOCK_eq)
qed

theorem allocateBlock_takes_first_free_witness:
  "\<exists>s'. allocateBlock example_op 1 = Inr (47, s') \<and>
     op_view 1 example_blocks s' (claim_block (disk_blocks example_op) example_super 47) 2"
  using allocateBlock_takes_first_free [OF example_op_view(1)] example_op_view(2,3) example_first_free by auto

theorem allocate_free_round_trip_witness:
  "\<exists>s1 s2 s3. allocateBlock example_op 1 = Inr (47, s1) \<and> freeBlock s1 1 47 = Inr s2 \<and> freeBlock s2 1 47 = Inl AssertionFailed \<and>
     endOp s2 = Inr s3 \<and> disk_blocks s3 46 = example_bitmap"
proof -
  have "(46 :: u32) \<notin> log_region example_op" using example_region [OF example_op_view(2), of 46] by auto
  moreover have "disk_blocks example_op 46 = example_bitmap" by (simp add: example_op_def)
  ultimately show ?thesis
    using allocate_free_round_trip [OF example_op_view(1), of 47] example_op_view(2-5) example_first_free example_bits(1) [of 47] by auto
qed

end
