(* ===== verification/Mem_Address.thy ===== *)
theory Mem_Address
  imports Kernel_Prelude
begin

unbundle bit_operations_syntax

text \<open>
  Virtual addresses and page table entries: \<open>kernel/arch/config.h\<close>, \<open>kernel/memory/va.cpp\<close>,
  \<open>va.h\<close>, \<open>pte.cpp\<close>, \<open>pte.h\<close>. Both are unions of a 64-bit integer with bit fields, laid out from
  the least significant bit as the RISC-V ABI does; they are modelled by the integer, and each
  bit field by the shift and mask that select it.
\<close>

section \<open>Constants\<close>

definition KERNEL_BASE :: u64 where
  "KERNEL_BASE = 0x80000000"

definition PAGE_SIZE :: u64 where
  "PAGE_SIZE = 4096"

definition MAX_VIRTUAL_ADDRESS :: u64 where
  "MAX_VIRTUAL_ADDRESS = push_bit (9 + 9 + 9 + 12 - 1) 1"

definition TRAMPOLINE :: u64 where
  "TRAMPOLINE = MAX_VIRTUAL_ADDRESS - PAGE_SIZE"

definition TRAPFRAME :: u64 where
  "TRAPFRAME = TRAMPOLINE - PAGE_SIZE"

section \<open>Virtual addresses\<close>

definition pageOffset :: "u64 \<Rightarrow> u64" where
  "pageOffset va = va AND mask 12"

definition vpn0 :: "u64 \<Rightarrow> u64" where
  "vpn0 va = drop_bit 12 va AND mask 9"

definition vpn1 :: "u64 \<Rightarrow> u64" where
  "vpn1 va = drop_bit 21 va AND mask 9"

definition vpn2 :: "u64 \<Rightarrow> u64" where
  "vpn2 va = drop_bit 30 va AND mask 9"

definition roundUp :: "u64 \<Rightarrow> u64" where
  "roundUp a = (a + PAGE_SIZE - 1) AND NOT (PAGE_SIZE - 1)"

definition roundDown :: "u64 \<Rightarrow> u64" where
  "roundDown a = a AND NOT (PAGE_SIZE - 1)"

section \<open>Page table entries\<close>

definition PTE_V :: u64 where "PTE_V = 1"

definition PTE_R :: u64 where "PTE_R = push_bit 1 1"

definition PTE_W :: u64 where "PTE_W = push_bit 2 1"

definition PTE_X :: u64 where "PTE_X = push_bit 3 1"

definition PTE_U :: u64 where "PTE_U = push_bit 4 1"

text \<open>The fields \<open>v\<close> and \<open>u\<close>, read and written.\<close>

definition pte_v :: "u64 \<Rightarrow> bool" where
  "pte_v raw = bit raw 0"

definition pte_u :: "u64 \<Rightarrow> bool" where
  "pte_u raw = bit raw 4"

definition set_pte_v :: "u64 \<Rightarrow> u64" where
  "set_pte_v raw = raw OR 1"

definition clear_pte_u :: "u64 \<Rightarrow> u64" where
  "clear_pte_u raw = raw AND NOT (push_bit 4 1)"

definition toPhysicalAddress :: "u64 \<Rightarrow> u64" where
  "toPhysicalAddress raw = push_bit 12 (drop_bit 10 raw)"

definition fromPhysicalAddress :: "u64 \<Rightarrow> u64" where
  "fromPhysicalAddress address = push_bit 10 (drop_bit 12 address)"

definition pte_flags :: "u64 \<Rightarrow> u16" where
  "pte_flags raw = ucast (raw AND 0x3FF)"

section \<open>Alignment\<close>

definition page_aligned :: "u64 \<Rightarrow> bool" where
  "page_aligned a \<longleftrightarrow> a AND mask 12 = 0"

lemma page_mask: "PAGE_SIZE - 1 = mask 12"
  by (simp add: PAGE_SIZE_def mask_eq_exp_minus_1)

lemma bit_roundDown: "bit (roundDown a) i \<longleftrightarrow> 12 \<le> i \<and> bit a i"
  unfolding roundDown_def page_mask by (auto simp: bit_simps dest: bit_imp_le_length)

lemma page_aligned_bit: "page_aligned a \<longleftrightarrow> (\<forall>i < 12. \<not> bit a i)"
proof
  assume a: "page_aligned a"
  show "\<forall>i < 12. \<not> bit a i"
  proof (intro allI impI)
    fix i :: nat assume "i < 12"
    moreover have "\<not> bit (a AND mask 12) i" using a by (simp add: page_aligned_def)
    ultimately show "\<not> bit a i" by (simp add: bit_simps)
  qed
qed (auto simp: page_aligned_def bit_eq_iff bit_simps)

lemma page_aligned_roundDown [simp]: "page_aligned (roundDown a)"
  by (simp add: page_aligned_bit bit_roundDown)

lemma roundDown_aligned [simp]: "page_aligned a \<Longrightarrow> roundDown a = a"
  by (auto simp: bit_eq_iff bit_roundDown page_aligned_bit) (meson not_le)

lemma roundDown_idem: "roundDown (roundDown a) = roundDown a"
  by simp

lemma page_split: "roundDown a + pageOffset a = a"
proof -
  have "roundDown a AND pageOffset a = 0"
    by (auto simp: bit_eq_iff bit_simps bit_roundDown pageOffset_def)
  then have "roundDown a + pageOffset a = roundDown a OR pageOffset a"
    by (simp add: disjunctive_add_eq_or)
  also have "\<dots> = a"
    by (auto simp: bit_eq_iff bit_simps bit_roundDown pageOffset_def)
  finally show ?thesis .
qed

lemma roundDown_sub: "a - roundDown a = pageOffset a"
  using page_split [of a] by (metis add_diff_cancel_left')

lemma unat_pageOffset: "unat (pageOffset a) = unat a mod 4096"
  by (simp add: pageOffset_def unsigned_take_bit_eq flip: take_bit_eq_mask) (simp add: take_bit_eq_mod)

lemma unat_roundDown: "unat (roundDown a) = unat a - unat a mod 4096"
proof -
  have "pageOffset a \<le> a"
    by (simp add: word_le_nat_alt unat_pageOffset)
  then have "unat (a - pageOffset a) = unat a - unat (pageOffset a)" by (rule unat_sub)
  moreover have "a - pageOffset a = roundDown a"
    using page_split [of a] by (metis add_diff_cancel_right')
  ultimately show ?thesis by (simp add: unat_pageOffset)
qed

lemma page_aligned_mod: "page_aligned a \<longleftrightarrow> unat a mod 4096 = 0"
  by (metis pageOffset_def page_aligned_def unat_0 unat_pageOffset word_unat_eq_iff)

lemma roundUp_roundDown: "roundUp a = roundDown (a + 4095)"
  by (simp add: roundUp_def roundDown_def PAGE_SIZE_def add.commute)

lemma page_aligned_add:
  assumes "page_aligned a" "page_aligned b"
  shows "page_aligned (a + b)"
proof -
  have "(unat a + unat b) mod 2 ^ 64 mod 4096 = (unat a + unat b) mod 4096"
    by (rule mod_mod_cancel) simp
  also have "\<dots> = 0" using assms by (auto simp: page_aligned_mod mod_eq_0_iff_dvd intro: dvd_add)
  finally show ?thesis by (simp add: page_aligned_mod unat_word_ariths)
qed

lemma page_aligned_PAGE_SIZE [simp]: "page_aligned PAGE_SIZE"
  by (simp add: page_aligned_mod PAGE_SIZE_def)

lemma MAX_VIRTUAL_ADDRESS_eq: "MAX_VIRTUAL_ADDRESS = 0x4000000000"
  by (simp add: MAX_VIRTUAL_ADDRESS_def)

section \<open>Virtual page numbers\<close>

lemma unat_and_mask: "unat (a AND mask n :: u64) = unat a mod 2 ^ n"
  by (simp add: unsigned_take_bit_eq flip: take_bit_eq_mask) (simp add: take_bit_eq_mod)

lemma vpn_bounds:
  "unat (vpn0 va) < 512" "unat (vpn1 va) < 512" "unat (vpn2 va) < 512"
  by (simp_all add: vpn0_def vpn1_def vpn2_def unat_and_mask)

lemma bit_vpn:
  "bit (vpn0 va) i \<longleftrightarrow> i < 9 \<and> bit va (12 + i)"
  "bit (vpn1 va) i \<longleftrightarrow> i < 9 \<and> bit va (21 + i)"
  "bit (vpn2 va) i \<longleftrightarrow> i < 9 \<and> bit va (30 + i)"
  by (auto simp: vpn0_def vpn1_def vpn2_def bit_simps add.commute)

lemma take_bit_small: "unat (a :: u64) < 2 ^ n \<Longrightarrow> take_bit n a = a"
  by (simp add: word_unat_eq_iff unsigned_take_bit_eq take_bit_nat_eq_self)

lemma high_bits_clear:
  fixes va :: u64
  assumes "va < MAX_VIRTUAL_ADDRESS" "38 \<le> i"
  shows "\<not> bit va i"
proof
  assume b: "bit va i"
  have "unat va < 2 ^ 38" using assms(1) by (simp add: MAX_VIRTUAL_ADDRESS_eq word_less_nat_alt)
  then have "take_bit 38 va = va" by (rule take_bit_small)
  then show False using b assms(2) by (metis bit_take_bit_iff not_le)
qed

text \<open>Below \<open>MAX_VIRTUAL_ADDRESS\<close> a page is determined by its three table indices.\<close>

lemma vpn_inject:
  assumes "va < MAX_VIRTUAL_ADDRESS" "va' < MAX_VIRTUAL_ADDRESS" "page_aligned va" "page_aligned va'"
    and "vpn0 va = vpn0 va'" "vpn1 va = vpn1 va'" "vpn2 va = vpn2 va'"
  shows "va = va'"
proof (rule bit_word_eqI)
  fix i assume "i < LENGTH(64)"
  consider "i < 12" | "12 \<le> i" "i < 21" | "21 \<le> i" "i < 30" | "30 \<le> i" "i < 39" | "38 \<le> i"
    by linarith
  then show "bit va i = bit va' i"
  proof cases
    case 1
    then show ?thesis using assms(3,4) by (simp add: page_aligned_bit)
  next
    case 2
    then show ?thesis using bit_vpn(1) [of va "i - 12"] bit_vpn(1) [of va' "i - 12"] assms(5)
      by (simp add: less_diff_conv2)
  next
    case 3
    then show ?thesis using bit_vpn(2) [of va "i - 21"] bit_vpn(2) [of va' "i - 21"] assms(6)
      by (simp add: less_diff_conv2)
  next
    case 4
    then show ?thesis using bit_vpn(3) [of va "i - 30"] bit_vpn(3) [of va' "i - 30"] assms(7)
      by (simp add: less_diff_conv2)
  next
    case 5
    then show ?thesis using assms(1,2) by (simp add: high_bits_clear)
  qed
qed

section \<open>Entries\<close>

lemma bit_fromPhysicalAddress:
  "bit (fromPhysicalAddress a) i \<longleftrightarrow> 10 \<le> i \<and> i < 62 \<and> bit a (i + 2)"
  by (auto simp: fromPhysicalAddress_def bit_simps dest: bit_imp_le_length)

lemma bit_toPhysicalAddress:
  "bit (toPhysicalAddress r) i \<longleftrightarrow> 12 \<le> i \<and> i < 64 \<and> bit r (i - 2)"
proof -
  have "10 + (i - 12) = i - 2" if "12 \<le> i" using that by simp
  then show ?thesis by (auto simp: toPhysicalAddress_def bit_simps)
qed

lemma toPhysicalAddress_aligned [simp]: "page_aligned (toPhysicalAddress r)"
  by (simp add: page_aligned_bit bit_toPhysicalAddress)

lemma to_from_physical:
  assumes "page_aligned a" "\<And>i. 10 \<le> i \<Longrightarrow> \<not> bit f i"
  shows "toPhysicalAddress (fromPhysicalAddress a OR f) = a"
proof (rule bit_word_eqI)
  fix i assume "i < LENGTH(64)"
  moreover have "i - 2 + 2 = i" if "12 \<le> i" using that by simp
  ultimately show "bit (toPhysicalAddress (fromPhysicalAddress a OR f)) i = bit a i"
    using assms by (cases "12 \<le> i")
      (auto simp del: add_2_eq_Suc' simp: bit_toPhysicalAddress bit_or_iff bit_fromPhysicalAddress page_aligned_bit)
qed

lemma pte_v_set [simp]: "pte_v (set_pte_v r)"
  by (simp add: pte_v_def set_pte_v_def bit_or_iff)

section \<open>Properties\<close>

text \<open>
  \<open>roundDown\<close> gives the start of the page that holds the address and \<open>roundUp\<close> the next page
  boundary at or above it (as long as that does not leave the 64-bit range): both are multiples of
  the page size, at distance less than a page.
\<close>

theorem rounding_to_pages:
  "page_aligned (roundDown a) \<and> unat (roundDown a) \<le> unat a \<and> unat a < unat (roundDown a) + 4096 \<and>
   page_aligned (roundUp a) \<and>
   (unat a + 4095 < 2 ^ 64 \<longrightarrow> unat a \<le> unat (roundUp a) \<and> unat (roundUp a) < unat a + 4096)"
proof (intro conjI impI)
  assume "unat a + 4095 < 2 ^ 64"
  then have u: "unat (a + 4095) = unat a + 4095" by (simp add: unat_plus_if')
  show "unat a \<le> unat (roundUp a)" "unat (roundUp a) < unat a + 4096"
    by (simp_all add: roundUp_roundDown unat_roundDown u)
next
  show "unat a < unat (roundDown a) + 4096" by (simp add: unat_roundDown)
qed (simp_all add: unat_roundDown roundUp_roundDown)

theorem rounding_to_pages_witness:
  "roundUp 4097 = 8192 \<and> unat (4097 :: u64) \<le> unat (roundUp 4097)"
proof -
  have "unat (4097 :: u64) + 4095 < 2 ^ 64" by simp
  then show ?thesis
    using rounding_to_pages [of 4097] by (simp add: roundUp_def PAGE_SIZE_def)
qed

text \<open>
  The physical page number survives packing into a page table entry: for a page-aligned
  address and any permission bits below bit 10, the entry built from them decodes to the same
  address and the same bits.
\<close>

theorem pte_round_trip:
  assumes "page_aligned a" "f < 1024"
  shows "toPhysicalAddress (fromPhysicalAddress a OR f) = a \<and>
    ucast (pte_flags (fromPhysicalAddress a OR f)) = f"
proof -
  have "take_bit 10 f = f" using assms(2) by (intro take_bit_small) (simp add: word_less_nat_alt)
  then have low: "\<not> bit f i" if "10 \<le> i" for i using that by (metis bit_take_bit_iff not_le)
  have "ucast (pte_flags (fromPhysicalAddress a OR f)) = f"
  proof (rule bit_word_eqI)
    fix i assume "i < LENGTH(64)"
    have m: "(0x3FF :: u64) = mask 10" by (simp add: mask_eq_exp_minus_1)
    show "bit (ucast (pte_flags (fromPhysicalAddress a OR f)) :: u64) i = bit f i"
      unfolding pte_flags_def m using low [of i]
      by (cases "i < 10") (auto simp: bit_simps bit_fromPhysicalAddress)
  qed
  then show ?thesis using to_from_physical [OF assms(1) low] by simp
qed

theorem pte_round_trip_witness:
  "page_aligned 0x80001000 \<and> toPhysicalAddress (fromPhysicalAddress 0x80001000 OR 0x1F) = 0x80001000"
proof -
  have "page_aligned 0x80001000" by (simp add: page_aligned_mod)
  then show ?thesis using pte_round_trip [of "0x80001000" "0x1F"] by simp
qed

end
