(* ===== verification/Lib_String.thy ===== *)
theory Lib_String
  imports Kernel_Prelude
begin

unbundle bit_operations_syntax

text \<open>
  The memory and string routines of \<open>kernel/lib/string.cpp\<close> over byte memory. Pointers are
  64-bit words and pointer arithmetic wraps; \<open>size_t\<close> is \<open>u64\<close>. Each loop of the source is one
  recursive function; \<open>strlen\<close> and \<open>strncmp\<close> have no bound of their own and are partial
  (\<open>None\<close> is a loop that never ends).
\<close>

section \<open>Copying and filling\<close>

function memcpy_loop :: "mem \<Rightarrow> u64 \<Rightarrow> u64 \<Rightarrow> u64 \<Rightarrow> mem" where
  "memcpy_loop m d s n =
     (let n' = n - 1 in
      if n' = 0 then m else memcpy_loop (m(d := m s)) (d + 1) (s + 1) n')"
  by pat_completeness auto
termination
  by (relation "measure (\<lambda>(m, d, s, n). unat (n - 1))") (auto simp: unat_minus_two_less)

definition memcpy :: "mem \<Rightarrow> u64 \<Rightarrow> u64 \<Rightarrow> u64 \<Rightarrow> mem \<times> u64" where
  "memcpy m dest src n = (memcpy_loop m dest src n, dest)"

function memmove_forward :: "mem \<Rightarrow> u64 \<Rightarrow> u64 \<Rightarrow> u64 \<Rightarrow> mem" where
  "memmove_forward m d s n =
     (if n > 0 then memmove_forward (m(d := m s)) (d + 1) (s + 1) (n - 1) else m)"
  by pat_completeness auto
termination
  by (relation "measure (\<lambda>(m, d, s, n). unat n)") (auto simp: measure_unat word_gt_0)

function memmove_backward :: "mem \<Rightarrow> u64 \<Rightarrow> u64 \<Rightarrow> u64 \<Rightarrow> mem" where
  "memmove_backward m d s n =
     (if n > 0 then memmove_backward (m(d - 1 := m (s - 1))) (d - 1) (s - 1) (n - 1) else m)"
  by pat_completeness auto
termination
  by (relation "measure (\<lambda>(m, d, s, n). unat n)") (auto simp: measure_unat word_gt_0)

definition memmove :: "mem \<Rightarrow> u64 \<Rightarrow> u64 \<Rightarrow> u64 \<Rightarrow> mem \<times> u64" where
  "memmove m dst src n =
     (if n = 0 then (m, dst)
      else if src < dst \<and> src + n > dst
        then (memmove_backward m (dst + n) (src + n) n, dst)
        else (memmove_forward m dst src n, dst))"

function memset_loop :: "mem \<Rightarrow> u64 \<Rightarrow> u8 \<Rightarrow> u64 \<Rightarrow> mem" where
  "memset_loop m d c n =
     (let n' = n - 1 in
      if n' = 0 then m else memset_loop (m(d := c)) (d + 1) c n')"
  by pat_completeness auto
termination
  by (relation "measure (\<lambda>(m, d, c, n). unat (n - 1))") (auto simp: unat_minus_two_less)

definition memset :: "mem \<Rightarrow> u64 \<Rightarrow> u32 \<Rightarrow> u64 \<Rightarrow> mem \<times> u64" where
  "memset m dest ch n = (memset_loop m dest (ucast ch) n, dest)"

section \<open>C strings\<close>

text \<open>\<open>strncmp\<close> takes a length and never looks at it; the loop runs to a difference or to a
  common terminator.\<close>

partial_function (option) strncmp_loop :: "mem \<Rightarrow> u64 \<Rightarrow> u64 \<Rightarrow> int option" where
  "strncmp_loop m s1 s2 =
     (if m s1 = m s2
      then (if m s1 = 0 then Some 0 else strncmp_loop m (s1 + 1) (s2 + 1))
      else Some (uint (m s1) - uint (m s2)))"

definition strncmp :: "mem \<Rightarrow> u64 \<Rightarrow> u64 \<Rightarrow> u64 \<Rightarrow> int option" where
  "strncmp m s1 s2 n = strncmp_loop m s1 s2"

text \<open>\<open>while (n-- > 0 && (*s++ = *t++) != 0) {}\<close>: the result is the memory, the advanced
  destination and the decremented counter.\<close>

function strncpy_copy :: "mem \<Rightarrow> u64 \<Rightarrow> u64 \<Rightarrow> int \<Rightarrow> mem \<times> u64 \<times> int" where
  "strncpy_copy m s t n =
     (if n > 0
      then (if m t \<noteq> 0 then strncpy_copy (m(s := m t)) (s + 1) (t + 1) (n - 1)
            else (m(s := m t), s + 1, n - 1))
      else (m, s, n - 1))"
  by pat_completeness auto
termination
  by (relation "measure (\<lambda>(m, s, t, n). nat n)") auto

function strncpy_pad :: "mem \<Rightarrow> u64 \<Rightarrow> int \<Rightarrow> mem" where
  "strncpy_pad m s n = (if n > 0 then strncpy_pad (m(s := 0)) (s + 1) (n - 1) else m)"
  by pat_completeness auto
termination
  by (relation "measure (\<lambda>(m, s, n). nat n)") auto

definition strncpy :: "mem \<Rightarrow> u64 \<Rightarrow> u64 \<Rightarrow> int \<Rightarrow> mem \<times> u64" where
  "strncpy m s t n =
     (case strncpy_copy m s t n of (m', s', n') \<Rightarrow> (strncpy_pad m' s' n', s))"

partial_function (option) strlen_loop :: "mem \<Rightarrow> u64 \<Rightarrow> u64 option" where
  "strlen_loop m ss = (if m ss \<noteq> 0 then strlen_loop m (ss + 1) else Some ss)"

definition strlen :: "mem \<Rightarrow> u64 \<Rightarrow> u64 option" where
  "strlen m s = map_option (\<lambda>ss. ss - s) (strlen_loop m s)"

declare memcpy_loop.simps [simp del] memmove_forward.simps [simp del]
  memmove_backward.simps [simp del] memset_loop.simps [simp del]
  strncpy_copy.simps [simp del] strncpy_pad.simps [simp del]

section \<open>Specifications\<close>

text \<open>\<open>c_string m s bs\<close>: the NUL-terminated string at \<open>s\<close> has the characters \<open>bs\<close>.\<close>

fun c_string :: "mem \<Rightarrow> u64 \<Rightarrow> u8 list \<Rightarrow> bool" where
  "c_string m s [] = (m s = 0)"
| "c_string m s (b # bs) = (m s = b \<and> b \<noteq> 0 \<and> c_string m (s + 1) bs)"

text \<open>The lexicographic comparison of two C strings: the difference at the first position where
  they (or their terminators) differ.\<close>

fun compare_bytes :: "u8 list \<Rightarrow> u8 list \<Rightarrow> int" where
  "compare_bytes [] [] = 0"
| "compare_bytes [] (y # ys) = - uint y"
| "compare_bytes (x # xs) [] = uint x"
| "compare_bytes (x # xs) (y # ys) = (if x = y then compare_bytes xs ys else uint x - uint y)"

section \<open>Correctness\<close>

lemma sub_one_shift: "(x :: u64) - (d + 1) = (x - d) - 1"
  by (simp add: algebra_simps)

lemma unat_diff_le:
  fixes a b :: u64
  assumes "b \<le> a"
  shows "unat (a - b) = unat a - unat b"
  using assms by (simp add: unat_sub)

lemma unat_diff_gt:
  fixes a b :: u64
  assumes "a < b"
  shows "unat (a - b) = 2 ^ 64 - (unat b - unat a)"
proof -
  have "unat b < 2 ^ 64" by (rule unat64_less)
  then show ?thesis using assms by (simp add: unat_sub_if' word_le_nat_alt word_less_nat_alt)
qed

lemma memmove_forward_at:
  assumes "d = s \<or> unat n \<le> unat (d - s)"
  shows "memmove_forward m d s n x =
    (if unat (x - d) < unat n then m (s + (x - d)) else m x)"
  using assms
proof (induction m d s n rule: memmove_forward.induct)
  case (1 m d s n)
  show ?case
  proof (cases "n = 0")
    case True
    then show ?thesis by (simp add: memmove_forward.simps)
  next
    case False
    have n1: "unat (n - 1) = unat n - 1" "0 < unat n" and pos: "0 < n"
      using False by (simp_all add: unat_pred unat_gt_0 word_gt_0)
    have side: "d + 1 = s + 1 \<or> unat (n - 1) \<le> unat (d + 1 - (s + 1))"
      using "1.prems" n1 by auto
    let ?m = "m(d := m s)"
    have ih: "memmove_forward m d s n x =
        (if unat (x - (d + 1)) < unat (n - 1) then ?m (s + 1 + (x - (d + 1))) else ?m x)"
      using "1.IH" [OF pos side] by (simp only: memmove_forward.simps [of m d s n] pos if_True)
    show ?thesis
    proof (cases "x = d")
      case True
      have "unat (x - (d + 1)) = 2 ^ 64 - 1" using True by simp
      moreover have "unat n \<le> 2 ^ 64 - 1" using unat64_le [of n] by simp
      ultimately show ?thesis using ih True n1 by simp
    next
      case ne: False
      then have "unat (x - (d + 1)) = unat (x - d) - 1" "0 < unat (x - d)"
        by (simp_all add: sub_one_shift unat_pred unat_gt_0)
      moreover have "s + (x - d) \<noteq> d" if "unat (x - d) < unat n"
      proof
        assume "s + (x - d) = d"
        then have "x - d = d - s" by (simp add: algebra_simps)
        with that ne "1.prems" show False by auto
      qed
      moreover have "s + 1 + (x - (d + 1)) = s + (x - d)" by simp
      ultimately show ?thesis using ih n1 ne by auto
    qed
  qed
qed

lemma memmove_backward_at:
  assumes "d = s \<or> unat n \<le> unat (s - d)"
  shows "memmove_backward m d s n x =
    (if unat (d - 1 - x) < unat n then m (s - 1 - (d - 1 - x)) else m x)"
  using assms
proof (induction m d s n rule: memmove_backward.induct)
  case (1 m d s n)
  show ?case
  proof (cases "n = 0")
    case True
    then show ?thesis by (simp add: memmove_backward.simps)
  next
    case False
    have n1: "unat (n - 1) = unat n - 1" "0 < unat n" and pos: "0 < n"
      using False by (simp_all add: unat_pred unat_gt_0 word_gt_0)
    have side: "d - 1 = s - 1 \<or> unat (n - 1) \<le> unat (s - 1 - (d - 1))"
      using "1.prems" n1 by auto
    let ?m = "m(d - 1 := m (s - 1))"
    have ih: "memmove_backward m d s n x =
        (if unat (d - 1 - 1 - x) < unat (n - 1) then ?m (s - 1 - 1 - (d - 1 - 1 - x)) else ?m x)"
      using "1.IH" [OF pos side] by (simp only: memmove_backward.simps [of m d s n] pos if_True)
    show ?thesis
    proof (cases "x = d - 1")
      case True
      have "unat (d - 1 - 1 - x) = 2 ^ 64 - 1" using True by simp
      moreover have "unat n \<le> 2 ^ 64 - 1" using unat64_le [of n] by simp
      ultimately show ?thesis using ih True n1 by simp
    next
      case ne: False
      then have nz: "d - 1 - x \<noteq> 0" by auto
      have "d - 1 - 1 - x = (d - 1 - x) - 1" by simp
      then have "unat (d - 1 - 1 - x) = unat (d - 1 - x) - 1"
        using unat_pred [OF nz] by (simp only:)
      moreover have "0 < unat (d - 1 - x)" using nz unat_gt_0 by blast
      moreover have "s - 1 - (d - 1 - x) \<noteq> d - 1" if "unat (d - 1 - x) < unat n"
      proof
        assume "s - 1 - (d - 1 - x) = d - 1"
        then have "d - 1 - x = s - d" by (simp add: algebra_simps)
        with that nz "1.prems" show False by auto
      qed
      moreover have "s - 1 - 1 - (d - 1 - 1 - x) = s - 1 - (d - 1 - x)" by simp
      ultimately show ?thesis using ih n1 ne by auto
    qed
  qed
qed

lemma memcpy_loop_forward: "memcpy_loop m d s n = memmove_forward m d s (n - 1)"
proof (induction m d s n rule: memcpy_loop.induct)
  case (1 m d s n)
  then show ?case
    by (simp add: memcpy_loop.simps [of m d s n] memmove_forward.simps [of m d s "n - 1"]
        word_gt_0 Let_def fun_upd_def)
qed

lemma memset_loop_at:
  "memset_loop m d c n x = (if unat (x - d) < unat (n - 1) then c else m x)"
proof (induction m d c n rule: memset_loop.induct)
  case (1 m d c n)
  show ?case
  proof (cases "n - 1 = 0")
    case True
    then show ?thesis by (simp add: memset_loop.simps [of m d c n] del: right_minus_eq)
  next
    case False
    let ?m = "m(d := c)"
    have "memset_loop m d c n x = memset_loop ?m (d + 1) c (n - 1) x"
      using False by (simp add: memset_loop.simps [of m d c n] Let_def)
    also have "\<dots> = (if unat (x - (d + 1)) < unat (n - 1 - 1) then c else ?m x)"
      using "1.IH" [OF refl False] .
    finally have ih: "memset_loop m d c n x =
        (if unat (x - (d + 1)) < unat (n - 1) - 1 then c else ?m x)"
      using unat_pred [OF False] by (simp only:)
    have pos: "0 < unat (n - 1)" using False unat_gt_0 by blast
    show ?thesis
    proof (cases "x = d")
      case True
      then show ?thesis using ih pos by simp
    next
      case ne: False
      then have "unat (x - (d + 1)) = unat (x - d) - 1" "0 < unat (x - d)"
        by (simp_all add: sub_one_shift unat_pred unat_gt_0)
      then show ?thesis using ih ne pos by auto
    qed
  qed
qed

lemma write_bytes_at_read:
  assumes "n \<le> 2 ^ 64"
  shows "write_bytes m d (read_bytes m s n) x = (if unat (x - d) < n then m (s + (x - d)) else m x)"
  using assms by (simp add: write_bytes_def)

text \<open>The forward loop of \<open>memcpy\<close> moves \<open>n - 1\<close> bytes, not \<open>n\<close>.\<close>

lemma memcpy_moves:
  assumes "unat (n - 1) \<le> unat (dest - src)"
  shows "fst (memcpy m dest src n) = write_bytes m dest (read_bytes m src (unat (n - 1)))"
  using assms unat64_less [of "n - 1"]
  by (intro ext) (simp add: memcpy_def memcpy_loop_forward memmove_forward_at write_bytes_at_read)

lemma overlap_backward_safe:
  fixes src dst n :: u64
  assumes fit: "unat dst + unat n < 2 ^ 64" and lt: "src < dst"
  shows "unat n \<le> unat (src + n - (dst + n))"
proof -
  have "unat src < unat dst" using lt by (simp add: word_less_nat_alt)
  moreover have "unat (src - dst) = 2 ^ 64 - (unat dst - unat src)"
    using lt by (rule unat_diff_gt)
  ultimately show ?thesis using fit by simp
qed

lemma no_overlap_forward_safe:
  fixes src dst n :: u64
  assumes fs: "unat src + unat n < 2 ^ 64" and fd: "unat dst + unat n < 2 ^ 64"
    and no: "\<not> (src < dst \<and> src + n > dst)"
  shows "dst = src \<or> unat n \<le> unat (dst - src)"
proof -
  have sn: "unat (src + n) = unat src + unat n"
    using fs by (simp add: unat_plus_if')
  consider "dst = src" | "src < dst" | "dst < src" by (meson linorder_neqE)
  then show ?thesis
  proof cases
    case 2
    then have "unat src + unat n \<le> unat dst" using no sn by (simp add: word_less_nat_alt not_less)
    moreover have "unat (dst - src) = unat dst - unat src"
      using 2 by (simp add: unat_diff_le)
    ultimately show ?thesis by linarith
  next
    case 3
    then have "unat (dst - src) = 2 ^ 64 - (unat src - unat dst)" by (rule unat_diff_gt)
    then show ?thesis using fs by linarith
  qed simp
qed

lemma memmove_copies_range:
  assumes fs: "unat src + unat n < 2 ^ 64" and fd: "unat dst + unat n < 2 ^ 64"
  shows "fst (memmove m dst src n) = write_bytes m dst (read_bytes m src (unat n))"
proof (rule ext)
  fix x
  have n64: "unat n \<le> 2 ^ 64" using unat64_less [of n] by simp
  consider "n = 0" | "n \<noteq> 0" "src < dst \<and> src + n > dst"
    | "n \<noteq> 0" "\<not> (src < dst \<and> src + n > dst)" by blast
  then show "fst (memmove m dst src n) x = write_bytes m dst (read_bytes m src (unat n)) x"
  proof cases
    case 1
    then show ?thesis by (simp add: memmove_def write_bytes_def)
  next
    case 2
    have safe: "unat n \<le> unat (src + n - (dst + n))"
      using fd 2 by (intro overlap_backward_safe) auto
    have pos: "0 < unat n" using 2 unat_gt_0 by blast
    have flip: "unat (dst + n - 1 - x) < unat n \<longleftrightarrow> unat (x - dst) < unat n"
    proof -
      have eq: "dst + n - 1 - x = (n - 1) - (x - dst)" by simp
      have n1: "unat (n - 1) = unat n - 1" using 2 by (simp add: unat_pred)
      show ?thesis
      proof (cases "x - dst \<le> n - 1")
        case True
        then have "unat (n - 1 - (x - dst)) \<le> unat (n - 1)" "unat (x - dst) \<le> unat (n - 1)"
          by (simp_all add: unat_sub word_le_nat_alt)
        then show ?thesis unfolding eq n1 using pos by linarith
      next
        case False
        then have lt: "n - 1 < x - dst" by simp
        then have u: "unat (n - 1 - (x - dst)) = 2 ^ 64 - (unat (x - dst) - unat (n - 1))"
          by (rule unat_diff_gt)
        have "unat (n - 1) < unat (x - dst)" using lt by (simp add: word_less_nat_alt)
        then show ?thesis unfolding eq using n1 pos u unat64_less [of "x - dst"] by auto
      qed
    qed
    have "src + n - 1 - (dst + n - 1 - x) = src + (x - dst)" by simp
    then show ?thesis
      using 2 n64 memmove_backward_at [of "dst + n" "src + n" n m x] safe flip
      by (simp add: memmove_def write_bytes_at_read)
  next
    case 3
    then have "fst (memmove m dst src n) = memmove_forward m dst src n"
      by (simp only: memmove_def if_False fst_conv)
    then show ?thesis
      using no_overlap_forward_safe [OF fs fd 3(2)] n64
      by (simp add: write_bytes_at_read memmove_forward_at)
  qed
qed

lemma memset_writes:
  "fst (memset m dest ch n) = write_bytes m dest (replicate (unat (n - 1)) (ucast ch))"
  by (intro ext) (simp add: memset_def memset_loop_at write_bytes_def)

lemma strlen_loop_c_string: "c_string m s bs \<Longrightarrow> strlen_loop m s = Some (s + of_nat (length bs))"
  by (induction bs arbitrary: s) (simp_all add: strlen_loop.simps [of m] algebra_simps)

lemma strlen_c_string: "c_string m s bs \<Longrightarrow> strlen m s = Some (of_nat (length bs))"
  by (simp add: strlen_def strlen_loop_c_string)

lemma strlen_loop_finds:
  assumes "strlen_loop m s = Some e"
  shows "m e = 0"
  by (rule strlen_loop.raw_induct [where P = "\<lambda>m s e. m e = 0", OF _ assms])
    (auto split: if_splits)

lemma strncmp_loop_compares:
  "c_string m s1 bs1 \<Longrightarrow> c_string m s2 bs2 \<Longrightarrow> strncmp_loop m s1 s2 = Some (compare_bytes bs1 bs2)"
proof (induction bs1 bs2 arbitrary: s1 s2 rule: compare_bytes.induct)
  case (1 s1 s2)
  then show ?case by (simp add: strncmp_loop.simps [of m])
next
  case (2 y ys s1 s2)
  then show ?case by (simp add: strncmp_loop.simps [of m s1 s2])
next
  case (3 x xs s1 s2)
  then show ?case by (simp add: strncmp_loop.simps [of m s1 s2])
next
  case (4 x xs y ys s1 s2)
  then show ?case by (simp add: strncmp_loop.simps [of m s1 s2])
qed

lemma compare_bytes_0_iff:
  assumes "0 \<notin> set xs" "0 \<notin> set ys"
  shows "compare_bytes xs ys = 0 \<longleftrightarrow> xs = ys"
  using assms
  by (induction xs ys rule: compare_bytes.induct)
    (auto simp flip: word_uint_eq_iff simp: uint_0_iff)

lemma c_string_no_nul: "c_string m s bs \<Longrightarrow> 0 \<notin> set bs"
  by (induction bs arbitrary: s) auto

section \<open>The bounded copy\<close>

lemma strncpy_pad_at:
  assumes "n \<le> 2 ^ 64"
  shows "strncpy_pad m s n x = (if int (unat (x - s)) < n then 0 else m x)"
  using assms
proof (induction m s n rule: strncpy_pad.induct)
  case (1 m s n)
  show ?case
  proof (cases "n > 0")
    case False
    then have "\<not> int (unat (x - s)) < n" by linarith
    then show ?thesis using False by (simp add: strncpy_pad.simps)
  next
    case True
    have ih: "strncpy_pad m s n x =
        (if int (unat (x - (s + 1))) < n - 1 then 0 else (m(s := 0)) x)"
      using "1.IH" [OF True] "1.prems" True by (simp only: strncpy_pad.simps [of m s n] if_True)
    show ?thesis
    proof (cases "x = s")
      case True
      then show ?thesis using ih \<open>n > 0\<close> by simp
    next
      case ne: False
      then have "unat (x - (s + 1)) = unat (x - s) - 1" "0 < unat (x - s)"
        by (simp_all add: sub_one_shift unat_pred unat_gt_0)
      then show ?thesis using ih ne True by auto
    qed
  qed
qed

lemma c_string_upd:
  assumes "\<And>i. i \<le> length bs \<Longrightarrow> s + of_nat i \<noteq> d"
  shows "c_string (m(d := v)) s bs = c_string m s bs"
  using assms
proof (induction bs arbitrary: s)
  case Nil
  then show ?case using Nil [of 0] by simp
next
  case (Cons b bs)
  have "s \<noteq> d" using Cons.prems [of 0] by simp
  moreover have "s + 1 + of_nat i \<noteq> d" if "i \<le> length bs" for i
    using Cons.prems [of "Suc i"] that by (simp add: algebra_simps)
  ultimately show ?case using Cons.IH [of "s + 1"] by simp
qed

lemma strncpy_copies:
  assumes "c_string m t bs" "0 \<le> n" "n < 2 ^ 64"
    "\<And>i j. i \<le> length bs \<Longrightarrow> int j < n \<Longrightarrow> t + of_nat i \<noteq> s + of_nat j"
  shows "fst (strncpy m s t n) =
    write_bytes m s (take (nat n) (bs @ replicate (nat n) 0))"
  using assms
proof (induction bs arbitrary: m s t n)
  case Nil
  show ?case
  proof (cases "n > 0")
    case True
    have "fst (strncpy m s t n) = strncpy_pad (m(s := 0)) (s + 1) (n - 1)"
      using Nil.prems True by (simp add: strncpy_def strncpy_copy.simps)
    also have "\<dots> = strncpy_pad m s n" using True by (simp add: strncpy_pad.simps [of m s n])
    finally show ?thesis using Nil.prems
      by (intro ext) (simp add: strncpy_pad_at write_bytes_def nat_less_iff zless_nat_eq_int_zless)
  next
    case False
    then show ?thesis using Nil.prems
      by (simp add: strncpy_def strncpy_copy.simps strncpy_pad.simps write_bytes_def)
  qed
next
  case (Cons b bs)
  show ?case
  proof (cases "n > 0")
    case False
    then show ?thesis using Cons.prems
      by (simp add: strncpy_def strncpy_copy.simps strncpy_pad.simps write_bytes_def)
  next
    case True
    let ?m = "m(s := b)"
    have sep: "(t + 1) + of_nat i \<noteq> s" if "i \<le> length bs" for i
      using Cons.prems(4) [of "Suc i" 0] that True by (simp add: algebra_simps)
    have str: "c_string ?m (t + 1) bs"
      using Cons.prems(1) c_string_upd [of bs "t + 1" s m b] sep by simp
    have sep': "t + 1 + of_nat i \<noteq> s + 1 + of_nat j" if "i \<le> length bs" "int j < n - 1" for i j
      using Cons.prems(4) [of "Suc i" "Suc j"] that by (simp add: algebra_simps)
    have "fst (strncpy m s t n) = fst (strncpy ?m (s + 1) (t + 1) (n - 1))"
      using Cons.prems(1) True
      by (simp add: strncpy_def strncpy_copy.simps [of m s t n] split: prod.split)
    also have "\<dots> = write_bytes ?m (s + 1) (take (nat (n - 1)) (bs @ replicate (nat (n - 1)) 0))"
      by (rule Cons.IH [OF str _ _ sep']) (use True Cons.prems(3) in auto)
    also have "\<dots> = write_bytes m s (take (nat n) ((b # bs) @ replicate (nat n) 0))"
    proof (rule ext)
      fix x
      obtain k where k: "nat n = Suc k" using True by (metis gr0_conv_Suc zero_less_nat_eq)
      then have k1: "nat (n - 1) = k" by simp
      have "k < 2 ^ 64" using k Cons.prems(3) by (simp add: nat_eq_iff split: if_splits)
      then show "write_bytes ?m (s + 1) (take (nat (n - 1)) (bs @ replicate (nat (n - 1)) 0)) x =
        write_bytes m s (take (nat n) ((b # bs) @ replicate (nat n) 0)) x"
      proof (cases "x = s")
        case True
        moreover have "min (length bs) k + (k - length bs) \<le> 18446744073709551615"
          using \<open>k < 2 ^ 64\<close> by (simp add: min_def)
        ultimately show ?thesis using k k1 by (simp add: write_bytes_def)
      next
        case ne: False
        then obtain j where j: "unat (x - s) = Suc j" "unat (x - (s + 1)) = j"
          by (metis One_nat_def Suc_pred right_minus_eq sub_one_shift unat_gt_0 unat_pred)
        then show ?thesis using k k1 ne
          by (auto simp: write_bytes_def nth_append nth_Cons' min_def split: if_splits)
      qed
    qed
    finally show ?thesis .
  qed
qed

section \<open>Properties\<close>

text \<open>
  C36: \<open>memmove\<close> copies \<open>n\<close> bytes as if the whole source were read first, also when the two
  ranges overlap in either direction, changes nothing outside of the destination and returns the
  destination, whenever neither range reaches the top of the address space.
\<close>

theorem memmove_correct:
  assumes "unat src + unat n < 2 ^ 64" "unat dst + unat n < 2 ^ 64"
  shows "snd (memmove m dst src n) = dst \<and>
    (\<forall>x. fst (memmove m dst src n) x = (if in_range x dst (unat n) then m (src + (x - dst)) else m x))"
proof -
  have "snd (memmove m dst src n) = dst" by (simp add: memmove_def)
  moreover have "unat n \<le> 2 ^ 64" using unat64_less [of n] by simp
  ultimately show ?thesis
    by (simp add: memmove_copies_range [OF assms] write_bytes_at_read in_range_def)
qed

theorem memmove_correct_witness:
  "fst (memmove (\<lambda>a. ucast a) 101 100 4) 104 = (103 :: u8) \<and> fst (memmove (\<lambda>a. ucast a) 101 100 4) 105 = (105 :: u8)"
  using memmove_correct [of 100 4 101 "\<lambda>a. ucast a"] by (simp add: in_range_def)

text \<open>
  C37: \<open>memset\<close> (and with it every clearing of a page or a block) decrements its counter before the
  test: for \<open>n > 0\<close> it writes the first \<open>n - 1\<close> bytes and leaves the last one, and for \<open>n = 0\<close> it
  overwrites the whole address space but one byte.
\<close>

theorem memset_misses_last_byte:
  "(n \<noteq> 0 \<longrightarrow>
      (\<forall>i < unat n - 1. fst (memset m dest ch n) (dest + of_nat i) = ucast ch) \<and>
      (\<forall>x. unat n - 1 \<le> unat (x - dest) \<longrightarrow> fst (memset m dest ch n) x = m x)) \<and>
   (\<forall>x. fst (memset m dest ch 0) x = (if x = dest - 1 then m x else ucast ch))"
proof (intro conjI impI allI)
  fix i assume n: "n \<noteq> 0" and i: "i < unat n - 1"
  then have "i < 2 ^ 64" using unat64_less [of n] by linarith
  then show "fst (memset m dest ch n) (dest + of_nat i) = ucast ch"
    using n i by (simp add: memset_def memset_loop_at unat_pred unat_of_nat_small)
next
  fix x assume "n \<noteq> 0" "unat n - 1 \<le> unat (x - dest)"
  then show "fst (memset m dest ch n) x = m x"
    by (simp add: memset_def memset_loop_at unat_pred)
next
  fix x
  have "unat (x - dest) = 18446744073709551615 \<longleftrightarrow> x - dest = - 1"
    using word_unat_eq_iff [of "x - dest" "- 1"] unat64_max by simp
  then have "unat (x - dest) = 18446744073709551615 \<longleftrightarrow> x = dest - 1"
    by (simp add: diff_eq_eq)
  then show "fst (memset m dest ch 0) x = (if x = dest - 1 then m x else ucast ch)"
    using unat64_le [of "x - dest"] by (auto simp: memset_def memset_loop_at)
qed

theorem memset_misses_last_byte_witness:
  "fst (memset (\<lambda>_. 9) 16 0 4) 18 = 0 \<and> fst (memset (\<lambda>_. 9) 16 0 4) 19 = 9"
proof -
  note t = memset_misses_last_byte [of 4 "\<lambda>_. 9" 16 0, THEN conjunct1]
  from t have "\<forall>i < unat (4 :: u64) - 1. fst (memset (\<lambda>_. 9) 16 0 4) (16 + of_nat i) = ucast (0 :: u32)"
    and "\<forall>x. unat (4 :: u64) - 1 \<le> unat (x - 16) \<longrightarrow> fst (memset (\<lambda>_. 9) 16 0 4) x = 9" by auto
  from this(1) [rule_format, of 2] this(2) [rule_format, of 19] show ?thesis by simp
qed

text \<open>
  \<open>strncpy\<close> fills exactly the \<open>n\<close> bytes of the destination with the characters of the source
  string, cut at \<open>n\<close>, followed by NUL padding, when source string and destination do not overlap.
\<close>

theorem strncpy_correct:
  assumes "c_string m t bs" "0 \<le> n" "n < 2 ^ 64"
    "\<forall>i j. i \<le> length bs \<and> int j < n \<longrightarrow> t + of_nat i \<noteq> s + of_nat j"
  shows "strncpy m s t n = (write_bytes m s (take (nat n) (bs @ replicate (nat n) 0)), s)"
proof -
  have "snd (strncpy m s t n) = s" by (simp add: strncpy_def split: prod.split)
  moreover have "fst (strncpy m s t n) = write_bytes m s (take (nat n) (bs @ replicate (nat n) 0))"
    using assms by (intro strncpy_copies) auto
  ultimately show ?thesis by (metis prod.collapse)
qed

theorem strncpy_correct_witness:
  "fst (strncpy ((\<lambda>_. 9)(100 := 105, 101 := 110, 102 := 0)) 200 100 4) 203 = 0"
proof -
  let ?m = "(\<lambda>_. 9)(100 := 105, 101 := 110, 102 := 0) :: mem"
  have sep: "\<forall>i j. i \<le> length [105, 110 :: u8] \<and> int j < 4 \<longrightarrow> (100 :: u64) + of_nat i \<noteq> 200 + of_nat j"
  proof (intro allI impI)
    fix i j assume ij: "i \<le> length [105, 110 :: u8] \<and> int j < 4"
    then have "unat (100 + of_nat i :: u64) = 100 + i" "unat (200 + of_nat j :: u64) = 200 + j"
      using unat_of_nat_small [of "100 + i"] unat_of_nat_small [of "200 + j"] by simp_all
    then show "(100 :: u64) + of_nat i \<noteq> 200 + of_nat j" using ij by force
  qed
  show ?thesis
    using strncpy_correct [of ?m 100 "[105, 110]" 4 200, OF _ _ _ sep] by (simp add: write_bytes_def)
qed

text \<open>
  \<open>strncmp\<close> ends on two C strings and compares them to their terminators whatever length it is
  given: it returns 0 exactly for equal strings, even when only a common prefix was asked for.
\<close>

theorem strncmp_compares_whole_strings:
  assumes "c_string m s1 bs1" "c_string m s2 bs2"
  shows "\<exists>r. strncmp m s1 s2 n = Some r \<and> r = compare_bytes bs1 bs2 \<and> (r = 0 \<longleftrightarrow> bs1 = bs2)"
  using assms by (simp add: strncmp_def strncmp_loop_compares compare_bytes_0_iff c_string_no_nul)

theorem strncmp_compares_whole_strings_witness:
  "strncmp ((\<lambda>_. 0)(100 := 115, 101 := 104, 200 := 115)) 100 200 1 = Some 104"
  using strncmp_compares_whole_strings
    [of "(\<lambda>_. 0)(100 := 115, 101 := 104, 200 := 115)" 100 "[115, 104]" 200 "[115]" 1] by simp

end
