(* ===== verification/Mem_Page.thy ===== *)
theory Mem_Page
  imports Mem_Address Lib_String
begin

unbundle bit_operations_syntax

text \<open>
  The physical page allocator, \<open>kernel/memory/page.cpp\<close>, and the kernel's \<open>operator new\<close> on top of
  it, \<open>kernel/lib/new.cpp\<close>. The free list is threaded through the free pages themselves: the first
  eight bytes of a free page hold the address of the next one. \<open>kernelPages\<close> is a symbol of the
  linker script, kept as a field. The critical sections under the allocator's spin lock are taken
  as atomic.
\<close>

section \<open>Model\<close>

record page_state =
  memory :: mem
  freeList :: u64
  lastPage :: u64
  kernelPages :: u64

definition physicalAddressStop :: u64 where
  "physicalAddressStop = KERNEL_BASE + 128 * 1024 * 1024"

definition page_from :: "u64 \<Rightarrow> u64 outcome" where
  "page_from addr = andThen (assert_that (addr mod PAGE_SIZE = 0)) (\<lambda>_. Inr addr)"

definition link_page :: "page_state \<Rightarrow> u64 \<Rightarrow> page_state" where
  "link_page s page =
     (let m = fst (memset (memory s) page 0 PAGE_SIZE)
      in s\<lparr>memory := store64 m page (freeList s), freeList := page\<rparr>)"

function initialize_loop :: "page_state \<Rightarrow> u64 \<Rightarrow> page_state" where
  "initialize_loop s page =
     (if page < physicalAddressStop then initialize_loop (link_page s page) (page + PAGE_SIZE) else s)"
  by pat_completeness auto
termination
proof (relation "measure (\<lambda>(s, page). unat physicalAddressStop - unat page)")
  fix s :: page_state and page :: u64
  assume "page < physicalAddressStop"
  then show "((link_page s page, page + PAGE_SIZE), (s, page)) \<in>
      measure (\<lambda>(s, page). unat physicalAddressStop - unat page)"
    by (simp add: physicalAddressStop_def KERNEL_BASE_def PAGE_SIZE_def word_less_nat_alt unat_plus_if')
qed simp

definition page_initialize :: "page_state \<Rightarrow> page_state outcome" where
  "page_initialize s =
     andThen (page_from physicalAddressStop) (\<lambda>last.
       Inr (initialize_loop (s\<lparr>lastPage := last\<rparr>) (kernelPages s)))"

definition page_allocate :: "page_state \<Rightarrow> (u64 \<times> page_state) outcome" where
  "page_allocate s =
     (let page = freeList s;
          s1 = (if page \<noteq> 0 then s\<lparr>freeList := load64 (memory s) page\<rparr> else s);
          s2 = (if page \<noteq> 0 then s1\<lparr>memory := fst (memset (memory s1) page 0 PAGE_SIZE)\<rparr> else s1)
      in if page = 0 then Inl (KernelPanic ''Page not allocated. Out of memory.'')
         else Inr (page, s2))"

definition page_free :: "page_state \<Rightarrow> u64 \<Rightarrow> page_state outcome" where
  "page_free s page =
     andThen (assert_that (page mod PAGE_SIZE = 0)) (\<lambda>_.
     andThen (assert_that (page \<ge> kernelPages s)) (\<lambda>_.
     andThen (assert_that (page < lastPage s)) (\<lambda>_.
       Inr (link_page s page))))"

text \<open>\<open>operator new\<close>: one page for small objects; for larger ones as many pages as they need, of
  which only the first address is used.\<close>

function new_loop :: "page_state \<Rightarrow> u64 \<Rightarrow> u64 \<Rightarrow> page_state outcome" where
  "new_loop s sz offset =
     (if offset < (sz + PAGE_SIZE - 1) div PAGE_SIZE * PAGE_SIZE
      then (case page_allocate s of
              Inl e \<Rightarrow> Inl e
            | Inr (_, s') \<Rightarrow> new_loop s' sz (offset + PAGE_SIZE))
      else Inr s)"
  by pat_completeness auto
termination
proof (relation "measure (\<lambda>(s, sz, offset).
    unat ((sz + PAGE_SIZE - 1) div PAGE_SIZE * PAGE_SIZE) - unat offset)")
  fix s s' :: page_state and sz offset p :: u64 and r
  let ?n = "unat (sz + PAGE_SIZE - 1)"
  let ?top = "(sz + PAGE_SIZE - 1) div PAGE_SIZE * PAGE_SIZE"
  assume lt: "offset < ?top"
  have "?n div 4096 * 4096 \<le> ?n" "?n < 2 ^ 64" by (simp, rule unat64_less)
  then have top: "unat ?top = ?n div 4096 * 4096"
    by (simp add: PAGE_SIZE_def unat_word_ariths unat_div)
  then have "unat ?top \<le> 2 ^ 64 - 4096" using \<open>?n < 2 ^ 64\<close> by simp
  moreover have "unat offset < unat ?top" using lt by (simp add: word_less_nat_alt)
  ultimately have "unat (offset + PAGE_SIZE) = unat offset + 4096"
    by (simp add: PAGE_SIZE_def unat_plus_if')
  then show "((s', sz, offset + PAGE_SIZE), (s, sz, offset)) \<in> measure (\<lambda>(s, sz, offset).
      unat ((sz + PAGE_SIZE - 1) div PAGE_SIZE * PAGE_SIZE) - unat offset)"
    using \<open>unat offset < unat ?top\<close> by simp
qed simp

definition operator_new :: "page_state \<Rightarrow> u64 \<Rightarrow> (u64 \<times> page_state) outcome" where
  "operator_new s sz =
     andThen (assert_that (sz > 0)) (\<lambda>_.
       if sz \<le> PAGE_SIZE then page_allocate s
       else andThen (page_allocate s) (\<lambda>(first, s1).
            andThen (new_loop s1 sz PAGE_SIZE) (\<lambda>s2. Inr (first, s2))))"

declare initialize_loop.simps [simp del] new_loop.simps [simp del]

section \<open>Pages as sets of addresses\<close>

lemma in_page_iff:
  assumes "page_aligned p"
  shows "unat (x - p) < 4096 \<longleftrightarrow> roundDown x = p"
proof
  assume lt: "unat (x - p) < 4096"
  let ?o = "x - p"
  have o: "\<not> bit ?o i" if "12 \<le> i" for i
  proof -
    have "take_bit 12 ?o = ?o" using lt by (intro take_bit_small) simp
    then show ?thesis using that by (metis bit_take_bit_iff not_le)
  qed
  have "p AND ?o = 0"
    using assms o by (intro bit_word_eqI) (auto simp: bit_and_iff page_aligned_bit, meson not_le)
  then have "x = p OR ?o" using disjunctive_add_eq_or [of p ?o] by simp
  then show "roundDown x = p"
    using assms o by (intro bit_word_eqI) (metis bit_or_iff bit_roundDown not_le page_aligned_bit)
next
  assume "roundDown x = p"
  then have "x - p = pageOffset x" using roundDown_sub [of x] by simp
  then show "unat (x - p) < 4096" by (simp add: unat_pageOffset)
qed

lemma roundDown_in_page:
  assumes "page_aligned p" "i < 4096"
  shows "roundDown (p + of_nat i) = p"
  using assms in_page_iff [of p "p + of_nat i"] by (simp add: unat_of_nat_small)

lemma mod_PAGE_SIZE: "a mod PAGE_SIZE = 0 \<longleftrightarrow> page_aligned a"
  by (simp add: page_aligned_mod word_unat_eq_iff unat_mod PAGE_SIZE_def)

text \<open>Two memories agree on a page; loads of aligned words inside it then agree.\<close>

definition same_page :: "u64 \<Rightarrow> mem \<Rightarrow> mem \<Rightarrow> bool" where
  "same_page p m m' \<longleftrightarrow> (\<forall>x. roundDown x = p \<longrightarrow> m x = m' x)"

lemma load64_same_page:
  assumes "same_page p m m'" "page_aligned p" "k + 8 \<le> 4096"
  shows "load64 m (p + of_nat k) = load64 m' (p + of_nat k)"
proof (rule load64_cong)
  fix i :: nat assume "i < 8"
  then have "roundDown (p + of_nat (k + i)) = p" using assms by (intro roundDown_in_page) auto
  then show "m (p + of_nat k + of_nat i) = m' (p + of_nat k + of_nat i)"
    using assms(1) by (simp add: same_page_def add.assoc)
qed

lemma load64_same_page_0:
  "same_page p m m' \<Longrightarrow> page_aligned p \<Longrightarrow> load64 m p = load64 m' p"
  using load64_same_page [of p m m' 0] by simp

lemma store64_other_page:
  assumes "page_aligned p" "page_aligned q" "p \<noteq> q" "k + 8 \<le> 4096"
  shows "same_page q (store64 m (p + of_nat k) v) m"
  unfolding same_page_def
proof (intro allI impI)
  fix x assume x: "roundDown x = q"
  have "\<not> in_range x (p + of_nat k) 8"
  proof
    assume "in_range x (p + of_nat k) 8"
    then have "unat (x - (p + of_nat k)) < 8" by (simp add: in_range_def)
    moreover have "x = p + of_nat (k + unat (x - (p + of_nat k)))" by simp
    ultimately have "roundDown x = p"
      using roundDown_in_page [OF assms(1), of "k + unat (x - (p + of_nat k))"] assms(4) by simp
    then show False using x assms(3) by simp
  qed
  then show "store64 m (p + of_nat k) v x = m x" by (simp add: mem_simps)
qed

lemma store64_other_page_0:
  "page_aligned p \<Longrightarrow> page_aligned q \<Longrightarrow> p \<noteq> q \<Longrightarrow> same_page q (store64 m p v) m"
  using store64_other_page [of p q 0] by simp

text \<open>Clearing a page reaches all of its bytes but the last.\<close>

lemma clear_page_at:
  assumes "page_aligned p"
  shows "fst (memset m p 0 PAGE_SIZE) x = (if roundDown x = p \<and> x \<noteq> p + 4095 then 0 else m x)"
proof -
  have "x = p + 4095 \<longleftrightarrow> unat (x - p) = 4095"
  proof
    assume "unat (x - p) = 4095"
    then have "x - p = 4095" by (simp add: word_unat_eq_iff)
    then show "x = p + 4095" by (simp add: diff_eq_eq add.commute)
  qed simp
  then show ?thesis
    using in_page_iff [OF assms, of x] by (auto simp: memset_def memset_loop_at PAGE_SIZE_def)
qed

definition zero_page :: "mem \<Rightarrow> u64 \<Rightarrow> bool" where
  "zero_page m p \<longleftrightarrow> (\<forall>x. roundDown x = p \<longrightarrow> m x = 0)"

lemma clear_page_zero:
  "page_aligned p \<Longrightarrow> m (p + 4095) = 0 \<Longrightarrow> zero_page (fst (memset m p 0 PAGE_SIZE)) p"
  by (auto simp: zero_page_def clear_page_at)

lemma clear_page_other:
  "page_aligned p \<Longrightarrow> p \<noteq> q \<Longrightarrow> same_page q (fst (memset m p 0 PAGE_SIZE)) m"
  by (simp add: same_page_def clear_page_at)

lemma same_page_refl [simp]: "same_page p m m"
  by (simp add: same_page_def)

lemma same_page_trans: "same_page p m1 m2 \<Longrightarrow> same_page p m2 m3 \<Longrightarrow> same_page p m1 m3"
  by (simp add: same_page_def)

lemma same_page_sym: "same_page p m1 m2 \<Longrightarrow> same_page p m2 m1"
  by (simp add: same_page_def)

lemma same_page_last_byte: "same_page p m m' \<Longrightarrow> page_aligned p \<Longrightarrow> m (p + 4095) = m' (p + 4095)"
  using roundDown_in_page [of p 4095] by (simp add: same_page_def)

lemma zero_page_same: "same_page p m m' \<Longrightarrow> zero_page m p \<longleftrightarrow> zero_page m' p"
  by (simp add: same_page_def zero_page_def)

section \<open>The free list\<close>

fun free_chain :: "mem \<Rightarrow> u64 \<Rightarrow> u64 list \<Rightarrow> bool" where
  "free_chain m p [] = (p = 0)"
| "free_chain m p (q # qs) = (p = q \<and> p \<noteq> 0 \<and> free_chain m (load64 m p) qs)"

text \<open>
  The allocator's invariant for the list \<open>ps\<close> of free pages: the chain from \<open>freeList\<close> visits them
  in order, without repetition; all are aligned, inside of the managed range, and the byte that
  clearing leaves out is zero in each.
\<close>

definition page_inv :: "page_state \<Rightarrow> u64 list \<Rightarrow> bool" where
  "page_inv s ps \<longleftrightarrow>
     free_chain (memory s) (freeList s) ps \<and> distinct ps \<and>
     (\<forall>p \<in> set ps. page_aligned p \<and> kernelPages s \<le> p \<and> p < lastPage s \<and> memory s (p + 4095) = 0)"

lemma free_chain_frame:
  assumes "free_chain m p ps" "\<And>q. q \<in> set ps \<Longrightarrow> page_aligned q \<and> same_page q m m'"
  shows "free_chain m' p ps"
  using assms
proof (induction m p ps rule: free_chain.induct)
  case (2 m p q qs)
  then have "load64 m q = load64 m' q" by (auto intro: load64_same_page_0)
  then show ?case using 2 by auto
qed simp

lemma free_chain_nonzero: "free_chain m p ps \<Longrightarrow> q \<in> set ps \<Longrightarrow> q \<noteq> 0"
  by (induction m p ps rule: free_chain.induct) auto

lemma page_inv_frame:
  assumes "page_inv s ps" "\<And>q. q \<in> set ps \<Longrightarrow> same_page q (memory s) m"
  shows "page_inv (s\<lparr>memory := m\<rparr>) ps"
proof -
  have "free_chain m (freeList s) ps"
    by (rule free_chain_frame [of "memory s"]) (use assms in \<open>auto simp: page_inv_def\<close>)
  moreover have "m (q + 4095) = 0" if "q \<in> set ps" for q
    using assms(1) same_page_last_byte [OF assms(2) [OF that]] that by (simp add: page_inv_def)
  ultimately show ?thesis using assms(1) by (simp add: page_inv_def)
qed

lemma page_allocate_empty:
  "page_inv s [] \<Longrightarrow> page_allocate s = Inl (KernelPanic ''Page not allocated. Out of memory.'')"
  by (simp add: page_inv_def page_allocate_def)

lemma page_allocate_cons:
  assumes "page_inv s (p # ps)"
  shows "\<exists>s'. page_allocate s = Inr (p, s') \<and> page_inv s' ps \<and> zero_page (memory s') p \<and>
    (\<forall>q. q \<noteq> p \<longrightarrow> same_page q (memory s') (memory s)) \<and>
    kernelPages s' = kernelPages s \<and> lastPage s' = lastPage s"
proof -
  let ?m = "fst (memset (memory s) p 0 PAGE_SIZE)"
  let ?s = "s\<lparr>freeList := load64 (memory s) p, memory := ?m\<rparr>"
  have p: "freeList s = p" "p \<noteq> 0" "page_aligned p" "memory s (p + 4095) = 0"
    and ps: "page_inv (s\<lparr>freeList := load64 (memory s) p\<rparr>) ps" "p \<notin> set ps"
    using assms by (auto simp: page_inv_def)
  have "page_inv ?s ps"
    using page_inv_frame [OF ps(1), of ?m] ps(2) p(3)
    by (auto intro: same_page_sym [OF clear_page_other])
  moreover have "page_allocate s = Inr (p, ?s)"
    using p by (simp add: page_allocate_def)
  ultimately show ?thesis using p by (auto intro: clear_page_zero clear_page_other)
qed

lemma link_page_inv:
  assumes inv: "page_inv s ps" and p: "page_aligned p" "p \<noteq> 0" "p \<notin> set ps"
    "kernelPages s \<le> p" "p < lastPage s" "memory s (p + 4095) = 0"
  shows "page_inv (link_page s p) (p # ps)"
proof -
  let ?m = "fst (memset (memory s) p 0 PAGE_SIZE)"
  let ?m' = "store64 ?m p (freeList s)"
  have same: "same_page q (memory s) ?m'" if "q \<in> set ps" for q
  proof -
    have "page_aligned q" "p \<noteq> q" using that inv p by (auto simp: page_inv_def)
    then have "same_page q ?m' ?m" "same_page q ?m (memory s)"
      using p store64_other_page_0 clear_page_other by blast+
    then show ?thesis by (blast intro: same_page_sym same_page_trans)
  qed
  have "free_chain ?m' (freeList s) ps"
    by (rule free_chain_frame [of "memory s"]) (use inv same in \<open>auto simp: page_inv_def\<close>)
  moreover have "?m' (p + 4095) = 0"
  proof -
    have "\<not> in_range (p + 4095) p 8" by (simp add: in_range_def)
    then show ?thesis using p by (simp add: mem_simps clear_page_at)
  qed
  moreover have "page_aligned q \<and> kernelPages s \<le> q \<and> q < lastPage s \<and> ?m' (q + 4095) = 0"
    if "q \<in> set ps" for q
    using that inv same_page_last_byte [OF same [OF that]] by (simp add: page_inv_def)
  ultimately show ?thesis
    using inv p by (simp add: page_inv_def link_page_def Let_def mem_simps)
qed

section \<open>Contract of a source of page frames\<close>

locale frame_source =
  fixes finv :: "'s \<Rightarrow> u64 set \<Rightarrow> bool"
    and mem_of :: "'s \<Rightarrow> mem"
    and put_mem :: "'s \<Rightarrow> mem \<Rightarrow> 's"
    and alloc :: "'s \<Rightarrow> (u64 \<times> 's) outcome"
  assumes alloc_law: "finv s F \<Longrightarrow> F \<noteq> {} \<Longrightarrow>
      \<exists>p s'. alloc s = Inr (p, s') \<and> p \<in> F \<and> finv s' (F - {p}) \<and> page_aligned p \<and> p \<noteq> 0 \<and>
        zero_page (mem_of s') p \<and> (\<forall>q. q \<noteq> p \<longrightarrow> same_page q (mem_of s') (mem_of s))"
    and alloc_empty: "finv s {} \<Longrightarrow> \<exists>e. alloc s = Inl e"
    and put_law: "finv s F \<Longrightarrow> (\<And>q. q \<in> F \<Longrightarrow> same_page q (mem_of s) m) \<Longrightarrow> finv (put_mem s m) F"
    and mem_put [simp]: "mem_of (put_mem s m) = m"
begin

text \<open>A frame just allocated may be written freely: the source stays consistent.\<close>

lemma alloc_then_write:
  assumes "finv s F" "alloc s = Inr (p, s')" "\<And>q. q \<noteq> p \<Longrightarrow> same_page q (mem_of s') m"
  shows "finv (put_mem s' m) (F - {p})"
proof -
  have "F \<noteq> {}" using assms(1,2) alloc_empty [of s] by auto
  then have "finv s' (F - {p})" using alloc_law [OF assms(1)] assms(2) by auto
  then show ?thesis using assms(3) by (intro put_law) auto
qed

text \<open>Two allocations never hand out the same frame.\<close>

lemma alloc_distinct:
  assumes "finv s F" "alloc s = Inr (p, s1)" "alloc s1 = Inr (q, s2)"
  shows "p \<noteq> q"
proof -
  have "F \<noteq> {}" using assms(1,2) alloc_empty [of s] by auto
  then have inv: "finv s1 (F - {p})" using alloc_law [OF assms(1)] assms(2) by auto
  then have "F - {p} \<noteq> {}" using assms(3) alloc_empty [of s1] by force
  then show ?thesis using alloc_law [OF inv] assms(3) by auto
qed

end

definition free_frames :: "page_state \<Rightarrow> u64 set \<Rightarrow> bool" where
  "free_frames s F \<longleftrightarrow> (\<exists>ps. page_inv s ps \<and> set ps = F)"

interpretation pg: frame_source free_frames memory "\<lambda>s m. s\<lparr>memory := m\<rparr>" page_allocate
proof unfold_locales
  fix s :: page_state and F and m :: mem
  show "\<exists>p s'. page_allocate s = Inr (p, s') \<and> p \<in> F \<and> free_frames s' (F - {p}) \<and> page_aligned p \<and>
      p \<noteq> 0 \<and> zero_page (memory s') p \<and> (\<forall>q. q \<noteq> p \<longrightarrow> same_page q (memory s') (memory s))"
    if inv: "free_frames s F" and ne: "F \<noteq> {}"
  proof -
    obtain qs where qs: "page_inv s qs" "set qs = F" using inv by (auto simp: free_frames_def)
    then obtain p ps where ps: "page_inv s (p # ps)" "F = insert p (set ps)"
      using ne by (cases qs) auto
    then have "p \<notin> set ps" "p \<noteq> 0" "page_aligned p" by (auto simp: page_inv_def)
    then show ?thesis using page_allocate_cons [OF ps(1)] ps(2) by (fastforce simp: free_frames_def)
  qed
  show "\<exists>e. page_allocate s = Inl e" if "free_frames s {}"
    using that page_allocate_empty by (auto simp: free_frames_def)
  show "free_frames (s\<lparr>memory := m\<rparr>) F"
    if "free_frames s F" "\<And>q. q \<in> F \<Longrightarrow> same_page q (memory s) m"
    using that page_inv_frame by (force simp: free_frames_def)
qed simp

section \<open>Start-up and large objects\<close>

text \<open>\<open>pages_between a n\<close>: the \<open>n\<close> pages from \<open>a\<close> on, in ascending order.\<close>

fun pages_between :: "u64 \<Rightarrow> nat \<Rightarrow> u64 list" where
  "pages_between a 0 = []"
| "pages_between a (Suc n) = a # pages_between (a + PAGE_SIZE) n"

lemma link_page_fields [simp]:
  "kernelPages (link_page s p) = kernelPages s" "lastPage (link_page s p) = lastPage s"
  by (simp_all add: link_page_def Let_def)

lemma link_page_other: "page_aligned p \<Longrightarrow> page_aligned q \<Longrightarrow> p \<noteq> q \<Longrightarrow>
    same_page q (memory (link_page s p)) (memory s)"
  by (auto simp: link_page_def Let_def intro: same_page_trans store64_other_page_0 clear_page_other)

lemma pages_between_above:
  assumes "unat a + 4096 * n < 2 ^ 64" "q \<in> set (pages_between a n)"
  shows "unat a \<le> unat q \<and> unat q + 4096 \<le> unat a + 4096 * n"
  using assms
proof (induction n arbitrary: a)
  case (Suc n)
  have "unat (a + PAGE_SIZE) = unat a + 4096"
    using Suc.prems(1) by (simp add: PAGE_SIZE_def unat_plus_if')
  then show ?case using Suc.IH [of "a + PAGE_SIZE"] Suc.prems by auto
qed simp

lemma pages_between_aligned: "page_aligned a \<Longrightarrow> q \<in> set (pages_between a n) \<Longrightarrow> page_aligned q"
proof (induction n arbitrary: a)
  case (Suc n)
  then show ?case using page_aligned_add [OF Suc.prems(1) page_aligned_PAGE_SIZE] by auto
qed simp

text \<open>The start-up loop frees every page from \<open>page\<close> to the end of memory.\<close>

lemma initialize_loop_inv:
  assumes "page_inv s ps" "page_aligned page" "page \<noteq> 0" "kernelPages s \<le> page"
    "lastPage s = physicalAddressStop" "unat page + 4096 * n = unat physicalAddressStop"
    "\<And>q. q \<in> set ps \<Longrightarrow> q < page"
    "\<And>q. q \<in> set (pages_between page n) \<Longrightarrow> memory s (q + 4095) = 0"
  shows "page_inv (initialize_loop s page) (rev (pages_between page n) @ ps)"
  using assms
proof (induction n arbitrary: s page ps)
  case 0
  then show ?case by (simp add: initialize_loop.simps word_less_nat_alt)
next
  case (Suc n)
  have lt: "page < physicalAddressStop" using Suc.prems(6) by (simp add: word_less_nat_alt)
  have next_page: "unat (page + PAGE_SIZE) = unat page + 4096"
    using Suc.prems(6) by (simp add: PAGE_SIZE_def unat_plus_if' physicalAddressStop_def KERNEL_BASE_def)
  have inv: "page_inv (link_page s page) (page # ps)"
    using Suc.prems lt by (intro link_page_inv) auto
  have clear: "memory (link_page s page) (q + 4095) = 0" if "q \<in> set (pages_between (page + PAGE_SIZE) n)" for q
  proof -
    have a: "page_aligned q"
      using pages_between_aligned [OF _ that] Suc.prems(2) by (simp add: page_aligned_add)
    have "unat (page + PAGE_SIZE) \<le> unat q"
      using pages_between_above [OF _ that] Suc.prems(6) next_page unat64_less [of physicalAddressStop] by simp
    then have "page \<noteq> q" using next_page by auto
    then have "memory (link_page s page) (q + 4095) = memory s (q + 4095)"
      using a Suc.prems(2) by (intro same_page_last_byte link_page_other)
    then show ?thesis using Suc.prems(8) that by simp
  qed
  have "page_inv (initialize_loop (link_page s page) (page + PAGE_SIZE))
      (rev (pages_between (page + PAGE_SIZE) n) @ page # ps)"
  proof (rule Suc.IH [OF inv])
    show "page_aligned (page + PAGE_SIZE)" using Suc.prems(2) by (simp add: page_aligned_add)
    show "page + PAGE_SIZE \<noteq> 0" using next_page by (metis add_eq_0_iff_both_eq_0 unat_0 zero_neq_numeral)
    show "kernelPages (link_page s page) \<le> page + PAGE_SIZE"
      using Suc.prems(4) next_page by (simp add: word_le_nat_alt)
    show "q < page + PAGE_SIZE" if "q \<in> set (page # ps)" for q
    proof -
      have "q = page \<or> q < page" using that Suc.prems(7) by auto
      then have "unat q \<le> unat page" by (auto simp: word_less_nat_alt)
      then show ?thesis using next_page by (simp add: word_less_nat_alt)
    qed
  qed (use Suc.prems next_page clear in auto)
  then show ?case using lt by (simp add: initialize_loop.simps [of s page])
qed

lemma page_free_link:
  "page_aligned p \<Longrightarrow> kernelPages s \<le> p \<Longrightarrow> p < lastPage s \<Longrightarrow> page_free s p = Inr (link_page s p)"
  by (simp add: page_free_def mod_PAGE_SIZE)

lemma page_initialize_link:
  "page_initialize s = Inr (initialize_loop (s\<lparr>lastPage := physicalAddressStop\<rparr>) (kernelPages s))"
  by (simp add: page_initialize_def page_from_def physicalAddressStop_def KERNEL_BASE_def PAGE_SIZE_def)

text \<open>The loop of \<open>operator new\<close> takes \<open>k\<close> more pages off the list.\<close>

lemma new_loop_takes:
  assumes "page_inv s ps" "k \<le> length ps"
    "unat off + 4096 * k = unat ((sz + PAGE_SIZE - 1) div PAGE_SIZE * PAGE_SIZE)"
  shows "\<exists>s'. new_loop s sz off = Inr s' \<and> page_inv s' (drop k ps) \<and>
    (\<forall>q. q \<notin> set (take k ps) \<longrightarrow> same_page q (memory s') (memory s))"
  using assms
proof (induction k arbitrary: s ps off)
  case 0
  then show ?case by (simp add: new_loop.simps word_less_nat_alt)
next
  case (Suc k)
  let ?top = "(sz + PAGE_SIZE - 1) div PAGE_SIZE * PAGE_SIZE"
  obtain p qs where ps: "ps = p # qs" using Suc.prems(2) by (cases ps) auto
  obtain s1 where s1: "page_allocate s = Inr (p, s1)" "page_inv s1 qs"
    "\<And>q. q \<noteq> p \<Longrightarrow> same_page q (memory s1) (memory s)"
    using page_allocate_cons [of s p qs] Suc.prems(1) ps by auto
  have "unat (off + PAGE_SIZE) = unat off + 4096"
    using Suc.prems(3) unat64_less [of ?top] by (simp add: PAGE_SIZE_def unat_plus_if')
  then obtain s' where s': "new_loop s1 sz (off + PAGE_SIZE) = Inr s'" "page_inv s' (drop k qs)"
    "\<And>q. q \<notin> set (take k qs) \<Longrightarrow> same_page q (memory s') (memory s1)"
    using Suc.IH [OF s1(2), of "off + PAGE_SIZE"] Suc.prems(2,3) ps by auto
  have "off < ?top" using Suc.prems(3) by (simp add: word_less_nat_alt)
  then have "new_loop s sz off = Inr s'" using s1(1) s'(1) by (simp add: new_loop.simps [of s])
  moreover have "same_page q (memory s') (memory s)" if "q \<notin> set (take (Suc k) ps)" for q
  proof -
    have "q \<noteq> p" "q \<notin> set (take k qs)" using that ps by auto
    then show ?thesis using s1(3) s'(3) same_page_trans by blast
  qed
  ultimately show ?case using s'(2) ps by auto
qed

section \<open>Properties\<close>

text \<open>
  C24: \<open>Page::allocate\<close> hands out the first page of the free list: the page is cleared, it leaves
  the list, the rest of the list and all other pages keep their contents; with no free page the
  kernel panics.
\<close>

theorem page_allocate_correct:
  assumes "page_inv s ps"
  shows "case ps of
      [] \<Rightarrow> page_allocate s = Inl (KernelPanic ''Page not allocated. Out of memory.'')
    | p # qs \<Rightarrow> \<exists>s'. page_allocate s = Inr (p, s') \<and> page_inv s' qs \<and> zero_page (memory s') p \<and>
        (\<forall>q. q \<noteq> p \<longrightarrow> same_page q (memory s') (memory s))"
proof (cases ps)
  case (Cons p qs)
  then show ?thesis using page_allocate_cons [of s p qs] assms by auto
qed (use assms page_allocate_empty in simp)

theorem page_allocate_correct_witness:
  "let s = \<lparr>memory = (\<lambda>_. 0), freeList = 0x80001000, lastPage = 0x88000000, kernelPages = 0x80000000\<rparr>
   in page_inv s [0x80001000] \<and> (\<exists>s'. page_allocate s = Inr (0x80001000, s') \<and> page_inv s' [])"
proof -
  let ?s = "\<lparr>memory = (\<lambda>_. 0), freeList = 0x80001000, lastPage = 0x88000000, kernelPages = 0x80000000\<rparr>"
  have "page_inv ?s [0x80001000]"
    by (simp add: page_inv_def page_aligned_mod load64_def read_bytes_def upt_rec)
  then show ?thesis using page_allocate_correct [of ?s "[0x80001000]"] by (auto simp: Let_def)
qed

text \<open>
  A page of the managed range that is not free can be given back: \<open>free\<close> passes its three
  assertions and the next \<open>allocate\<close> returns this page, with the free list as before. A page that is
  not aligned or outside of the range stops the kernel.
\<close>

theorem page_free_then_allocate:
  assumes "page_inv s ps" "p \<noteq> 0" "p \<notin> set ps" "memory s (p + 4095) = 0"
  shows "if page_aligned p \<and> kernelPages s \<le> p \<and> p < lastPage s
    then \<exists>s1 s2. page_free s p = Inr s1 \<and> page_inv s1 (p # ps) \<and>
      page_allocate s1 = Inr (p, s2) \<and> page_inv s2 ps \<and> zero_page (memory s2) p
    else page_free s p = Inl AssertionFailed"
proof (cases "page_aligned p \<and> kernelPages s \<le> p \<and> p < lastPage s")
  case True
  then have "page_inv (link_page s p) (p # ps)" using assms by (intro link_page_inv) auto
  then show ?thesis
    using True page_free_link [of p s] page_allocate_cons [of "link_page s p" p ps] by auto
next
  case False
  then have "page_free s p = Inl AssertionFailed"
    by (auto simp: page_free_def mod_PAGE_SIZE assert_that_def)
  then show ?thesis using False by simp
qed

theorem page_free_then_allocate_witness:
  "let s = \<lparr>memory = (\<lambda>_. 0), freeList = 0, lastPage = 0x88000000, kernelPages = 0x80000000\<rparr>
   in page_inv s [] \<and> (\<exists>s1 s2. page_free s 0x80002000 = Inr s1 \<and>
        page_allocate s1 = Inr (0x80002000, s2) \<and> page_inv s2 [])"
proof -
  let ?s = "\<lparr>memory = (\<lambda>_. 0), freeList = 0, lastPage = 0x88000000, kernelPages = 0x80000000\<rparr>"
  have i: "page_inv ?s []" "page_aligned 0x80002000" by (simp_all add: page_inv_def page_aligned_mod)
  then show ?thesis using page_free_then_allocate [OF i(1), of "0x80002000"] by (auto simp: Let_def)
qed

text \<open>
  C25: start-up puts every page from the end of the kernel image to the end of memory on the free
  list, the highest page first, when the bytes that clearing leaves out start as zero.
\<close>

theorem page_initialize_frees_all:
  assumes "page_aligned (kernelPages s)" "kernelPages s \<noteq> 0" "freeList s = 0"
    "unat (kernelPages s) + 4096 * n = unat physicalAddressStop"
    "\<forall>q \<in> set (pages_between (kernelPages s) n). memory s (q + 4095) = 0"
  shows "\<exists>s'. page_initialize s = Inr s' \<and> page_inv s' (rev (pages_between (kernelPages s) n))"
proof -
  let ?s = "s\<lparr>lastPage := physicalAddressStop\<rparr>"
  have "page_inv ?s []" using assms(3) by (simp add: page_inv_def)
  then have "page_inv (initialize_loop ?s (kernelPages ?s)) (rev (pages_between (kernelPages ?s) n) @ [])"
    using assms by (intro initialize_loop_inv) auto
  then show ?thesis by (simp add: page_initialize_link)
qed

theorem page_initialize_frees_all_witness:
  "let s = \<lparr>memory = (\<lambda>_. 0), freeList = 0, lastPage = 0, kernelPages = 0x87FFE000\<rparr>
   in \<exists>s'. page_initialize s = Inr s' \<and> page_inv s' [0x87FFF000, 0x87FFE000]"
proof -
  let ?s = "\<lparr>memory = (\<lambda>_. 0), freeList = 0, lastPage = 0, kernelPages = 0x87FFE000\<rparr>"
  have "\<exists>s'. page_initialize ?s = Inr s' \<and> page_inv s' (rev (pages_between (kernelPages ?s) 2))"
    by (rule page_initialize_frees_all)
      (simp_all add: page_aligned_mod physicalAddressStop_def KERNEL_BASE_def)
  then show ?thesis by (simp add: Let_def numeral_2_eq_2 PAGE_SIZE_def)
qed

text \<open>
  \<open>operator new\<close> for an object of more than one page takes one page per 4096 bytes off the free
  list and returns the first. The pages are those of the list, in its order, and it is only the
  first that belongs to the object's addresses: the byte range of the object goes on into the page
  above, which is not one of the pages taken unless the list happens to ascend. A zero size fails
  the assertion, too few pages panic.
\<close>

theorem operator_new_takes_pages:
  assumes "page_inv s ps" "0 < sz" "unat sz + 4095 < 2 ^ 64"
    "n = (unat sz + 4095) div 4096" "n \<le> length ps"
  shows "\<exists>s'. operator_new s sz = Inr (hd ps, s') \<and> page_inv s' (drop n ps) \<and>
    (\<forall>q. q \<notin> set (take n ps) \<longrightarrow> same_page q (memory s') (memory s))"
proof -
  have sz: "0 < unat sz" using assms(2) by (simp add: word_less_nat_alt)
  then have "1 \<le> n" using assms(4) by auto
  then obtain p qs where ps: "ps = p # qs" using assms(5) by (cases ps) auto
  obtain s1 where s1: "page_allocate s = Inr (p, s1)" "page_inv s1 qs"
    "\<And>q. q \<noteq> p \<Longrightarrow> same_page q (memory s1) (memory s)"
    using page_allocate_cons [of s p qs] assms(1) ps by auto
  show ?thesis
  proof (cases "sz \<le> PAGE_SIZE")
    case True
    then have "n = 1" using sz assms(4) by (simp add: PAGE_SIZE_def word_le_nat_alt)
    then show ?thesis using s1 True assms(2) ps by (auto simp: operator_new_def)
  next
    case False
    let ?top = "(sz + PAGE_SIZE - 1) div PAGE_SIZE * PAGE_SIZE"
    have "sz + PAGE_SIZE - 1 = sz + 4095" by (simp add: PAGE_SIZE_def)
    moreover have "unat (sz + 4095) = unat sz + 4095" using assms(3) by (simp add: unat_plus_if')
    moreover have "n * 4096 \<le> unat sz + 4095" using assms(4) by simp
    ultimately have "unat ?top = n * 4096"
      using assms(3,4) by (simp add: PAGE_SIZE_def unat_word_ariths unat_div)
    then have "unat PAGE_SIZE + 4096 * (n - 1) = unat ?top"
      using \<open>1 \<le> n\<close> by (simp add: PAGE_SIZE_def diff_mult_distrib2)
    moreover have "n - 1 \<le> length qs" using assms(5) ps by simp
    ultimately obtain s' where s': "new_loop s1 sz PAGE_SIZE = Inr s'" "page_inv s' (drop (n - 1) qs)"
      "\<And>q. q \<notin> set (take (n - 1) qs) \<Longrightarrow> same_page q (memory s') (memory s1)"
      using new_loop_takes [OF s1(2), of "n - 1" PAGE_SIZE sz] by blast
    have "same_page q (memory s') (memory s)" if "q \<notin> set (take n ps)" for q
    proof -
      have "q \<noteq> p" "q \<notin> set (take (n - 1) qs)" using that ps \<open>1 \<le> n\<close> by (auto simp: take_Cons' split: if_splits)
      then show ?thesis using s1(3) s'(3) same_page_trans by blast
    qed
    moreover have "operator_new s sz = Inr (p, s')"
      using s1(1) s'(1) False assms(2) by (simp add: operator_new_def)
    ultimately show ?thesis using s'(2) ps \<open>1 \<le> n\<close> by (auto simp: drop_Cons')
  qed
qed

theorem operator_new_takes_pages_witness:
  "let s = link_page (link_page \<lparr>memory = (\<lambda>_. 0), freeList = 0, lastPage = 0x88000000,
              kernelPages = 0x87FFE000\<rparr> 0x87FFE000) 0x87FFF000
   in \<exists>s'. operator_new s 5000 = Inr (0x87FFF000, s') \<and> page_inv s' [] \<and>
        \<not> 0x87FFF000 + PAGE_SIZE < lastPage s"
proof -
  let ?s0 = "\<lparr>memory = (\<lambda>_. 0), freeList = 0, lastPage = 0x88000000, kernelPages = 0x87FFE000\<rparr>"
  let ?s1 = "link_page ?s0 0x87FFE000"
  let ?s2 = "link_page ?s1 0x87FFF000"
  have al: "page_aligned 0x87FFE000" "page_aligned 0x87FFF000" by (simp_all add: page_aligned_mod)
  have "page_inv ?s0 []" by (simp add: page_inv_def)
  then have "page_inv ?s1 [0x87FFE000]" using al(1) by (rule link_page_inv) auto
  moreover have "memory ?s1 (0x87FFF000 + 4095) = 0"
    using same_page_last_byte [OF link_page_other [of "0x87FFE000" "0x87FFF000" ?s0]] al by simp
  ultimately have "page_inv ?s2 [0x87FFF000, 0x87FFE000]"
    using link_page_inv [of ?s1 "[0x87FFE000]" "0x87FFF000"] al by simp
  then have "\<exists>s'. operator_new ?s2 5000 = Inr (hd [0x87FFF000, 0x87FFE000], s') \<and>
      page_inv s' (drop 2 [0x87FFF000, 0x87FFE000]) \<and>
      (\<forall>q. q \<notin> set (take 2 [0x87FFF000, 0x87FFE000]) \<longrightarrow> same_page q (memory s') (memory ?s2))"
    by (rule operator_new_takes_pages) simp_all
  moreover have "\<not> 0x87FFF000 + PAGE_SIZE < lastPage ?s2" by (simp add: PAGE_SIZE_def)
  ultimately show ?thesis unfolding Let_def by auto
qed

end
