(* ===== verification/Mem_PageTable.thy ===== *)
theory Mem_PageTable
  imports Mem_Page
begin

unbundle bit_operations_syntax

text \<open>
  Sv39 page tables, \<open>kernel/memory/page_table.cpp\<close>: the three-level walk, mapping, translation and
  the copies between kernel buffers and user memory. A \<open>PageTable*\<close> and a \<open>PageTableEntry*\<close> are
  physical addresses; a null entry pointer is \<open>None\<close>. The tables live in the byte memory of the page
  allocator, which also supplies the frames for new tables.
\<close>

section \<open>Model\<close>

definition SATP_SV39 :: u64 where
  "SATP_SV39 = push_bit 60 8"

definition getEntry :: "u64 \<Rightarrow> nat \<Rightarrow> u64 \<Rightarrow> u64 outcome" where
  "getEntry table level va =
     andThen (assert_that (level \<le> 2)) (\<lambda>_.
       let vpn = (if level = 0 then vpn0 va else if level = 1 then vpn1 va else vpn2 va)
       in Inr (table + 8 * vpn))"

definition new_PageTable :: "page_state \<Rightarrow> u64 \<Rightarrow> page_state" where
  "new_PageTable s table = s\<lparr>memory := store64 (memory s) table 0\<rparr>"

text \<open>One iteration of the loop in \<open>walk\<close>: the next table, or \<open>None\<close> for the early return.\<close>

definition walk_level :: "page_state \<Rightarrow> u64 \<Rightarrow> u64 \<Rightarrow> bool \<Rightarrow> nat \<Rightarrow> (u64 option \<times> page_state) outcome" where
  "walk_level s table va allocate level =
     andThen (getEntry table level va) (\<lambda>pte.
       if pte_v (load64 (memory s) pte)
       then andThen (page_from (toPhysicalAddress (load64 (memory s) pte))) (\<lambda>t. Inr (Some t, s))
       else if \<not> allocate then Inr (None, s)
       else andThen (page_allocate s) (\<lambda>(t, s1).
         let s2 = new_PageTable s1 t;
             m = store64 (memory s2) pte (fromPhysicalAddress t)
         in Inr (Some t, s2\<lparr>memory := store64 m pte (set_pte_v (load64 m pte))\<rparr>)))"

fun walk_levels :: "page_state \<Rightarrow> u64 \<Rightarrow> u64 \<Rightarrow> bool \<Rightarrow> nat \<Rightarrow> (u64 option \<times> page_state) outcome" where
  "walk_levels s table va allocate 0 =
     andThen (getEntry table 0 va) (\<lambda>pte. Inr (Some pte, s))"
| "walk_levels s table va allocate (Suc level) =
     andThen (walk_level s table va allocate (Suc level)) (\<lambda>(t, s1).
       case t of None \<Rightarrow> Inr (None, s1) | Some t \<Rightarrow> walk_levels s1 t va allocate level)"

definition walk :: "page_state \<Rightarrow> u64 \<Rightarrow> u64 \<Rightarrow> bool \<Rightarrow> (u64 option \<times> page_state) outcome" where
  "walk s table va allocate =
     andThen (assert_that (va < MAX_VIRTUAL_ADDRESS)) (\<lambda>_. walk_levels s table va allocate 2)"

definition walkAddress :: "page_state \<Rightarrow> u64 \<Rightarrow> u64 \<Rightarrow> u64 outcome" where
  "walkAddress s table va =
     (if va \<ge> MAX_VIRTUAL_ADDRESS then Inr 0
      else andThen (walk s table va False) (\<lambda>(pte, s').
        case pte of
          None \<Rightarrow> Inr 0
        | Some pte \<Rightarrow>
            let raw = load64 (memory s') pte in
            if \<not> pte_v raw then Inr 0
            else if \<not> pte_u raw then Inr 0
            else Inr (toPhysicalAddress raw)))"

definition fill_entry :: "u64 \<Rightarrow> u64 \<Rightarrow> u16 \<Rightarrow> u64" where
  "fill_entry raw pa flags =
     (let raw1 = raw OR ucast flags; raw2 = set_pte_v raw1 in raw2 OR push_bit 10 (drop_bit 12 pa))"

function map_loop ::
    "page_state \<Rightarrow> u64 \<Rightarrow> u64 \<Rightarrow> u64 \<Rightarrow> u64 \<Rightarrow> u16 \<Rightarrow> (bool \<times> page_state) outcome" where
  "map_loop s table va final pa flags =
     (case walk s table va True of
        Inl e \<Rightarrow> Inl e
      | Inr (None, s1) \<Rightarrow> Inr (False, s1)
      | Inr (Some pte, s1) \<Rightarrow>
          let raw = load64 (memory s1) pte in
          if pte_v raw then Inl AssertionFailed
          else
            let s2 = s1\<lparr>memory := store64 (memory s1) pte (fill_entry raw pa flags)\<rparr> in
            if va = final then Inr (True, s2)
            else map_loop s2 table (va + PAGE_SIZE) final (pa + PAGE_SIZE) flags)"
  by pat_completeness auto
termination
proof (relation "measure (\<lambda>(s, table, va, final, pa, flags). unat MAX_VIRTUAL_ADDRESS + 4096 - unat va)")
  fix s s1 s2 :: page_state and table va final pa pte raw :: u64 and flags :: u16 and r
  assume "walk s table va True = Inr r"
  then have "unat va < 0x4000000000"
    by (simp add: walk_def outcome_simps MAX_VIRTUAL_ADDRESS_def word_less_nat_alt)
  then show "((s2, table, va + PAGE_SIZE, final, pa + PAGE_SIZE, flags), s, table, va, final, pa, flags) \<in>
      measure (\<lambda>(s, table, va, final, pa, flags). unat MAX_VIRTUAL_ADDRESS + 4096 - unat va)"
    by (simp add: PAGE_SIZE_def MAX_VIRTUAL_ADDRESS_def unat_plus_if')
qed simp

definition map_pages ::
    "page_state \<Rightarrow> u64 \<Rightarrow> u64 \<Rightarrow> u64 \<Rightarrow> u64 \<Rightarrow> u16 \<Rightarrow> (bool \<times> page_state) outcome" where
  "map_pages s table va sz pa flags =
     andThen (assert_that (sz \<noteq> 0)) (\<lambda>_.
       map_loop s table (roundDown va) (roundDown (va + sz - 1)) pa flags)"

text \<open>\<open>unmap\<close> is not implemented in the source: it returns at once.\<close>

definition unmap :: "page_state \<Rightarrow> u64 \<Rightarrow> u64 \<Rightarrow> u64 \<Rightarrow> bool \<Rightarrow> page_state" where
  "unmap s table va numPages doFree = s"

text \<open>The bytes of \<open>[a, a + len)\<close> that lie in the first page of the range.\<close>

definition chunk :: "u64 \<Rightarrow> u64 \<Rightarrow> u64" where
  "chunk a len = (let n = PAGE_SIZE - (a - roundDown a) in if n > len then len else n)"

lemma chunk_bounds: "len > 0 \<Longrightarrow> 0 < unat (chunk a len) \<and> chunk a len \<le> len"
proof -
  assume len: "len > 0"
  have "a - roundDown a = pageOffset a" by (rule roundDown_sub)
  moreover have "unat (PAGE_SIZE - pageOffset a) = 4096 - unat a mod 4096"
    by (subst unat_sub) (simp_all add: PAGE_SIZE_def word_le_nat_alt unat_pageOffset)
  ultimately show ?thesis
    using len by (auto simp: chunk_def Let_def word_less_nat_alt word_le_nat_alt)
qed

lemma chunk_decreases: "len > 0 \<Longrightarrow> unat (len - chunk a len) < unat len"
  using chunk_bounds [of len a] by (simp add: unat_sub word_le_nat_alt)

function copyout :: "page_state \<Rightarrow> u64 \<Rightarrow> u64 \<Rightarrow> u64 \<Rightarrow> u64 \<Rightarrow> (bool \<times> page_state) outcome" where
  "copyout s table dst src len =
     (if len > 0 then
        let va = roundDown dst in
        case walkAddress s table va of
          Inl e \<Rightarrow> Inl e
        | Inr pa \<Rightarrow>
            if pa = 0 then Inr (False, s)
            else
              let n = chunk dst len;
                  s' = s\<lparr>memory := fst (memmove (memory s) (pa + (dst - va)) src n)\<rparr>
              in copyout s' table (va + PAGE_SIZE) (src + n) (len - n)
      else Inr (True, s))"
  by pat_completeness auto
termination
  by (relation "measure (\<lambda>(s, table, dst, src, len). unat len)") (simp_all add: chunk_decreases)

function copyin :: "page_state \<Rightarrow> u64 \<Rightarrow> u64 \<Rightarrow> u64 \<Rightarrow> u64 \<Rightarrow> (bool \<times> page_state) outcome" where
  "copyin s table dst src len =
     (if len > 0 then
        let va = roundDown src in
        case walkAddress s table va of
          Inl e \<Rightarrow> Inl e
        | Inr pa \<Rightarrow>
            if pa = 0 then Inr (False, s)
            else
              let n = chunk src len;
                  s' = s\<lparr>memory := fst (memmove (memory s) dst (pa + (src - va)) n)\<rparr>
              in copyin s' table (dst + n) (va + PAGE_SIZE) (len - n)
      else Inr (True, s))"
  by pat_completeness auto
termination
  by (relation "measure (\<lambda>(s, table, dst, src, len). unat len)") (simp_all add: chunk_decreases)

text \<open>The character loop of \<open>copyinString\<close>: memory, advanced \<open>dst\<close>, remaining \<open>len\<close> and \<open>gotNull\<close>.\<close>

function copyin_chars :: "mem \<Rightarrow> u64 \<Rightarrow> u64 \<Rightarrow> u64 \<Rightarrow> u64 \<Rightarrow> mem \<times> u64 \<times> u64 \<times> bool" where
  "copyin_chars m dst ptr n len =
     (if n > 0 then
        if m ptr = 0 then (m(dst := 0), dst, len, True)
        else copyin_chars (m(dst := m ptr)) (dst + 1) (ptr + 1) (n - 1) (len - 1)
      else (m, dst, len, False))"
  by pat_completeness auto
termination
  by (relation "measure (\<lambda>(m, dst, ptr, n, len). unat n)") (simp_all add: measure_unat)

declare copyin_chars.simps [simp del]

lemma copyin_chars_len: "copyin_chars m dst ptr n len = (m', dst', len', False) \<Longrightarrow> len' = len - n"
proof (induction m dst ptr n len rule: copyin_chars.induct)
  case (1 m dst ptr n len)
  then show ?case
    by (auto simp: copyin_chars.simps [of m] fun_upd_def word_gt_0 split: if_splits)
qed

function copyinString :: "page_state \<Rightarrow> u64 \<Rightarrow> u64 \<Rightarrow> u64 \<Rightarrow> u64 \<Rightarrow> (bool \<times> page_state) outcome" where
  "copyinString s table dst src len =
     (if len > 0 then
        let va = roundDown src in
        case walkAddress s table va of
          Inl e \<Rightarrow> Inl e
        | Inr pa \<Rightarrow>
            if pa = 0 then Inr (False, s)
            else
              case copyin_chars (memory s) dst (pa + (src - va)) (chunk src len) len of
                (m, dst', len', True) \<Rightarrow> Inr (True, s\<lparr>memory := m\<rparr>)
              | (m, dst', len', False) \<Rightarrow>
                  copyinString (s\<lparr>memory := m\<rparr>) table dst' (va + PAGE_SIZE) len'
      else Inr (False, s))"
  by pat_completeness auto
termination
  by (relation "measure (\<lambda>(s, table, dst, src, len). unat len)")
    (auto dest!: copyin_chars_len [OF sym] simp: chunk_decreases)

definition makeSatp :: "u64 \<Rightarrow> u64" where
  "makeSatp table = SATP_SV39 OR drop_bit 12 table"

declare map_loop.simps [simp del] copyout.simps [simp del] copyin.simps [simp del]
  copyinString.simps [simp del] walk_levels.simps [simp del]

section \<open>The tree of tables\<close>

text \<open>
  A table is named by the indices that lead to it from the root, the last index first. \<open>node_at\<close>
  reads the tree out of memory; \<open>entry_of\<close> is the leaf entry of a virtual address, 0 when the tables
  on the way are missing.
\<close>

definition slot :: "u64 \<Rightarrow> nat \<Rightarrow> u64" where
  "slot table i = table + of_nat (8 * i)"

definition child :: "mem \<Rightarrow> u64 \<Rightarrow> nat \<Rightarrow> u64 option" where
  "child m t i = (let e = load64 m (slot t i) in if pte_v e then Some (toPhysicalAddress e) else None)"

fun node_at :: "mem \<Rightarrow> u64 \<Rightarrow> nat list \<Rightarrow> u64 option" where
  "node_at m root [] = Some root"
| "node_at m root (i # path) =
     (case node_at m root path of None \<Rightarrow> None | Some t \<Rightarrow> if i < 512 then child m t i else None)"

definition path_of :: "u64 \<Rightarrow> nat \<Rightarrow> nat list" where
  "path_of va level =
     (if level = 0 then [unat (vpn1 va), unat (vpn2 va)] else if level = 1 then [unat (vpn2 va)] else [])"

definition entry_of :: "mem \<Rightarrow> u64 \<Rightarrow> u64 \<Rightarrow> u64" where
  "entry_of m root va =
     (case node_at m root (path_of va 0) of None \<Rightarrow> 0 | Some t \<Rightarrow> load64 m (slot t (unat (vpn0 va))))"

definition tables :: "mem \<Rightarrow> u64 \<Rightarrow> u64 set" where
  "tables m root = {p. \<exists>path. length path \<le> 2 \<and> node_at m root path = Some p}"

text \<open>
  The invariant of a table tree beside a set \<open>F\<close> of free frames: the root is aligned, no table is
  a free frame, and no frame serves as two tables.
\<close>

definition pt_wf :: "mem \<Rightarrow> u64 \<Rightarrow> u64 set \<Rightarrow> bool" where
  "pt_wf m root F \<longleftrightarrow> page_aligned root \<and> tables m root \<inter> F = {} \<and>
     (\<forall>p1 p2 t. length p1 \<le> 2 \<longrightarrow> length p2 \<le> 2 \<longrightarrow>
        node_at m root p1 = Some t \<longrightarrow> node_at m root p2 = Some t \<longrightarrow> p1 = p2)"

lemma slot_page:
  assumes "page_aligned t" "i < 512" "k < 8"
  shows "roundDown (slot t i + of_nat k) = t"
  using roundDown_in_page [OF assms(1), of "8 * i + k"] assms(2,3) by (simp add: slot_def add.assoc)

lemma slot_same_page:
  "same_page t m m' \<Longrightarrow> page_aligned t \<Longrightarrow> i < 512 \<Longrightarrow> load64 m (slot t i) = load64 m' (slot t i)"
  unfolding slot_def by (rule load64_same_page) auto

lemma store_slot_other_page:
  "page_aligned t \<Longrightarrow> page_aligned q \<Longrightarrow> t \<noteq> q \<Longrightarrow> i < 512 \<Longrightarrow> same_page q (store64 m (slot t i) v) m"
  unfolding slot_def by (rule store64_other_page) auto

lemma load_store_slot:
  assumes "i < 512" "j < 512"
  shows "load64 (store64 m (slot t i) v) (slot t j) = (if i = j then v else load64 m (slot t j))"
proof (cases "i = j")
  case False
  have "\<not> in_range (slot t j + of_nat k) (slot t i) 8" if "k < 8" for k
  proof
    assume "in_range (slot t j + of_nat k) (slot t i) 8"
    then have "unat (slot t j + of_nat k - slot t i) < 8" by (simp add: in_range_def)
    then obtain d where d: "d < 8" "slot t j + of_nat k - slot t i = of_nat d"
      by (metis of_nat_unat ucast_id)
    then have "(of_nat (8 * j + k) :: u64) = of_nat (8 * i + d)"
      by (simp add: slot_def diff_eq_eq algebra_simps)
    then have "unat (of_nat (8 * j + k) :: u64) = unat (of_nat (8 * i + d) :: u64)" by simp
    then have "8 * j + k = 8 * i + d"
      using assms d(1) that by (simp add: unat_of_nat_small del: of_nat_add of_nat_mult)
    then show False using False d(1) that by presburger
  qed
  then show ?thesis using False by (simp add: mem_simps cong: load64_cong)
qed (simp add: mem_simps)

lemma node_at_aligned:
  "page_aligned root \<Longrightarrow> node_at m root path = Some t \<Longrightarrow> page_aligned t"
  by (cases path) (auto simp: child_def Let_def split: option.splits if_splits)

lemma pt_wf_aligned: "pt_wf m root F \<Longrightarrow> node_at m root path = Some t \<Longrightarrow> page_aligned t"
  unfolding pt_wf_def using node_at_aligned by blast

lemma pt_wf_not_free:
  "pt_wf m root F \<Longrightarrow> length path \<le> 2 \<Longrightarrow> node_at m root path = Some t \<Longrightarrow> t \<notin> F"
  by (auto simp: pt_wf_def tables_def)

lemma pt_wf_inj: "pt_wf m root F \<Longrightarrow> length p1 \<le> 2 \<Longrightarrow> length p2 \<le> 2 \<Longrightarrow>
    node_at m root p1 = Some t \<Longrightarrow> node_at m root p2 = Some t \<Longrightarrow> p1 = p2"
  by (simp add: pt_wf_def)

lemma length_path_of: "length (path_of va l) \<le> 2"
  by (simp add: path_of_def)

lemma in_tables: "length path \<le> 2 \<Longrightarrow> node_at m root path = Some t \<Longrightarrow> t \<in> tables m root"
  by (auto simp: tables_def)

text \<open>Memory outside of the tables does not matter to the tree.\<close>

lemma node_at_frame:
  assumes "page_aligned root" "\<And>q. q \<in> tables m root \<Longrightarrow> same_page q m m'" "length path \<le> 2"
  shows "node_at m' root path = node_at m root path"
  using assms(3)
proof (induction path)
  case (Cons i path)
  show ?case
  proof (cases "node_at m root path")
    case (Some t)
    then have "t \<in> tables m root" "page_aligned t"
      using in_tables [of path m root t] Cons.prems assms(1) by (auto intro: node_at_aligned)
    then show ?thesis
      using Some Cons slot_same_page [of t m m' i] assms(2) by (simp add: child_def)
  qed (use Cons in simp)
qed simp

lemma tree_frame:
  assumes "pt_wf m root F" "\<And>q. q \<in> tables m root \<Longrightarrow> same_page q m m'"
  shows "pt_wf m' root F" "tables m' root = tables m root" "entry_of m' root va = entry_of m root va"
proof -
  have al: "page_aligned root" using assms(1) by (simp add: pt_wf_def)
  have n: "length path \<le> 2 \<Longrightarrow> node_at m' root path = node_at m root path" for path
    by (rule node_at_frame [OF al assms(2)])
  then show t: "tables m' root = tables m root" by (auto simp: tables_def)
  show "pt_wf m' root F" using assms(1) n t unfolding pt_wf_def by auto
  show "entry_of m' root va = entry_of m root va"
  proof (cases "node_at m root (path_of va 0)")
    case (Some t)
    then have "t \<in> tables m root" "page_aligned t"
      using al by (blast intro: in_tables node_at_aligned length_path_of)+
    then show ?thesis
      using Some n [OF length_path_of] slot_same_page [of t m m'] assms(2) vpn_bounds(1)
      by (simp add: entry_of_def)
  qed (simp add: entry_of_def n [OF length_path_of])
qed

section \<open>Adding a table\<close>

text \<open>
  \<open>table_added m t i p m'\<close>: \<open>m'\<close> is \<open>m\<close> with a new, empty table in frame \<open>p\<close>, entered at index \<open>i\<close>
  of table \<open>t\<close>.
\<close>

definition table_added :: "mem \<Rightarrow> u64 \<Rightarrow> nat \<Rightarrow> u64 \<Rightarrow> mem \<Rightarrow> bool" where
  "table_added m t i p m' \<longleftrightarrow> zero_page m' p \<and>
     load64 m' (slot t i) = set_pte_v (fromPhysicalAddress p) \<and>
     (\<forall>j < 512. j \<noteq> i \<longrightarrow> load64 m' (slot t j) = load64 m (slot t j)) \<and>
     (\<forall>q. q \<noteq> p \<longrightarrow> q \<noteq> t \<longrightarrow> page_aligned q \<longrightarrow> same_page q m' m)"

lemma load_zero_page:
  assumes "zero_page m p" "page_aligned p" "i < 512"
  shows "load64 m (slot p i) = 0"
proof -
  have "load64 m (slot p i) = load64 (\<lambda>_. 0) (slot p i)"
    using assms slot_page [OF assms(2,3)] by (intro load64_cong) (simp add: zero_page_def)
  then show ?thesis by (simp add: load64_def read_bytes_def upt_rec)
qed

lemma new_entry:
  assumes "page_aligned p"
  shows "pte_v (set_pte_v (fromPhysicalAddress p))" "toPhysicalAddress (set_pte_v (fromPhysicalAddress p)) = p"
proof -
  have "\<not> bit (1 :: u64) i" if "10 \<le> i" for i using that by (simp add: bit_1_iff)
  then show "toPhysicalAddress (set_pte_v (fromPhysicalAddress p)) = p"
    unfolding set_pte_v_def by (rule to_from_physical [OF assms])
qed simp

lemma table_added_nodes:
  assumes wf: "pt_wf m root F" and p: "p \<in> F" "page_aligned p"
    and t: "node_at m root path = Some t" "length path \<le> 1" and i: "i < 512" "child m t i = None"
    and m': "table_added m t i p m'" and len: "length path' \<le> 2"
  shows "node_at m' root path' = ((node_at m root)(i # path \<mapsto> p)) path'"
  using len
proof (induction path')
  case (Cons k rest)
  then have IH: "node_at m' root rest = ((node_at m root)(i # path \<mapsto> p)) rest" by simp
  have fresh: "node_at m root (i # path) = None" using t i by simp
  show ?case
  proof (cases "rest = i # path")
    case True
    then have "node_at m' root rest = Some p" "node_at m root rest = None" using IH fresh by auto
    moreover have "child m' p k = None" if "k < 512"
      using load_zero_page [of m' p k] m' p(2) that by (simp add: child_def table_added_def pte_v_def)
    ultimately show ?thesis using True by auto
  next
    case False
    then have rest: "node_at m' root rest = node_at m root rest" using IH by simp
    show ?thesis
    proof (cases "node_at m root rest")
      case (Some u)
      have "u \<noteq> p" "page_aligned u"
        using pt_wf_not_free [OF wf _ Some] pt_wf_aligned [OF wf Some] p(1) Cons.prems by auto
      moreover have "u = t \<longleftrightarrow> rest = path"
        using pt_wf_inj [OF wf _ _ Some, of path] t Some Cons.prems by auto
      ultimately have "child m' u k = (if rest = path \<and> k = i then Some p else child m u k)" if "k < 512"
        using m' new_entry [OF p(2)] slot_same_page [of u m' m k] that
        by (auto simp: child_def table_added_def)
      then show ?thesis using rest Some i by auto
    qed (use rest fresh t in auto)
  qed
qed simp

lemma table_added_tree:
  assumes wf: "pt_wf m root F" and p: "p \<in> F" "page_aligned p"
    and t: "node_at m root path = Some t" "length path \<le> 1" and i: "i < 512" "child m t i = None"
    and m': "table_added m t i p m'"
  shows "pt_wf m' root (F - {p})" "tables m' root = insert p (tables m root)"
    "node_at m' root (i # path) = Some p"
    "entry_of m' root va = entry_of m root va"
proof -
  have nodes: "node_at m' root q = ((node_at m root)(i # path \<mapsto> p)) q" if "length q \<le> 2" for q
    using table_added_nodes [OF assms that] .
  have np: "node_at m root q \<noteq> Some p" if "length q \<le> 2" for q
    using pt_wf_not_free [OF wf that] p(1) by blast
  have "tables m' root = {x. \<exists>q. length q \<le> 2 \<and> ((node_at m root)(i # path \<mapsto> p)) q = Some x}"
    using nodes unfolding tables_def by (intro Collect_cong ex_cong1 conj_cong) auto
  also have "\<dots> = insert p (tables m root)"
  proof -
    have "length (i # path) \<le> 2" "node_at m root (i # path) = None" using t i by auto
    then show ?thesis unfolding tables_def
      by (auto simp del: node_at.simps) (metis option.distinct(1))
  qed
  finally show tb: "tables m' root = insert p (tables m root)" .
  show np': "node_at m' root (i # path) = Some p" using nodes [of "i # path"] t(2) by simp
  show "pt_wf m' root (F - {p})"
    unfolding pt_wf_def
  proof (intro conjI allI impI)
    show "page_aligned root" "tables m' root \<inter> (F - {p}) = {}"
      using wf tb by (auto simp: pt_wf_def)
    fix p1 p2 u
    assume "length p1 \<le> 2" "length p2 \<le> 2" "node_at m' root p1 = Some u" "node_at m' root p2 = Some u"
    then show "p1 = p2" using nodes np pt_wf_inj [OF wf] by (auto split: if_splits)
  qed
  show "entry_of m' root va = entry_of m root va"
  proof (cases "path_of va 0 = i # path")
    case True
    then have "node_at m' root (path_of va 0) = Some p" "node_at m root (path_of va 0) = None"
      using np' t i by auto
    then show ?thesis
      using load_zero_page [of m' p "unat (vpn0 va)"] m' p(2) vpn_bounds(1)
      by (simp add: entry_of_def table_added_def)
  next
    case False
    then have same: "node_at m' root (path_of va 0) = node_at m root (path_of va 0)"
      using nodes [OF length_path_of] by simp
    show ?thesis
    proof (cases "node_at m root (path_of va 0)")
      case (Some u)
      have "length (path_of va 0) = 2" by (simp add: path_of_def)
      then have "u \<noteq> t" "u \<noteq> p" "page_aligned u"
        using Some t pt_wf_inj [OF wf _ _ Some, of path] np pt_wf_aligned [OF wf Some] by auto
      then show ?thesis
        using same Some m' slot_same_page [of u m' m "unat (vpn0 va)"] vpn_bounds(1)
        by (simp add: entry_of_def table_added_def)
    qed (simp add: entry_of_def same)
  qed
qed

section \<open>Walking the tree\<close>

lemma getEntry_eq:
  "getEntry t 0 va = Inr (slot t (unat (vpn0 va)))"
  "getEntry t (Suc 0) va = Inr (slot t (unat (vpn1 va)))"
  "getEntry t 2 va = Inr (slot t (unat (vpn2 va)))"
  by (simp_all add: getEntry_def slot_def Let_def)

definition index_at :: "u64 \<Rightarrow> nat \<Rightarrow> nat" where
  "index_at va level = (if level = 1 then unat (vpn1 va) else unat (vpn2 va))"

lemma path_step:
  "level < 2 \<Longrightarrow> path_of va level = index_at va (Suc level) # path_of va (Suc level)"
  "index_at va level < 512"
  by (auto simp: path_of_def index_at_def vpn_bounds)

lemma getEntry_index: "level < 2 \<Longrightarrow> getEntry t (Suc level) va = Inr (slot t (index_at va (Suc level)))"
  by (auto simp: getEntry_def slot_def index_at_def)

lemma page_from_physical [simp]: "page_from (toPhysicalAddress e) = Inr (toPhysicalAddress e)"
  by (simp add: page_from_def mod_PAGE_SIZE)

lemma walk_level_present:
  assumes "level < 2" "child (memory s) t (index_at va (Suc level)) = Some t'"
  shows "walk_level s t va b (Suc level) = Inr (Some t', s)"
  using assms by (auto simp: walk_level_def getEntry_index child_def Let_def split: if_splits)

lemma walk_level_absent:
  assumes "level < 2" "child (memory s) t (index_at va (Suc level)) = None"
  shows "walk_level s t va False (Suc level) = Inr (None, s)"
  using assms by (auto simp: walk_level_def getEntry_index child_def Let_def split: if_splits)

text \<open>Without allocation the walk only reads: it ends at the leaf slot or at the first gap.\<close>

lemma walk_levels_lookup:
  assumes "level \<le> 2" "node_at (memory s) root (path_of va level) = Some t"
  shows "walk_levels s t va False level =
    Inr (map_option (\<lambda>t. slot t (unat (vpn0 va))) (node_at (memory s) root (path_of va 0)), s)"
  using assms
proof (induction level arbitrary: t)
  case (Suc level)
  then have l: "level < 2" by simp
  let ?c = "child (memory s) t (index_at va (Suc level))"
  have node: "node_at (memory s) root (path_of va level) = ?c"
    using Suc.prems(2) path_step(1) [OF l, of va] path_step(2) by simp
  show ?case
  proof (cases ?c)
    case None
    have "node_at (memory s) root (path_of va 0) = None"
      using l None node by (cases "level = 0") (auto simp: path_of_def)
    then show ?thesis using walk_level_absent [OF l None] by (simp add: walk_levels.simps)
  next
    case (Some t')
    then show ?thesis
      using walk_level_present [OF l Some] Suc.IH [of t'] l node by (simp add: walk_levels.simps)
  qed
qed (simp add: walk_levels.simps getEntry_eq)

lemma walk_lookup:
  assumes "va < MAX_VIRTUAL_ADDRESS"
  shows "walk s root va False =
    Inr (map_option (\<lambda>t. slot t (unat (vpn0 va))) (node_at (memory s) root (path_of va 0)), s)"
  using assms walk_levels_lookup [of 2 s root va root] by (simp add: walk_def path_of_def)

lemma walkAddress_entry:
  "walkAddress s root va =
     (let e = entry_of (memory s) root va in
      if va < MAX_VIRTUAL_ADDRESS \<and> pte_v e \<and> pte_u e then Inr (toPhysicalAddress e) else Inr 0)"
proof (cases "va < MAX_VIRTUAL_ADDRESS")
  case True
  have "\<not> pte_v 0" by (simp add: pte_v_def)
  then show ?thesis
    using True by (cases "node_at (memory s) root (path_of va 0)")
      (auto simp: walkAddress_def walk_lookup entry_of_def Let_def)
qed (simp add: walkAddress_def Let_def not_less leD)

lemma walk_level_allocates:
  assumes wf: "pt_wf (memory s) root F" and ff: "free_frames s F" "F \<noteq> {}"
    and l: "level < 2" and t: "node_at (memory s) root (path_of va (Suc level)) = Some t"
    and c: "child (memory s) t (index_at va (Suc level)) = None"
  shows "\<exists>p s'. walk_level s t va True (Suc level) = Inr (Some p, s') \<and> p \<in> F \<and> page_aligned p \<and>
    free_frames s' (F - {p}) \<and> table_added (memory s) t (index_at va (Suc level)) p (memory s')"
proof -
  let ?i = "index_at va (Suc level)"
  have i: "?i < 512" by (rule path_step(2))
  obtain p s1 where p: "page_allocate s = Inr (p, s1)" "p \<in> F" "free_frames s1 (F - {p})"
    "page_aligned p" "zero_page (memory s1) p" "\<And>q. q \<noteq> p \<Longrightarrow> same_page q (memory s1) (memory s)"
    using pg.alloc_law [OF ff] by blast
  have al: "page_aligned t" "t \<notin> F"
    using pt_wf_aligned [OF wf t] pt_wf_not_free [OF wf length_path_of t] by auto
  then have "t \<noteq> p" using p(2) by blast
  define e where "e = set_pte_v (fromPhysicalAddress p)"
  define m' where "m' = store64 (store64 (store64 (memory s1) p 0) (slot t ?i) (fromPhysicalAddress p)) (slot t ?i) e"
  define s' where "s' = s1\<lparr>memory := m'\<rparr>"
  have "\<not> pte_v (load64 (memory s) (slot t ?i))" using c by (simp add: child_def Let_def split: if_splits)
  then have w: "walk_level s t va True (Suc level) = Inr (Some p, s')"
    using p(1) l
    by (simp add: walk_level_def getEntry_index new_PageTable_def Let_def mem_simps s'_def m'_def e_def)
  have other: "same_page q m' (memory s1)" if "q \<noteq> p" "q \<noteq> t" "page_aligned q" for q
  proof -
    have "same_page q (store64 x (slot t ?i) v) x" for x v
      using that al i by (intro store_slot_other_page) auto
    moreover have "same_page q (store64 (memory s1) p 0) (memory s1)"
      using that p(4) by (intro store64_other_page_0) auto
    ultimately show ?thesis unfolding m'_def using same_page_trans by blast
  qed
  have zero: "zero_page m' p"
  proof -
    have "store64 (memory s1) p 0 x = memory s1 x" if "roundDown x = p" for x
    proof (cases "in_range x p 8")
      case True
      then have "unat (x - p) < 8" by (simp add: in_range_def)
      then show ?thesis using p(5) that
        by (simp add: store64_def write_bytes_def nth_bytes_of_word zero_page_def)
    qed (simp add: mem_simps)
    then have "zero_page (store64 (memory s1) p 0) p" using p(5) by (simp add: zero_page_def)
    then show ?thesis
      unfolding m'_def using zero_page_same [OF store_slot_other_page [OF al(1) p(4) \<open>t \<noteq> p\<close> i]] by simp
  qed
  have slots: "load64 m' (slot t j) = (if j = ?i then e else load64 (memory s) (slot t j))" if "j < 512" for j
  proof -
    have "load64 (store64 (memory s1) p 0) (slot t j) = load64 (memory s) (slot t j)"
      using slot_same_page [OF store64_other_page_0 [OF p(4) al(1)], of j "memory s1" 0]
        slot_same_page [OF p(6) al(1), of j] \<open>t \<noteq> p\<close> that al(1) by simp
    then show ?thesis unfolding m'_def using load_store_slot i that by auto
  qed
  have "table_added (memory s) t ?i p m'"
    unfolding table_added_def
  proof (intro conjI allI impI)
    show "same_page q m' (memory s)" if "q \<noteq> p" "q \<noteq> t" "page_aligned q" for q
      using other [OF that] p(6) [OF that(1)] by (rule same_page_trans)
  qed (use zero slots i e_def in auto)
  moreover have "free_frames s' (F - {p})"
    unfolding s'_def
  proof (rule pg.put_law [OF p(3)])
    fix q assume q: "q \<in> F - {p}"
    then have "page_aligned q" using ff(1) by (auto simp: free_frames_def page_inv_def)
    then show "same_page q (memory s1) m'" using other [of q] q al(2) by (auto intro: same_page_sym)
  qed
  ultimately show ?thesis using w p(2,4) by (auto simp: s'_def)
qed

text \<open>
  \<open>remapped root m F m' F'\<close>: between the two memories the frames \<open>F - F'\<close> were turned into tables,
  and no page changed that is neither a table nor one of those frames. \<open>grown\<close>: moreover no leaf
  entry changed.
\<close>

definition remapped :: "u64 \<Rightarrow> mem \<Rightarrow> u64 set \<Rightarrow> mem \<Rightarrow> u64 set \<Rightarrow> bool" where
  "remapped root m F m' F' \<longleftrightarrow> F' \<subseteq> F \<and> tables m' root = tables m root \<union> (F - F') \<and>
     (\<forall>q. page_aligned q \<longrightarrow> q \<notin> tables m root \<union> (F - F') \<longrightarrow> same_page q m' m)"

lemma remapped_refl: "remapped root m F m F"
  by (simp add: remapped_def)

lemma remapped_trans:
  "remapped root m F m1 F1 \<Longrightarrow> remapped root m1 F1 m2 F2 \<Longrightarrow> remapped root m F m2 F2"
  unfolding remapped_def
proof (elim conjE, intro conjI allI impI)
  fix q assume sub: "F1 \<subseteq> F" "F2 \<subseteq> F1" and tb: "tables m1 root = tables m root \<union> (F - F1)"
    and s1: "\<forall>q. page_aligned q \<longrightarrow> q \<notin> tables m root \<union> (F - F1) \<longrightarrow> same_page q m1 m"
    and s2: "\<forall>q. page_aligned q \<longrightarrow> q \<notin> tables m1 root \<union> (F1 - F2) \<longrightarrow> same_page q m2 m1"
    and q: "page_aligned q" "q \<notin> tables m root \<union> (F - F2)"
  have "q \<notin> tables m root \<union> (F - F1)" "q \<notin> tables m1 root \<union> (F1 - F2)" using q(2) sub tb by auto
  then have "same_page q m1 m" "same_page q m2 m1" using s1 s2 q(1) by auto
  then show "same_page q m2 m" by (blast intro: same_page_trans)
qed auto

definition grown :: "u64 \<Rightarrow> mem \<Rightarrow> u64 set \<Rightarrow> mem \<Rightarrow> u64 set \<Rightarrow> bool" where
  "grown root m F m' F' \<longleftrightarrow>
     remapped root m F m' F' \<and> (\<forall>va. entry_of m' root va = entry_of m root va)"

lemma grown_refl: "grown root m F m F"
  by (simp add: grown_def remapped_refl)

lemma grown_trans:
  "grown root m F m1 F1 \<Longrightarrow> grown root m1 F1 m2 F2 \<Longrightarrow> grown root m F m2 F2"
  unfolding grown_def using remapped_trans by metis

lemma table_added_grown:
  assumes "pt_wf m root F" "p \<in> F" "page_aligned p" "node_at m root path = Some t" "length path \<le> 1"
    "i < 512" "child m t i = None" "table_added m t i p m'"
  shows "grown root m F m' (F - {p})"
  unfolding grown_def remapped_def
proof (intro conjI allI impI)
  fix q assume q: "page_aligned q" "q \<notin> tables m root \<union> (F - (F - {p}))"
  have "t \<in> tables m root" using in_tables [of path m root t] assms(4,5) by simp
  then have "q \<noteq> p" "q \<noteq> t" using q assms(2) by auto
  then show "same_page q m' m" using assms(8) q(1) by (simp add: table_added_def)
qed (use assms table_added_tree [OF assms] in auto)

lemma walk_levels_allocates:
  assumes "level \<le> 2" "node_at (memory s) root (path_of va level) = Some t"
    "pt_wf (memory s) root F" "free_frames s F" "level \<le> card F"
  shows "\<exists>s' F' t'. walk_levels s t va True level = Inr (Some (slot t' (unat (vpn0 va))), s') \<and>
    free_frames s' F' \<and> card F \<le> card F' + level \<and> pt_wf (memory s') root F' \<and>
    node_at (memory s') root (path_of va 0) = Some t' \<and> grown root (memory s) F (memory s') F'"
  using assms
proof (induction level arbitrary: s F t)
  case 0
  then show ?case using grown_refl by (auto simp: walk_levels.simps getEntry_eq)
next
  case (Suc level)
  then have l: "level < 2" by simp
  let ?i = "index_at va (Suc level)"
  note path = path_step(1) [OF l, of va] and i = path_step(2) [of va "Suc level"]
  have lp: "length (path_of va (Suc level)) \<le> 1" using l by (simp add: path_of_def)
  have fin: "finite F" using Suc.prems(4) by (auto simp: free_frames_def)
  show ?case
  proof (cases "child (memory s) t ?i")
    case (Some t')
    then have "node_at (memory s) root (path_of va level) = Some t'" using Suc.prems(2) path i by simp
    then obtain s2 F2 t2 where "walk_levels s t' va True level = Inr (Some (slot t2 (unat (vpn0 va))), s2)"
      "free_frames s2 F2" "card F \<le> card F2 + level" "pt_wf (memory s2) root F2"
      "node_at (memory s2) root (path_of va 0) = Some t2" "grown root (memory s) F (memory s2) F2"
      using Suc.IH [of s t' F] Suc.prems(3-5) l by auto
    then show ?thesis
      using walk_level_present [OF l Some] by (intro exI [of _ s2] exI [of _ F2] exI [of _ t2]) (simp add: walk_levels.simps)
  next
    case None
    have "F \<noteq> {}" using Suc.prems(5) by auto
    then obtain p s1 where s1: "walk_level s t va True (Suc level) = Inr (Some p, s1)" "p \<in> F"
      "page_aligned p" "free_frames s1 (F - {p})" "table_added (memory s) t ?i p (memory s1)"
      using walk_level_allocates [OF Suc.prems(3,4) _ l Suc.prems(2) None] by blast
    note added = Suc.prems(3) s1(2,3) Suc.prems(2) lp i None s1(5)
    have card: "card F = Suc (card (F - {p}))" using fin s1(2) by (rule card.remove)
    have node: "node_at (memory s1) root (path_of va level) = Some p"
      using table_added_tree(3) [OF added] path by simp
    have "level \<le> 2" "level \<le> card (F - {p})" using l card Suc.prems(5) by linarith+
    then obtain s2 F2 t2 where s2: "walk_levels s1 p va True level = Inr (Some (slot t2 (unat (vpn0 va))), s2)"
      "free_frames s2 F2" "card (F - {p}) \<le> card F2 + level" "pt_wf (memory s2) root F2"
      "node_at (memory s2) root (path_of va 0) = Some t2" "grown root (memory s1) (F - {p}) (memory s2) F2"
      using Suc.IH [OF _ node table_added_tree(1) [OF added] s1(4)] by blast
    have "walk_levels s t va True (Suc level) = walk_levels s1 p va True level"
      using s1(1) by (simp add: walk_levels.simps)
    moreover have "card F \<le> card F2 + Suc level" using card s2(3) by linarith
    ultimately show ?thesis
      using s2 grown_trans [OF table_added_grown [OF added] s2(6)]
      by (intro exI [of _ s2] exI [of _ F2] exI [of _ t2]) simp
  qed
qed

section \<open>Mapping a page\<close>

lemma vpn_roundDown: "vpn0 (roundDown va) = vpn0 va" "vpn1 (roundDown va) = vpn1 va" "vpn2 (roundDown va) = vpn2 va"
  by (auto simp: bit_eq_iff bit_vpn bit_roundDown)

lemma path_of_roundDown: "roundDown va = roundDown va' \<Longrightarrow> path_of va l = path_of va' l"
  by (metis path_of_def vpn_roundDown)

lemma roundDown_below: "va < MAX_VIRTUAL_ADDRESS \<Longrightarrow> roundDown va < MAX_VIRTUAL_ADDRESS"
  by (simp add: word_less_nat_alt unat_roundDown)

lemma same_page_vpn:
  assumes "va < MAX_VIRTUAL_ADDRESS" "va' < MAX_VIRTUAL_ADDRESS"
  shows "roundDown va = roundDown va' \<longleftrightarrow> vpn0 va = vpn0 va' \<and> vpn1 va = vpn1 va' \<and> vpn2 va = vpn2 va'"
  using vpn_inject [of "roundDown va" "roundDown va'"] assms roundDown_below vpn_roundDown
  by (metis page_aligned_roundDown)

lemma store_entry_tree:
  assumes wf: "pt_wf m root F" and t: "node_at m root (path_of va 0) = Some t"
    and m': "m' = store64 m (slot t (unat (vpn0 va))) e" and va: "va < MAX_VIRTUAL_ADDRESS"
  shows "pt_wf m' root F" "tables m' root = tables m root"
    "va' < MAX_VIRTUAL_ADDRESS \<Longrightarrow>
       entry_of m' root va' = (if roundDown va' = roundDown va then e else entry_of m root va')"
    "page_aligned q \<Longrightarrow> q \<noteq> t \<Longrightarrow> same_page q m' m"
proof -
  have al: "page_aligned t" using pt_wf_aligned [OF wf t] .
  show other: "page_aligned q \<Longrightarrow> q \<noteq> t \<Longrightarrow> same_page q m' m" for q
    unfolding m' using al vpn_bounds(1) by (intro store_slot_other_page) auto
  have nodes: "node_at m' root path = node_at m root path" if "length path \<le> 2" for path
    using that
  proof (induction path)
    case (Cons i path)
    show ?case
    proof (cases "node_at m root path")
      case (Some u)
      have "length (path_of va 0) = 2" by (simp add: path_of_def)
      then have "u \<noteq> t" using pt_wf_inj [OF wf _ _ Some, of "path_of va 0"] t Cons.prems by auto
      then have "child m' u i = child m u i" if "i < 512"
        using slot_same_page [OF other] pt_wf_aligned [OF wf Some] that by (simp add: child_def)
      then show ?thesis using Some Cons by simp
    qed (use Cons in simp)
  qed simp
  then show tb: "tables m' root = tables m root" by (auto simp: tables_def)
  show "pt_wf m' root F" using wf nodes tb unfolding pt_wf_def by auto
  show "entry_of m' root va' = (if roundDown va' = roundDown va then e else entry_of m root va')"
    if va': "va' < MAX_VIRTUAL_ADDRESS"
  proof (cases "node_at m root (path_of va' 0)")
    case None
    then have "roundDown va' \<noteq> roundDown va" using t path_of_roundDown by (metis option.distinct(1))
    then show ?thesis using None nodes [OF length_path_of] by (simp add: entry_of_def)
  next
    case (Some u)
    show ?thesis
    proof (cases "u = t")
      case True
      then have "path_of va' 0 = path_of va 0" using pt_wf_inj [OF wf _ _ Some] t length_path_of by blast
      then have "vpn1 va' = vpn1 va" "vpn2 va' = vpn2 va" by (auto simp: path_of_def word_unat_eq_iff)
      then have "roundDown va' = roundDown va \<longleftrightarrow> vpn0 va = vpn0 va'"
        using same_page_vpn [OF va' va] by auto
      then show ?thesis
        using Some True nodes [OF length_path_of] vpn_bounds(1) m'
        by (simp add: entry_of_def load_store_slot word_unat_eq_iff)
    next
      case False
      then have "roundDown va' \<noteq> roundDown va" using Some t path_of_roundDown by (metis option.inject)
      then show ?thesis
        using Some False nodes [OF length_path_of] slot_same_page [OF other] pt_wf_aligned [OF wf Some] vpn_bounds(1)
        by (simp add: entry_of_def)
    qed
  qed
qed

text \<open>The effect of mapping \<open>n\<close> pages from \<open>va\<close> to \<open>pa\<close> on the entries, by page address.\<close>

definition map_effect :: "(u64 \<Rightarrow> u64) \<Rightarrow> u64 \<Rightarrow> u64 \<Rightarrow> u16 \<Rightarrow> nat \<Rightarrow> u64 \<Rightarrow> u64" where
  "map_effect A va pa flags n page =
     (if unat (page - va) < 4096 * n then fill_entry (A page) (pa + (page - va)) flags else A page)"

lemma map_effect_cong:
  "A page = B page \<Longrightarrow> map_effect A va pa flags n page = map_effect B va pa flags n page"
  by (simp add: map_effect_def)

lemma aligned_diff_ge:
  assumes "page_aligned a" "page_aligned b" "a \<noteq> b"
  shows "4096 \<le> unat (a - b)"
  using assms in_page_iff [of b a] by (metis not_le roundDown_aligned)

lemma map_effect_Suc:
  assumes "page_aligned va" "page_aligned page" "4096 * Suc n < 2 ^ 64"
  shows "map_effect (A(va := fill_entry (A va) pa flags)) (va + PAGE_SIZE) (pa + PAGE_SIZE) flags n page =
    map_effect A va pa flags (Suc n) page"
proof (cases "page = va")
  case True
  have "unat (va - (va + PAGE_SIZE)) = 2 ^ 64 - 4096" by (simp add: PAGE_SIZE_def)
  then show ?thesis using True assms(3) by (simp add: map_effect_def)
next
  case False
  then have ge: "4096 \<le> unat (page - va)" using assms by (intro aligned_diff_ge) auto
  have shift: "4096 \<le> y \<Longrightarrow> y - 4096 < 4096 * n \<longleftrightarrow> y < 4096 * Suc n" for y :: nat by auto
  have eq: "page - (va + PAGE_SIZE) = page - va - PAGE_SIZE" by simp
  have "unat (page - (va + PAGE_SIZE)) = unat (page - va) - 4096"
    unfolding eq using ge by (subst unat_sub) (simp_all add: PAGE_SIZE_def word_le_nat_alt)
  then have "unat (page - (va + PAGE_SIZE)) < 4096 * n \<longleftrightarrow> unat (page - va) < 4096 * Suc n"
    using shift [OF ge] by simp
  then show ?thesis using False by (simp add: map_effect_def)
qed

lemma walk_then_store:
  assumes wf: "pt_wf (memory s) root F" and ff: "free_frames s F" "2 \<le> card F"
    and va: "va < MAX_VIRTUAL_ADDRESS"
  shows "\<exists>s1 pte F'. walk s root va True = Inr (Some pte, s1) \<and>
    load64 (memory s1) pte = entry_of (memory s) root va \<and> card F \<le> card F' + 2 \<and>
    (\<forall>e. let s2 = s1\<lparr>memory := store64 (memory s1) pte e\<rparr> in
       pt_wf (memory s2) root F' \<and> free_frames s2 F' \<and> remapped root (memory s) F (memory s2) F' \<and>
       (\<forall>va' < MAX_VIRTUAL_ADDRESS. entry_of (memory s2) root va' =
          (if roundDown va' = roundDown va then e else entry_of (memory s) root va')))"
proof -
  have "path_of va 2 = []" by (simp add: path_of_def)
  then obtain s1 F' t where s1: "walk_levels s root va True 2 = Inr (Some (slot t (unat (vpn0 va))), s1)"
    "free_frames s1 F'" "card F \<le> card F' + 2" "pt_wf (memory s1) root F'"
    "node_at (memory s1) root (path_of va 0) = Some t" "grown root (memory s) F (memory s1) F'"
    using walk_levels_allocates [OF _ _ wf ff(1), of 2 va root] ff(2) by auto
  let ?pte = "slot t (unat (vpn0 va))"
  have tin: "t \<in> tables (memory s1) root" using s1(5) length_path_of by (rule in_tables [rotated])
  have after: "pt_wf m2 root F' \<and> free_frames (s1\<lparr>memory := m2\<rparr>) F' \<and> remapped root (memory s) F m2 F' \<and>
       (\<forall>va' < MAX_VIRTUAL_ADDRESS. entry_of m2 root va' =
          (if roundDown va' = roundDown va then e else entry_of (memory s) root va'))"
    if m2: "m2 = store64 (memory s1) ?pte e" for m2 e
  proof -
    note tree = store_entry_tree [OF s1(4,5) m2 va]
    have "free_frames (s1\<lparr>memory := m2\<rparr>) F'"
    proof (rule pg.put_law [OF s1(2)])
      fix q assume q: "q \<in> F'"
      then have "page_aligned q" "q \<noteq> t"
        using s1(2) pt_wf_not_free [OF s1(4) length_path_of s1(5)]
        by (auto simp: free_frames_def page_inv_def)
      then show "same_page q (memory s1) m2" using tree(4) by (blast intro: same_page_sym)
    qed
    moreover have "remapped root (memory s1) F' m2 F'"
      using tree(2,4) tin by (auto simp: remapped_def)
    ultimately show ?thesis
      using tree(1,3) s1(6) remapped_trans unfolding grown_def by auto
  qed
  have "load64 (memory s1) ?pte = entry_of (memory s1) root va" using s1(5) by (simp add: entry_of_def)
  also have "\<dots> = entry_of (memory s) root va" using s1(6) by (simp add: grown_def)
  finally show ?thesis
    using s1(1,3) va after by (intro exI [of _ s1] exI [of _ ?pte] exI [of _ F']) (simp add: walk_def Let_def)
qed

lemma unat_add_small: "unat (a :: u64) + unat b < 2 ^ 64 \<Longrightarrow> unat (a + b) = unat a + unat b"
  by (simp add: unat_plus_if')

lemma unat_next_page:
  "unat va + 4096 < 2 ^ 64 \<Longrightarrow> unat (va + PAGE_SIZE) = unat va + 4096"
  by (simp add: PAGE_SIZE_def unat_plus_if')

lemma page_aligned_next: "page_aligned va \<Longrightarrow> page_aligned (va + PAGE_SIZE)"
  by (simp add: page_aligned_add)

lemma entry_of_roundDown: "entry_of m root (roundDown va) = entry_of m root va"
  using path_of_roundDown [of "roundDown va" va] 
  by (simp add: entry_of_def vpn_roundDown split: option.split)

text \<open>One turn of the mapping loop.\<close>

lemma map_loop_step:
  assumes wf: "pt_wf (memory s) root F" and ff: "free_frames s F" "2 \<le> card F"
    and va: "page_aligned va" "va < MAX_VIRTUAL_ADDRESS" and free: "\<not> pte_v (entry_of (memory s) root va)"
  shows "\<exists>s2 F2. map_loop s root va final pa flags =
      (if va = final then Inr (True, s2) else map_loop s2 root (va + PAGE_SIZE) final (pa + PAGE_SIZE) flags) \<and>
    pt_wf (memory s2) root F2 \<and> free_frames s2 F2 \<and> card F \<le> card F2 + 2 \<and>
    remapped root (memory s) F (memory s2) F2 \<and>
    (\<forall>page < MAX_VIRTUAL_ADDRESS. page_aligned page \<longrightarrow> entry_of (memory s2) root page =
       ((entry_of (memory s) root)(va := fill_entry (entry_of (memory s) root va) pa flags)) page)"
proof -
  obtain s1 pte F' where w: "walk s root va True = Inr (Some pte, s1)"
    "load64 (memory s1) pte = entry_of (memory s) root va" "card F \<le> card F' + 2"
    and st: "\<And>e. let s2 = s1\<lparr>memory := store64 (memory s1) pte e\<rparr> in
       pt_wf (memory s2) root F' \<and> free_frames s2 F' \<and> remapped root (memory s) F (memory s2) F' \<and>
       (\<forall>va' < MAX_VIRTUAL_ADDRESS. entry_of (memory s2) root va' =
          (if roundDown va' = roundDown va then e else entry_of (memory s) root va'))"
    using walk_then_store [OF wf ff va(2)] by blast
  let ?e = "fill_entry (entry_of (memory s) root va) pa flags"
  let ?s2 = "s1\<lparr>memory := store64 (memory s1) pte ?e\<rparr>"
  have "map_loop s root va final pa flags =
      (if va = final then Inr (True, ?s2) else map_loop ?s2 root (va + PAGE_SIZE) final (pa + PAGE_SIZE) flags)"
    using w free by (simp add: map_loop.simps [of s] Let_def)
  then show ?thesis
    using w(3) st [of ?e] va(1) by (intro exI [of _ ?s2] exI [of _ F']) (simp add: Let_def)
qed

text \<open>The last page of a range lies below the limit as a whole, and the pages after the first are in the range.\<close>

lemma last_page_fits:
  assumes "page_aligned va" "unat va + 4096 * n = unat final" "final < MAX_VIRTUAL_ADDRESS"
  shows "unat final + 4096 \<le> 0x4000000000"
proof -
  have "4096 dvd unat va" using assms(1) by (simp add: page_aligned_mod mod_eq_0_iff_dvd)
  then obtain k where "unat va = 4096 * k" ..
  then have k: "unat final = 4096 * (k + n)" using assms(2) by simp
  have "unat final < 0x4000000000" using assms(3) by (simp add: MAX_VIRTUAL_ADDRESS_eq word_less_nat_alt)
  then have "4096 * (k + n) < 4096 * 67108864" unfolding k by simp
  then have "k + n < 67108864" by (simp only: mult_less_cancel1)
  then show ?thesis unfolding k by simp
qed

lemma next_pages:
  assumes "unat va + 4096 * Suc n = unat final" "unat final + 4096 \<le> 0x4000000000"
    "unat (page - (va + PAGE_SIZE)) < 4096 * Suc n"
  shows "page < MAX_VIRTUAL_ADDRESS" "page \<noteq> va" "unat (page - va) < 4096 * Suc (Suc n)"
proof -
  have d: "page - va = page - (va + PAGE_SIZE) + PAGE_SIZE" by simp
  have off: "unat (page - va) = unat (page - (va + PAGE_SIZE)) + 4096"
    unfolding d using assms by (intro unat_next_page) simp
  have "unat (va + (page - va)) = unat va + unat (page - va)" using off assms by (intro unat_add_small) simp
  then have "unat page = unat va + unat (page - va)" by simp
  then show "page < MAX_VIRTUAL_ADDRESS" "page \<noteq> va" "unat (page - va) < 4096 * Suc (Suc n)"
    using off assms by (auto simp: word_less_nat_alt MAX_VIRTUAL_ADDRESS_eq)
qed

lemma map_loop_maps:
  assumes "pt_wf (memory s) root F" "free_frames s F" "2 * Suc n \<le> card F"
    "page_aligned va" "unat va + 4096 * n = unat final" "final < MAX_VIRTUAL_ADDRESS"
    "\<And>page. page_aligned page \<Longrightarrow> unat (page - va) < 4096 * Suc n \<Longrightarrow> \<not> pte_v (entry_of (memory s) root page)"
  shows "\<exists>s' F'. map_loop s root va final pa flags = Inr (True, s') \<and>
    pt_wf (memory s') root F' \<and> free_frames s' F' \<and> card F \<le> card F' + 2 * Suc n \<and>
    remapped root (memory s) F (memory s') F' \<and>
    (\<forall>page < MAX_VIRTUAL_ADDRESS. page_aligned page \<longrightarrow>
       entry_of (memory s') root page = map_effect (entry_of (memory s) root) va pa flags (Suc n) page)"
  using assms
proof (induction n arbitrary: s F va pa)
  case 0
  then have va: "va = final" "va < MAX_VIRTUAL_ADDRESS" "\<not> pte_v (entry_of (memory s) root va)"
    by (simp_all add: word_unat_eq_iff word_less_nat_alt)
  obtain s2 F2 where s2: "map_loop s root va final pa flags = Inr (True, s2)"
    "pt_wf (memory s2) root F2" "free_frames s2 F2" "card F \<le> card F2 + 2"
    "remapped root (memory s) F (memory s2) F2"
    and ent: "\<And>page. page < MAX_VIRTUAL_ADDRESS \<Longrightarrow> page_aligned page \<Longrightarrow> entry_of (memory s2) root page =
       ((entry_of (memory s) root)(va := fill_entry (entry_of (memory s) root va) pa flags)) page"
    using map_loop_step [OF 0(1,2) _ 0(4) va(2,3), of final pa flags] 0(3) va(1) by auto
  have "unat (page - va) < 4096 \<longleftrightarrow> page = va" if "page_aligned page" for page
    using in_page_iff [OF 0(4), of page] that by simp
  then have "entry_of (memory s2) root page = map_effect (entry_of (memory s) root) va pa flags (Suc 0) page"
    if "page < MAX_VIRTUAL_ADDRESS" "page_aligned page" for page
    using ent [OF that] that(2) by (simp add: map_effect_def)
  then show ?case using s2 by (intro exI [of _ s2] exI [of _ F2]) simp
next
  case (Suc n)
  have final: "unat final + 4096 \<le> 0x4000000000" using Suc.prems(4-6) by (rule last_page_fits)
  have nxt: "unat (va + PAGE_SIZE) = unat va + 4096" using Suc.prems(5) final by (intro unat_next_page) simp
  have ne: "va \<noteq> final" and va: "va < MAX_VIRTUAL_ADDRESS"
    using Suc.prems(5,6) by (auto simp: word_less_nat_alt)
  have free_va: "\<not> pte_v (entry_of (memory s) root va)" using Suc.prems(4,7) by simp
  obtain s2 F2 where s2: "map_loop s root va final pa flags = map_loop s2 root (va + PAGE_SIZE) final (pa + PAGE_SIZE) flags"
    "pt_wf (memory s2) root F2" "free_frames s2 F2" "card F \<le> card F2 + 2"
    "remapped root (memory s) F (memory s2) F2"
    and ent: "\<And>page. page < MAX_VIRTUAL_ADDRESS \<Longrightarrow> page_aligned page \<Longrightarrow> entry_of (memory s2) root page =
       ((entry_of (memory s) root)(va := fill_entry (entry_of (memory s) root va) pa flags)) page"
    using map_loop_step [OF Suc.prems(1,2) _ Suc.prems(4) va free_va, of final pa flags] Suc.prems(3) ne by auto
  have free: "\<not> pte_v (entry_of (memory s2) root page)"
    if p: "page_aligned page" "unat (page - (va + PAGE_SIZE)) < 4096 * Suc n" for page
    using next_pages [OF Suc.prems(5) final p(2)] ent [OF _ p(1)] Suc.prems(7) [OF p(1)] by simp
  have "2 * Suc n \<le> card F2" "unat (va + PAGE_SIZE) + 4096 * n = unat final"
    using s2(4) Suc.prems(3,5) nxt by auto
  then obtain s' F' where s': "map_loop s2 root (va + PAGE_SIZE) final (pa + PAGE_SIZE) flags = Inr (True, s')"
    "pt_wf (memory s') root F'" "free_frames s' F'" "card F2 \<le> card F' + 2 * Suc n"
    "remapped root (memory s2) F2 (memory s') F'"
    and ent': "\<And>page. page < MAX_VIRTUAL_ADDRESS \<Longrightarrow> page_aligned page \<Longrightarrow> entry_of (memory s') root page =
      map_effect (entry_of (memory s2) root) (va + PAGE_SIZE) (pa + PAGE_SIZE) flags (Suc n) page"
    using Suc.IH [OF s2(2,3) _ page_aligned_next [OF Suc.prems(4)] _ Suc.prems(6) free, of "pa + PAGE_SIZE"]
    by blast
  have "entry_of (memory s') root page = map_effect (entry_of (memory s) root) va pa flags (Suc (Suc n)) page"
    if "page < MAX_VIRTUAL_ADDRESS" "page_aligned page" for page
  proof -
    have "4096 * Suc (Suc n) < 2 ^ 64" using Suc.prems(5) final by simp
    from map_effect_Suc [OF Suc.prems(4) that(2) this] show ?thesis
      using ent' [OF that] map_effect_cong [of "entry_of (memory s2) root" page
          "(entry_of (memory s) root)(va := fill_entry (entry_of (memory s) root va) pa flags)"] ent [OF that]
      by metis
  qed
  then show ?case
    using s2(1,4) s' remapped_trans [OF s2(5) s'(5)] by (intro exI [of _ s'] exI [of _ F']) auto
qed

section \<open>User memory\<close>

text \<open>
  \<open>user_page\<close> is the frame behind a user address, 0 when it is not mapped for the user;
  \<open>user_addr\<close> the physical address of the byte.
\<close>

definition user_page :: "mem \<Rightarrow> u64 \<Rightarrow> u64 \<Rightarrow> u64" where
  "user_page m root va =
     (let e = entry_of m root va in
      if va < MAX_VIRTUAL_ADDRESS \<and> pte_v e \<and> pte_u e then toPhysicalAddress e else 0)"

definition user_addr :: "mem \<Rightarrow> u64 \<Rightarrow> u64 \<Rightarrow> u64" where
  "user_addr m root va = user_page m root va + pageOffset va"

text \<open>
  A user buffer the kernel can copy to and from: its mapped pages are ordinary memory below the
  end of the RAM, none is a page table, and no byte of memory appears in it twice.
\<close>

definition user_range :: "mem \<Rightarrow> u64 \<Rightarrow> u64 \<Rightarrow> nat \<Rightarrow> bool" where
  "user_range m root a len \<longleftrightarrow>
     (\<forall>i < len. user_page m root (a + of_nat i) \<noteq> 0 \<longrightarrow>
        user_page m root (a + of_nat i) < physicalAddressStop \<and> user_page m root (a + of_nat i) \<notin> tables m root) \<and>
     (\<forall>i < len. \<forall>j < len. user_page m root (a + of_nat i) \<noteq> 0 \<longrightarrow> user_page m root (a + of_nat j) \<noteq> 0 \<longrightarrow>
        user_addr m root (a + of_nat i) = user_addr m root (a + of_nat j) \<longrightarrow> i = j)"

lemma walkAddress_user_page: "walkAddress s root va = Inr (user_page (memory s) root va)"
  by (simp add: walkAddress_entry user_page_def Let_def)

lemma user_page_aligned [simp]: "page_aligned (user_page m root va)"
proof -
  have "page_aligned 0" by (simp add: page_aligned_def)
  then show ?thesis by (simp add: user_page_def Let_def)
qed

lemma roundDown_MAX: "roundDown va < MAX_VIRTUAL_ADDRESS \<longleftrightarrow> va < MAX_VIRTUAL_ADDRESS"
proof -
  have "x - x mod 4096 < 0x4000000000 \<longleftrightarrow> x < 0x4000000000" for x :: nat
  proof -
    have "x - x mod 4096 = x div 4096 * 4096" "0x4000000000 = (67108864 :: nat) * 4096"
      by (simp_all add: minus_mod_eq_div_mult)
    then show ?thesis by (simp only: mult_less_cancel2 div_less_iff_less_mult) simp
  qed
  then show ?thesis by (simp add: word_less_nat_alt unat_roundDown MAX_VIRTUAL_ADDRESS_eq)
qed

lemma user_page_roundDown: "user_page m root (roundDown va) = user_page m root va"
  by (simp add: user_page_def entry_of_roundDown roundDown_MAX)

lemma user_page_same: "roundDown a = roundDown b \<Longrightarrow> user_page m root a = user_page m root b"
  using user_page_roundDown [of m root a] user_page_roundDown [of m root b] by simp

lemma roundDown_user_addr [simp]: "roundDown (user_addr m root va) = user_page m root va"
  using in_page_iff [of "user_page m root va" "user_addr m root va"]
  by (simp add: user_addr_def unat_pageOffset)

lemma chunk_le: "unat (chunk a len) \<le> 4096 - unat (pageOffset a)" "unat (chunk a len) \<le> unat len"
proof -
  have "unat (PAGE_SIZE - pageOffset a) = 4096 - unat (pageOffset a)"
    by (subst unat_sub) (simp_all add: PAGE_SIZE_def word_le_nat_alt unat_pageOffset)
  then show "unat (chunk a len) \<le> 4096 - unat (pageOffset a)" "unat (chunk a len) \<le> unat len"
    by (auto simp: chunk_def roundDown_sub Let_def word_less_nat_alt)
qed

lemma chunk_next: "chunk a len < len \<Longrightarrow> a + chunk a len = roundDown a + PAGE_SIZE"
  using page_split [of a] by (auto simp: chunk_def Let_def split: if_splits)

lemma within_chunk:
  assumes "i < unat (chunk a len)"
  shows "roundDown (a + of_nat i) = roundDown a" "pageOffset (a + of_nat i) = pageOffset a + of_nat i"
proof -
  have "unat (pageOffset a) + i < 4096" using chunk_le(1) [of a len] assms unat_pageOffset [of a] by simp
  then have 1: "roundDown (roundDown a + of_nat (unat (pageOffset a) + i)) = roundDown a"
    by (intro roundDown_in_page) simp_all
  have eq: "roundDown a + of_nat (unat (pageOffset a) + i) = a + of_nat i"
    using page_split [of a] by (simp add: add.assoc [symmetric])
  show rd: "roundDown (a + of_nat i) = roundDown a" using 1 unfolding eq .
  show "pageOffset (a + of_nat i) = pageOffset a + of_nat i"
  proof -
    have "pageOffset (a + of_nat i) = (a + of_nat i) - roundDown a"
      using roundDown_sub [of "a + of_nat i"] unfolding rd by simp
    also have "\<dots> = (a - roundDown a) + of_nat i" by simp
    finally show ?thesis unfolding roundDown_sub .
  qed
qed

lemma user_addr_chunk:
  assumes "i < unat (chunk a len)"
  shows "user_page m root (a + of_nat i) = user_page m root a"
    "user_addr m root (a + of_nat i) = user_addr m root a + of_nat i"
  using within_chunk [OF assms] user_page_same [of "a + of_nat i" a] by (simp_all add: user_addr_def)

lemma user_addr_fits:
  assumes "user_page m root a < physicalAddressStop"
  shows "unat (user_addr m root a) + unat (chunk a len) < 2 ^ 64"
proof -
  have "unat (user_page m root a) < 0x88000000"
    using assms by (simp add: physicalAddressStop_def KERNEL_BASE_def word_less_nat_alt)
  moreover have "unat (pageOffset a) < 4096" by (simp add: unat_pageOffset)
  moreover have "unat (user_addr m root a) = unat (user_page m root a) + unat (pageOffset a)"
    unfolding user_addr_def using calculation by (intro unat_add_small) simp
  ultimately show ?thesis using chunk_le(1) [of a len] by simp
qed

text \<open>Writes that miss the tables leave user addresses where they are.\<close>

lemma user_frame:
  assumes "pt_wf m root F" "\<forall>x. m' x \<noteq> m x \<longrightarrow> roundDown x \<notin> tables m root"
  shows "pt_wf m' root F" "tables m' root = tables m root"
    "user_page m' root va = user_page m root va" "user_addr m' root va = user_addr m root va"
    "user_range m' root a n = user_range m root a n"
proof -
  have "same_page q m m'" if "q \<in> tables m root" for q
    unfolding same_page_def using assms(2) that by metis
  note fr = tree_frame [OF assms(1) this]
  then show "pt_wf m' root F" "tables m' root = tables m root" by auto
  show up: "user_page m' root va = user_page m root va" for va by (simp add: user_page_def fr)
  then show ua: "user_addr m' root va = user_addr m root va" for va by (simp add: user_addr_def)
  show "user_range m' root a n = user_range m root a n" by (simp add: user_range_def up ua fr)
qed

section \<open>Copies between kernel and user memory\<close>

text \<open>\<open>copied m D S n m'\<close>: \<open>m'\<close> is \<open>m\<close> with the bytes at \<open>S 0, \<dots>, S (n - 1)\<close> copied to \<open>D 0, \<dots>\<close>.\<close>

definition copied :: "mem \<Rightarrow> (nat \<Rightarrow> u64) \<Rightarrow> (nat \<Rightarrow> u64) \<Rightarrow> nat \<Rightarrow> mem \<Rightarrow> bool" where
  "copied m D S n m' \<longleftrightarrow>
     (\<forall>i < n. m' (D i) = m (S i)) \<and> (\<forall>x. (\<forall>i < n. x \<noteq> D i) \<longrightarrow> m' x = m x)"

lemma copied_append:
  assumes "copied m D S n m1" "copied m1 (\<lambda>j. D (n + j)) (\<lambda>j. S (n + j)) k m2"
    and inj: "\<And>i j. i < n + k \<Longrightarrow> j < n + k \<Longrightarrow> D i = D j \<Longrightarrow> i = j"
    and dis: "\<And>i j. i < n + k \<Longrightarrow> j < n + k \<Longrightarrow> S i \<noteq> D j"
  shows "copied m D S (n + k) m2"
  unfolding copied_def
proof (intro conjI allI impI)
  fix i assume i: "i < n + k"
  show "m2 (D i) = m (S i)"
  proof (cases "i < n")
    case True
    then have "D i \<noteq> D (n + j)" if "j < k" for j using inj [of i "n + j"] that by auto
    then have "m2 (D i) = m1 (D i)" using assms(2) by (simp add: copied_def)
    then show ?thesis using True assms(1) by (simp add: copied_def)
  next
    case False
    then obtain j where j: "i = n + j" "j < k" using i by (metis add_less_cancel_left le_Suc_ex not_le)
    have "S i \<noteq> D l" if "l < n" for l using dis [of i l] i that by simp
    then have "m1 (S i) = m (S i)" using assms(1) by (simp add: copied_def)
    then show ?thesis using assms(2) j by (simp add: copied_def)
  qed
next
  fix x assume x: "\<forall>i < n + k. x \<noteq> D i"
  then have "m2 x = m1 x" using assms(2) by (simp add: copied_def)
  then show "m2 x = m x" using x assms(1) by (simp add: copied_def)
qed

lemma copied_changed: "copied m D S n m' \<Longrightarrow> m' x \<noteq> m x \<Longrightarrow> \<exists>i < n. x = D i"
  unfolding copied_def by metis

lemma memmove_copied:
  assumes "unat src + unat n < 2 ^ 64" "unat dst + unat n < 2 ^ 64"
  shows "copied m (\<lambda>i. dst + of_nat i) (\<lambda>i. src + of_nat i) (unat n) (fst (memmove m dst src n))"
  unfolding copied_def memmove_copies_range [OF assms]
proof (intro conjI allI impI)
  fix i assume i: "i < unat n"
  then have "i < 2 ^ 64" using unat64_less [of n] by simp
  then show "write_bytes m dst (read_bytes m src (unat n)) (dst + of_nat i) = m (src + of_nat i)"
    using i by (simp add: write_bytes_def unat_of_nat_small)
next
  fix x assume x: "\<forall>i < unat n. x \<noteq> dst + of_nat i"
  have "x = dst + of_nat (unat (x - dst))" by simp
  then have "\<not> unat (x - dst) < unat n" using x by blast
  then show "write_bytes m dst (read_bytes m src (unat n)) x = m x" by (simp add: write_bytes_def)
qed

lemma copied_cong:
  "(\<And>i. i < n \<Longrightarrow> D i = D' i) \<Longrightarrow> (\<And>i. i < n \<Longrightarrow> S i = S' i) \<Longrightarrow>
   copied m D S n m' = copied m D' S' n m'"
  unfolding copied_def by (intro arg_cong2 [where f = "(\<and>)"] all_cong1 imp_cong) auto

text \<open>The part of a user buffer behind its first chunk, and its indices.\<close>

lemma rest_index:
  assumes "len > 0" "j < unat (len - chunk a len)"
  shows "roundDown a + PAGE_SIZE + of_nat j = a + of_nat (unat (chunk a len) + j)"
    "unat (chunk a len) + j < unat len"
proof -
  note cb = chunk_bounds [OF assms(1), of a]
  then have "chunk a len < len" using assms(2) by (cases "chunk a len = len") auto
  then show "roundDown a + PAGE_SIZE + of_nat j = a + of_nat (unat (chunk a len) + j)"
    using chunk_next by (simp add: add.assoc [symmetric])
  have "unat (len - chunk a len) = unat len - unat (chunk a len)" using cb by (intro unat_sub) simp
  then show "unat (chunk a len) + j < unat len" using assms(2) by linarith
qed

lemma rest_split:
  assumes "len > 0"
  shows "unat len = unat (chunk a len) + unat (len - chunk a len)"
  using chunk_bounds [OF assms, of a] by (simp add: unat_sub word_le_nat_alt)

lemma user_range_rest:
  assumes r: "user_range m root a (unat len)" and "len > 0"
  shows "user_range m root (roundDown a + PAGE_SIZE) (unat (len - chunk a len))"
proof -
  let ?n = "unat (chunk a len)"
  note idx = rest_index [OF assms(2), of _ a]
  have inj: "x = y" if "x < unat len" "y < unat len" "user_page m root (a + of_nat x) \<noteq> 0"
    "user_page m root (a + of_nat y) \<noteq> 0" "user_addr m root (a + of_nat x) = user_addr m root (a + of_nat y)" for x y
    using r that by (simp add: user_range_def)
  show ?thesis
    unfolding user_range_def
  proof (intro conjI allI impI)
    fix i assume i: "i < unat (len - chunk a len)" "user_page m root (roundDown a + PAGE_SIZE + of_nat i) \<noteq> 0"
    show "user_page m root (roundDown a + PAGE_SIZE + of_nat i) < physicalAddressStop"
      "user_page m root (roundDown a + PAGE_SIZE + of_nat i) \<notin> tables m root"
      using r idx [OF i(1)] i(2) unfolding user_range_def by metis+
    fix j assume j: "j < unat (len - chunk a len)" "user_page m root (roundDown a + PAGE_SIZE + of_nat j) \<noteq> 0"
      "user_addr m root (roundDown a + PAGE_SIZE + of_nat i) = user_addr m root (roundDown a + PAGE_SIZE + of_nat j)"
    have "?n + i = ?n + j"
      using i(2) j(2,3) unfolding idx(1) [OF i(1)] idx(1) [OF j(1)]
      by (rule inj [OF idx(2) [OF i(1)] idx(2) [OF j(1)]])
    then show "i = j" by simp
  qed
qed

lemma all_less_add: "(\<forall>i < n + k. P i) \<longleftrightarrow> (\<forall>i < n. P i) \<and> (\<forall>j < k. P (n + j))" for n k :: nat
proof (intro iffI allI impI)
  fix i assume *: "(\<forall>i < n. P i) \<and> (\<forall>j < k. P (n + j))" "i < n + k"
  show "P i"
  proof (cases "i < n")
    case False
    then have "n + (i - n) = i" "i - n < k" using *(2) by auto
    then show ?thesis using *(1) by metis
  qed (use * in simp)
qed auto

definition all_mapped :: "mem \<Rightarrow> u64 \<Rightarrow> u64 \<Rightarrow> nat \<Rightarrow> bool" where
  "all_mapped m root a n \<longleftrightarrow> (\<forall>i < n. user_page m root (a + of_nat i) \<noteq> 0)"

lemma all_mapped_step:
  assumes "len > 0"
  shows "all_mapped m root a (unat len) \<longleftrightarrow>
    user_page m root a \<noteq> 0 \<and> all_mapped m root (roundDown a + PAGE_SIZE) (unat (len - chunk a len))"
proof -
  let ?n = "unat (chunk a len)" and ?k = "unat (len - chunk a len)"
  note cb = chunk_bounds [OF assms, of a]
  have "all_mapped m root a (?n + ?k) \<longleftrightarrow>
      (\<forall>i < ?n. user_page m root (a + of_nat i) \<noteq> 0) \<and> (\<forall>j < ?k. user_page m root (a + of_nat (?n + j)) \<noteq> 0)"
    unfolding all_mapped_def by (rule all_less_add)
  moreover have "(\<forall>i < ?n. user_page m root (a + of_nat i) \<noteq> 0) \<longleftrightarrow> user_page m root a \<noteq> 0"
    using user_addr_chunk(1) [of _ a len m root] cb by metis
  moreover have "user_page m root (a + of_nat (?n + j)) = user_page m root (roundDown a + PAGE_SIZE + of_nat j)"
    if "j < ?k" for j using rest_index(1) [OF assms that] by (simp only:)
  ultimately show ?thesis using rest_split [OF assms, of a] by (simp add: all_mapped_def)
qed

lemma user_range_first:
  assumes "user_range m root a (unat len)" "len > 0" "user_page m root a \<noteq> 0"
  shows "user_page m root a < physicalAddressStop" "user_page m root a \<notin> tables m root"
proof -
  have "0 < unat len" using assms(2) by (simp add: word_less_nat_alt)
  moreover have "a + of_nat 0 = a" by simp
  ultimately show "user_page m root a < physicalAddressStop" "user_page m root a \<notin> tables m root"
    using assms(1,3) unfolding user_range_def by auto
qed

lemma copyout_step:
  assumes wf: "pt_wf (memory s) root F" and r: "user_range (memory s) root dst (unat len)"
    and src: "unat src + unat len < 2 ^ 64" and len: "len > 0" and pg: "user_page (memory s) root dst \<noteq> 0"
  shows "\<exists>m1. copyout s root dst src len =
      copyout (s\<lparr>memory := m1\<rparr>) root (roundDown dst + PAGE_SIZE) (src + chunk dst len) (len - chunk dst len) \<and>
    copied (memory s) (\<lambda>i. user_addr (memory s) root (dst + of_nat i)) (\<lambda>i. src + of_nat i)
      (unat (chunk dst len)) m1 \<and>
    (\<forall>x. m1 x \<noteq> memory s x \<longrightarrow> roundDown x \<notin> tables (memory s) root)"
proof -
  let ?m = "memory s" and ?n = "chunk dst len"
  define m1 where "m1 = fst (memmove ?m (user_addr ?m root dst) src ?n)"
  note pa = user_range_first [OF r len pg] and cl = chunk_le(2) [of dst len]
  have "copied ?m (\<lambda>i. user_addr ?m root dst + of_nat i) (\<lambda>i. src + of_nat i) (unat ?n) m1"
    unfolding m1_def using src user_addr_fits [OF pa(1), of len] cl by (intro memmove_copied) auto
  then have cp: "copied ?m (\<lambda>i. user_addr ?m root (dst + of_nat i)) (\<lambda>i. src + of_nat i) (unat ?n) m1"
    using user_addr_chunk(2) [of _ dst len ?m root] by (simp cong: copied_cong)
  have "copyout s root dst src len = copyout (s\<lparr>memory := m1\<rparr>) root (roundDown dst + PAGE_SIZE) (src + ?n) (len - ?n)"
    by (subst copyout.simps)
      (simp add: len pg walkAddress_user_page user_page_roundDown m1_def Let_def user_addr_def roundDown_sub)
  moreover have "roundDown x \<notin> tables ?m root" if ch: "m1 x \<noteq> ?m x" for x
  proof -
    obtain i where i: "i < unat ?n" "x = user_addr ?m root (dst + of_nat i)"
      using copied_changed [OF cp ch] by blast
    then show ?thesis using pa(2) user_addr_chunk(1) [OF i(1)] by simp
  qed
  ultimately show ?thesis using cp by blast
qed

text \<open>
  \<open>copyout\<close> answers whether the whole buffer is mapped for the user, and changes only mapped bytes
  of the buffer.
\<close>

lemma copyout_answer:
  assumes "pt_wf (memory s) root F" "user_range (memory s) root dst (unat len)"
    "unat src + unat len < 2 ^ 64"
  shows "\<exists>m'. copyout s root dst src len =
      Inr (all_mapped (memory s) root dst (unat len), s\<lparr>memory := m'\<rparr>) \<and>
    (\<forall>x. (\<forall>i < unat len. user_page (memory s) root (dst + of_nat i) \<noteq> 0 \<longrightarrow>
            x \<noteq> user_addr (memory s) root (dst + of_nat i)) \<longrightarrow> m' x = memory s x)"
  using assms
proof (induction "unat len" arbitrary: s dst src len rule: less_induct)
  case less
  let ?m = "memory s" and ?n = "chunk dst len" and ?dst = "roundDown dst + PAGE_SIZE"
  consider "len = 0" | "len > 0" "user_page ?m root dst = 0" | "len > 0" "user_page ?m root dst \<noteq> 0"
    by (auto simp: word_gt_0)
  then show ?case
  proof cases
    case 1
    then show ?thesis by (intro exI [of _ ?m]) (simp add: copyout.simps [of s] all_mapped_def)
  next
    case 2
    then show ?thesis
      using all_mapped_step [OF 2(1), of ?m root dst]
      by (intro exI [of _ ?m]) (simp add: copyout.simps [of s] walkAddress_user_page user_page_roundDown)
  next
    case 3
    obtain m1 where m1: "copyout s root dst src len = copyout (s\<lparr>memory := m1\<rparr>) root ?dst (src + ?n) (len - ?n)"
      "copied ?m (\<lambda>i. user_addr ?m root (dst + of_nat i)) (\<lambda>i. src + of_nat i) (unat ?n) m1"
      "\<forall>x. m1 x \<noteq> ?m x \<longrightarrow> roundDown x \<notin> tables ?m root"
      using copyout_step [OF less.prems 3] by blast
    note fr = user_frame [OF less.prems(1) m1(3)]
    have "unat (src + ?n) = unat src + unat ?n"
      using less.prems(3) chunk_le(2) [of dst len] by (intro unat_add_small) simp
    then have "unat (src + ?n) + unat (len - ?n) < 2 ^ 64"
      using rest_split [OF 3(1), of dst] less.prems(3) by linarith
    moreover have "user_range m1 root ?dst (unat (len - ?n))"
      unfolding fr(5) by (rule user_range_rest [OF less.prems(2) 3(1)])
    ultimately have pre: "pt_wf (memory (s\<lparr>memory := m1\<rparr>)) root F"
      "user_range (memory (s\<lparr>memory := m1\<rparr>)) root ?dst (unat (len - ?n))"
      "unat (src + ?n) + unat (len - ?n) < 2 ^ 64" using fr(1) by simp_all
    obtain m' where m': "copyout (s\<lparr>memory := m1\<rparr>) root ?dst (src + ?n) (len - ?n) =
        Inr (all_mapped m1 root ?dst (unat (len - ?n)), s\<lparr>memory := m'\<rparr>)"
      "\<And>x. (\<forall>i < unat (len - ?n). user_page m1 root (?dst + of_nat i) \<noteq> 0 \<longrightarrow>
            x \<noteq> user_addr m1 root (?dst + of_nat i)) \<Longrightarrow> m' x = m1 x"
      using less.hyps [OF chunk_decreases [OF 3(1)] pre] by auto
    have "m' x = ?m x" if x: "\<forall>i < unat len. user_page ?m root (dst + of_nat i) \<noteq> 0 \<longrightarrow>
            x \<noteq> user_addr ?m root (dst + of_nat i)" for x
    proof -
      have "m' x = m1 x"
      proof (rule m'(2), intro allI impI)
        fix i assume i: "i < unat (len - ?n)" "user_page m1 root (?dst + of_nat i) \<noteq> 0"
        then show "x \<noteq> user_addr m1 root (?dst + of_nat i)"
          using x rest_index(2) [OF 3(1) i(1)] unfolding fr rest_index(1) [OF 3(1) i(1)] by blast
      qed
      moreover have "x \<noteq> user_addr ?m root (dst + of_nat i)" if "i < unat ?n" for i
        using x that chunk_le(2) [of dst len] user_addr_chunk(1) [OF that, of ?m root] 3(2) by simp
      ultimately show ?thesis using m1(2) by (simp add: copied_def)
    qed
    moreover have "all_mapped m1 root ?dst (unat (len - ?n)) = all_mapped ?m root dst (unat len)"
      using all_mapped_step [OF 3(1), of ?m root dst] 3(2) by (simp add: all_mapped_def fr)
    ultimately show ?thesis using m1(1) m'(1) by auto
  qed
qed

text \<open>A copy of the rest of a buffer, with its indices read in the whole buffer.\<close>

lemma src_index: "src + chunk a len + of_nat j = src + of_nat (unat (chunk a len) + j)" for src :: u64
  by (simp add: add.assoc)

lemma copyout_copies:
  assumes "pt_wf (memory s) root F" "user_range (memory s) root dst (unat len)"
    "unat src + unat len < 2 ^ 64" "all_mapped (memory s) root dst (unat len)"
    "\<And>i j. i < unat len \<Longrightarrow> j < unat len \<Longrightarrow> src + of_nat i \<noteq> user_addr (memory s) root (dst + of_nat j)"
  shows "\<exists>m'. copyout s root dst src len = Inr (True, s\<lparr>memory := m'\<rparr>) \<and>
    copied (memory s) (\<lambda>i. user_addr (memory s) root (dst + of_nat i)) (\<lambda>i. src + of_nat i) (unat len) m'"
  using assms
proof (induction "unat len" arbitrary: s dst src len rule: less_induct)
  case less
  let ?m = "memory s" and ?n = "chunk dst len" and ?dst = "roundDown dst + PAGE_SIZE"
  show ?case
  proof (cases "len > 0")
    case False
    then show ?thesis by (intro exI [of _ ?m]) (simp add: copyout.simps [of s] copied_def word_gt_0)
  next
    case True
    have pg: "user_page ?m root dst \<noteq> 0"
      and rest: "all_mapped ?m root ?dst (unat (len - ?n))"
      using all_mapped_step [OF True, of ?m root dst] less.prems(4) by auto
    obtain m1 where m1: "copyout s root dst src len = copyout (s\<lparr>memory := m1\<rparr>) root ?dst (src + ?n) (len - ?n)"
      "copied ?m (\<lambda>i. user_addr ?m root (dst + of_nat i)) (\<lambda>i. src + of_nat i) (unat ?n) m1"
      "\<forall>x. m1 x \<noteq> ?m x \<longrightarrow> roundDown x \<notin> tables ?m root"
      using copyout_step [OF less.prems(1-3) True pg] by blast
    let ?s1 = "s\<lparr>memory := m1\<rparr>"
    note fr = user_frame [OF less.prems(1) m1(3)] and idx = rest_index [OF True, of _ dst]
    have "unat (src + ?n) = unat src + unat ?n"
      using less.prems(3) chunk_le(2) [of dst len] by (intro unat_add_small) simp
    then have fits: "unat (src + ?n) + unat (len - ?n) < 2 ^ 64"
      using rest_split [OF True, of dst] less.prems(3) by linarith
    have dis: "src + ?n + of_nat i \<noteq> user_addr (memory ?s1) root (?dst + of_nat j)"
      if "i < unat (len - ?n)" "j < unat (len - ?n)" for i j
      using less.prems(5) [OF idx(2) [OF that(1)] idx(2) [OF that(2)]]
      unfolding src_index idx(1) [OF that(2)] by (simp add: fr)
    have "pt_wf (memory ?s1) root F" "user_range (memory ?s1) root ?dst (unat (len - ?n))"
      "all_mapped (memory ?s1) root ?dst (unat (len - ?n))"
      using fr(1) user_range_rest [OF less.prems(2) True] rest by (simp_all add: fr all_mapped_def)
    from less.hyps [OF chunk_decreases [OF True] this(1,2) fits this(3) dis] obtain m' where
      m': "copyout ?s1 root ?dst (src + ?n) (len - ?n) = Inr (True, s\<lparr>memory := m'\<rparr>)"
      "copied m1 (\<lambda>j. user_addr m1 root (?dst + of_nat j)) (\<lambda>j. src + ?n + of_nat j) (unat (len - ?n)) m'"
      by auto
    have rest_cp: "copied m1 (\<lambda>j. user_addr ?m root (dst + of_nat (unat ?n + j))) (\<lambda>j. src + of_nat (unat ?n + j)) (unat (len - ?n)) m'"
      using m'(2) unfolding fr src_index
      by (rule copied_cong [THEN iffD1, rotated 2]) (simp_all only: idx(1))
    note len = rest_split [OF True, of dst, symmetric]
    have "copied ?m (\<lambda>i. user_addr ?m root (dst + of_nat i)) (\<lambda>i. src + of_nat i) (unat ?n + unat (len - ?n)) m'"
      by (rule copied_append [OF m1(2) rest_cp], unfold len)
        (use less.prems(2,4,5) in \<open>auto simp: user_range_def all_mapped_def\<close>)
    then show ?thesis using m1(1) m'(1) unfolding len by auto
  qed
qed

text \<open>The same for \<open>copyin\<close>: a kernel buffer outside of the tables receives the user bytes.\<close>

lemma copyin_step:
  assumes wf: "pt_wf (memory s) root F" and r: "user_range (memory s) root src (unat len)"
    and dst: "unat dst + unat len < 2 ^ 64" and len: "len > 0" and pg: "user_page (memory s) root src \<noteq> 0"
    and buf: "\<And>i. i < unat len \<Longrightarrow> roundDown (dst + of_nat i) \<notin> tables (memory s) root"
  shows "\<exists>m1. copyin s root dst src len =
      copyin (s\<lparr>memory := m1\<rparr>) root (dst + chunk src len) (roundDown src + PAGE_SIZE) (len - chunk src len) \<and>
    copied (memory s) (\<lambda>i. dst + of_nat i) (\<lambda>i. user_addr (memory s) root (src + of_nat i))
      (unat (chunk src len)) m1 \<and>
    (\<forall>x. m1 x \<noteq> memory s x \<longrightarrow> roundDown x \<notin> tables (memory s) root)"
proof -
  let ?m = "memory s" and ?n = "chunk src len"
  define m1 where "m1 = fst (memmove ?m dst (user_addr ?m root src) ?n)"
  note pa = user_range_first [OF r len pg] and cl = chunk_le(2) [of src len]
  have "copied ?m (\<lambda>i. dst + of_nat i) (\<lambda>i. user_addr ?m root src + of_nat i) (unat ?n) m1"
    unfolding m1_def using dst user_addr_fits [OF pa(1), of len] cl by (intro memmove_copied) auto
  then have cp: "copied ?m (\<lambda>i. dst + of_nat i) (\<lambda>i. user_addr ?m root (src + of_nat i)) (unat ?n) m1"
    using user_addr_chunk(2) [of _ src len ?m root] by (simp cong: copied_cong)
  have "copyin s root dst src len = copyin (s\<lparr>memory := m1\<rparr>) root (dst + ?n) (roundDown src + PAGE_SIZE) (len - ?n)"
    by (subst copyin.simps)
      (simp add: len pg walkAddress_user_page user_page_roundDown m1_def Let_def user_addr_def roundDown_sub)
  moreover have "roundDown x \<notin> tables ?m root" if ch: "m1 x \<noteq> ?m x" for x
    using copied_changed [OF cp ch] buf cl by fastforce
  ultimately show ?thesis using cp by blast
qed

lemma copyin_copies:
  assumes "pt_wf (memory s) root F" "user_range (memory s) root src (unat len)"
    "unat dst + unat len < 2 ^ 64" "all_mapped (memory s) root src (unat len)"
    "\<And>i. i < unat len \<Longrightarrow> roundDown (dst + of_nat i) \<notin> tables (memory s) root"
    "\<And>i j. i < unat len \<Longrightarrow> j < unat len \<Longrightarrow> user_addr (memory s) root (src + of_nat i) \<noteq> dst + of_nat j"
  shows "\<exists>m'. copyin s root dst src len = Inr (True, s\<lparr>memory := m'\<rparr>) \<and>
    copied (memory s) (\<lambda>i. dst + of_nat i) (\<lambda>i. user_addr (memory s) root (src + of_nat i)) (unat len) m'"
  using assms
proof (induction "unat len" arbitrary: s dst src len rule: less_induct)
  case less
  let ?m = "memory s" and ?n = "chunk src len" and ?src = "roundDown src + PAGE_SIZE"
  show ?case
  proof (cases "len > 0")
    case False
    then show ?thesis by (intro exI [of _ ?m]) (simp add: copyin.simps [of s] copied_def word_gt_0)
  next
    case True
    have pg: "user_page ?m root src \<noteq> 0"
      and rest: "all_mapped ?m root ?src (unat (len - ?n))"
      using all_mapped_step [OF True, of ?m root src] less.prems(4) by auto
    obtain m1 where m1: "copyin s root dst src len = copyin (s\<lparr>memory := m1\<rparr>) root (dst + ?n) ?src (len - ?n)"
      "copied ?m (\<lambda>i. dst + of_nat i) (\<lambda>i. user_addr ?m root (src + of_nat i)) (unat ?n) m1"
      "\<forall>x. m1 x \<noteq> ?m x \<longrightarrow> roundDown x \<notin> tables ?m root"
      using copyin_step [OF less.prems(1-3) True pg less.prems(5)] by blast
    let ?s1 = "s\<lparr>memory := m1\<rparr>"
    note fr = user_frame [OF less.prems(1) m1(3)] and idx = rest_index [OF True, of _ src]
    have "unat (dst + ?n) = unat dst + unat ?n"
      using less.prems(3) chunk_le(2) [of src len] by (intro unat_add_small) simp
    then have fits: "unat (dst + ?n) + unat (len - ?n) < 2 ^ 64"
      using rest_split [OF True, of src] less.prems(3) by linarith
    have buf: "roundDown (dst + ?n + of_nat i) \<notin> tables (memory ?s1) root" if "i < unat (len - ?n)" for i
      using less.prems(5) [OF idx(2) [OF that]] unfolding src_index by (simp add: fr)
    have dis: "user_addr (memory ?s1) root (?src + of_nat i) \<noteq> dst + ?n + of_nat j"
      if "i < unat (len - ?n)" "j < unat (len - ?n)" for i j
      using less.prems(6) [OF idx(2) [OF that(1)] idx(2) [OF that(2)]]
      unfolding src_index idx(1) [OF that(1)] by (simp add: fr)
    have "pt_wf (memory ?s1) root F" "user_range (memory ?s1) root ?src (unat (len - ?n))"
      "all_mapped (memory ?s1) root ?src (unat (len - ?n))"
      using fr(1) user_range_rest [OF less.prems(2) True] rest by (simp_all add: fr all_mapped_def)
    from less.hyps [OF chunk_decreases [OF True] this(1,2) fits this(3) buf dis] obtain m' where
      m': "copyin ?s1 root (dst + ?n) ?src (len - ?n) = Inr (True, s\<lparr>memory := m'\<rparr>)"
      "copied m1 (\<lambda>j. dst + ?n + of_nat j) (\<lambda>j. user_addr m1 root (?src + of_nat j)) (unat (len - ?n)) m'"
      by auto
    have rest_cp: "copied m1 (\<lambda>j. dst + of_nat (unat ?n + j)) (\<lambda>j. user_addr ?m root (src + of_nat (unat ?n + j))) (unat (len - ?n)) m'"
      using m'(2) unfolding fr src_index
      by (rule copied_cong [THEN iffD1, rotated 2]) (simp_all only: idx(1))
    note len = rest_split [OF True, of src, symmetric]
    have inj: "i = j" if "i < unat len" "j < unat len" "dst + of_nat i = dst + of_nat j" for i j
    proof -
      have "i < 2 ^ 64" "j < 2 ^ 64" using that unat64_less [of len] by auto
      moreover have "unat (of_nat i :: u64) = unat (of_nat j :: u64)" using that(3) by simp
      ultimately show ?thesis by (simp add: unat_of_nat_small)
    qed
    have "copied ?m (\<lambda>i. dst + of_nat i) (\<lambda>i. user_addr ?m root (src + of_nat i)) (unat ?n + unat (len - ?n)) m'"
      by (rule copied_append [OF m1(2) rest_cp], unfold len) (use inj less.prems(6) in auto)
    then show ?thesis using m1(1) m'(1) unfolding len by auto
  qed
qed

section \<open>A fresh table, and a small machine\<close>

lemma fresh_root:
  assumes "zero_page m root" "page_aligned root" "root \<notin> F"
  shows "pt_wf m root F" "tables m root = {root}" "entry_of m root va = 0"
proof -
  have "child m root i = None" if "i < 512" for i
    using load_zero_page [OF assms(1,2) that] by (simp add: child_def pte_v_def)
  then have one: "node_at m root [i] = None" for i by simp
  have n: "path = []" if "node_at m root path = Some t" for path t
    using that
  proof (induction path arbitrary: t)
    case (Cons i path)
    then have "path = []" by (auto split: option.splits)
    then show ?case using Cons.prems one [of i] by simp
  qed simp
  then have "node_at m root path = Some t \<longleftrightarrow> path = [] \<and> t = root" for path t
    by (metis n node_at.simps(1) option.inject)
  then show tb: "tables m root = {root}" by (simp add: tables_def)
  show "pt_wf m root F" using assms n tb by (auto simp: pt_wf_def dest!: n)
  have "node_at m root (path_of va 0) = None"
    using n [of "path_of va 0"] by (cases "node_at m root (path_of va 0)") (auto simp: path_of_def)
  then show "entry_of m root va = 0" by (simp add: entry_of_def)
qed

text \<open>Six free frames and zeros everywhere else: the state the examples start from.\<close>

definition example_pages :: page_state where
  "example_pages =
     link_page (link_page (link_page (link_page (link_page (link_page
       \<lparr>memory = (\<lambda>_. 0), freeList = 0, lastPage = 0x88000000, kernelPages = 0x80000000\<rparr>
       0x80006000) 0x80005000) 0x80004000) 0x80003000) 0x80002000) 0x80001000"

lemma example_aligned:
  "page_aligned 0x80001000" "page_aligned 0x80002000" "page_aligned 0x80003000" "page_aligned 0x80004000"
  "page_aligned 0x80010000" "page_aligned 0x80011000" "page_aligned 0x1000" "page_aligned 0"
  "page_aligned 0x80005000" "page_aligned 0x80006000" "page_aligned 0x80012000"
  by (simp_all add: page_aligned_mod)

definition spare_pages :: "page_state \<Rightarrow> u64 list \<Rightarrow> bool" where
  "spare_pages s ps \<longleftrightarrow> page_inv s ps \<and> kernelPages s = 0x80000000 \<and> lastPage s = 0x88000000 \<and>
     (\<forall>q. page_aligned q \<longrightarrow> q \<notin> set ps \<longrightarrow> zero_page (memory s) q)"

lemma spare_pages_link:
  assumes "spare_pages s ps" "page_aligned p" "p \<notin> set ps" "0x80000000 \<le> p" "p < 0x88000000"
  shows "spare_pages (link_page s p) (p # ps)"
proof -
  have z: "\<And>q. page_aligned q \<Longrightarrow> q \<notin> set ps \<Longrightarrow> zero_page (memory s) q"
    using assms(1) by (simp add: spare_pages_def)
  then have "memory s (p + 4095) = 0"
    using assms(2,3) roundDown_in_page [OF assms(2), of 4095] by (simp add: zero_page_def)
  moreover have "p \<noteq> 0" using assms(4) by auto
  ultimately have "page_inv (link_page s p) (p # ps)"
    using assms by (intro link_page_inv) (auto simp: spare_pages_def)
  moreover have "zero_page (memory (link_page s p)) q" if "page_aligned q" "q \<notin> set (p # ps)" for q
    using zero_page_same [OF link_page_other [OF assms(2) that(1)]] z [OF that(1)] that(2) by auto
  ultimately show ?thesis using assms(1) by (simp add: spare_pages_def)
qed

lemma example_pages_spare: "spare_pages example_pages [0x80001000, 0x80002000, 0x80003000, 0x80004000, 0x80005000, 0x80006000]"
proof -
  let ?s0 = "\<lparr>memory = (\<lambda>_. 0), freeList = 0, lastPage = 0x88000000, kernelPages = 0x80000000\<rparr>"
  have "spare_pages ?s0 []" by (simp add: spare_pages_def page_inv_def zero_page_def)
  then show ?thesis
    unfolding example_pages_def by (intro spare_pages_link example_aligned) simp_all
qed

lemma example_pages_inv:
  "page_inv example_pages [0x80001000, 0x80002000, 0x80003000, 0x80004000, 0x80005000, 0x80006000]"
  "page_aligned q \<Longrightarrow> q \<notin> {0x80001000, 0x80002000, 0x80003000, 0x80004000, 0x80005000, 0x80006000} \<Longrightarrow> zero_page (memory example_pages) q"
  using example_pages_spare by (auto simp: spare_pages_def)

lemma example_frames:
  "free_frames example_pages {0x80001000, 0x80002000, 0x80003000, 0x80004000, 0x80005000, 0x80006000}"
  "card {0x80001000, 0x80002000, 0x80003000, 0x80004000, 0x80005000, 0x80006000 :: u64} = 6"
  using example_pages_inv(1) by (auto simp: free_frames_def)

lemma example_root:
  "pt_wf (memory example_pages) 0x80010000 {0x80001000, 0x80002000, 0x80003000, 0x80004000, 0x80005000, 0x80006000}"
  "tables (memory example_pages) 0x80010000 = {0x80010000}"
  "entry_of (memory example_pages) 0x80010000 va = 0"
proof -
  have "zero_page (memory example_pages) 0x80010000"
    by (rule example_pages_inv(2) [OF example_aligned(5)]) simp
  from fresh_root [OF this example_aligned(5),
      of "{0x80001000, 0x80002000, 0x80003000, 0x80004000, 0x80005000, 0x80006000}"]
  show "pt_wf (memory example_pages) 0x80010000 {0x80001000, 0x80002000, 0x80003000, 0x80004000, 0x80005000, 0x80006000}"
    "tables (memory example_pages) 0x80010000 = {0x80010000}"
    "entry_of (memory example_pages) 0x80010000 va = 0"
    by simp_all
qed

section \<open>Properties\<close>

definition pages_of :: "u64 \<Rightarrow> u64 \<Rightarrow> nat" where
  "pages_of va sz = (unat (roundDown (va + sz - 1)) - unat (roundDown va)) div 4096 + 1"

lemma map_pages_loop:
  assumes "sz \<noteq> 0" "unat va + unat sz \<le> unat MAX_VIRTUAL_ADDRESS"
  shows "map_pages s root va sz pa flags = map_loop s root (roundDown va) (roundDown (va + sz - 1)) pa flags"
    "roundDown (va + sz - 1) < MAX_VIRTUAL_ADDRESS"
    "unat (roundDown va) + 4096 * (pages_of va sz - 1) = unat (roundDown (va + sz - 1))"
proof -
  have sz: "0 < unat sz" using assms(1) by (simp add: unat_gt_0)
  have M: "unat MAX_VIRTUAL_ADDRESS = 0x4000000000" by (simp add: MAX_VIRTUAL_ADDRESS_eq)
  have "unat (va + sz) = unat va + unat sz" using assms(2) M by (intro unat_add_small) simp
  then have top: "unat (va + sz - 1) = unat va + unat sz - 1"
    using sz by (metis add_is_0 neq0_conv unat_0 unat_pred)
  then have "va + sz - 1 < MAX_VIRTUAL_ADDRESS" using sz assms(2) by (simp add: word_less_nat_alt)
  then show "roundDown (va + sz - 1) < MAX_VIRTUAL_ADDRESS" by (rule roundDown_below)
  have dv: "unat (roundDown x) = 4096 * (unat x div 4096)" for x
    by (simp add: unat_roundDown minus_mod_eq_mult_div)
  have "unat va div 4096 \<le> unat (va + sz - 1) div 4096" using top sz by (intro div_le_mono) simp
  then show "unat (roundDown va) + 4096 * (pages_of va sz - 1) = unat (roundDown (va + sz - 1))"
    by (simp add: pages_of_def dv diff_mult_distrib2 [symmetric])
qed (use assms in \<open>simp add: map_pages_def\<close>)

lemma map_pages_spec:
  assumes "pt_wf (memory s) root F" "free_frames s F" "2 * pages_of va sz \<le> card F"
    "sz \<noteq> 0" "unat va + unat sz \<le> unat MAX_VIRTUAL_ADDRESS"
    "\<forall>page. page_aligned page \<longrightarrow> unat (page - roundDown va) < 4096 * pages_of va sz \<longrightarrow>
       \<not> pte_v (entry_of (memory s) root page)"
  shows "\<exists>s' F'. map_pages s root va sz pa flags = Inr (True, s') \<and>
    pt_wf (memory s') root F' \<and> free_frames s' F' \<and> F' \<subseteq> F \<and>
    tables (memory s') root = tables (memory s) root \<union> (F - F') \<and>
    (\<forall>q. page_aligned q \<longrightarrow> q \<notin> tables (memory s') root \<longrightarrow> same_page q (memory s') (memory s)) \<and>
    (\<forall>page < MAX_VIRTUAL_ADDRESS. page_aligned page \<longrightarrow> entry_of (memory s') root page =
       (if unat (page - roundDown va) < 4096 * pages_of va sz
        then fill_entry (entry_of (memory s) root page) (pa + (page - roundDown va)) flags
        else entry_of (memory s) root page))"
proof -
  obtain k where n: "pages_of va sz = Suc k" by (simp add: pages_of_def)
  note loop = map_pages_loop [OF assms(4,5)]
  have "2 * Suc k \<le> card F" using assms(3) unfolding n .
  moreover have "unat (roundDown va) + 4096 * k = unat (roundDown (va + sz - 1))" using loop(3) unfolding n by simp
  moreover have "\<not> pte_v (entry_of (memory s) root page)"
    if "page_aligned page" "unat (page - roundDown va) < 4096 * Suc k" for page
    using assms(6) that unfolding n by blast
  ultimately obtain s' F' where "map_loop s root (roundDown va) (roundDown (va + sz - 1)) pa flags = Inr (True, s')"
    "pt_wf (memory s') root F'" "free_frames s' F'" "remapped root (memory s) F (memory s') F'"
    "\<forall>page < MAX_VIRTUAL_ADDRESS. page_aligned page \<longrightarrow> entry_of (memory s') root page =
       map_effect (entry_of (memory s) root) (roundDown va) pa flags (Suc k) page"
    using map_loop_maps [OF assms(1,2) _ page_aligned_roundDown _ loop(2), of k va pa flags] by blast
  then show ?thesis
    unfolding loop(1) n remapped_def map_effect_def
    by (intro exI [of _ s'] exI [of _ F'] conjI) (simp_all, blast?)
qed

text \<open>
  C4: \<open>PageTable::map\<close> refines a function update. On a well-formed tree, with enough free frames
  for new tables and no page of the range mapped yet, it succeeds; afterwards the leaf entries are
  those of before except for the pages of the range, which get the physical page at the same
  distance, the flags and the valid bit; the tree is well-formed again, the new tables come from
  the free frames, and no other page of memory changes.
\<close>

theorem map_pages_correct:
  assumes "pt_wf (memory s) root F" "free_frames s F" "2 * pages_of va sz \<le> card F"
    "sz \<noteq> 0" "unat va + unat sz \<le> unat MAX_VIRTUAL_ADDRESS"
    "\<forall>page. page_aligned page \<longrightarrow> unat (page - roundDown va) < 4096 * pages_of va sz \<longrightarrow>
       \<not> pte_v (entry_of (memory s) root page)"
  shows "\<exists>s' F'. map_pages s root va sz pa flags = Inr (True, s') \<and>
    pt_wf (memory s') root F' \<and> free_frames s' F' \<and> F' \<subseteq> F \<and>
    tables (memory s') root = tables (memory s) root \<union> (F - F') \<and>
    (\<forall>q. page_aligned q \<longrightarrow> q \<notin> tables (memory s') root \<longrightarrow> same_page q (memory s') (memory s)) \<and>
    (\<forall>page < MAX_VIRTUAL_ADDRESS. page_aligned page \<longrightarrow> entry_of (memory s') root page =
       (if unat (page - roundDown va) < 4096 * pages_of va sz
        then fill_entry (entry_of (memory s) root page) (pa + (page - roundDown va)) flags
        else entry_of (memory s) root page))"
  using assms by (rule map_pages_spec)

theorem map_pages_correct_witness:
  "\<exists>s' F'. map_pages example_pages 0x80010000 0x1000 4096 0x80011000 0x16 = Inr (True, s') \<and>
     pt_wf (memory s') 0x80010000 F' \<and>
     entry_of (memory s') 0x80010000 0x1000 = fill_entry 0 0x80011000 0x16"
proof -
  have n: "pages_of 0x1000 4096 = 1" by (simp add: pages_of_def unat_roundDown)
  have r: "roundDown 0x1000 = 0x1000" by (simp add: example_aligned)
  have M: "(0x1000 :: u64) < MAX_VIRTUAL_ADDRESS" by (simp add: MAX_VIRTUAL_ADDRESS_eq)
  show ?thesis
    using map_pages_correct [OF example_root(1) example_frames(1), of "0x1000" 4096 "0x80011000" "0x16"]
      example_aligned(7) M
    by (fastforce simp: n r example_root(3) pte_v_def example_frames(2) MAX_VIRTUAL_ADDRESS_eq)
qed

lemma page_aligned_diff:
  assumes "page_aligned a" "page_aligned b"
  shows "page_aligned (a - b)"
proof -
  have "page_aligned (- b)"
  proof (cases "b = 0")
    case False
    then have "unat (- b) = 2 ^ 64 - unat b" using unat_diff_gt [of 0 b] by (simp add: word_gt_0)
    then show ?thesis
      using assms(2) unat64_less [of b] by (simp add: page_aligned_mod mod_eq_0_iff_dvd dvd_diff_nat)
  qed (use assms in simp)
  then show ?thesis using page_aligned_add [OF assms(1)] by (metis add_uminus_conv_diff)
qed

lemma fill_entry_fields:
  assumes "page_aligned pa" "flags < 1024"
  shows "pte_v (fill_entry 0 pa flags)" "pte_u (fill_entry 0 pa flags) = bit flags 4"
    "toPhysicalAddress (fill_entry 0 pa flags) = pa"
proof -
  let ?f = "ucast flags OR 1 :: u64"
  have e: "fill_entry 0 pa flags = fromPhysicalAddress pa OR ?f"
    by (simp add: fill_entry_def set_pte_v_def fromPhysicalAddress_def or.commute)
  have "take_bit 10 flags = flags"
    using assms(2) by (simp add: word_unat_eq_iff unsigned_take_bit_eq take_bit_nat_eq_self word_less_nat_alt)
  then have "\<not> bit flags i" if "10 \<le> i" for i using that by (metis bit_take_bit_iff not_le)
  then have low: "\<not> bit ?f i" if "10 \<le> i" for i using that by (auto simp: bit_simps)
  show "toPhysicalAddress (fill_entry 0 pa flags) = pa" unfolding e by (rule to_from_physical [OF assms(1) low])
  show "pte_v (fill_entry 0 pa flags)" "pte_u (fill_entry 0 pa flags) = bit flags 4"
    unfolding e by (auto simp: pte_v_def pte_u_def bit_simps bit_fromPhysicalAddress)
qed

text \<open>
  C31: mapping then translating. After \<open>map\<close> of fresh pages with flags that include the user bit,
  \<open>walkAddress\<close> of any address of the range yields the physical page at the same distance; without
  the user bit it yields 0.
\<close>

theorem map_then_walkAddress:
  assumes "pt_wf (memory s) root F" "free_frames s F" "2 * pages_of va sz \<le> card F"
    "sz \<noteq> 0" "unat va + unat sz \<le> unat MAX_VIRTUAL_ADDRESS"
    "\<forall>page. page_aligned page \<longrightarrow> unat (page - roundDown va) < 4096 * pages_of va sz \<longrightarrow>
       entry_of (memory s) root page = 0"
    "page_aligned pa" "flags < 1024"
    "a < MAX_VIRTUAL_ADDRESS" "unat (roundDown a - roundDown va) < 4096 * pages_of va sz"
  shows "\<exists>s'. map_pages s root va sz pa flags = Inr (True, s') \<and>
    walkAddress s' root a = Inr (if bit flags 4 then pa + (roundDown a - roundDown va) else 0)"
proof -
  have "\<not> pte_v 0" by (simp add: pte_v_def)
  then obtain s' where s': "map_pages s root va sz pa flags = Inr (True, s')"
    "\<forall>page < MAX_VIRTUAL_ADDRESS. page_aligned page \<longrightarrow> entry_of (memory s') root page =
       (if unat (page - roundDown va) < 4096 * pages_of va sz
        then fill_entry (entry_of (memory s) root page) (pa + (page - roundDown va)) flags
        else entry_of (memory s) root page)"
    using map_pages_spec [OF assms(1-5), of pa flags] assms(6) by auto
  let ?p = "pa + (roundDown a - roundDown va)"
  have "entry_of (memory s') root (roundDown a) = fill_entry 0 ?p flags"
    using s'(2) assms(6,10) roundDown_below [OF assms(9)] by simp
  then have e: "entry_of (memory s') root a = fill_entry 0 ?p flags" by (simp add: entry_of_roundDown)
  have "page_aligned (roundDown a - roundDown va)"
    using page_aligned_roundDown [of a] page_aligned_roundDown [of va]
    by (metis page_aligned_diff)
  then have "page_aligned ?p" using assms(7) by (rule page_aligned_add [rotated])
  note f = fill_entry_fields [OF this assms(8)]
  show ?thesis using s'(1) assms(9) by (simp add: walkAddress_entry e f)
qed

theorem map_then_walkAddress_witness:
  "\<exists>s'. map_pages example_pages 0x80010000 0x1000 4096 0x80011000 0x16 = Inr (True, s') \<and>
     walkAddress s' 0x80010000 0x1234 = Inr 0x80011000"
proof -
  have n: "pages_of 0x1000 4096 = 1" by (simp add: pages_of_def unat_roundDown)
  have r: "roundDown 0x1000 = 0x1000" "roundDown 0x1234 = 0x1000" by (simp_all add: roundDown_def PAGE_SIZE_def)
  show ?thesis
    using map_then_walkAddress [OF example_root(1) example_frames(1), of "0x1000" 4096 "0x80011000" "0x16" "0x1234"]
      example_aligned(6)
    by (simp add: n r example_root(3) example_frames(2) MAX_VIRTUAL_ADDRESS_eq)
qed

text \<open>
  C32: a page is never mapped twice: \<open>map\<close> on a range whose first page has a valid entry stops at
  the assertion, whatever the permissions; so does a walk above the end of the address space and a
  mapping of size zero.
\<close>

theorem map_pages_rejects:
  assumes "pt_wf (memory s) root F" "free_frames s F" "2 \<le> card F"
  shows "map_pages s root va 0 pa flags = Inl AssertionFailed \<and>
    (va \<ge> MAX_VIRTUAL_ADDRESS \<longrightarrow> map_pages s root va sz pa flags = Inl AssertionFailed) \<and>
    (va < MAX_VIRTUAL_ADDRESS \<longrightarrow> pte_v (entry_of (memory s) root va) \<longrightarrow>
      map_pages s root va sz pa flags = Inl AssertionFailed)"
proof (intro conjI impI)
  show "map_pages s root va 0 pa flags = Inl AssertionFailed" by (simp add: map_pages_def)
  show "map_pages s root va sz pa flags = Inl AssertionFailed" if "va \<ge> MAX_VIRTUAL_ADDRESS"
  proof -
    have "\<not> roundDown va < MAX_VIRTUAL_ADDRESS" using that by (simp add: roundDown_MAX not_less)
    then show ?thesis by (simp add: map_pages_def assert_that_def map_loop.simps [of s] walk_def)
  qed
  show "map_pages s root va sz pa flags = Inl AssertionFailed"
    if "va < MAX_VIRTUAL_ADDRESS" "pte_v (entry_of (memory s) root va)"
  proof -
    have "roundDown va < MAX_VIRTUAL_ADDRESS" using that(1) by (rule roundDown_below)
    then obtain s1 pte where "walk s root (roundDown va) True = Inr (Some pte, s1)"
      "load64 (memory s1) pte = entry_of (memory s) root (roundDown va)"
      using walk_then_store [OF assms] by blast
    then show ?thesis
      using that(2) by (simp add: map_pages_def assert_that_def map_loop.simps [of s] entry_of_roundDown)
  qed
qed

theorem map_pages_rejects_witness:
  "map_pages example_pages 0x80010000 MAX_VIRTUAL_ADDRESS 4096 0x80011000 0x16 = Inl AssertionFailed"
  using map_pages_rejects [OF example_root(1) example_frames(1), of MAX_VIRTUAL_ADDRESS "0x80011000" "0x16" 4096]
  by (simp add: example_frames(2))

text \<open>
  C5: \<open>copyout\<close> always returns, and its answer is whether every byte of the destination is mapped for
  the user. If so, the destination bytes hold the source bytes and nothing else has changed; if
  not, only mapped bytes of the destination may have changed.
\<close>

theorem copyout_correct:
  assumes "pt_wf (memory s) root F" "user_range (memory s) root dst (unat len)"
    "unat src + unat len < 2 ^ 64"
    "\<forall>i < unat len. \<forall>j < unat len. src + of_nat i \<noteq> user_addr (memory s) root (dst + of_nat j)"
  shows "\<exists>m'. copyout s root dst src len =
      Inr (all_mapped (memory s) root dst (unat len), s\<lparr>memory := m'\<rparr>) \<and>
    (all_mapped (memory s) root dst (unat len) \<longrightarrow>
      (\<forall>i < unat len. m' (user_addr (memory s) root (dst + of_nat i)) = memory s (src + of_nat i))) \<and>
    (\<forall>x. (\<forall>i < unat len. user_page (memory s) root (dst + of_nat i) \<noteq> 0 \<longrightarrow>
            x \<noteq> user_addr (memory s) root (dst + of_nat i)) \<longrightarrow> m' x = memory s x)"
proof (cases "all_mapped (memory s) root dst (unat len)")
  case True
  then obtain m' where "copyout s root dst src len = Inr (True, s\<lparr>memory := m'\<rparr>)"
    "copied (memory s) (\<lambda>i. user_addr (memory s) root (dst + of_nat i)) (\<lambda>i. src + of_nat i) (unat len) m'"
    using copyout_copies [OF assms(1-3) True] assms(4) by blast
  then show ?thesis using True by (auto simp: copied_def all_mapped_def)
next
  case False
  then show ?thesis using copyout_answer [OF assms(1-3)] by auto
qed

text \<open>A table with one user page, for the examples on user memory.\<close>

definition example_user :: page_state where
  "example_user =
     (case map_pages example_pages 0x80010000 0x1000 4096 0x80011000 0x16 of
        Inr (_, s) \<Rightarrow> s | Inl _ \<Rightarrow> example_pages)"

lemma example_user_table:
  "\<exists>F. pt_wf (memory example_user) 0x80010000 F \<and> 0x80011000 \<notin> tables (memory example_user) 0x80010000 \<and>
     0x80020000 \<notin> tables (memory example_user) 0x80010000"
  "unat (a - 0x1000) < 4096 \<Longrightarrow> user_page (memory example_user) 0x80010000 a = 0x80011000"
  "zero_page (memory example_user) 0x80011000"
proof -
  let ?m = "memory example_pages"
  have n: "pages_of 0x1000 4096 = 1" by (simp add: pages_of_def unat_roundDown)
  have r: "roundDown 0x1000 = 0x1000" by (simp add: example_aligned)
  have v0: "\<not> pte_v 0" by (simp add: pte_v_def)
  obtain s' F' where s': "map_pages example_pages 0x80010000 0x1000 4096 0x80011000 0x16 = Inr (True, s')"
    "pt_wf (memory s') 0x80010000 F'"
    "tables (memory s') 0x80010000 = {0x80010000} \<union> ({0x80001000, 0x80002000, 0x80003000, 0x80004000, 0x80005000, 0x80006000} - F')"
    "\<forall>page < MAX_VIRTUAL_ADDRESS. page_aligned page \<longrightarrow> unat (page - 0x1000) < 4096 \<longrightarrow>
       entry_of (memory s') 0x80010000 page = fill_entry 0 (0x80011000 + (page - 0x1000)) 0x16"
    "\<forall>q. page_aligned q \<longrightarrow> q \<notin> tables (memory s') 0x80010000 \<longrightarrow> same_page q (memory s') (memory example_pages)"
    using map_pages_spec [OF example_root(1) example_frames(1), of "0x1000" 4096 "0x80011000" "0x16"]
    unfolding n r example_root by (auto simp: v0 example_frames(2) MAX_VIRTUAL_ADDRESS_eq)
  then have ex: "example_user = s'" by (simp add: example_user_def)
  show "\<exists>F. pt_wf (memory example_user) 0x80010000 F \<and> 0x80011000 \<notin> tables (memory example_user) 0x80010000 \<and>
     0x80020000 \<notin> tables (memory example_user) 0x80010000"
    unfolding ex using s'(2,3) by auto
  have "zero_page (memory example_pages) 0x80011000"
    by (rule example_pages_inv(2) [OF example_aligned(6)]) simp
  moreover have "same_page 0x80011000 (memory s') (memory example_pages)"
    using s'(3,5) example_aligned(6) by auto
  ultimately show "zero_page (memory example_user) 0x80011000" unfolding ex using zero_page_same by blast
  show "user_page (memory example_user) 0x80010000 a = 0x80011000" if "unat (a - 0x1000) < 4096"
  proof -
    have rd: "roundDown a = 0x1000" using that in_page_iff [of "0x1000" a] example_aligned(7) by simp
    then have a: "a < MAX_VIRTUAL_ADDRESS" using roundDown_MAX [of a] by (simp add: MAX_VIRTUAL_ADDRESS_eq)
    have "entry_of (memory s') 0x80010000 a = fill_entry 0 0x80011000 0x16"
      using s'(4) example_aligned(7) entry_of_roundDown [of "memory s'" "0x80010000" a] rd
      by (simp add: MAX_VIRTUAL_ADDRESS_eq)
    moreover have "bit (0x16 :: u16) 4" by (simp add: bit_iff_odd)
    ultimately show ?thesis
      unfolding ex user_page_def using a fill_entry_fields [OF example_aligned(6), of "0x16"] by (simp add: Let_def)
  qed
qed

lemma example_range:
  assumes "i < 16"
  shows "user_page (memory example_user) 0x80010000 (0x1000 + of_nat i) = 0x80011000"
    "user_addr (memory example_user) 0x80010000 (0x1000 + of_nat i) = 0x80011000 + of_nat i"
proof -
  have "unat (0x1000 + of_nat i - 0x1000 :: u64) = i" using assms by (simp add: unat_of_nat_small)
  then show "user_page (memory example_user) 0x80010000 (0x1000 + of_nat i) = 0x80011000"
    using assms by (intro example_user_table(2)) simp
  have "chunk 0x1000 16 = 16" by (simp add: chunk_def roundDown_def PAGE_SIZE_def)
  then show "user_addr (memory example_user) 0x80010000 (0x1000 + of_nat i) = 0x80011000 + of_nat i"
    using assms user_addr_chunk(2) [of i "0x1000" 16] example_user_table(2) [of "0x1000"]
    by (simp add: user_addr_def pageOffset_def mask_eq_exp_minus_1)
qed

lemma small_offsets:
  "i < 16 \<Longrightarrow> j < 16 \<Longrightarrow> a + of_nat i = a + of_nat j \<Longrightarrow> i = j"
  "i < 16 \<Longrightarrow> j < 16 \<Longrightarrow> 0x80020000 + of_nat i \<noteq> (0x80011000 :: u64) + of_nat j"
  "i < 16 \<Longrightarrow> roundDown (0x80020000 + of_nat i) = 0x80020000" for a :: u64
proof -
  show "i = j" if "i < 16" "j < 16" "a + of_nat i = a + of_nat j"
  proof -
    have "unat (of_nat i :: u64) = unat (of_nat j :: u64)" using that(3) by simp
    then show ?thesis using that(1,2) by (simp add: unat_of_nat_small)
  qed
  show "0x80020000 + of_nat i \<noteq> (0x80011000 :: u64) + of_nat j" if "i < 16" "j < 16"
  proof
    assume "0x80020000 + of_nat i = (0x80011000 :: u64) + of_nat j"
    then have "(of_nat (0x80020000 + i) :: u64) = of_nat (0x80011000 + j)" by simp
    then have "unat (of_nat (0x80020000 + i) :: u64) = unat (of_nat (0x80011000 + j) :: u64)" by (simp only:)
    then show False using that by (simp add: unat_of_nat_small del: of_nat_add)
  qed
  show "roundDown (0x80020000 + of_nat i) = 0x80020000" if "i < 16"
    using that by (intro roundDown_in_page) (simp_all add: page_aligned_mod)
qed

lemma example_user_range:
  "user_range (memory example_user) 0x80010000 0x1000 16"
  "all_mapped (memory example_user) 0x80010000 0x1000 16"
  using example_range example_user_table(1) small_offsets(1) [of _ _ "0x80011000"]
  by (auto simp: user_range_def all_mapped_def physicalAddressStop_def KERNEL_BASE_def)

theorem copyout_correct_witness:
  "\<exists>m'. copyout example_user 0x80010000 0x1000 0x80020000 16 = Inr (True, example_user\<lparr>memory := m'\<rparr>) \<and>
     (\<forall>i < 16. m' (0x80011000 + of_nat i) = memory example_user (0x80020000 + of_nat i))"
proof -
  obtain F where F: "pt_wf (memory example_user) 0x80010000 F" using example_user_table(1) by blast
  show ?thesis
    using copyout_correct [OF F, of "0x1000" 16 "0x80020000"] example_user_range small_offsets(2)
    by (auto simp: example_range)
qed

text \<open>
  C33: user memory keeps what the kernel puts there: bytes written with \<open>copyout\<close> to a mapped user
  range come back with \<open>copyin\<close> from the same range, into any kernel buffer that is not part of the
  page tables or of the range.
\<close>

theorem copyout_copyin_round_trip:
  assumes "pt_wf (memory s) root F" "user_range (memory s) root a (unat len)"
    "all_mapped (memory s) root a (unat len)"
    "unat src + unat len < 2 ^ 64" "unat buf + unat len < 2 ^ 64"
    "\<forall>i < unat len. \<forall>j < unat len. src + of_nat i \<noteq> user_addr (memory s) root (a + of_nat j)"
    "\<forall>i < unat len. \<forall>j < unat len. buf + of_nat i \<noteq> user_addr (memory s) root (a + of_nat j)"
    "\<forall>i < unat len. roundDown (buf + of_nat i) \<notin> tables (memory s) root"
  shows "\<exists>s1 s2. copyout s root a src len = Inr (True, s1) \<and> copyin s1 root buf a len = Inr (True, s2) \<and>
    (\<forall>i < unat len. memory s2 (buf + of_nat i) = memory s (src + of_nat i))"
proof -
  let ?m = "memory s" and ?A = "\<lambda>i. user_addr (memory s) root (a + of_nat i)"
  obtain m1 where m1: "copyout s root a src len = Inr (True, s\<lparr>memory := m1\<rparr>)"
    "copied ?m ?A (\<lambda>i. src + of_nat i) (unat len) m1"
    using copyout_copies [OF assms(1,2,4,3)] assms(6) by blast
  have "\<forall>x. m1 x \<noteq> ?m x \<longrightarrow> roundDown x \<notin> tables ?m root"
  proof (intro allI impI)
    fix x assume "m1 x \<noteq> ?m x"
    then obtain i where i: "i < unat len" "x = ?A i" using copied_changed [OF m1(2)] by blast
    then show "roundDown x \<notin> tables ?m root" using assms(2,3) by (simp add: user_range_def all_mapped_def)
  qed
  note fr = user_frame [OF assms(1) this]
  let ?s1 = "s\<lparr>memory := m1\<rparr>"
  have "pt_wf (memory ?s1) root F" "user_range (memory ?s1) root a (unat len)"
    "all_mapped (memory ?s1) root a (unat len)"
    using fr assms(2,3) by (simp_all add: all_mapped_def)
  moreover have "?A i \<noteq> buf + of_nat j" if "i < unat len" "j < unat len" for i j
    using assms(7) that by metis
  ultimately obtain m2 where m2: "copyin ?s1 root buf a len = Inr (True, s\<lparr>memory := m2\<rparr>)"
    "copied m1 (\<lambda>i. buf + of_nat i) ?A (unat len) m2"
    using copyin_copies [of ?s1 root F a len buf] assms(5,8) by (auto simp: fr)
  have "m2 (buf + of_nat i) = ?m (src + of_nat i)" if "i < unat len" for i
    using that m1(2) m2(2) by (simp add: copied_def)
  then show ?thesis using m1(1) m2(1) by auto
qed

theorem copyout_copyin_round_trip_witness:
  "\<exists>s1 s2. copyout example_user 0x80010000 0x1000 0x80020000 16 = Inr (True, s1) \<and>
     copyin s1 0x80010000 0x80020000 0x1000 16 = Inr (True, s2) \<and>
     (\<forall>i < 16. memory s2 (0x80020000 + of_nat i) = memory example_user (0x80020000 + of_nat i))"
proof -
  obtain F where F: "pt_wf (memory example_user) 0x80010000 F"
    "0x80020000 \<notin> tables (memory example_user) 0x80010000" using example_user_table(1) by blast
  show ?thesis
    using copyout_copyin_round_trip [OF F(1), of "0x1000" 16 "0x80020000" "0x80020000"]
      example_user_range small_offsets(2,3) F(2)
    by (simp add: example_range)
qed

end
