(* ===== verification/Mem_User.thy ===== *)
theory Mem_User
  imports Mem_PageTable
begin

unbundle bit_operations_syntax

text \<open>
  User address spaces and the kernel's own: \<open>kernel/memory/uvm.cpp\<close>, \<open>copy.cpp\<close> and \<open>kvm.cpp\<close>, on top
  of the page tables. The symbols \<open>endOfText\<close> and \<open>orfos_trampoline\<close> of the linker script are
  arguments; the page table of the running process, which \<open>copy.cpp\<close> reads from the processor's
  state, is an argument too.
\<close>

section \<open>Model\<close>

definition deallocateUserVirtualMemory :: "page_state \<Rightarrow> u64 \<Rightarrow> u64 \<Rightarrow> u64 \<Rightarrow> u64 \<times> page_state" where
  "deallocateUserVirtualMemory s table oldSize newSize =
     (if newSize \<ge> oldSize then (oldSize, s)
      else if roundUp newSize < roundUp oldSize
      then (let numPages = (roundUp oldSize - roundUp newSize) div PAGE_SIZE
            in (newSize, unmap s table (roundUp newSize) numPages True))
      else (newSize, s))"

definition user_flags :: "u32 \<Rightarrow> u16" where
  "user_flags xperm = ucast (PTE_R OR PTE_U OR scast xperm)"

lemma map_pages_below:
  assumes "map_pages s table va sz pa flags = Inr r"
  shows "va < MAX_VIRTUAL_ADDRESS"
proof (rule ccontr)
  assume "\<not> va < MAX_VIRTUAL_ADDRESS"
  then have "\<not> roundDown va < MAX_VIRTUAL_ADDRESS" by (simp add: roundDown_MAX)
  then show False using assms
    by (simp add: map_pages_def assert_that_def map_loop.simps [of s] walk_def split: if_splits)
qed

lemma below_max_decreases:
  assumes "i < MAX_VIRTUAL_ADDRESS"
  shows "unat MAX_VIRTUAL_ADDRESS + 4096 - unat (i + PAGE_SIZE) < unat MAX_VIRTUAL_ADDRESS + 4096 - unat i"
proof -
  have "unat i < 0x4000000000" using assms by (simp add: MAX_VIRTUAL_ADDRESS_eq word_less_nat_alt)
  moreover have "unat (i + PAGE_SIZE) = unat i + 4096" using calculation by (intro unat_next_page) simp
  ultimately show ?thesis by (simp add: MAX_VIRTUAL_ADDRESS_eq)
qed

function allocate_loop :: "page_state \<Rightarrow> u64 \<Rightarrow> u64 \<Rightarrow> u64 \<Rightarrow> u64 \<Rightarrow> u32 \<Rightarrow> (u64 \<times> page_state) outcome" where
  "allocate_loop s table addr oldSize newSize xperm =
     (if addr < newSize then
        case page_allocate s of
          Inl e \<Rightarrow> Inl e
        | Inr (page, s1) \<Rightarrow>
            if page = 0 then Inr (0, snd (deallocateUserVirtualMemory s1 table addr oldSize))
            else
              case map_pages s1 table addr PAGE_SIZE page (user_flags xperm) of
                Inl e \<Rightarrow> Inl e
              | Inr (False, s2) \<Rightarrow>
                  andThen (page_free s2 page) (\<lambda>s3.
                    Inr (0, snd (deallocateUserVirtualMemory s3 table addr oldSize)))
              | Inr (True, s2) \<Rightarrow> allocate_loop s2 table (addr + PAGE_SIZE) oldSize newSize xperm
      else Inr (newSize, s))"
  by pat_completeness auto
termination
  by (relation "measure (\<lambda>(s, table, addr, oldSize, newSize, xperm). unat MAX_VIRTUAL_ADDRESS + 4096 - unat addr)")
    (auto intro!: below_max_decreases dest: map_pages_below)

definition allocateUserVirtualMemory ::
    "page_state \<Rightarrow> u64 \<Rightarrow> u64 \<Rightarrow> u64 \<Rightarrow> u32 \<Rightarrow> (u64 \<times> page_state) outcome" where
  "allocateUserVirtualMemory s table oldSize newSize xperm =
     (if newSize < oldSize then Inr (oldSize, s)
      else allocate_loop s table (roundUp oldSize) (roundUp oldSize) newSize xperm)"

definition clearUserVirtualMemory :: "page_state \<Rightarrow> u64 \<Rightarrow> u64 \<Rightarrow> page_state outcome" where
  "clearUserVirtualMemory s table va =
     andThen (walk s table va False) (\<lambda>(pte, s1).
       case pte of
         None \<Rightarrow> Inl AssertionFailed
       | Some pte \<Rightarrow> Inr (s1\<lparr>memory := store64 (memory s1) pte (clear_pte_u (load64 (memory s1) pte))\<rparr>))"

lemma walk_below: "walk s table va b = Inr r \<Longrightarrow> va < MAX_VIRTUAL_ADDRESS"
  by (simp add: walk_def outcome_simps)

function copy_loop :: "page_state \<Rightarrow> u64 \<Rightarrow> u64 \<Rightarrow> u64 \<Rightarrow> u64 \<Rightarrow> page_state outcome" where
  "copy_loop s oldTable newTable sz i =
     (if i < sz then
        case walk s oldTable i False of
          Inl e \<Rightarrow> Inl e
        | Inr (None, s1) \<Rightarrow> Inl AssertionFailed
        | Inr (Some pte, s1) \<Rightarrow>
            let raw = load64 (memory s1) pte in
            if \<not> pte_v raw then Inl AssertionFailed
            else
              let pa = toPhysicalAddress raw;
                  flags = pte_flags raw
              in case operator_new s1 PAGE_SIZE of
                   Inl e \<Rightarrow> Inl e
                 | Inr (page, s2) \<Rightarrow>
                     let s3 = s2\<lparr>memory := fst (memmove (memory s2) page pa PAGE_SIZE)\<rparr>
                     in case map_pages s3 newTable i PAGE_SIZE page flags of
                          Inl e \<Rightarrow> Inl e
                        | Inr (_, s4) \<Rightarrow> copy_loop s4 oldTable newTable sz (i + PAGE_SIZE)
      else Inr s)"
  by pat_completeness auto
termination
  by (relation "measure (\<lambda>(s, oldTable, newTable, sz, i). unat MAX_VIRTUAL_ADDRESS + 4096 - unat i)")
    (auto intro!: below_max_decreases dest: map_pages_below)

definition copyUserVirtualMemory :: "page_state \<Rightarrow> u64 \<Rightarrow> u64 \<Rightarrow> u64 \<Rightarrow> page_state outcome" where
  "copyUserVirtualMemory s oldTable newTable sz = copy_loop s oldTable newTable sz 0"

definition eitherCopyout :: "page_state \<Rightarrow> u64 \<Rightarrow> bool \<Rightarrow> u64 \<Rightarrow> u64 \<Rightarrow> u64 \<Rightarrow> (bool \<times> page_state) outcome" where
  "eitherCopyout s current userDst dst src len =
     (if userDst then copyout s current dst src len
      else Inr (True, s\<lparr>memory := fst (memmove (memory s) dst src len)\<rparr>))"

definition eitherCopyin :: "page_state \<Rightarrow> u64 \<Rightarrow> u64 \<Rightarrow> bool \<Rightarrow> u64 \<Rightarrow> u64 \<Rightarrow> (bool \<times> page_state) outcome" where
  "eitherCopyin s current dst userSrc src len =
     (if userSrc then copyin s current dst src len
      else Inr (True, s\<lparr>memory := fst (memmove (memory s) dst src len)\<rparr>))"

definition UART_BASE :: u64 where "UART_BASE = 0x10000000"

definition VIRTIO_BASE :: u64 where "VIRTIO_BASE = 0x10001000"

definition PLIC :: u64 where "PLIC = 0x0c000000"

text \<open>The results of the six \<open>map\<close> calls are discarded by the code; a failed assertion stops it.\<close>

definition initializeKvm :: "page_state \<Rightarrow> u64 \<Rightarrow> u64 \<Rightarrow> (u64 \<times> page_state) outcome" where
  "initializeKvm s eot trampoline =
     andThen (page_allocate s) (\<lambda>(table, s0).
     andThen (map_pages (new_PageTable s0 table) table UART_BASE PAGE_SIZE UART_BASE (ucast (PTE_R OR PTE_W))) (\<lambda>(_, s1).
     andThen (map_pages s1 table VIRTIO_BASE PAGE_SIZE VIRTIO_BASE (ucast (PTE_R OR PTE_W))) (\<lambda>(_, s2).
     andThen (map_pages s2 table PLIC 0x400000 PLIC (ucast (PTE_R OR PTE_W))) (\<lambda>(_, s3).
     andThen (map_pages s3 table KERNEL_BASE (eot - KERNEL_BASE) KERNEL_BASE (ucast (PTE_R OR PTE_X))) (\<lambda>(_, s4).
     andThen (map_pages s4 table eot (physicalAddressStop - eot) eot (ucast (PTE_R OR PTE_W))) (\<lambda>(_, s5).
     andThen (map_pages s5 table TRAMPOLINE PAGE_SIZE trampoline (ucast (PTE_R OR PTE_X))) (\<lambda>(_, s6).
       Inr (table, s6))))))))"

text \<open>The value a hart writes to \<open>satp\<close> between two address translation fences.\<close>

definition initializeKvmHart :: "u64 \<Rightarrow> u64" where
  "initializeKvmHart kernelPageTable = makeSatp kernelPageTable"

declare allocate_loop.simps [simp del] copy_loop.simps [simp del]

section \<open>One page at a time\<close>

lemma aligned_last_byte: "page_aligned va \<Longrightarrow> roundDown (va + PAGE_SIZE - 1) = va"
  using roundDown_in_page [of va 4095] by (simp add: PAGE_SIZE_def add.commute)

lemma map_one_page:
  assumes "pt_wf (memory s) root F" "free_frames s F" "2 \<le> card F"
    "page_aligned va" "va < MAX_VIRTUAL_ADDRESS" "entry_of (memory s) root va = 0"
  shows "\<exists>s' F'. map_pages s root va PAGE_SIZE pa flags = Inr (True, s') \<and>
    pt_wf (memory s') root F' \<and> free_frames s' F' \<and> card F \<le> card F' + 2 \<and>
    remapped root (memory s) F (memory s') F' \<and>
    (\<forall>page < MAX_VIRTUAL_ADDRESS. page_aligned page \<longrightarrow>
       entry_of (memory s') root page = ((entry_of (memory s) root)(va := fill_entry 0 pa flags)) page)"
proof -
  have "map_pages s root va PAGE_SIZE pa flags = map_loop s root va va pa flags"
    using assms(4) by (simp add: map_pages_def aligned_last_byte) (simp add: PAGE_SIZE_def)
  moreover have "\<not> pte_v 0" by (simp add: pte_v_def)
  ultimately show ?thesis
    using map_loop_step [OF assms(1-5), of va pa flags] assms(6) by auto
qed

lemma frames_facts:
  assumes "pt_wf m root F" "free_frames s F"
  shows "finite F" "p \<in> F \<Longrightarrow> p \<notin> tables m root" "p \<in> F \<Longrightarrow> page_aligned p" "p \<in> F \<Longrightarrow> p \<noteq> 0"
  using assms free_chain_nonzero by (auto simp: pt_wf_def free_frames_def page_inv_def)

section \<open>Contract of a page mapper\<close>

text \<open>
  What the makers of address spaces (processes, the loader) rely on: a page is mapped in a tree of tables at the price of at
  most two frames, and trees that share no page with it stay as they are. \<open>touched T s s'\<close> says that only pages of
  \<open>T\<close> differ.
\<close>

locale page_mapper =
  fixes frames :: "'s \<Rightarrow> u64 set \<Rightarrow> bool"
    and tree :: "'s \<Rightarrow> u64 \<Rightarrow> u64 set \<Rightarrow> bool"
    and tabs :: "'s \<Rightarrow> u64 \<Rightarrow> u64 set"
    and entry :: "'s \<Rightarrow> u64 \<Rightarrow> u64 \<Rightarrow> u64"
    and touched :: "u64 set \<Rightarrow> 's \<Rightarrow> 's \<Rightarrow> bool"
    and map1 :: "'s \<Rightarrow> u64 \<Rightarrow> u64 \<Rightarrow> u64 \<Rightarrow> u16 \<Rightarrow> (bool \<times> 's) outcome"
  assumes map_law: "tree s r F \<Longrightarrow> frames s F \<Longrightarrow> 2 \<le> card F \<Longrightarrow> page_aligned va \<Longrightarrow> va < MAX_VIRTUAL_ADDRESS \<Longrightarrow>
      entry s r va = 0 \<Longrightarrow> \<exists>s' F'. map1 s r va pa flags = Inr (True, s') \<and> tree s' r F' \<and> frames s' F' \<and> F' \<subseteq> F \<and>
        card F \<le> card F' + 2 \<and> tabs s' r = tabs s r \<union> (F - F') \<and> touched (tabs s r \<union> (F - F')) s s' \<and>
        (\<forall>page < MAX_VIRTUAL_ADDRESS. page_aligned page \<longrightarrow>
           entry s' r page = (if page = va then fill_entry 0 pa flags else entry s r page))"
    and tree_law: "tree s r F \<Longrightarrow> touched T s s' \<Longrightarrow> tabs s r \<inter> T = {} \<Longrightarrow>
      tree s' r F \<and> tabs s' r = tabs s r \<and> (\<forall>va. entry s' r va = entry s r va)"
    and tree_free: "tree s r F \<Longrightarrow> tabs s r \<inter> F = {}"
    and tree_less: "tree s r F \<Longrightarrow> F' \<subseteq> F \<Longrightarrow> tree s r F'"
    and touched_trans: "touched T s s1 \<Longrightarrow> touched T' s1 s2 \<Longrightarrow> T \<union> T' \<subseteq> U \<Longrightarrow> touched U s s2"
begin

text \<open>A tree beside the one that is changed stays, and stays apart from it.\<close>

lemma tree_beside:
  assumes "tree s r F" "touched T s s'" "T \<subseteq> X \<union> F" "tabs s r \<inter> X = {}" "F' \<subseteq> F"
  shows "tree s' r F' \<and> tabs s' r = tabs s r \<and> (\<forall>va. entry s' r va = entry s r va)"
proof -
  have "tabs s r \<inter> T = {}" using tree_free [OF assms(1)] assms(3,4) by auto
  from tree_law [OF assms(1,2) this] tree_less [OF _ assms(5)] show ?thesis by blast
qed

text \<open>Two pages, one after the other.\<close>

lemma map_two:
  assumes "tree s r F" "frames s F" "4 \<le> card F" "page_aligned va" "va < MAX_VIRTUAL_ADDRESS" "page_aligned va'" "va' < MAX_VIRTUAL_ADDRESS"
    "va' \<noteq> va" "entry s r va = 0" "entry s r va' = 0"
  shows "\<exists>s1 s2 F'. map1 s r va pa flags = Inr (True, s1) \<and> map1 s1 r va' pa' flags' = Inr (True, s2) \<and>
    tree s2 r F' \<and> frames s2 F' \<and> F' \<subseteq> F \<and> card F \<le> card F' + 4 \<and> tabs s2 r = tabs s r \<union> (F - F') \<and>
    touched (tabs s r \<union> (F - F')) s s2 \<and>
    (\<forall>page < MAX_VIRTUAL_ADDRESS. page_aligned page \<longrightarrow> entry s2 r page =
       (if page = va then fill_entry 0 pa flags else if page = va' then fill_entry 0 pa' flags' else entry s r page))"
proof -
  have "2 \<le> card F" using assms(3) by simp
  from map_law [OF assms(1,2) this assms(4,5,9), of pa flags] obtain s1 F1 where
    s1: "map1 s r va pa flags = Inr (True, s1)" "tree s1 r F1" "frames s1 F1" "F1 \<subseteq> F" "card F \<le> card F1 + 2"
      "tabs s1 r = tabs s r \<union> (F - F1)" "touched (tabs s r \<union> (F - F1)) s s1"
      "\<And>page. page < MAX_VIRTUAL_ADDRESS \<Longrightarrow> page_aligned page \<Longrightarrow>
         entry s1 r page = (if page = va then fill_entry 0 pa flags else entry s r page)" by blast
  have "2 \<le> card F1" "entry s1 r va' = 0" using assms(3,6-8,10) s1(5,8) by simp_all
  from map_law [OF s1(2,3) this(1) assms(6,7) this(2), of pa' flags'] obtain s2 F2 where
    s2: "map1 s1 r va' pa' flags' = Inr (True, s2)" "tree s2 r F2" "frames s2 F2" "F2 \<subseteq> F1" "card F1 \<le> card F2 + 2"
      "tabs s2 r = tabs s1 r \<union> (F1 - F2)" "touched (tabs s1 r \<union> (F1 - F2)) s1 s2"
      "\<And>page. page < MAX_VIRTUAL_ADDRESS \<Longrightarrow> page_aligned page \<Longrightarrow>
         entry s2 r page = (if page = va' then fill_entry 0 pa' flags' else entry s1 r page)" by blast
  have "tabs s2 r = tabs s r \<union> (F - F2)" using s1(4,6) s2(4,6) by auto
  moreover have "touched (tabs s r \<union> (F - F2)) s s2"
    by (rule touched_trans [OF s1(7) s2(7)]) (use s1(4,6) s2(4) in auto)
  moreover have "F2 \<subseteq> F" "card F \<le> card F2 + 4" using s1(4,5) s2(4,5) by auto
  ultimately show ?thesis
    using s1(1,8) s2(1-3,8) assms(8) by (intro exI [of _ s1] exI [of _ s2] exI [of _ F2]) auto
qed

end

definition touched_pages :: "u64 set \<Rightarrow> page_state \<Rightarrow> page_state \<Rightarrow> bool" where
  "touched_pages T s s' \<longleftrightarrow> (\<forall>q. page_aligned q \<longrightarrow> q \<notin> T \<longrightarrow> same_page q (memory s') (memory s))"

lemma tables_aligned: "pt_wf m r F \<Longrightarrow> q \<in> tables m r \<Longrightarrow> page_aligned q"
  using node_at_aligned by (auto simp: tables_def pt_wf_def)

interpretation pm: page_mapper free_frames "\<lambda>s. pt_wf (memory s)" "\<lambda>s. tables (memory s)" "\<lambda>s. entry_of (memory s)" touched_pages
  "\<lambda>s r va. map_pages s r va PAGE_SIZE"
proof unfold_locales
  fix s s' s1 s2 :: page_state and r va pa :: u64 and F F' T T' U :: "u64 set" and flags :: u16
  show "\<exists>s' F'. map_pages s r va PAGE_SIZE pa flags = Inr (True, s') \<and> pt_wf (memory s') r F' \<and> free_frames s' F' \<and> F' \<subseteq> F \<and>
      card F \<le> card F' + 2 \<and> tables (memory s') r = tables (memory s) r \<union> (F - F') \<and>
      touched_pages (tables (memory s) r \<union> (F - F')) s s' \<and>
      (\<forall>page < MAX_VIRTUAL_ADDRESS. page_aligned page \<longrightarrow>
         entry_of (memory s') r page = (if page = va then fill_entry 0 pa flags else entry_of (memory s) r page))"
    if "pt_wf (memory s) r F" "free_frames s F" "2 \<le> card F" "page_aligned va" "va < MAX_VIRTUAL_ADDRESS" "entry_of (memory s) r va = 0"
  proof -
    note one = map_one_page [OF that, of pa flags]
    obtain s' F' where s': "map_pages s r va PAGE_SIZE pa flags = Inr (True, s')" "pt_wf (memory s') r F'" "free_frames s' F'"
      "card F \<le> card F' + 2" "remapped r (memory s) F (memory s') F'"
      "\<forall>page < MAX_VIRTUAL_ADDRESS. page_aligned page \<longrightarrow>
         entry_of (memory s') r page = ((entry_of (memory s) r)(va := fill_entry 0 pa flags)) page"
      using one by blast
    show ?thesis
      by (rule exI [of _ s'], rule exI [of _ F']) (use s' in \<open>simp add: remapped_def touched_pages_def\<close>)
  qed
  show "pt_wf (memory s') r F \<and> tables (memory s') r = tables (memory s) r \<and> (\<forall>va. entry_of (memory s') r va = entry_of (memory s) r va)"
    if "pt_wf (memory s) r F" "touched_pages T s s'" "tables (memory s) r \<inter> T = {}"
  proof -
    have "same_page q (memory s) (memory s')" if q: "q \<in> tables (memory s) r" for q
    proof -
      have "q \<notin> T" using q \<open>tables (memory s) r \<inter> T = {}\<close> by auto
      then show ?thesis
        using \<open>touched_pages T s s'\<close> tables_aligned [OF \<open>pt_wf (memory s) r F\<close> q] same_page_sym by (auto simp: touched_pages_def)
    qed
    then show ?thesis using tree_frame [OF \<open>pt_wf (memory s) r F\<close>] by blast
  qed
  show "tables (memory s) r \<inter> F = {}" if "pt_wf (memory s) r F" using that by (simp add: pt_wf_def)
  show "pt_wf (memory s) r F'" if "pt_wf (memory s) r F" "F' \<subseteq> F" using that by (auto simp: pt_wf_def)
  show "touched_pages U s s2" if "touched_pages T s s1" "touched_pages T' s1 s2" "T \<union> T' \<subseteq> U"
    using that unfolding touched_pages_def by (blast intro: same_page_trans)
qed

text \<open>\<open>operator new\<close> takes one frame per page of the object.\<close>

lemma operator_new_frames:
  assumes "free_frames s F" "0 < sz" "unat sz + 4095 < 2 ^ 64" "n = (unat sz + 4095) div 4096" "n \<le> card F"
  shows "\<exists>p s' F'. operator_new s sz = Inr (p, s') \<and> p \<in> F - F' \<and> free_frames s' F' \<and> F' \<subseteq> F \<and> card F = card F' + n \<and>
    touched_pages (F - F') s s'"
proof -
  obtain ps where ps: "page_inv s ps" "set ps = F" using assms(1) by (auto simp: free_frames_def)
  have d: "distinct ps" using ps(1) by (simp add: page_inv_def)
  have len: "length ps = card F" using distinct_card [OF d] ps(2) by simp
  from operator_new_takes_pages [OF ps(1) assms(2-4)] assms(5) len obtain s' where
    s': "operator_new s sz = Inr (hd ps, s')" "page_inv s' (drop n ps)" "\<forall>q. q \<notin> set (take n ps) \<longrightarrow> same_page q (memory s') (memory s)"
    by auto
  have n: "0 < n" using assms(2,4) by (simp add: word_less_nat_alt)
  have un: "F = set (take n ps) \<union> set (drop n ps)" using ps(2) set_append [of "take n ps" "drop n ps"] by simp
  have dj: "set (take n ps) \<inter> set (drop n ps) = {}" using d by (metis append_take_drop_id distinct_append)
  have "hd ps \<in> set (take n ps)" using n len assms(5) by (cases ps; cases n) auto
  moreover have "card F = card (set (drop n ps)) + n"
    using len assms(5) distinct_card [OF distinct_drop [OF d, of n]] by simp
  moreover have "F - set (drop n ps) = set (take n ps)" using un dj by auto
  ultimately show ?thesis
    using s' un by (intro exI [of _ "hd ps"] exI [of _ s'] exI [of _ "set (drop n ps)"]) (auto simp: free_frames_def touched_pages_def)
qed

section \<open>Filling pages\<close>

text \<open>What mapping a fresh frame \<open>p\<close> at \<open>va\<close> does to the tables under \<open>root\<close> and to the free frames.\<close>

definition page_filled :: "u64 \<Rightarrow> page_state \<Rightarrow> u64 set \<Rightarrow> u64 \<Rightarrow> u64 \<Rightarrow> u16 \<Rightarrow> page_state \<Rightarrow> u64 set \<Rightarrow> bool" where
  "page_filled root s F va p flags s' F' \<longleftrightarrow>
     pt_wf (memory s') root F' \<and> free_frames s' F' \<and> F' \<subseteq> F - {p} \<and> card F \<le> card F' + 3 \<and>
     tables (memory s') root \<subseteq> tables (memory s) root \<union> F \<and> p \<in> F \<and> p \<notin> tables (memory s') root \<and>
     (\<forall>q. page_aligned q \<longrightarrow> q \<notin> tables (memory s) root \<union> F \<longrightarrow> same_page q (memory s') (memory s)) \<and>
     (\<forall>page < MAX_VIRTUAL_ADDRESS. page_aligned page \<longrightarrow>
        entry_of (memory s') root page = ((entry_of (memory s) root)(va := fill_entry 0 p flags)) page)"

lemma map_fresh_frame:
  assumes wf: "pt_wf (memory s) root F" and ff: "free_frames s F" "3 \<le> card F"
    and va: "page_aligned va" "va < MAX_VIRTUAL_ADDRESS" "entry_of (memory s) root va = 0"
    and p: "p \<in> F" "free_frames s1 (F - {p})"
    and m: "\<And>q. q \<noteq> p \<Longrightarrow> same_page q m (memory s1)" and s1: "\<And>q. q \<noteq> p \<Longrightarrow> same_page q (memory s1) (memory s)"
  shows "\<exists>s2 F'. map_pages (s1\<lparr>memory := m\<rparr>) root va PAGE_SIZE p flags = Inr (True, s2) \<and>
    page_filled root s F va p flags s2 F' \<and> same_page p (memory s2) m"
proof -
  note fin = frames_facts [OF wf ff(1)]
  let ?s1 = "s1\<lparr>memory := m\<rparr>"
  have card: "card F = Suc (card (F - {p}))" using fin(1) p(1) by (rule card.remove)
  have off: "same_page q m (memory s)" if "q \<noteq> p" for q using m [OF that] s1 [OF that] by (rule same_page_trans)
  have same: "same_page q (memory s) m" if "q \<in> tables (memory s) root" for q
    using that fin(2) [OF p(1)] by (intro same_page_sym [OF off]) auto
  note tf = tree_frame [OF wf same]
  have wf1: "pt_wf (memory ?s1) root (F - {p})" using tf(1) by (auto simp: pt_wf_def)
  have ff1: "free_frames ?s1 (F - {p})"
    by (rule pg.put_law [OF p(2)]) (use m in \<open>auto intro: same_page_sym\<close>)
  have "2 \<le> card (F - {p})" using ff(2) card by linarith
  from map_one_page [OF wf1 ff1 this va(1,2), of p flags]
  obtain s2 F' where s2: "map_pages ?s1 root va PAGE_SIZE p flags = Inr (True, s2)"
    "pt_wf (memory s2) root F'" "free_frames s2 F'" "card (F - {p}) \<le> card F' + 2"
    "remapped root m (F - {p}) (memory s2) F'"
    "\<forall>page < MAX_VIRTUAL_ADDRESS. page_aligned page \<longrightarrow>
       entry_of (memory s2) root page = ((entry_of m root)(va := fill_entry 0 p flags)) page"
    using va(3) tf(3) by auto
  have F': "F' \<subseteq> F - {p}" and tb: "tables (memory s2) root = tables (memory s) root \<union> (F - {p} - F')"
    and rs: "\<And>q. page_aligned q \<Longrightarrow> q \<notin> tables (memory s) root \<union> (F - {p} - F') \<Longrightarrow> same_page q (memory s2) m"
    using s2(5) tf(2) by (auto simp: remapped_def)
  have pt: "p \<notin> tables (memory s2) root" using tb fin(2) [OF p(1)] by simp
  have "same_page q (memory s2) (memory s)" if q: "page_aligned q" "q \<notin> tables (memory s) root \<union> F" for q
  proof -
    have "q \<noteq> p" using q(2) p(1) by auto
    then show ?thesis using rs [OF q(1)] off q(2) same_page_trans by blast
  qed
  moreover have "card F \<le> card F' + 3" "tables (memory s2) root \<subseteq> tables (memory s) root \<union> F"
    using card s2(4) tb by auto
  ultimately have "page_filled root s F va p flags s2 F'"
    unfolding page_filled_def using s2(2,3,6) F' pt tf(3) p(1) by auto
  then show ?thesis using s2(1) rs [OF fin(3) [OF p(1)]] pt tb by auto
qed

text \<open>Take a frame for data, write to it and map it: what the two loops do for each page.\<close>

lemma fill_and_map:
  assumes wf: "pt_wf (memory s) root F" and ff: "free_frames s F" "3 \<le> card F"
    and va: "page_aligned va" "va < MAX_VIRTUAL_ADDRESS" "entry_of (memory s) root va = 0"
  shows "\<exists>p s1. page_allocate s = Inr (p, s1) \<and> p \<in> F \<and> p \<noteq> 0 \<and> page_aligned p \<and>
    zero_page (memory s1) p \<and> (\<forall>q. q \<noteq> p \<longrightarrow> same_page q (memory s1) (memory s)) \<and>
    (\<forall>m. (\<forall>q. q \<noteq> p \<longrightarrow> same_page q m (memory s1)) \<longrightarrow> (\<exists>s2 F'.
      map_pages (s1\<lparr>memory := m\<rparr>) root va PAGE_SIZE p flags = Inr (True, s2) \<and>
      page_filled root s F va p flags s2 F' \<and> same_page p (memory s2) m))"
proof -
  have "F \<noteq> {}" using ff(2) by auto
  then obtain p s1 where p: "page_allocate s = Inr (p, s1)" "p \<in> F" "free_frames s1 (F - {p})"
    "page_aligned p" "p \<noteq> 0" "zero_page (memory s1) p" "\<And>q. q \<noteq> p \<Longrightarrow> same_page q (memory s1) (memory s)"
    using pg.alloc_law [OF ff(1)] by blast
  show ?thesis using map_fresh_frame [OF wf ff va p(2,3) _ p(7)] p by blast
qed

text \<open>The pages \<open>a, a + 4096, \<dots>\<close> as a function of their number.\<close>

definition nth_page :: "u64 \<Rightarrow> nat \<Rightarrow> u64" where
  "nth_page a k = a + of_nat (4096 * k)"

lemma nth_page_simps [simp]: "nth_page a 0 = a" "nth_page (a + PAGE_SIZE) k = nth_page a (Suc k)"
  by (simp_all add: nth_page_def PAGE_SIZE_def algebra_simps)

lemma nth_page_below:
  assumes "page_aligned a" "unat a + 4096 * n \<le> unat MAX_VIRTUAL_ADDRESS" "k < n"
  shows "page_aligned (nth_page a k)" "nth_page a k < MAX_VIRTUAL_ADDRESS" "unat (nth_page a k) = unat a + 4096 * k"
proof -
  have M: "unat MAX_VIRTUAL_ADDRESS = 0x4000000000" by (simp add: MAX_VIRTUAL_ADDRESS_eq)
  have k: "unat (of_nat (4096 * k) :: u64) = 4096 * k" using assms(2,3) M by (intro unat_of_nat_small) simp
  have "page_aligned (of_nat (4096 * k))" unfolding page_aligned_mod k by simp
  then show "page_aligned (nth_page a k)" unfolding nth_page_def by (rule page_aligned_add [OF assms(1)])
  show u: "unat (nth_page a k) = unat a + 4096 * k"
    unfolding nth_page_def using k assms(2,3) M by (subst unat_add_small) simp_all
  show "nth_page a k < MAX_VIRTUAL_ADDRESS" using u assms(2,3) by (simp add: word_less_nat_alt)
qed

text \<open>The same for \<open>n\<close> pages from \<open>a\<close> on, where page \<open>k\<close> gets the frame \<open>f k\<close>.\<close>

definition pages_filled ::
    "u64 \<Rightarrow> page_state \<Rightarrow> u64 set \<Rightarrow> u64 \<Rightarrow> nat \<Rightarrow> (nat \<Rightarrow> u16) \<Rightarrow> (nat \<Rightarrow> u64) \<Rightarrow> page_state \<Rightarrow> u64 set \<Rightarrow> bool" where
  "pages_filled root s F a n flags f s' F' \<longleftrightarrow>
     pt_wf (memory s') root F' \<and> free_frames s' F' \<and> F' \<subseteq> F \<and>
     tables (memory s') root \<subseteq> tables (memory s) root \<union> F \<and>
     (\<forall>k < n. f k \<in> F - F' \<and> f k \<notin> tables (memory s') root \<and>
        entry_of (memory s') root (nth_page a k) = fill_entry 0 (f k) (flags k)) \<and>
     (\<forall>k < n. \<forall>l < n. f k = f l \<longrightarrow> k = l) \<and>
     (\<forall>q. page_aligned q \<longrightarrow> q \<notin> tables (memory s) root \<union> F \<longrightarrow> same_page q (memory s') (memory s)) \<and>
     (\<forall>page < MAX_VIRTUAL_ADDRESS. page_aligned page \<longrightarrow> (\<forall>k < n. page \<noteq> nth_page a k) \<longrightarrow>
        entry_of (memory s') root page = entry_of (memory s) root page)"

lemma pages_filled_none: "pt_wf (memory s) root F \<Longrightarrow> free_frames s F \<Longrightarrow> pages_filled root s F a 0 flags f s F"
  by (simp add: pages_filled_def)

text \<open>The next pages are still unmapped after the first, and the first frame keeps its contents after the next.\<close>

lemma page_filled_rest:
  assumes "page_filled root s F a p fl s2 F2" "page_aligned a" "unat a + 4096 * Suc n \<le> unat MAX_VIRTUAL_ADDRESS" "k < n"
  shows "entry_of (memory s2) root (nth_page (a + PAGE_SIZE) k) = entry_of (memory s) root (nth_page a (Suc k))"
proof -
  note page = nth_page_below [OF assms(2,3), of "Suc k"]
  have "nth_page a (Suc k) \<noteq> a" using page(3) assms(4) by auto
  then show ?thesis using assms(1,4) page(1,2) by (simp add: page_filled_def)
qed

lemma page_filled_keeps:
  assumes "page_filled root s F a p fl s2 F2" "pages_filled root s2 F2 b n flags f s' F'" "page_aligned p"
  shows "same_page p (memory s') (memory s2)"
  using assms by (auto simp: page_filled_def pages_filled_def)

lemma pages_filled_Suc:
  assumes one: "page_filled root s F a p fl s2 F2" and rest: "pages_filled root s2 F2 (a + PAGE_SIZE) n flags f s' F'"
    and a: "page_aligned a" "unat a + 4096 * Suc n \<le> unat MAX_VIRTUAL_ADDRESS"
  shows "pages_filled root s F a (Suc n) (case_nat fl flags) (case_nat p f) s' F'"
proof -
  note page = nth_page_below [OF a]
  note o = one [unfolded page_filled_def] and r = rest [unfolded pages_filled_def nth_page_simps]
  have ne: "a \<noteq> nth_page a (Suc k)" if "k < n" for k using page(3) [of "Suc k"] that by auto
  have a0: "a < MAX_VIRTUAL_ADDRESS" using page(2) [of 0] by simp
  have en: "entry_of (memory s') root q = ((entry_of (memory s) root)(a := fill_entry 0 p fl)) q"
    if "q < MAX_VIRTUAL_ADDRESS" "page_aligned q" "\<forall>k < n. q \<noteq> nth_page a (Suc k)" for q
    using o r that by simp
  have data: "case_nat p f k \<in> F - F' \<and> case_nat p f k \<notin> tables (memory s') root \<and>
      entry_of (memory s') root (nth_page a k) = fill_entry 0 (case_nat p f k) (case_nat fl flags k)" if k: "k < Suc n" for k
  proof (cases k)
    case 0
    have "p \<in> F - F'" "p \<notin> tables (memory s') root" using o r by blast+
    then show ?thesis using 0 en [OF a0 a(1)] ne by simp
  next
    case (Suc j)
    then show ?thesis using r o k by auto
  qed
  have inj: "k = l" if "k < Suc n" "l < Suc n" "case_nat p f k = case_nat p f l" for k l
    using that o r by (cases k; cases l) auto
  have frame: "same_page q (memory s') (memory s)" if q: "page_aligned q" "q \<notin> tables (memory s) root \<union> F" for q
  proof -
    have "q \<notin> tables (memory s2) root \<union> F2" using q(2) o by auto
    then show ?thesis using r o q same_page_trans by blast
  qed
  have keep: "entry_of (memory s') root q = entry_of (memory s) root q"
    if "q < MAX_VIRTUAL_ADDRESS" "page_aligned q" "\<forall>k < Suc n. q \<noteq> nth_page a k" for q
  proof -
    have "q \<noteq> a" "\<forall>k < n. q \<noteq> nth_page a (Suc k)" using that(3) by (force, auto)
    then show ?thesis using en [OF that(1,2)] by simp
  qed
  have "pt_wf (memory s') root F'" "free_frames s' F'" "F' \<subseteq> F" "tables (memory s') root \<subseteq> tables (memory s) root \<union> F"
    using o r by blast+
  then show ?thesis unfolding pages_filled_def using data inj frame keep by blast
qed

text \<open>Where the loops over the pages \<open>a, a + 4096, \<dots>\<close> below \<open>sz\<close> stand after one round.\<close>

lemma next_page_count:
  assumes "Suc n = (unat sz - unat a + 4095) div 4096" "unat a + 4096 * Suc n \<le> unat MAX_VIRTUAL_ADDRESS"
  shows "a < sz" "n = (unat sz - unat (a + PAGE_SIZE) + 4095) div 4096"
    "unat (a + PAGE_SIZE) + 4096 * n \<le> unat MAX_VIRTUAL_ADDRESS"
proof -
  have nxt: "unat (a + PAGE_SIZE) = unat a + 4096"
    using assms(2) by (intro unat_next_page) (simp add: MAX_VIRTUAL_ADDRESS_eq)
  show lt: "a < sz" using assms(1) by (auto simp: word_less_nat_alt intro: ccontr)
  then show "n = (unat sz - unat (a + PAGE_SIZE) + 4095) div 4096" using assms(1) nxt by (simp add: word_less_nat_alt)
  show "unat (a + PAGE_SIZE) + 4096 * n \<le> unat MAX_VIRTUAL_ADDRESS" using assms(2) nxt by simp
qed

section \<open>Growing a user address space\<close>

lemma allocate_loop_spec:
  assumes "pt_wf (memory s) root F" "free_frames s F" "3 * n \<le> card F" "page_aligned addr"
    "unat addr + 4096 * n \<le> unat MAX_VIRTUAL_ADDRESS"
    "n = (unat newSize - unat addr + 4095) div 4096"
    "\<And>k. k < n \<Longrightarrow> entry_of (memory s) root (nth_page addr k) = 0"
  shows "\<exists>s' F' f. allocate_loop s root addr old newSize xperm = Inr (newSize, s') \<and>
    pages_filled root s F addr n (\<lambda>_. user_flags xperm) f s' F' \<and> (\<forall>k < n. zero_page (memory s') (f k))"
  using assms
proof (induction n arbitrary: s F addr)
  case 0
  then have "\<not> addr < newSize" by (auto simp: word_less_nat_alt)
  then show ?case using pages_filled_none [OF 0(1,2)] by (simp add: allocate_loop.simps [of s]) blast
next
  case (Suc n)
  note nxt = next_page_count [OF Suc.prems(6,5)]
  have first: "3 \<le> card F" "addr < MAX_VIRTUAL_ADDRESS" "entry_of (memory s) root addr = 0"
    using Suc.prems(3) nth_page_below(2) [OF Suc.prems(4,5), of 0] Suc.prems(7) [of 0] by simp_all
  from fill_and_map [OF Suc.prems(1,2) first(1) Suc.prems(4) first(2,3), of "user_flags xperm"]
  obtain p s1 where p: "page_allocate s = Inr (p, s1)" "p \<noteq> 0" "page_aligned p" "zero_page (memory s1) p"
    and all: "\<And>m. (\<forall>q. q \<noteq> p \<longrightarrow> same_page q m (memory s1)) \<Longrightarrow> \<exists>s2 F2.
      map_pages (s1\<lparr>memory := m\<rparr>) root addr PAGE_SIZE p (user_flags xperm) = Inr (True, s2) \<and>
      page_filled root s F addr p (user_flags xperm) s2 F2 \<and> same_page p (memory s2) m" by blast
  obtain s2 F2 where st: "map_pages s1 root addr PAGE_SIZE p (user_flags xperm) = Inr (True, s2)"
    and one: "page_filled root s F addr p (user_flags xperm) s2 F2" and zp: "same_page p (memory s2) (memory s1)"
    using all [of "memory s1"] by auto
  have o: "pt_wf (memory s2) root F2" "free_frames s2 F2" "3 * n \<le> card F2"
    using one Suc.prems(3) by (auto simp: page_filled_def)
  have pre: "entry_of (memory s2) root (nth_page (addr + PAGE_SIZE) k) = 0" if "k < n" for k
    using page_filled_rest [OF one Suc.prems(4,5) that] Suc.prems(7) that by simp
  from Suc.IH [OF o page_aligned_next [OF Suc.prems(4)] nxt(3,2) pre]
  obtain s' F' f where IH: "allocate_loop s2 root (addr + PAGE_SIZE) old newSize xperm = Inr (newSize, s')"
    "pages_filled root s2 F2 (addr + PAGE_SIZE) n (\<lambda>_. user_flags xperm) f s' F'" "\<forall>k < n. zero_page (memory s') (f k)"
    by blast
  have fl: "case_nat (user_flags xperm) (\<lambda>_. user_flags xperm) = (\<lambda>_. user_flags xperm)" by (auto split: nat.split)
  have "zero_page (memory s') p"
    using p(4) zero_page_same [OF zp] zero_page_same [OF page_filled_keeps [OF one IH(2) p(3)]] by simp
  then have "\<forall>k < Suc n. zero_page (memory s') (case_nat p f k)" using IH(3) by (auto split: nat.split)
  moreover have "allocate_loop s root addr old newSize xperm = Inr (newSize, s')"
    using IH(1) p(1,2) st nxt(1) by (simp add: allocate_loop.simps [of s])
  ultimately show ?case using pages_filled_Suc [OF one IH(2) Suc.prems(4,5)] unfolding fl by blast
qed

section \<open>Duplicating a user address space\<close>

lemma walk_present:
  assumes "va < MAX_VIRTUAL_ADDRESS" "pte_v (entry_of (memory s) root va)"
  shows "\<exists>pte. walk s root va False = Inr (Some pte, s) \<and> load64 (memory s) pte = entry_of (memory s) root va"
  using assms by (auto simp: walk_lookup entry_of_def pte_v_def split: option.splits)

lemma ram_page_fits: "p < physicalAddressStop \<Longrightarrow> unat p + unat PAGE_SIZE < 2 ^ 64"
  by (simp add: physicalAddressStop_def KERNEL_BASE_def PAGE_SIZE_def word_less_nat_alt)

lemma operator_new_page: "operator_new s PAGE_SIZE = page_allocate s"
  by (simp add: operator_new_def PAGE_SIZE_def)

definition same_contents :: "mem \<Rightarrow> u64 \<Rightarrow> mem \<Rightarrow> u64 \<Rightarrow> bool" where
  "same_contents m p m' q \<longleftrightarrow> (\<forall>j < 4096. m (p + of_nat j) = m' (q + of_nat j))"

lemma same_contents_cong:
  assumes "same_page p m m1" "page_aligned p" "same_page q m' m1'" "page_aligned q"
  shows "same_contents m p m' q = same_contents m1 p m1' q"
  using assms roundDown_in_page [OF assms(2)] roundDown_in_page [OF assms(4)]
  by (simp add: same_contents_def same_page_def)

lemma memmove_page:
  assumes "p < physicalAddressStop" "pa < physicalAddressStop" "page_aligned p"
  shows "same_contents (fst (memmove m p pa PAGE_SIZE)) p m pa"
    "q \<noteq> p \<Longrightarrow> same_page q (fst (memmove m p pa PAGE_SIZE)) m"
proof -
  have cp: "copied m (\<lambda>i. p + of_nat i) (\<lambda>i. pa + of_nat i) (unat PAGE_SIZE) (fst (memmove m p pa PAGE_SIZE))"
    using assms(1,2) by (intro memmove_copied ram_page_fits)
  then show "same_contents (fst (memmove m p pa PAGE_SIZE)) p m pa"
    by (simp add: same_contents_def copied_def PAGE_SIZE_def)
  show "same_page q (fst (memmove m p pa PAGE_SIZE)) m" if "q \<noteq> p"
    unfolding same_page_def
  proof (intro allI impI, rule ccontr)
    fix x assume "roundDown x = q" "fst (memmove m p pa PAGE_SIZE) x \<noteq> m x"
    then obtain i where "i < 4096" "x = p + of_nat i"
      using copied_changed [OF cp] by (auto simp: PAGE_SIZE_def)
    then show False using roundDown_in_page [OF assms(3)] \<open>roundDown x = q\<close> \<open>q \<noteq> p\<close> by simp
  qed
qed

text \<open>One page of the copy: the old table \<open>ro\<close> stays as it is, the new one \<open>rn\<close> gets a page.\<close>

lemma page_filled_beside:
  assumes one: "page_filled rn s F a p fl s2 F2" and wfo: "pt_wf (memory s) ro F"
    and dis: "tables (memory s) ro \<inter> tables (memory s) rn = {}"
  shows "pt_wf (memory s2) ro F2" "tables (memory s2) ro = tables (memory s) ro"
    "entry_of (memory s2) ro va = entry_of (memory s) ro va" "tables (memory s2) ro \<inter> tables (memory s2) rn = {}"
proof -
  note o = one [unfolded page_filled_def]
  have "same_page q (memory s) (memory s2)" if q: "q \<in> tables (memory s) ro" for q
  proof -
    have "page_aligned q" using q pt_wf_aligned [OF wfo] by (auto simp: tables_def)
    moreover have "q \<notin> tables (memory s) rn \<union> F" using q dis wfo by (auto simp: pt_wf_def)
    ultimately show ?thesis using o same_page_sym by blast
  qed
  note tf = tree_frame [OF wfo this]
  show "pt_wf (memory s2) ro F2" using tf(1,2) o by (auto simp: pt_wf_def)
  show tb: "tables (memory s2) ro = tables (memory s) ro" by (rule tf(2))
  show "entry_of (memory s2) ro va = entry_of (memory s) ro va" by (rule tf(3))
  show "tables (memory s2) ro \<inter> tables (memory s2) rn = {}" unfolding tb using dis wfo o by (auto simp: pt_wf_def)
qed

lemma copy_loop_step:
  assumes wf: "pt_wf (memory s) rn F" and ff: "free_frames s F" "3 \<le> card F" and ram: "\<forall>p \<in> F. p < physicalAddressStop"
    and i: "page_aligned i" "i < MAX_VIRTUAL_ADDRESS" "i < sz"
    and new: "entry_of (memory s) rn i = 0" and old: "pte_v (entry_of (memory s) ro i)"
    and data: "toPhysicalAddress (entry_of (memory s) ro i) < physicalAddressStop"
      "toPhysicalAddress (entry_of (memory s) ro i) \<notin> F"
  shows "\<exists>p s2 F2. copy_loop s ro rn sz i = copy_loop s2 ro rn sz (i + PAGE_SIZE) \<and> page_aligned p \<and>
    page_filled rn s F i p (pte_flags (entry_of (memory s) ro i)) s2 F2 \<and>
    same_contents (memory s2) p (memory s) (toPhysicalAddress (entry_of (memory s) ro i))"
proof -
  let ?e = "entry_of (memory s) ro i"
  let ?pa = "toPhysicalAddress ?e"
  obtain pte where w: "walk s ro i False = Inr (Some pte, s)" "load64 (memory s) pte = ?e"
    using walk_present [OF i(2) old] by blast
  from fill_and_map [OF wf ff i(1,2) new, of "pte_flags ?e"]
  obtain p s1 where p: "page_allocate s = Inr (p, s1)" "p \<in> F" "page_aligned p"
    "\<forall>q. q \<noteq> p \<longrightarrow> same_page q (memory s1) (memory s)"
    and all: "\<And>m. (\<forall>q. q \<noteq> p \<longrightarrow> same_page q m (memory s1)) \<Longrightarrow> \<exists>s2 F2.
      map_pages (s1\<lparr>memory := m\<rparr>) rn i PAGE_SIZE p (pte_flags ?e) = Inr (True, s2) \<and>
      page_filled rn s F i p (pte_flags ?e) s2 F2 \<and> same_page p (memory s2) m" by blast
  define m where "m = fst (memmove (memory s1) p ?pa PAGE_SIZE)"
  note mv = memmove_page [OF bspec [OF ram p(2)] data(1) p(3), where m = "memory s1", folded m_def]
  from all [of m] mv(2) obtain s2 F2 where s2: "map_pages (s1\<lparr>memory := m\<rparr>) rn i PAGE_SIZE p (pte_flags ?e) = Inr (True, s2)"
    "page_filled rn s F i p (pte_flags ?e) s2 F2" "same_page p (memory s2) m" by blast
  have step: "copy_loop s ro rn sz i = copy_loop s2 ro rn sz (i + PAGE_SIZE)"
    using w i(3) old p(1) s2(1) by (simp add: copy_loop.simps [of s] operator_new_page Let_def m_def)
  have "?pa \<noteq> p" using data(2) p(2) by auto
  then have "same_contents (memory s2) p (memory s) ?pa"
    using mv(1) same_contents_cong [OF s2(3) p(3), of ?pa "memory s" "memory s1"] p(4)
    by (simp add: same_page_sym)
  then show ?thesis using step s2(2) p(3) by blast
qed

lemma copy_loop_spec:
  assumes "pt_wf (memory s) rn F" "pt_wf (memory s) ro F" "free_frames s F" "3 * n \<le> card F"
    "tables (memory s) ro \<inter> tables (memory s) rn = {}" "\<forall>p \<in> F. p < physicalAddressStop"
    "page_aligned i" "unat i + 4096 * n \<le> unat MAX_VIRTUAL_ADDRESS"
    "n = (unat sz - unat i + 4095) div 4096"
    "\<And>k. k < n \<Longrightarrow> entry_of (memory s) rn (nth_page i k) = 0"
    "\<And>k. k < n \<Longrightarrow> pte_v (entry_of (memory s) ro (nth_page i k)) \<and>
       toPhysicalAddress (entry_of (memory s) ro (nth_page i k)) < physicalAddressStop \<and>
       toPhysicalAddress (entry_of (memory s) ro (nth_page i k)) \<notin> F \<union> tables (memory s) rn"
  shows "\<exists>s' F' f. copy_loop s ro rn sz i = Inr s' \<and>
    pages_filled rn s F i n (\<lambda>k. pte_flags (entry_of (memory s) ro (nth_page i k))) f s' F' \<and> pt_wf (memory s') ro F' \<and>
    (\<forall>va. entry_of (memory s') ro va = entry_of (memory s) ro va) \<and>
    (\<forall>k < n. same_contents (memory s') (f k) (memory s) (toPhysicalAddress (entry_of (memory s) ro (nth_page i k))))"
  using assms
proof (induction n arbitrary: s F i)
  case 0
  then have "\<not> i < sz" by (auto simp: word_less_nat_alt)
  then show ?case using pages_filled_none [OF 0(1,3)] 0(2) by (simp add: copy_loop.simps [of s]) blast
next
  case (Suc n)
  let ?e = "\<lambda>k. entry_of (memory s) ro (nth_page i k)"
  let ?fl = "\<lambda>k. pte_flags (?e k)" and ?pa = "\<lambda>k. toPhysicalAddress (?e k)"
  note nxt = next_page_count [OF Suc.prems(9,8)]
  have "3 \<le> card F" "i < MAX_VIRTUAL_ADDRESS" "entry_of (memory s) rn i = 0"
    and "pte_v (entry_of (memory s) ro i)" "toPhysicalAddress (entry_of (memory s) ro i) < physicalAddressStop"
      "toPhysicalAddress (entry_of (memory s) ro i) \<notin> F"
    using Suc.prems(4) nth_page_below(2) [OF Suc.prems(7,8), of 0] Suc.prems(10,11) [of 0] by simp_all
  from copy_loop_step [OF Suc.prems(1,3) this(1) Suc.prems(6,7) this(2) nxt(1) this(3-6)]
  obtain p s2 F2 where st: "copy_loop s ro rn sz i = copy_loop s2 ro rn sz (i + PAGE_SIZE)" "page_aligned p"
    and one: "page_filled rn s F i p (?fl 0) s2 F2" and cp: "same_contents (memory s2) p (memory s) (?pa 0)"
    unfolding nth_page_simps(1) by blast
  note o = one [unfolded page_filled_def] and b = page_filled_beside [OF one Suc.prems(2,5)]
  have c: "pt_wf (memory s2) rn F2" "free_frames s2 F2" "3 * n \<le> card F2" "\<forall>p \<in> F2. p < physicalAddressStop"
    using o Suc.prems(4,6) by auto
  have pre: "entry_of (memory s2) rn (nth_page (i + PAGE_SIZE) k) = 0" if "k < n" for k
    using page_filled_rest [OF one Suc.prems(7,8) that] Suc.prems(10) that by simp
  have pre': "pte_v (entry_of (memory s2) ro (nth_page (i + PAGE_SIZE) k)) \<and>
       toPhysicalAddress (entry_of (memory s2) ro (nth_page (i + PAGE_SIZE) k)) < physicalAddressStop \<and>
       toPhysicalAddress (entry_of (memory s2) ro (nth_page (i + PAGE_SIZE) k)) \<notin> F2 \<union> tables (memory s2) rn"
    if "k < n" for k
    using Suc.prems(11) [of "Suc k"] that o unfolding b(3) nth_page_simps by auto
  from Suc.IH [OF c(1) b(1) c(2,3) b(4) c(4) page_aligned_next [OF Suc.prems(7)] nxt(3,2) pre pre']
  obtain s' F' f where IH: "copy_loop s2 ro rn sz (i + PAGE_SIZE) = Inr s'"
    "pages_filled rn s2 F2 (i + PAGE_SIZE) n (\<lambda>k. ?fl (Suc k)) f s' F'" "pt_wf (memory s') ro F'"
    "\<forall>va. entry_of (memory s') ro va = entry_of (memory s) ro va"
    "\<And>k. k < n \<Longrightarrow> same_contents (memory s') (f k) (memory s2) (?pa (Suc k))"
    unfolding nth_page_simps b(3) by blast
  have fl: "case_nat (?fl 0) (\<lambda>k. ?fl (Suc k)) = ?fl" by (auto split: nat.split)
  have src: "same_page (?pa k) (memory s2) (memory s)" if "k < Suc n" for k using Suc.prems(11) [OF that] o by simp
  have "same_contents (memory s') (case_nat p f k) (memory s) (?pa k)" if k: "k < Suc n" for k
  proof (cases k)
    case 0
    then show ?thesis
      using same_contents_cong [OF page_filled_keeps [OF one IH(2) st(2)] st(2) same_page_refl, of "?pa 0"] cp by simp
  next
    case (Suc j)
    then have "page_aligned (f j)" using k IH(2) o frames_facts(3) [OF Suc.prems(1,3)] unfolding pages_filled_def by blast
    then show ?thesis using Suc k IH(5) [of j] same_contents_cong [OF same_page_refl _ src [OF k]] by simp
  qed
  then show ?case using pages_filled_Suc [OF one IH(2) Suc.prems(7,8)] IH(1,3,4) st(1) unfolding fl by auto
qed

section \<open>Reading a string from user memory\<close>

lemma copied_one: "copied m (\<lambda>i. d + of_nat i) (\<lambda>i. p + of_nat i) 1 (m(d := m p))" for d p :: u64
  by (auto simp: copied_def)

lemma copied_Suc:
  fixes d p :: u64
  assumes "copied (m(d := m p)) (\<lambda>i. d + 1 + of_nat i) (\<lambda>i. p + 1 + of_nat i) k m'" "k + 1 < 2 ^ 64"
    "\<And>i j. i < k + 1 \<Longrightarrow> j < k + 1 \<Longrightarrow> p + of_nat i \<noteq> d + of_nat j"
  shows "copied m (\<lambda>i. d + of_nat i) (\<lambda>i. p + of_nat i) (1 + k) m'"
proof (rule copied_append [OF copied_one])
  show "copied (m(d := m p)) (\<lambda>j. d + of_nat (1 + j)) (\<lambda>j. p + of_nat (1 + j)) k m'"
    using assms(1) by (simp add: add.assoc)
  show "i = j" if "i < 1 + k" "j < 1 + k" "d + of_nat i = d + of_nat j" for i j
  proof -
    have "unat (of_nat i :: u64) = unat (of_nat j :: u64)" using that(3) by simp
    then show ?thesis using that(1,2) assms(2) by (simp add: unat_of_nat_small)
  qed
qed (use assms(3) in simp)

text \<open>The character loop, when it meets the terminator and when it does not.\<close>

lemma copyin_chars_found:
  assumes "k < unat n" "\<And>i. i < k \<Longrightarrow> m (ptr + of_nat i) \<noteq> 0" "m (ptr + of_nat k) = 0"
    "\<And>i j. i < k + 1 \<Longrightarrow> j < k + 1 \<Longrightarrow> ptr + of_nat i \<noteq> dst + of_nat j"
  shows "\<exists>m' d l. copyin_chars m dst ptr n len = (m', d, l, True) \<and>
    copied m (\<lambda>i. dst + of_nat i) (\<lambda>i. ptr + of_nat i) (k + 1) m'"
  using assms
proof (induction k arbitrary: m dst ptr n len)
  case 0
  then have "0 < n" "m ptr = 0" by (auto simp: word_less_nat_alt)
  then show ?case using copied_one [of m dst ptr] by (simp add: copyin_chars.simps [of m])
next
  case (Suc k)
  have "n \<noteq> 0" using Suc.prems(1) by auto
  then have n: "0 < n" "unat (n - 1) = unat n - 1" using unat_pred [of n] by (auto simp: word_gt_0)
  have keep: "(m(dst := m ptr)) (ptr + 1 + of_nat i) = m (ptr + of_nat (Suc i))" if "i < Suc k" for i
    using Suc.prems(4) [of "Suc i" 0] that by (simp add: add.assoc)
  have p1: "k < unat (n - 1)" using Suc.prems(1) n(2) by simp
  have p2: "(m(dst := m ptr)) (ptr + 1 + of_nat i) \<noteq> 0" if "i < k" for i
    unfolding keep [OF less_SucI [OF that]] using Suc.prems(2) [of "Suc i"] that by (simp del: of_nat_Suc)
  have p3: "(m(dst := m ptr)) (ptr + 1 + of_nat k) = 0"
    unfolding keep [OF lessI] using Suc.prems(3) by (simp del: of_nat_Suc)
  have p4: "ptr + 1 + of_nat i \<noteq> dst + 1 + of_nat j" if "i < k + 1" "j < k + 1" for i j
    using Suc.prems(4) [of "Suc i" "Suc j"] that by (simp add: add.assoc)
  from Suc.IH [of "n - 1" "m(dst := m ptr)" "ptr + 1" "dst + 1" "len - 1", OF p1 p2 p3 p4] obtain m' d l where m': "copyin_chars (m(dst := m ptr)) (dst + 1) (ptr + 1) (n - 1) (len - 1) = (m', d, l, True)"
    "copied (m(dst := m ptr)) (\<lambda>i. dst + 1 + of_nat i) (\<lambda>i. ptr + 1 + of_nat i) (k + 1) m'"
    by blast
  have "m ptr \<noteq> 0" using Suc.prems(2) [of 0] by simp
  then have "copyin_chars m dst ptr n len = (m', d, l, True)" using n(1) m'(1) by (simp add: copyin_chars.simps [of m])
  moreover have "copied m (\<lambda>i. dst + of_nat i) (\<lambda>i. ptr + of_nat i) (1 + (k + 1)) m'"
    using Suc.prems(1,4) unat64_less [of n] by (intro copied_Suc [OF m'(2)]) auto
  ultimately show ?case by auto
qed

lemma copyin_chars_missed:
  assumes "\<And>i. i < unat n \<Longrightarrow> m (ptr + of_nat i) \<noteq> 0"
    "\<And>i j. i < unat n \<Longrightarrow> j < unat n \<Longrightarrow> ptr + of_nat i \<noteq> dst + of_nat j"
  shows "\<exists>m'. copyin_chars m dst ptr n len = (m', dst + n, len - n, False) \<and>
    copied m (\<lambda>i. dst + of_nat i) (\<lambda>i. ptr + of_nat i) (unat n) m'"
  using assms
proof (induction "unat n" arbitrary: m dst ptr n len)
  case 0
  then have "n = 0" by (simp add: unat_eq_zero)
  then show ?case by (simp add: copyin_chars.simps [of m] copied_def)
next
  case (Suc k)
  have "n \<noteq> 0" using Suc(2) by auto
  then have n: "0 < n" "k = unat (n - 1)" using unat_pred [of n] Suc(2) by (auto simp: word_gt_0)
  have keep: "(m(dst := m ptr)) (ptr + 1 + of_nat i) = m (ptr + of_nat (Suc i))" if "i < k" for i
    using Suc.prems(2) [of "Suc i" 0] Suc(2) that by (simp add: add.assoc)
  have p1: "(m(dst := m ptr)) (ptr + 1 + of_nat i) \<noteq> 0" if "i < unat (n - 1)" for i
  proof -
    have "i < k" using that n(2) by simp
    then show ?thesis unfolding keep [OF \<open>i < k\<close>] using Suc.prems(1) [of "Suc i"] Suc(2) by (simp del: of_nat_Suc)
  qed
  have p2: "ptr + 1 + of_nat i \<noteq> dst + 1 + of_nat j" if "i < unat (n - 1)" "j < unat (n - 1)" for i j
    using Suc.prems(2) [of "Suc i" "Suc j"] Suc(2) n(2) that by (simp add: add.assoc)
  from Suc.hyps(1) [OF n(2), of "m(dst := m ptr)" "ptr + 1" "dst + 1" "len - 1", OF p1 p2] obtain m' where m': "copyin_chars (m(dst := m ptr)) (dst + 1) (ptr + 1) (n - 1) (len - 1) =
      (m', dst + 1 + (n - 1), len - 1 - (n - 1), False)"
    "copied (m(dst := m ptr)) (\<lambda>i. dst + 1 + of_nat i) (\<lambda>i. ptr + 1 + of_nat i) k m'"
    unfolding n(2) [symmetric] by blast
  have "m ptr \<noteq> 0" using Suc.prems(1) [of 0] Suc(2) by simp
  then have "copyin_chars m dst ptr n len = (m', dst + n, len - n, False)"
    using n(1) m'(1) by (simp add: copyin_chars.simps [of m])
  moreover have "copied m (\<lambda>i. dst + of_nat i) (\<lambda>i. ptr + of_nat i) (1 + k) m'"
    using Suc.prems(2) Suc(2) unat64_less [of n] by (intro copied_Suc [OF m'(2)]) auto
  ultimately show ?case using Suc(2) by auto
qed

lemma user_range_mono: "user_range m root a n \<Longrightarrow> k \<le> n \<Longrightarrow> user_range m root a k"
  unfolding user_range_def by (meson less_le_trans)

lemma user_range_shift:
  assumes "user_range m root a n" "\<And>j. j < n - c \<Longrightarrow> a' + of_nat j = a + of_nat (c + j)"
  shows "user_range m root a' (n - c)"
proof -
  have inj: "x = y" if "x < n" "y < n" "user_page m root (a + of_nat x) \<noteq> 0" "user_page m root (a + of_nat y) \<noteq> 0"
    "user_addr m root (a + of_nat x) = user_addr m root (a + of_nat y)" for x y
    using assms(1) that by (simp add: user_range_def)
  have ok: "user_page m root (a + of_nat x) < physicalAddressStop \<and> user_page m root (a + of_nat x) \<notin> tables m root"
    if "x < n" "user_page m root (a + of_nat x) \<noteq> 0" for x
    using assms(1) that by (simp add: user_range_def)
  show ?thesis
    unfolding user_range_def
  proof (intro conjI allI impI)
    fix i assume i: "i < n - c" "user_page m root (a' + of_nat i) \<noteq> 0"
    then show "user_page m root (a' + of_nat i) < physicalAddressStop" "user_page m root (a' + of_nat i) \<notin> tables m root"
      using ok [of "c + i"] unfolding assms(2) [OF i(1)] by auto
    fix j assume j: "j < n - c" "user_page m root (a' + of_nat j) \<noteq> 0"
      "user_addr m root (a' + of_nat i) = user_addr m root (a' + of_nat j)"
    then show "i = j" using i inj [of "c + i" "c + j"] unfolding assms(2) [OF i(1)] assms(2) [OF j(1)] by auto
  qed
qed

text \<open>A string of \<open>k\<close> characters at a user address, and a kernel buffer that can take it.\<close>

definition string_readable :: "mem \<Rightarrow> u64 \<Rightarrow> u64 \<Rightarrow> u64 \<Rightarrow> nat \<Rightarrow> bool" where
  "string_readable m root dst src k \<longleftrightarrow>
     user_range m root src (k + 1) \<and> all_mapped m root src (k + 1) \<and> unat dst + (k + 1) < 2 ^ 64 \<and>
     (\<forall>i < k. m (user_addr m root (src + of_nat i)) \<noteq> 0) \<and> m (user_addr m root (src + of_nat k)) = 0 \<and>
     (\<forall>i < k + 1. roundDown (dst + of_nat i) \<notin> tables m root) \<and>
     (\<forall>i < k + 1. \<forall>j < k + 1. user_addr m root (src + of_nat i) \<noteq> dst + of_nat j)"

text \<open>
  The string is longer than the rest of the page: the kernel copies the chunk, and what is left of
  the string is readable from the next page on.
\<close>

lemma string_readable_rest:
  assumes wf: "pt_wf m root F" and rd: "string_readable m root dst src (unat (chunk src len) + j)"
    and len: "len > 0" "unat (chunk src len) + j < unat len"
    and cp: "copied m (\<lambda>i. dst + of_nat i) (\<lambda>i. user_addr m root (src + of_nat i)) (unat (chunk src len)) m1"
  shows "string_readable m1 root (dst + chunk src len) (roundDown src + PAGE_SIZE) j"
    and "pt_wf m1 root F" and "user_addr m1 root va = user_addr m root va"
    and "i \<le> j \<Longrightarrow> roundDown src + PAGE_SIZE + of_nat i = src + of_nat (unat (chunk src len) + i)"
proof -
  let ?n = "chunk src len" and ?src = "roundDown src + PAGE_SIZE"
  let ?k = "unat ?n + j" and ?A = "\<lambda>i. user_addr m root (src + of_nat i)"
  note r = rd [unfolded string_readable_def]
  have "\<forall>x. m1 x \<noteq> m x \<longrightarrow> roundDown x \<notin> tables m root" using copied_changed [OF cp] r by fastforce
  note fr = user_frame [OF wf this]
  show "pt_wf m1 root F" "user_addr m1 root va = user_addr m root va" by (simp_all add: fr)
  have "unat (len - ?n) = unat len - unat ?n" using chunk_bounds [OF len(1), of src] by (intro unat_sub) simp
  then have idx: "?src + of_nat i = src + of_nat (unat ?n + i)" if "i \<le> j" for i
    using rest_index(1) [OF len(1), of i src] that len(2) by simp
  then show "i \<le> j \<Longrightarrow> ?src + of_nat i = src + of_nat (unat ?n + i)" .
  have idx': "dst + ?n + of_nat i = dst + of_nat (unat ?n + i)" for i by (rule src_index)
  have keep: "m1 (?A i) = m (?A i)" if "i < ?k + 1" for i
  proof (rule ccontr)
    assume "m1 (?A i) \<noteq> m (?A i)"
    then obtain l where "l < unat ?n" "?A i = dst + of_nat l" using copied_changed [OF cp] by blast
    then show False using r that by auto
  qed
  have rng: "user_range m root ?src (?k + 1 - unat ?n)" using r idx by (intro user_range_shift) auto
  have low: "user_page m root (?src + of_nat i) \<noteq> 0" "roundDown (dst + ?n + of_nat i) \<notin> tables m root"
    "m1 (user_addr m root (?src + of_nat i)) = m (?A (unat ?n + i))" if "i < j + 1" for i
  proof -
    have i: "i \<le> j" "unat ?n + i < ?k + 1" using that by auto
    show "user_page m root (?src + of_nat i) \<noteq> 0" using r i(2) unfolding all_mapped_def idx [OF i(1)] by blast
    show "roundDown (dst + ?n + of_nat i) \<notin> tables m root" using r i(2) unfolding idx' by blast
    show "m1 (user_addr m root (?src + of_nat i)) = m (?A (unat ?n + i))" unfolding idx [OF i(1)] by (rule keep [OF i(2)])
  qed
  have apart: "user_addr m root (?src + of_nat i) \<noteq> dst + ?n + of_nat l" if "i < j + 1" "l < j + 1" for i l
  proof -
    have *: "i \<le> j" "unat ?n + i < ?k + 1" "unat ?n + l < ?k + 1" using that by auto
    then show ?thesis unfolding idx' idx [OF *(1)] using r by blast
  qed
  have chars: "m (?A (unat ?n + i)) \<noteq> 0" if "i < j" for i
  proof -
    have "unat ?n + i < ?k" using that by simp
    then show ?thesis using r by blast
  qed
  have "unat (dst + ?n) = unat dst + unat ?n" using r by (intro unat_add_small) simp
  then have dst: "unat (dst + ?n) + (j + 1) < 2 ^ 64" using r by simp
  show "string_readable m1 root (dst + ?n) ?src j"
    unfolding string_readable_def all_mapped_def fr using rng dst low apart chars r by simp
qed

lemma copied_split:
  fixes d :: u64
  assumes "copied m (\<lambda>i. d + of_nat i) A a m1" "copied m1 (\<lambda>i. d + of_nat (a + i)) (\<lambda>i. A (a + i)) b m2"
    "unat d + (a + b) < 2 ^ 64" "\<forall>i < a + b. \<forall>j < a + b. A i \<noteq> d + of_nat j"
  shows "copied m (\<lambda>i. d + of_nat i) A (a + b) m2"
proof (rule copied_append [OF assms(1,2)])
  show "i = l" if "i < a + b" "l < a + b" "d + of_nat i = d + of_nat l" for i l
  proof -
    have "unat (of_nat i :: u64) = unat (of_nat l :: u64)" using that(3) by simp
    then show ?thesis using that(1,2) assms(3) by (simp add: unat_of_nat_small)
  qed
qed (use assms(4) in auto)

lemma copyinString_unfold:
  assumes "len > 0" "user_page (memory s) root src \<noteq> 0"
  shows "copyinString s root dst src len =
    (case copyin_chars (memory s) dst (user_addr (memory s) root src) (chunk src len) len of
       (m, dst', len', True) \<Rightarrow> Inr (True, s\<lparr>memory := m\<rparr>)
     | (m, dst', len', False) \<Rightarrow> copyinString (s\<lparr>memory := m\<rparr>) root dst' (roundDown src + PAGE_SIZE) len')"
  by (subst copyinString.simps)
    (simp add: assms walkAddress_user_page user_page_roundDown user_addr_def roundDown_sub Let_def)

lemma copyinString_copies:
  assumes "pt_wf (memory s) root F" "string_readable (memory s) root dst src k" "k < unat len"
  shows "\<exists>m'. copyinString s root dst src len = Inr (True, s\<lparr>memory := m'\<rparr>) \<and>
    copied (memory s) (\<lambda>i. dst + of_nat i) (\<lambda>i. user_addr (memory s) root (src + of_nat i)) (k + 1) m'"
  using assms
proof (induction "unat len" arbitrary: s dst src len k rule: less_induct)
  case less
  let ?m = "memory s" and ?n = "chunk src len" and ?src = "roundDown src + PAGE_SIZE"
  let ?A = "\<lambda>i. user_addr (memory s) root (src + of_nat i)" and ?B = "\<lambda>i. user_addr (memory s) root src + of_nat i"
  have len: "len > 0" using less.prems(3) by (auto simp: word_less_nat_alt)
  note r = less.prems(2) [unfolded string_readable_def]
  have "user_page ?m root (src + of_nat 0) \<noteq> 0" using r unfolding all_mapped_def by (metis add_gr_0 zero_less_one)
  then have unf: "copyinString s root dst src len = (case copyin_chars ?m dst (user_addr ?m root src) ?n len of
       (m, dst', len', True) \<Rightarrow> Inr (True, s\<lparr>memory := m\<rparr>)
     | (m, dst', len', False) \<Rightarrow> copyinString (s\<lparr>memory := m\<rparr>) root dst' ?src len')"
    using copyinString_unfold [OF len] by simp
  have A: "?B i = ?A i" if "i < unat ?n" for i using user_addr_chunk(2) [OF that] by simp
  have AB: "copied ?m (\<lambda>i. dst + of_nat i) ?B l m' \<Longrightarrow> copied ?m (\<lambda>i. dst + of_nat i) ?A l m'" if "l \<le> unat ?n" for l m'
    using A that by (simp cong: copied_cong)
  show ?case
  proof (cases "k < unat ?n")
    case True
    then have "\<exists>m' d l. copyin_chars ?m dst (user_addr ?m root src) ?n len = (m', d, l, True) \<and>
        copied ?m (\<lambda>i. dst + of_nat i) ?B (k + 1) m'"
      using r A by (intro copyin_chars_found) auto
    then show ?thesis using unf AB [of "k + 1"] True by auto
  next
    case False
    then have "\<exists>m1. copyin_chars ?m dst (user_addr ?m root src) ?n len = (m1, dst + ?n, len - ?n, False) \<and>
        copied ?m (\<lambda>i. dst + of_nat i) ?B (unat ?n) m1"
      using r A by (intro copyin_chars_missed) auto
    then obtain m1 where m1: "copyin_chars ?m dst (user_addr ?m root src) ?n len = (m1, dst + ?n, len - ?n, False)"
      "copied ?m (\<lambda>i. dst + of_nat i) ?A (unat ?n) m1" using AB [OF order_refl] by blast
    obtain j where k: "k = unat ?n + j" using False by (metis le_Suc_ex not_less)
    have j: "j < unat (len - ?n)" using less.prems(3) k chunk_bounds [OF len, of src] by (simp add: unat_sub)
    note rest = string_readable_rest [OF less.prems(1) less.prems(2) [unfolded k] len less.prems(3) [unfolded k] m1(2)]
    obtain m' where m': "copyinString (s\<lparr>memory := m1\<rparr>) root (dst + ?n) ?src (len - ?n) = Inr (True, s\<lparr>memory := m'\<rparr>)"
      "copied m1 (\<lambda>i. dst + ?n + of_nat i) (\<lambda>i. user_addr m1 root (?src + of_nat i)) (j + 1) m'"
      using less.hyps [OF chunk_decreases [OF len, of src], of "s\<lparr>memory := m1\<rparr>" "dst + ?n" ?src j] rest(1,2) j by auto
    have "copied m1 (\<lambda>i. dst + of_nat (unat ?n + i)) (\<lambda>i. ?A (unat ?n + i)) (j + 1) m'"
      using m'(2) unfolding rest(3) src_index
      by (rule copied_cong [THEN iffD1, rotated 2]) (simp_all add: rest(4) del: of_nat_add)
    then have "copied ?m (\<lambda>i. dst + of_nat i) ?A (unat ?n + (j + 1)) m'"
      using r k by (intro copied_split [OF m1(2)]) auto
    then show ?thesis using unf m1(1) m'(1) k by (auto simp: add.assoc)
  qed
qed

section \<open>Properties\<close>

text \<open>
  C18: \<open>allocateUserVirtualMemory\<close> from \<open>oldSize\<close> to \<open>newSize\<close> succeeds when three free frames are left
  for each new page: every page from the old size, rounded up, to the new size is mapped to a frame
  of its own, cleared, readable and accessible from user mode with the extra permissions; all other
  entries keep their value and no page outside of the tables and the free frames changes.
\<close>

theorem allocateUserVirtualMemory_correct:
  assumes "pt_wf (memory s) root F" "free_frames s F" "oldSize \<le> newSize"
    "n = (unat newSize - unat (roundUp oldSize) + 4095) div 4096" "3 * n \<le> card F"
    "unat (roundUp oldSize) + 4096 * n \<le> unat MAX_VIRTUAL_ADDRESS"
    "\<forall>k < n. entry_of (memory s) root (nth_page (roundUp oldSize) k) = 0"
  shows "\<exists>s' F' f. allocateUserVirtualMemory s root oldSize newSize xperm = Inr (newSize, s') \<and>
    pt_wf (memory s') root F' \<and> free_frames s' F' \<and>
    (\<forall>k < n. f k \<in> F - F' \<and> f k \<notin> tables (memory s') root \<and> zero_page (memory s') (f k) \<and>
       entry_of (memory s') root (nth_page (roundUp oldSize) k) = fill_entry 0 (f k) (user_flags xperm)) \<and>
    (\<forall>k < n. \<forall>l < n. f k = f l \<longrightarrow> k = l) \<and>
    (\<forall>q. page_aligned q \<longrightarrow> q \<notin> tables (memory s) root \<union> F \<longrightarrow> same_page q (memory s') (memory s)) \<and>
    (\<forall>page < MAX_VIRTUAL_ADDRESS. page_aligned page \<longrightarrow> (\<forall>k < n. page \<noteq> nth_page (roundUp oldSize) k) \<longrightarrow>
       entry_of (memory s') root page = entry_of (memory s) root page)"
proof -
  have al: "page_aligned (roundUp oldSize)" by (simp add: roundUp_roundDown)
  have "allocateUserVirtualMemory s root oldSize newSize xperm =
      allocate_loop s root (roundUp oldSize) (roundUp oldSize) newSize xperm"
    using assms(3) by (simp add: allocateUserVirtualMemory_def leD)
  moreover obtain s' F' f where "allocate_loop s root (roundUp oldSize) (roundUp oldSize) newSize xperm = Inr (newSize, s')"
    "pages_filled root s F (roundUp oldSize) n (\<lambda>_. user_flags xperm) f s' F'" "\<forall>k < n. zero_page (memory s') (f k)"
    using allocate_loop_spec [OF assms(1,2,5) al assms(6,4)] assms(7) by blast
  ultimately show ?thesis
    by (intro exI [of _ s'] exI [of _ F'] exI [of _ f]) (simp add: pages_filled_def)
qed

theorem allocateUserVirtualMemory_correct_witness:
  "\<exists>s' p. allocateUserVirtualMemory example_pages 0x80010000 0 100 4 = Inr (100, s') \<and>
     zero_page (memory s') p \<and> entry_of (memory s') 0x80010000 0 = fill_entry 0 p 0x16"
proof -
  have r: "roundUp 0 = 0" by (simp add: roundUp_def PAGE_SIZE_def)
  have u: "user_flags 4 = 0x16" by (simp add: user_flags_def PTE_R_def PTE_U_def)
  show ?thesis
    using allocateUserVirtualMemory_correct [OF example_root(1) example_frames(1), of 0 100 1 4]
    by (auto simp: r u example_root(3) example_frames(2) MAX_VIRTUAL_ADDRESS_eq)
qed

text \<open>
  C17: \<open>copyUserVirtualMemory\<close>, the memory part of \<open>fork\<close>. Every page of the parent below the size is
  mapped in the child at the same address with the same flags, to a frame of its own that holds the
  same 4096 bytes. The parent's table and pages are unchanged, and the child's other entries too.
\<close>

theorem copyUserVirtualMemory_correct:
  assumes "pt_wf (memory s) new F" "pt_wf (memory s) old F" "free_frames s F" "3 * n \<le> card F"
    "tables (memory s) old \<inter> tables (memory s) new = {}" "\<forall>p \<in> F. p < physicalAddressStop"
    "n = (unat sz + 4095) div 4096" "4096 * n \<le> unat MAX_VIRTUAL_ADDRESS"
    "\<forall>k < n. entry_of (memory s) new (nth_page 0 k) = 0"
    "\<forall>k < n. pte_v (entry_of (memory s) old (nth_page 0 k)) \<and>
       toPhysicalAddress (entry_of (memory s) old (nth_page 0 k)) < physicalAddressStop \<and>
       toPhysicalAddress (entry_of (memory s) old (nth_page 0 k)) \<notin> F \<union> tables (memory s) new"
  shows "\<exists>s' F' f. copyUserVirtualMemory s old new sz = Inr s' \<and>
    pt_wf (memory s') new F' \<and> pt_wf (memory s') old F' \<and> free_frames s' F' \<and>
    (\<forall>k < n. f k \<in> F - F' \<and> f k \<notin> tables (memory s') new \<and>
       entry_of (memory s') new (nth_page 0 k) =
         fill_entry 0 (f k) (pte_flags (entry_of (memory s) old (nth_page 0 k))) \<and>
       same_contents (memory s') (f k) (memory s) (toPhysicalAddress (entry_of (memory s) old (nth_page 0 k)))) \<and>
    (\<forall>k < n. \<forall>l < n. f k = f l \<longrightarrow> k = l) \<and>
    (\<forall>va. entry_of (memory s') old va = entry_of (memory s) old va) \<and>
    (\<forall>q. page_aligned q \<longrightarrow> q \<notin> tables (memory s) new \<union> F \<longrightarrow> same_page q (memory s') (memory s)) \<and>
    (\<forall>page < MAX_VIRTUAL_ADDRESS. page_aligned page \<longrightarrow> (\<forall>k < n. page \<noteq> nth_page 0 k) \<longrightarrow>
       entry_of (memory s') new page = entry_of (memory s) new page)"
proof -
  obtain s' F' f where "copy_loop s old new sz 0 = Inr s'"
    "pages_filled new s F 0 n (\<lambda>k. pte_flags (entry_of (memory s) old (nth_page 0 k))) f s' F'" "pt_wf (memory s') old F'"
    "\<forall>va. entry_of (memory s') old va = entry_of (memory s) old va"
    "\<forall>k < n. same_contents (memory s') (f k) (memory s) (toPhysicalAddress (entry_of (memory s) old (nth_page 0 k)))"
    using copy_loop_spec [OF assms(1-6) example_aligned(8), of sz] assms(7-10) by auto
  then show ?thesis
    by (intro exI [of _ s'] exI [of _ F'] exI [of _ f]) (simp add: copyUserVirtualMemory_def pages_filled_def)
qed

text \<open>An address space of one page, and an empty one beside it.\<close>

lemma example_parent:
  "\<exists>s F. pt_wf (memory s) 0x80012000 F \<and> pt_wf (memory s) 0x80010000 F \<and> free_frames s F \<and> 3 \<le> card F \<and>
     tables (memory s) 0x80010000 \<inter> tables (memory s) 0x80012000 = {} \<and> (\<forall>p \<in> F. p < physicalAddressStop) \<and>
     entry_of (memory s) 0x80012000 0 = 0 \<and> entry_of (memory s) 0x80010000 0 = fill_entry 0 0x80011000 0x16 \<and>
     0x80011000 \<notin> F \<union> tables (memory s) 0x80012000"
proof -
  let ?F = "{0x80001000, 0x80002000, 0x80003000, 0x80004000, 0x80005000, 0x80006000} :: u64 set"
  obtain s F where s: "pt_wf (memory s) 0x80010000 F" "free_frames s F" "card ?F \<le> card F + 2"
    "remapped 0x80010000 (memory example_pages) ?F (memory s) F"
    "\<forall>page < MAX_VIRTUAL_ADDRESS. page_aligned page \<longrightarrow> entry_of (memory s) 0x80010000 page =
       ((entry_of (memory example_pages) 0x80010000)(0 := fill_entry 0 0x80011000 0x16)) page"
    using map_one_page [OF example_root(1) example_frames(1) _ example_aligned(8), of "0x80011000" "0x16"]
    by (auto simp: example_frames(2) example_root(3) MAX_VIRTUAL_ADDRESS_eq)
  have F: "F \<subseteq> ?F" and tb: "tables (memory s) 0x80010000 = {0x80010000} \<union> (?F - F)"
    and rs: "\<And>q. page_aligned q \<Longrightarrow> q \<notin> {0x80010000} \<union> (?F - F) \<Longrightarrow> same_page q (memory s) (memory example_pages)"
    using s(4) unfolding remapped_def example_root(2) by auto
  have "zero_page (memory example_pages) 0x80012000"
    by (rule example_pages_inv(2) [OF example_aligned(11)]) simp
  then have z: "zero_page (memory s) 0x80012000"
    using zero_page_same [OF rs [OF example_aligned(11)]] by simp
  have "0x80012000 \<notin> F" "0x80011000 \<notin> F" using F by auto
  note fresh = fresh_root [OF z example_aligned(11) this(1)]
  have "3 \<le> card F" using s(3) by (simp add: example_frames(2))
  moreover have "\<forall>p \<in> F. p < physicalAddressStop"
    using F by (auto simp: physicalAddressStop_def KERNEL_BASE_def)
  moreover have "entry_of (memory s) 0x80010000 0 = fill_entry 0 0x80011000 0x16"
    using s(5) example_aligned(8) by (simp add: MAX_VIRTUAL_ADDRESS_eq)
  ultimately show ?thesis
    using s(1,2) fresh tb \<open>0x80011000 \<notin> F\<close> by (intro exI [of _ s] exI [of _ F]) auto
qed

theorem copyUserVirtualMemory_correct_witness:
  "\<exists>s s' p. copyUserVirtualMemory s 0x80010000 0x80012000 4096 = Inr s' \<and>
     entry_of (memory s') 0x80012000 0 = fill_entry 0 p 0x17 \<and>
     same_contents (memory s') p (memory s) 0x80011000"
proof -
  obtain s F where s: "pt_wf (memory s) 0x80012000 F" "pt_wf (memory s) 0x80010000 F" "free_frames s F"
    "3 * 1 \<le> card F" "tables (memory s) 0x80010000 \<inter> tables (memory s) 0x80012000 = {}"
    "\<forall>p \<in> F. p < physicalAddressStop" "entry_of (memory s) 0x80012000 0 = 0"
    "entry_of (memory s) 0x80010000 0 = fill_entry 0 0x80011000 0x16"
    "0x80011000 \<notin> F \<union> tables (memory s) 0x80012000"
    using example_parent by auto
  note fe = fill_entry_fields [OF example_aligned(6), of "0x16"]
  have fl: "pte_flags (fill_entry 0 0x80011000 0x16) = 0x17"
    by (simp add: pte_flags_def fill_entry_def set_pte_v_def)
  show ?thesis
    using copyUserVirtualMemory_correct [OF s(1-6), of 4096] s(7-9) fe
    by (auto simp: fl MAX_VIRTUAL_ADDRESS_eq physicalAddressStop_def KERNEL_BASE_def)
qed

text \<open>
  C34: \<open>copyinString\<close> fetches a string argument: when the user range holds \<open>k\<close> characters and a NUL
  within the limit, it returns true with the characters and the NUL in the kernel buffer and nothing
  else changed, also when the string crosses pages that lie apart in physical memory.
\<close>

theorem copyinString_correct:
  assumes "pt_wf (memory s) root F" "string_readable (memory s) root dst src k" "k < unat len"
  shows "\<exists>m'. copyinString s root dst src len = Inr (True, s\<lparr>memory := m'\<rparr>) \<and>
    (\<forall>i < k. m' (dst + of_nat i) = memory s (user_addr (memory s) root (src + of_nat i)) \<and> m' (dst + of_nat i) \<noteq> 0) \<and>
    m' (dst + of_nat k) = 0 \<and>
    (\<forall>x. (\<forall>i < k + 1. x \<noteq> dst + of_nat i) \<longrightarrow> m' x = memory s x)"
proof -
  obtain m' where "copyinString s root dst src len = Inr (True, s\<lparr>memory := m'\<rparr>)"
    "copied (memory s) (\<lambda>i. dst + of_nat i) (\<lambda>i. user_addr (memory s) root (src + of_nat i)) (k + 1) m'"
    using copyinString_copies [OF assms] by blast
  then show ?thesis
    using assms(2) by (intro exI [of _ m']) (auto simp: copied_def string_readable_def)
qed

theorem copyinString_correct_witness:
  "let s = example_user\<lparr>memory := (memory example_user)(0x80011000 := 65)\<rparr> in
   \<exists>m'. copyinString s 0x80010000 0x80020000 0x1000 16 = Inr (True, s\<lparr>memory := m'\<rparr>) \<and>
     m' 0x80020000 = 65 \<and> m' 0x80020001 = 0"
proof -
  let ?base = "memory example_user"
  let ?m = "?base(0x80011000 := 65)"
  let ?s = "example_user\<lparr>memory := ?m\<rparr>"
  obtain F where F: "pt_wf ?base 0x80010000 F" "0x80011000 \<notin> tables ?base 0x80010000"
    "0x80020000 \<notin> tables ?base 0x80010000" using example_user_table(1) by blast
  have "\<forall>x. ?m x \<noteq> ?base x \<longrightarrow> roundDown x \<notin> tables ?base 0x80010000"
    using F(2) example_aligned(6) by simp
  note fr = user_frame [OF F(1) this]
  have z: "?base 0x80011001 = 0"
    using example_user_table(3) roundDown_in_page [OF example_aligned(6), of 1] by (simp add: zero_page_def)
  have "user_range ?base 0x80010000 0x1000 2" using user_range_mono [OF example_user_range(1)] by simp
  moreover have "all_mapped ?base 0x80010000 0x1000 2" using example_user_range(2) by (simp add: all_mapped_def)
  moreover have two: "i < 1 + 1 \<Longrightarrow> i < 16" "(1 :: nat) + 1 = 2" for i :: nat by auto
  ultimately have sr: "string_readable ?m 0x80010000 0x80020000 0x1000 1"
    unfolding string_readable_def fr two(2)
  proof (intro conjI allI impI)
    fix i j :: nat assume "i < 2" "j < 2"
    then have "i < 16" "j < 16" by auto
    then show "user_addr ?base 0x80010000 (0x1000 + of_nat i) \<noteq> 0x80020000 + of_nat j"
      unfolding example_range(2) [OF \<open>i < 16\<close>] using small_offsets(2) [of j i] by metis
  next
    fix i :: nat assume "i < 2"
    then have "i < 16" by simp
    then show "roundDown (0x80020000 + of_nat i) \<notin> tables ?base 0x80010000"
      unfolding small_offsets(3) [OF \<open>i < 16\<close>] using F(3) by simp
  next
    fix i :: nat assume "i < 1"
    then show "?m (user_addr ?base 0x80010000 (0x1000 + of_nat i)) \<noteq> 0" using example_range(2) [of 0] by simp
  next
    show "?m (user_addr ?base 0x80010000 (0x1000 + of_nat 1)) = 0" using example_range(2) [of 1] z by simp
  qed (simp_all add: all_mapped_def fr)
  show ?thesis
    using copyinString_correct [of ?s "0x80010000" F "0x80020000" "0x1000" 1 16] fr(1) sr example_range(2) [of 0] fr(4)
    by (auto simp: Let_def)
qed

end
