(* ===== verification/Fs_Inode.thy ===== *)
theory Fs_Inode
  imports Fs_Block Mem_User
begin

unbundle bit_operations_syntax

text \<open>
  Inodes and directories, \<open>kernel/fs/inode.cpp\<close>, on the bitmap, the log and the buffer cache. An
  \<open>Inode*\<close> is a number that selects an inode of the heap \<open>inode_of\<close> (\<open>None\<close> is \<open>nullptr\<close>); the table
  \<open>itable\<close> maps a key to the inode in its node. A C string is the list of its bytes without the
  terminator; a \<open>char\<close> array is the list of its bytes. The destination of \<open>read\<close> and the source of
  \<open>write\<close> are a user address, a kernel address or an object of the kernel given by its bytes.
\<close>

section \<open>Model: data\<close>

definition NUM_DIRECT_BLOCKS :: nat where "NUM_DIRECT_BLOCKS = 12"
definition NUM_INDIRECT_BLOCKS :: nat where "NUM_INDIRECT_BLOCKS = BLOCK_SIZE div 4"
definition MAX_FILE :: nat where "MAX_FILE = NUM_DIRECT_BLOCKS + NUM_INDIRECT_BLOCKS"
definition ROOT_DEVICE :: u32 where "ROOT_DEVICE = 1"
definition ROOT_INUM :: u32 where "ROOT_INUM = 1"
definition INODES_PER_BLOCK :: nat where "INODES_PER_BLOCK = BLOCK_SIZE div 64"
definition MAX_DIR_NAME_LENGTH :: nat where "MAX_DIR_NAME_LENGTH = 14"

definition T_DIR :: u16 where "T_DIR = 1"
definition T_FILE :: u16 where "T_FILE = 2"
definition T_DEVICE :: u16 where "T_DEVICE = 3"

text \<open>The fields that an inode has both in memory and on the disk (\<open>struct DiskInode\<close>).\<close>

record dinode =
  di_type :: u16
  di_major :: u16
  di_minor :: u16
  di_numLinks :: u16
  di_size :: u32
  di_direct :: "u32 list"
  di_indirect :: u32

record inode = dinode +
  i_device :: u32
  i_inum :: u32
  i_refCount :: u32
  i_mutex :: sleep_mutex
  i_valid :: bool

definition new_Inode :: inode where
  "new_Inode =
     \<lparr>di_type = 0, di_major = 0, di_minor = 0, di_numLinks = 0, di_size = 0,
      di_direct = replicate NUM_DIRECT_BLOCKS 0, di_indirect = 0,
      i_device = 0, i_inum = 0, i_refCount = 0, i_mutex = \<lparr>sm_locked = False, sm_pid = 0\<rparr>, i_valid = False\<rparr>"

text \<open>\<open>data_address\<close> is where the allocator has placed the bytes of a buffer.\<close>

record ino_state = blk_state +
  itable :: "(u64, nat) hash_map"
  inode_of :: "nat \<Rightarrow> inode"
  next_inode :: nat
  cwd :: nat
  pages :: page_state
  current_table :: u64
  data_address :: "nat \<Rightarrow> u64"

type_synonym 'a istate = "'a ino_state_scheme"

definition upd_inode :: "'a istate \<Rightarrow> nat \<Rightarrow> (inode \<Rightarrow> inode) \<Rightarrow> 'a istate" where
  "upd_inode s ip f = s\<lparr>inode_of := (inode_of s)(ip := f (inode_of s ip))\<rparr>"

definition get16 :: "u8 list \<Rightarrow> nat \<Rightarrow> u16" where
  "get16 d off = word_of_bytes (get_bytes d off 2)"

definition put16 :: "u8 list \<Rightarrow> nat \<Rightarrow> u16 \<Rightarrow> u8 list" where
  "put16 d off v = put_bytes d off (bytes_of_word 2 v)"

text \<open>\<open>struct DiskInode\<close> at byte \<open>off\<close> of a block.\<close>

fun put_words :: "u8 list \<Rightarrow> nat \<Rightarrow> u32 list \<Rightarrow> u8 list" where
  "put_words d off [] = d"
| "put_words d off (w # ws) = put_words (put32 d off w) (off + 4) ws"

definition get_words :: "u8 list \<Rightarrow> nat \<Rightarrow> nat \<Rightarrow> u32 list" where
  "get_words d off n = map (\<lambda>i. get32 d (off + 4 * i)) [0..<n]"

definition put_dinode :: "u8 list \<Rightarrow> nat \<Rightarrow> 'a dinode_scheme \<Rightarrow> u8 list" where
  "put_dinode d off x =
     put32 (put_words (put32 (put16 (put16 (put16 (put16 d
       off (di_type x)) (off + 2) (di_major x)) (off + 4) (di_minor x)) (off + 6) (di_numLinks x))
       (off + 8) (di_size x)) (off + 12) (di_direct x)) (off + 60) (di_indirect x)"

definition get_dinode :: "u8 list \<Rightarrow> nat \<Rightarrow> dinode" where
  "get_dinode d off =
     \<lparr>di_type = get16 d off, di_major = get16 d (off + 2), di_minor = get16 d (off + 4), di_numLinks = get16 d (off + 6),
      di_size = get32 d (off + 8), di_direct = get_words d (off + 12) NUM_DIRECT_BLOCKS, di_indirect = get32 d (off + 60)\<rparr>"

definition iblock :: "u32 \<Rightarrow> super_block \<Rightarrow> u32" where
  "iblock i sb = i div of_nat INODES_PER_BLOCK + inodeStart sb"

definition dinode_offset :: "u32 \<Rightarrow> nat" where
  "dinode_offset i = 64 * (unat i mod INODES_PER_BLOCK)"

section \<open>Model: inodes\<close>

text \<open>\<open>Inode::get\<close>; the first use of \<open>operator[]\<close> on a missing key makes the node.\<close>

definition inode_get :: "'a istate \<Rightarrow> u32 \<Rightarrow> u32 \<Rightarrow> (nat \<times> 'a istate) outcome" where
  "inode_get s device inum =
     (let key = buffer_key device inum in
      andThen (contains (itable s) key) (\<lambda>present.
        if present
        then andThen (subscript (itable s) key (next_inode s)) (\<lambda>(t, ip).
               Inr (ip, upd_inode (s\<lparr>itable := t\<rparr>) ip (\<lambda>x. x\<lparr>i_refCount := i_refCount x + 1\<rparr>)))
        else andThen (subscript (itable s) key (next_inode s)) (\<lambda>(t, ip).
               Inr (ip, s\<lparr>itable := t, next_inode := Suc (next_inode s),
                 inode_of := (inode_of s)(ip :=
                   new_Inode\<lparr>i_device := device, i_inum := inum, i_refCount := 1, i_valid := False\<rparr>)\<rparr>))))"

definition inode_dup :: "'a istate \<Rightarrow> nat \<Rightarrow> nat \<times> 'a istate" where
  "inode_dup s ip = (ip, upd_inode s ip (\<lambda>x. x\<lparr>i_refCount := i_refCount x + 1\<rparr>))"

text \<open>\<open>Inode::allocate\<close>; \<open>k\<close> bounds the inodes left to try.\<close>

fun inode_allocate_loop :: "'a istate \<Rightarrow> u32 \<Rightarrow> u16 \<Rightarrow> u32 \<Rightarrow> nat \<Rightarrow> (nat option \<times> 'a istate) outcome" where
  "inode_allocate_loop s device type i 0 = Inr (None, s)"
| "inode_allocate_loop s device type i (Suc k) =
     (if i < numInodes (superBlock s) then
        andThen (cache_get s device (iblock i (superBlock s))) (\<lambda>(bp, s1).
          let s2 = buffer_read s1 bp;
              d = b_data (buffer_of s2 bp);
              off = dinode_offset i
          in if di_type (get_dinode d off) = 0
             then let d1 = put_bytes d off (replicate 63 0);
                      s3 = set_data s2 bp (put16 d1 off type)
                  in andThen (writeLog s3 bp) (\<lambda>s4.
                     andThen (cache_release s4 bp) (\<lambda>s5.
                     andThen (inode_get s5 device i) (\<lambda>(ip, s6). Inr (Some ip, s6))))
             else andThen (cache_release s2 bp) (\<lambda>s3. inode_allocate_loop s3 device type (i + 1) k))
      else Inr (None, s))"

definition inode_allocate :: "'a istate \<Rightarrow> u32 \<Rightarrow> u16 \<Rightarrow> (nat option \<times> 'a istate) outcome" where
  "inode_allocate s device type = inode_allocate_loop s device type 1 (unat (numInodes (superBlock s)))"

definition inode_lock :: "'a istate \<Rightarrow> nat \<Rightarrow> 'a istate outcome" where
  "inode_lock s ip =
     andThen (assert_that (i_refCount (inode_of s ip) \<ge> 1)) (\<lambda>_.
     andThen (sleep_lock (pid_now s) (i_mutex (inode_of s ip))) (\<lambda>m.
       let s1 = upd_inode s ip (\<lambda>x. x\<lparr>i_mutex := m\<rparr>);
           x = inode_of s1 ip
       in if i_valid x then Inr s1
          else andThen (cache_get s1 (i_device x) (iblock (i_inum x) (superBlock s1))) (\<lambda>(bp, s2).
            let s3 = buffer_read s2 bp;
                di = get_dinode (b_data (buffer_of s3 bp)) (dinode_offset (i_inum x));
                s4 = upd_inode s3 ip (\<lambda>x. x\<lparr>di_type := di_type di, di_major := di_major di, di_minor := di_minor di,
                       di_numLinks := di_numLinks di, di_size := di_size di, di_direct := di_direct di,
                       di_indirect := di_indirect di\<rparr>)
            in andThen (cache_release s4 bp) (\<lambda>s5.
               andThen (assert_that (di_type di \<noteq> 0)) (\<lambda>_. Inr (upd_inode s5 ip (\<lambda>x. x\<lparr>i_valid := True\<rparr>)))))))"

definition inode_unlock :: "'a istate \<Rightarrow> nat \<Rightarrow> 'a istate outcome" where
  "inode_unlock s ip =
     andThen (assert_that (sleep_holding (pid_now s) (i_mutex (inode_of s ip)))) (\<lambda>_.
     andThen (assert_that (i_refCount (inode_of s ip) \<ge> 1)) (\<lambda>_.
       Inr (upd_inode s ip (\<lambda>x. x\<lparr>i_mutex := sleep_unlock (i_mutex x)\<rparr>))))"

definition inode_update :: "'a istate \<Rightarrow> nat \<Rightarrow> 'a istate outcome" where
  "inode_update s ip =
     (let x = inode_of s ip in
      andThen (cache_get s (i_device x) (iblock (i_inum x) (superBlock s))) (\<lambda>(bp, s1).
        let s2 = buffer_read s1 bp;
            s3 = set_data s2 bp (put_dinode (b_data (buffer_of s2 bp)) (dinode_offset (i_inum x)) x)
        in andThen (writeLog s3 bp) (\<lambda>s4. cache_release s4 bp)))"

fun truncate_direct :: "'a istate \<Rightarrow> nat \<Rightarrow> nat \<Rightarrow> nat \<Rightarrow> 'a istate outcome" where
  "truncate_direct s ip i 0 = Inr s"
| "truncate_direct s ip i (Suc k) =
     (let direct = di_direct (inode_of s ip) ! i in
      if direct \<noteq> 0
      then andThen (freeBlock s (i_device (inode_of s ip)) direct) (\<lambda>s1.
             truncate_direct (upd_inode s1 ip (\<lambda>x. x\<lparr>di_direct := (di_direct x)[i := 0]\<rparr>)) ip (Suc i) k)
      else truncate_direct s ip (Suc i) k)"

fun truncate_indirect :: "'a istate \<Rightarrow> u32 \<Rightarrow> nat \<Rightarrow> nat \<Rightarrow> nat \<Rightarrow> 'a istate outcome" where
  "truncate_indirect s device bp i 0 = Inr s"
| "truncate_indirect s device bp i (Suc k) =
     (let address = get32 (b_data (buffer_of s bp)) (4 * i) in
      if address \<noteq> 0
      then andThen (freeBlock s device address) (\<lambda>s1. truncate_indirect s1 device bp (Suc i) k)
      else truncate_indirect s device bp (Suc i) k)"

definition inode_truncate :: "'a istate \<Rightarrow> nat \<Rightarrow> 'a istate outcome" where
  "inode_truncate s ip =
     andThen (truncate_direct s ip 0 NUM_DIRECT_BLOCKS) (\<lambda>s1.
       let x = inode_of s1 ip in
       andThen
         (if di_indirect x \<noteq> 0
          then andThen (cache_get s1 (i_device x) (di_indirect x)) (\<lambda>(bp, s2).
               andThen (truncate_indirect (buffer_read s2 bp) (i_device x) bp 0 NUM_INDIRECT_BLOCKS) (\<lambda>s3.
               andThen (cache_release s3 bp) (\<lambda>s4.
               andThen (freeBlock s4 (i_device x) (di_indirect x)) (\<lambda>s5.
                 Inr (upd_inode s5 ip (\<lambda>x. x\<lparr>di_indirect := 0\<rparr>))))))
          else Inr s1)
         (\<lambda>s6. inode_update (upd_inode s6 ip (\<lambda>x. x\<lparr>di_size := 0\<rparr>)) ip))"

definition inode_put :: "'a istate \<Rightarrow> nat \<Rightarrow> 'a istate outcome" where
  "inode_put s ip =
     (let x = inode_of s ip in
      andThen
        (if i_refCount x = 1 \<and> i_valid x \<and> di_numLinks x = 0
         then andThen (sleep_lock (pid_now s) (i_mutex x)) (\<lambda>m.
              andThen (inode_truncate (upd_inode s ip (\<lambda>x. x\<lparr>i_mutex := m\<rparr>)) ip) (\<lambda>s1.
              andThen (inode_update (upd_inode s1 ip (\<lambda>x. x\<lparr>di_type := 0\<rparr>)) ip) (\<lambda>s2.
                Inr (upd_inode s2 ip (\<lambda>x. x\<lparr>i_valid := False, i_mutex := sleep_unlock (i_mutex x)\<rparr>)))))
         else Inr s)
        (\<lambda>s3. Inr (upd_inode s3 ip (\<lambda>x. x\<lparr>i_refCount := i_refCount x - 1\<rparr>))))"

text \<open>\<open>bmap\<close>; the indirect block is fetched but never read from the disk.\<close>

definition bmap_indirect :: "'a istate \<Rightarrow> nat \<Rightarrow> u32 \<Rightarrow> (u32 \<times> 'a istate) outcome" where
  "bmap_indirect s ip bn =
     (let dev = i_device (inode_of s ip); off = 4 * unat bn in
      andThen (cache_get s dev (di_indirect (inode_of s ip))) (\<lambda>(bp, s1).
      andThen
        (if get32 (b_data (buffer_of s1 bp)) off = 0
         then andThen (allocateBlock s1 dev) (\<lambda>(b, s2).
                let s3 = set_data s2 bp (put32 (b_data (buffer_of s2 bp)) off b)
                in if b \<noteq> 0 then writeLog s3 bp else Inr s3)
         else Inr s1)
        (\<lambda>s4. andThen (cache_release s4 bp) (\<lambda>s5.
           Inr (get32 (b_data (buffer_of s5 bp)) off, s5)))))"

definition inode_bmap :: "'a istate \<Rightarrow> nat \<Rightarrow> u32 \<Rightarrow> (u32 \<times> 'a istate) outcome" where
  "inode_bmap s ip bn =
     (let x = inode_of s ip; dev = i_device x in
      if bn < of_nat NUM_DIRECT_BLOCKS then
        (if di_direct x ! unat bn = 0
         then andThen (allocateBlock s dev) (\<lambda>(b, s1).
                Inr (b, upd_inode s1 ip (\<lambda>x. x\<lparr>di_direct := (di_direct x)[unat bn := b]\<rparr>)))
         else Inr (di_direct x ! unat bn, s))
      else
        andThen (assert_that (bn - of_nat NUM_DIRECT_BLOCKS < of_nat NUM_INDIRECT_BLOCKS)) (\<lambda>_.
        andThen
          (if di_indirect x = 0
           then andThen (allocateBlock s dev) (\<lambda>(b, s1). Inr (upd_inode s1 ip (\<lambda>x. x\<lparr>di_indirect := b\<rparr>)))
           else Inr s)
          (\<lambda>s1. if di_indirect (inode_of s1 ip) = 0 then Inr (0, s1)
                else bmap_indirect s1 ip (bn - of_nat NUM_DIRECT_BLOCKS))))"

section \<open>Model: reading and writing\<close>

datatype place = User u64 | Kernel u64 | Object "u8 list" nat

text \<open>
  \<open>eitherCopyout\<close> and \<open>eitherCopyin\<close> with the data of a buffer on the other side: \<open>bs\<close> are its bytes
  at \<open>src\<close>, \<open>old\<close> its bytes at \<open>dst\<close> before the copy. The place is returned advanced, as the loops of
  the callers do.
\<close>

definition copy_to_place :: "'a istate \<Rightarrow> place \<Rightarrow> u64 \<Rightarrow> u8 list \<Rightarrow> (bool \<times> place \<times> 'a istate) outcome" where
  "copy_to_place s p src bs =
     (let ps = (pages s)\<lparr>memory := write_bytes (memory (pages s)) src bs\<rparr>; n = of_nat (length bs) in
      case p of
        User dst \<Rightarrow> andThen (eitherCopyout ps (current_table s) True dst src n) (\<lambda>(ok, ps').
          Inr (ok, User (dst + n), s\<lparr>pages := ps'\<rparr>))
      | Kernel dst \<Rightarrow> andThen (eitherCopyout ps (current_table s) False dst src n) (\<lambda>(ok, ps').
          Inr (ok, Kernel (dst + n), s\<lparr>pages := ps'\<rparr>))
      | Object d off \<Rightarrow> Inr (True, Object (put_bytes d off bs) (off + length bs), s))"

definition copy_from_place :: "'a istate \<Rightarrow> place \<Rightarrow> u64 \<Rightarrow> u8 list \<Rightarrow> (bool \<times> place \<times> u8 list \<times> 'a istate) outcome" where
  "copy_from_place s p dst old =
     (let ps = (pages s)\<lparr>memory := write_bytes (memory (pages s)) dst old\<rparr>; n = of_nat (length old) in
      case p of
        User src \<Rightarrow> andThen (eitherCopyin ps (current_table s) dst True src n) (\<lambda>(ok, ps').
          Inr (ok, User (src + n), read_bytes (memory ps') dst (length old), s\<lparr>pages := ps'\<rparr>))
      | Kernel src \<Rightarrow> andThen (eitherCopyin ps (current_table s) dst False src n) (\<lambda>(ok, ps').
          Inr (ok, Kernel (src + n), read_bytes (memory ps') dst (length old), s\<lparr>pages := ps'\<rparr>))
      | Object d off \<Rightarrow> Inr (True, Object d (off + length old), get_bytes d off (length old), s))"

text \<open>The length of the next piece: the rest of the request or of the block.\<close>

definition piece :: "u32 \<Rightarrow> u32 \<Rightarrow> u32 \<Rightarrow> u32" where
  "piece len tot offset = min (len - tot) (of_nat BLOCK_SIZE - offset mod of_nat BLOCK_SIZE)"

lemma piece_nat:
  assumes "tot < len"
  shows "0 < unat (piece len tot offset)" "unat (tot + piece len tot offset) = unat tot + unat (piece len tot offset)"
    "unat (piece len tot offset) = min (unat len - unat tot) (BLOCK_SIZE - unat offset mod BLOCK_SIZE)"
proof -
  have m: "unat (offset mod 1024 :: u32) = unat offset mod 1024" by (simp add: unat_mod)
  have lt: "unat offset mod 1024 < 1024" by simp
  have "offset mod 1024 \<le> (1024 :: u32)" using m lt by (simp add: word_le_nat_alt)
  then have b: "unat ((1024 :: u32) - offset mod 1024) = 1024 - unat offset mod 1024" by (simp add: unat_sub m)
  have d: "unat (len - tot) = unat len - unat tot" using assms by (simp add: unat_sub order.strict_implies_order)
  show eq: "unat (piece len tot offset) = min (unat len - unat tot) (BLOCK_SIZE - unat offset mod BLOCK_SIZE)"
    using b d by (simp add: piece_def BLOCK_SIZE_def min_def word_le_nat_alt)
  have t: "unat tot < unat len" using assms by (simp add: word_less_nat_alt)
  then show "0 < unat (piece len tot offset)" using eq lt by (simp add: BLOCK_SIZE_def)
  have "unat len < 2 ^ 32" using unsigned_less [of len, where 'a = nat] by simp
  then have "unat tot + unat (piece len tot offset) < 2 ^ 32" using eq t by linarith
  then show "unat (tot + piece len tot offset) = unat tot + unat (piece len tot offset)"
    by (simp add: unat_plus_if')
qed

lemma piece_progress:
  assumes "tot < len"
  shows "unat (len - (tot + piece len tot offset)) < unat (len - tot)"
proof -
  have t: "unat tot < unat len" using assms by (simp add: word_less_nat_alt)
  note p = piece_nat [OF assms, of offset]
  have "tot + piece len tot offset \<le> len" "tot \<le> len" using p t by (simp_all add: word_le_nat_alt)
  then show ?thesis using p(1,2) t by (simp add: unat_sub)
qed

text \<open>The loop of \<open>Inode::read\<close>; the result is \<open>None\<close> when a copy fails, else the bytes read.\<close>

function read_loop :: "'a istate \<Rightarrow> nat \<Rightarrow> place \<Rightarrow> u32 \<Rightarrow> u32 \<Rightarrow> u32 \<Rightarrow> (u32 option \<times> place \<times> 'a istate) outcome" where
  "read_loop s ip p offset len tot =
     (if tot < len then
        andThen (inode_bmap s ip (offset div of_nat BLOCK_SIZE)) (\<lambda>(address, s1).
          if address = 0 then Inr (Some tot, p, s1)
          else andThen (cache_get s1 (i_device (inode_of s1 ip)) address) (\<lambda>(bp, s2).
            let s3 = buffer_read s2 bp;
                n = piece len tot offset;
                o' = unat (offset mod of_nat BLOCK_SIZE)
            in andThen (copy_to_place s3 p (data_address s3 bp + of_nat o') (get_bytes (b_data (buffer_of s3 bp)) o' (unat n))) (\<lambda>(ok, p', s4).
               andThen (cache_release s4 bp) (\<lambda>s5.
                 if \<not> ok then Inr (None, p', s5)
                 else read_loop s5 ip p' (offset + n) len (tot + n)))))
      else Inr (Some tot, p, s))"
  by pat_completeness auto
termination
  by (relation "measure (\<lambda>(s, ip, p, offset, len, tot). unat (len - tot))") (auto intro: piece_progress)

declare read_loop.simps [simp del]

definition inode_read :: "'a istate \<Rightarrow> nat \<Rightarrow> place \<Rightarrow> u32 \<Rightarrow> u32 \<Rightarrow> (int \<times> place \<times> 'a istate) outcome" where
  "inode_read s ip p offset len =
     (let size = di_size (inode_of s ip) in
      if offset > size \<or> offset + len < offset then Inr (0, p, s)
      else
        let len = (if offset + len > size then size - offset else len)
        in andThen (read_loop s ip p offset len 0) (\<lambda>(r, p', s').
             Inr (case r of None \<Rightarrow> -1 | Some tot \<Rightarrow> sint tot, p', s')))"

text \<open>The loop of \<open>Inode::write\<close>: the offset and the bytes written when it ends.\<close>

function write_loop :: "'a istate \<Rightarrow> nat \<Rightarrow> place \<Rightarrow> u32 \<Rightarrow> u32 \<Rightarrow> u32 \<Rightarrow> (u32 \<times> u32 \<times> 'a istate) outcome" where
  "write_loop s ip p offset len tot =
     (if tot < len then
        andThen (inode_bmap s ip (offset div of_nat BLOCK_SIZE)) (\<lambda>(addr, s1).
          if addr = 0 then Inr (offset, tot, s1)
          else andThen (cache_get s1 (i_device (inode_of s1 ip)) addr) (\<lambda>(bp, s2).
            let s3 = buffer_read s2 bp;
                n = piece len tot offset;
                o' = unat (offset mod of_nat BLOCK_SIZE)
            in andThen (copy_from_place s3 p (data_address s3 bp + of_nat o') (get_bytes (b_data (buffer_of s3 bp)) o' (unat n))) (\<lambda>(ok, p', bs, s4).
               let s5 = set_data s4 bp (put_bytes (b_data (buffer_of s4 bp)) o' bs) in
               if \<not> ok then andThen (cache_release s5 bp) (\<lambda>s6. Inr (offset, tot, s6))
               else andThen (writeLog s5 bp) (\<lambda>s6.
                    andThen (cache_release s6 bp) (\<lambda>s7.
                      write_loop s7 ip p' (offset + n) len (tot + n))))))
      else Inr (offset, tot, s))"
  by pat_completeness auto
termination
  by (relation "measure (\<lambda>(s, ip, p, offset, len, tot). unat (len - tot))") (auto intro: piece_progress)

declare write_loop.simps [simp del]

definition inode_write :: "'a istate \<Rightarrow> nat \<Rightarrow> place \<Rightarrow> u32 \<Rightarrow> u32 \<Rightarrow> (int \<times> 'a istate) outcome" where
  "inode_write s ip p offset len =
     (let size = di_size (inode_of s ip) in
      if offset > size \<or> offset + len < offset then Inr (-1, s)
      else if unat (offset + len) > MAX_FILE * BLOCK_SIZE then Inr (-1, s)
      else andThen (write_loop s ip p offset len 0) (\<lambda>(offset', tot, s1).
        let s2 = (if offset' > di_size (inode_of s1 ip) then upd_inode s1 ip (\<lambda>x. x\<lparr>di_size := offset'\<rparr>) else s1)
        in andThen (inode_update s2 ip) (\<lambda>s3. Inr (sint tot, s3))))"

section \<open>Model: directories\<close>

text \<open>
  \<open>strncmp\<close> on two \<open>char\<close> arrays. It stops at a difference or at a common end of string only, so two
  equal arrays without a terminator make it run over their ends.
\<close>

fun strncmp_bytes :: "u8 list \<Rightarrow> u8 list \<Rightarrow> int outcome" where
  "strncmp_bytes (x # xs) (y # ys) =
     (if x = y then (if x = 0 then Inr 0 else strncmp_bytes xs ys) else Inr (uint x - uint y))"
| "strncmp_bytes [] ys = Inl Undefined"
| "strncmp_bytes (x # xs) [] = Inl Undefined"

text \<open>\<open>strncpy\<close> from a \<open>char\<close> array: the bytes up to the terminator, padded with zeros.\<close>

fun strncpy_bytes :: "u8 list \<Rightarrow> nat \<Rightarrow> u8 list outcome" where
  "strncpy_bytes t 0 = Inr []"
| "strncpy_bytes [] (Suc n) = Inl Undefined"
| "strncpy_bytes (x # xs) (Suc n) =
     (if x = 0 then Inr (replicate (Suc n) 0) else andThen (strncpy_bytes xs n) (\<lambda>r. Inr (x # r)))"

definition DIR_ENTRY_SIZE :: u32 where "DIR_ENTRY_SIZE = 16"

text \<open>\<open>skipElement\<close>: the rest of the path and the new contents of \<open>name\<close>; \<open>None\<close> at the end.\<close>

definition skipElement :: "u8 list \<Rightarrow> u8 list \<Rightarrow> (u8 list \<times> u8 list) option" where
  "skipElement path name =
     (let p = dropWhile (\<lambda>c. c = 47) path in
      if p = [] then None
      else
        let e = takeWhile (\<lambda>c. c \<noteq> 47) p;
            rest = dropWhile (\<lambda>c. c \<noteq> 47) p;
            name' = (if length e \<ge> MAX_DIR_NAME_LENGTH then put_bytes name 0 (take MAX_DIR_NAME_LENGTH e)
                     else put_bytes name 0 (e @ [0]))
        in Some (dropWhile (\<lambda>c. c = 47) rest, name'))"

lemma skipElement_shorter: "skipElement path name = Some (rest, name') \<Longrightarrow> length rest < length path"
proof -
  assume sk: "skipElement path name = Some (rest, name')"
  let ?p = "dropWhile (\<lambda>c. c = 47) path"
  have p: "?p \<noteq> []" and r: "rest = dropWhile (\<lambda>c. c = 47) (dropWhile (\<lambda>c. c \<noteq> 47) ?p)"
    using sk by (auto simp: skipElement_def Let_def split: if_splits)
  obtain x xs where x: "?p = x # xs" "x \<noteq> 47" using p hd_dropWhile [OF p] by (cases ?p) auto
  have "length rest \<le> length (dropWhile (\<lambda>c. c \<noteq> 47) ?p)" by (simp add: r length_dropWhile_le)
  also have "\<dots> = length (dropWhile (\<lambda>c. c \<noteq> 47) xs)" using x by simp
  also have "\<dots> < length ?p" using x length_dropWhile_le [of "\<lambda>c. c \<noteq> 47" xs] by simp
  also have "\<dots> \<le> length path" by (rule length_dropWhile_le)
  finally show ?thesis .
qed

definition entry_inum :: "u8 list \<Rightarrow> u16" where
  "entry_inum e = get16 e 0"

definition entry_name :: "u8 list \<Rightarrow> u8 list" where
  "entry_name e = get_bytes e 2 MAX_DIR_NAME_LENGTH"

text \<open>
  The directory loops; \<open>e\<close> is the local \<open>entry\<close>. Reading does not change the size of the directory, so
  \<open>entry_slots\<close> bounds the number of rounds. \<open>dirLookup\<close> stores the number
  it finds in the directory's own \<open>inum\<close>.
\<close>

fun dirLookup_loop :: "'a istate \<Rightarrow> nat \<Rightarrow> u8 list \<Rightarrow> u32 \<Rightarrow> u8 list \<Rightarrow> nat \<Rightarrow> ((nat \<times> u32) option \<times> 'a istate) outcome" where
  "dirLookup_loop s dp name offset e 0 = Inr (None, s)"
| "dirLookup_loop s dp name offset e (Suc k) =
     (if offset < di_size (inode_of s dp) then
        andThen (inode_read s dp (Object e 0) offset DIR_ENTRY_SIZE) (\<lambda>(n, p, s1).
        andThen (assert_that (n = 16)) (\<lambda>_.
          let e' = (case p of Object d off \<Rightarrow> d | _ \<Rightarrow> []) in
          if entry_inum e' = 0 then dirLookup_loop s1 dp name (offset + DIR_ENTRY_SIZE) e' k
          else andThen (strncmp_bytes name (entry_name e')) (\<lambda>c.
            if c = 0
            then let s2 = upd_inode s1 dp (\<lambda>x. x\<lparr>i_inum := ucast (entry_inum e')\<rparr>)
                 in andThen (inode_get s2 (i_device (inode_of s2 dp)) (i_inum (inode_of s2 dp))) (\<lambda>(ip, s3).
                      Inr (Some (ip, offset), s3))
            else dirLookup_loop s1 dp name (offset + DIR_ENTRY_SIZE) e' k)))
      else Inr (None, s))"

definition entry_slots :: "'a istate \<Rightarrow> nat \<Rightarrow> nat" where
  "entry_slots s dp = unat (di_size (inode_of s dp)) div 16 + 1"

definition dirLookup :: "'a istate \<Rightarrow> nat \<Rightarrow> u8 list \<Rightarrow> ((nat \<times> u32) option \<times> 'a istate) outcome" where
  "dirLookup s dp name =
     andThen (assert_that (di_type (inode_of s dp) = T_DIR)) (\<lambda>_.
       dirLookup_loop s dp name 0 (replicate 16 0) (entry_slots s dp))"

text \<open>The search for a free slot: its offset and the last entry read.\<close>

fun free_entry_loop :: "'a istate \<Rightarrow> nat \<Rightarrow> u32 \<Rightarrow> u8 list \<Rightarrow> nat \<Rightarrow> (u32 \<times> u8 list \<times> 'a istate) outcome" where
  "free_entry_loop s dp offset e 0 = Inr (offset, e, s)"
| "free_entry_loop s dp offset e (Suc k) =
     (if offset < di_size (inode_of s dp) then
        andThen (inode_read s dp (Object e 0) offset DIR_ENTRY_SIZE) (\<lambda>(n, p, s1).
        andThen (assert_that (n = 16)) (\<lambda>_.
          let e' = (case p of Object d off \<Rightarrow> d | _ \<Rightarrow> []) in
          if entry_inum e' = 0 then Inr (offset, e', s1)
          else free_entry_loop s1 dp (offset + DIR_ENTRY_SIZE) e' k))
      else Inr (offset, e, s))"

definition dirLink :: "'a istate \<Rightarrow> nat \<Rightarrow> u8 list \<Rightarrow> u32 \<Rightarrow> (bool \<times> 'a istate) outcome" where
  "dirLink s dp name inum =
     andThen (dirLookup s dp name) (\<lambda>(r, s1).
       case r of
         Some (ip, _) \<Rightarrow> andThen (inode_put s1 ip) (\<lambda>s2. Inr (False, s2))
       | None \<Rightarrow>
           andThen (free_entry_loop s1 dp 0 (replicate 16 0) (entry_slots s1 dp)) (\<lambda>(offset, e, s2).
           andThen (strncpy_bytes name MAX_DIR_NAME_LENGTH) (\<lambda>nm.
             let e' = put16 (put_bytes e 2 nm) 0 (ucast inum)
             in andThen (inode_write s2 dp (Object e' 0) offset DIR_ENTRY_SIZE) (\<lambda>(n, s3).
                  Inr (n = 16, s3)))))"

section \<open>Model: paths\<close>

text \<open>The loop of the private \<open>Inode::open\<close>: the inode, or \<open>nullptr\<close>, and the contents of \<open>name\<close>.\<close>

function open_loop :: "'a istate \<Rightarrow> nat \<Rightarrow> u8 list \<Rightarrow> bool \<Rightarrow> u8 list \<Rightarrow> (nat option \<times> u8 list \<times> 'a istate) outcome" where
  "open_loop s ip path parent name =
     (case skipElement path name of
        None \<Rightarrow> if parent then andThen (inode_put s ip) (\<lambda>s1. Inr (None, name, s1)) else Inr (Some ip, name, s)
      | Some (rest, name') \<Rightarrow>
          andThen (inode_lock s ip) (\<lambda>s1.
            if di_type (inode_of s1 ip) \<noteq> T_DIR
            then andThen (inode_unlock s1 ip) (\<lambda>s2. andThen (inode_put s2 ip) (\<lambda>s3. Inr (None, name', s3)))
            else if parent \<and> rest = []
            then andThen (inode_unlock s1 ip) (\<lambda>s2. Inr (Some ip, name', s2))
            else andThen (dirLookup s1 ip name') (\<lambda>(r, s2).
              andThen (inode_unlock s2 ip) (\<lambda>s3.
              andThen (inode_put s3 ip) (\<lambda>s4.
                case r of None \<Rightarrow> Inr (None, name', s4)
                        | Some (next, _) \<Rightarrow> open_loop s4 next rest parent name')))))"
  by pat_completeness auto
termination
  by (relation "measure (\<lambda>(s, ip, path, parent, name). length path)") (auto dest: skipElement_shorter)

declare open_loop.simps [simp del]

definition inode_open :: "'a istate \<Rightarrow> u8 list \<Rightarrow> bool \<Rightarrow> u8 list \<Rightarrow> (nat option \<times> u8 list \<times> 'a istate) outcome" where
  "inode_open s path parent name =
     andThen (if take 1 path = [47] then inode_get s ROOT_DEVICE ROOT_INUM else Inr (inode_dup s (cwd s))) (\<lambda>(ip, s1).
       open_loop s1 ip path parent name)"

text \<open>The failure path of \<open>create\<close>.\<close>

definition create_fail :: "'a istate \<Rightarrow> nat \<Rightarrow> nat \<Rightarrow> (nat option \<times> 'a istate) outcome" where
  "create_fail s dp ip =
     andThen (inode_update (upd_inode s ip (\<lambda>x. x\<lparr>di_numLinks := 0\<rparr>)) ip) (\<lambda>s1.
     andThen (inode_unlock s1 ip) (\<lambda>s2.
     andThen (inode_put s2 ip) (\<lambda>s3.
     andThen (inode_unlock s3 dp) (\<lambda>s4.
     andThen (inode_put s4 dp) (\<lambda>s5. Inr (None, s5))))))"

definition unlock_put :: "'a istate \<Rightarrow> nat \<Rightarrow> 'a istate outcome" where
  "unlock_put s ip = andThen (inode_unlock s ip) (\<lambda>s1. inode_put s1 ip)"

definition dot_entries :: "'a istate \<Rightarrow> nat \<Rightarrow> (bool \<times> 'a istate) outcome" where
  "dot_entries s ip =
     andThen (dirLink s ip [46, 0] (i_inum (inode_of s ip))) (\<lambda>(ok, s1).
       if \<not> ok then Inr (False, s1) else dirLink s1 ip [46, 46, 0] (i_inum (inode_of s1 ip)))"

definition inode_create :: "'a istate \<Rightarrow> u8 list \<Rightarrow> u8 list \<Rightarrow> u16 \<Rightarrow> u16 \<Rightarrow> u16 \<Rightarrow> (nat option \<times> 'a istate) outcome" where
  "inode_create s path name0 type major minor =
     andThen (inode_open s path True name0) (\<lambda>(r, name, s1).
     case r of None \<Rightarrow> Inr (None, s1) | Some dp \<Rightarrow>
     andThen (inode_lock s1 dp) (\<lambda>s2.
     andThen (dirLookup s2 dp name) (\<lambda>(r, s3).
     case r of
       Some (ip, _) \<Rightarrow>
         andThen (unlock_put s3 dp) (\<lambda>s4.
           let t = di_type (inode_of s4 ip) in
           if type = T_FILE \<and> (t = T_FILE \<or> t = T_DEVICE) then Inr (Some ip, s4)
           else andThen (unlock_put s4 ip) (\<lambda>s5. Inr (None, s5)))
     | None \<Rightarrow>
         andThen (inode_allocate s3 (i_device (inode_of s3 dp)) type) (\<lambda>(r, s4).
         case r of
           None \<Rightarrow> andThen (unlock_put s4 dp) (\<lambda>s5. Inr (None, s5))
         | Some ip \<Rightarrow>
             andThen (inode_lock s4 ip) (\<lambda>s5.
             andThen (inode_update (upd_inode s5 ip (\<lambda>x. x\<lparr>di_major := major, di_minor := minor, di_numLinks := 1\<rparr>)) ip) (\<lambda>s6.
             andThen (if type = T_DIR then dot_entries s6 ip else Inr (True, s6)) (\<lambda>(ok, s7).
             if \<not> ok then create_fail s7 dp ip
             else andThen (dirLink s7 dp name (i_inum (inode_of s7 ip))) (\<lambda>(ok, s8).
               if \<not> ok then create_fail s8 dp ip
               else andThen
                      (if type = T_DIR
                       then inode_update (upd_inode s8 dp (\<lambda>x. x\<lparr>di_numLinks := di_numLinks x + 1\<rparr>)) dp
                       else Inr s8)
                      (\<lambda>s9. andThen (unlock_put s9 dp) (\<lambda>s10. Inr (Some ip, s10)))))))))))"

definition initializeInode :: "(u64 \<Rightarrow> u64) \<Rightarrow> 'a istate \<Rightarrow> 'a istate outcome" where
  "initializeInode h s = andThen (new_HashMap h 8) (\<lambda>t. Inr (s\<lparr>itable := t\<rparr>))"

section \<open>Inodes on the disk\<close>

text \<open>The bytes of a \<open>DiskInode\<close>: storing the fields one after the other stores them all at once.\<close>

definition dinode_bytes :: "'a dinode_scheme \<Rightarrow> u8 list" where
  "dinode_bytes x =
     bytes_of_word 2 (di_type x) @ bytes_of_word 2 (di_major x) @ bytes_of_word 2 (di_minor x) @ bytes_of_word 2 (di_numLinks x) @
     bytes_of_word 4 (di_size x) @ concat (map (bytes_of_word 4) (di_direct x)) @ bytes_of_word 4 (di_indirect x)"

lemma put_bytes_append:
  "off + length a \<le> length d \<Longrightarrow> put_bytes (put_bytes d off a) (off + length a) b = put_bytes d off (a @ b)"
  by (simp add: put_bytes_def ac_simps)

lemma put_words_bytes:
  "off + 4 * length ws \<le> length d \<Longrightarrow> put_words d off ws = put_bytes d off (concat (map (bytes_of_word 4) ws))"
proof (induction ws arbitrary: d off)
  case Nil
  then show ?case by (simp add: put_bytes_def)
next
  case (Cons w ws)
  then show ?case using put_bytes_append [of off "bytes_of_word 4 w" d "concat (map (bytes_of_word 4) ws)"] by (simp add: put32_def)
qed

lemma length_words_bytes [simp]: "length (concat (map (bytes_of_word n) ws)) = n * length ws"
  by (induction ws) auto

lemma length_dinode_bytes: "length (di_direct x) = NUM_DIRECT_BLOCKS \<Longrightarrow> length (dinode_bytes x) = 64"
  by (simp add: dinode_bytes_def NUM_DIRECT_BLOCKS_def)

lemma put_dinode_bytes:
  assumes "off + 64 \<le> length d" "length (di_direct x) = NUM_DIRECT_BLOCKS"
  shows "put_dinode d off x = put_bytes d off (dinode_bytes x)"
proof -
  define p where "p n = take n (dinode_bytes x)" for n
  have p: "put_bytes (put_bytes d off (p i)) (off + i) bs = put_bytes d off (p j)"
    if "p j = p i @ bs" "i \<le> 64" for i j bs
    using that put_bytes_append [of off "p i" d bs] assms length_dinode_bytes [OF assms(2)] by (simp add: p_def)
  have s: "p 2 = bytes_of_word 2 (di_type x)" "p 4 = p 2 @ bytes_of_word 2 (di_major x)" "p 6 = p 4 @ bytes_of_word 2 (di_minor x)"
    "p 8 = p 6 @ bytes_of_word 2 (di_numLinks x)" "p 12 = p 8 @ bytes_of_word 4 (di_size x)"
    "p 60 = p 12 @ concat (map (bytes_of_word 4) (di_direct x))" "p 64 = p 60 @ bytes_of_word 4 (di_indirect x)"
    using assms(2) by (simp_all add: p_def dinode_bytes_def NUM_DIRECT_BLOCKS_def)
  have l: "length (put_bytes d off (p 12)) = length d" using assms length_dinode_bytes [OF assms(2)] by (simp add: p_def)
  have w: "put_words (put_bytes d off (p 12)) (off + 12) (di_direct x) = put_bytes d off (p 60)"
    using assms l put_words_bytes [of "off + 12" "di_direct x" "put_bytes d off (p 12)"]
    by (simp add: p [OF s(6)] NUM_DIRECT_BLOCKS_def)
  have "put_dinode d off x = put_bytes d off (p 64)"
    unfolding put_dinode_def put16_def put32_def s(1) [symmetric]
    by (simp only: p [OF s(2)] p [OF s(3)] p [OF s(4)] p [OF s(5)] w p [OF s(7)] order.refl rel_simps)
  then show ?thesis using length_dinode_bytes [OF assms(2)] by (simp add: p_def)
qed

lemma get_inside:
  "off + length bs \<le> length d \<Longrightarrow> i + n \<le> length bs \<Longrightarrow> get_bytes (put_bytes d off bs) (off + i) n = take n (drop i bs)"
  by (simp add: get_bytes_def put_bytes_def)

lemma drop_words_bytes: "i < length ws \<Longrightarrow> take n (drop (n * i) (concat (map (bytes_of_word n) ws))) = bytes_of_word n (ws ! i)"
proof (induction ws arbitrary: i)
  case (Cons w ws)
  then show ?case by (cases i) (simp_all add: algebra_simps)
qed simp

lemma get_put_dinode:
  assumes "off + 64 \<le> length d" "length (di_direct x) = NUM_DIRECT_BLOCKS"
  shows "get_dinode (put_dinode d off x) off = dinode.truncate x"
proof -
  let ?b = "dinode_bytes x"
  have len: "length ?b = 64" using length_dinode_bytes [OF assms(2)] .
  have g: "get_bytes (put_bytes d off ?b) (off + i) n = take n (drop i ?b)" if "i + n \<le> 64" for i n
    using get_inside [of off ?b d i n] assms(1) len that by simp
  have t: "take 2 (drop 0 ?b) = bytes_of_word 2 (di_type x)" "take 2 (drop 2 ?b) = bytes_of_word 2 (di_major x)"
    "take 2 (drop 4 ?b) = bytes_of_word 2 (di_minor x)" "take 2 (drop 6 ?b) = bytes_of_word 2 (di_numLinks x)"
    "take 4 (drop 8 ?b) = bytes_of_word 4 (di_size x)" "take 4 (drop 60 ?b) = bytes_of_word 4 (di_indirect x)"
    "drop 12 ?b = concat (map (bytes_of_word 4) (di_direct x)) @ bytes_of_word 4 (di_indirect x)"
    using assms(2) by (simp_all add: dinode_bytes_def NUM_DIRECT_BLOCKS_def)
  have "take 4 (drop (12 + 4 * i) ?b) = bytes_of_word 4 (di_direct x ! i)" if "i < 12" for i
  proof -
    have "drop (12 + 4 * i) ?b = drop (4 * i) (drop 12 ?b)" by (simp add: add.commute)
    then show ?thesis using drop_words_bytes [of i "di_direct x" 4] that assms(2) unfolding t(7) by (simp add: NUM_DIRECT_BLOCKS_def)
  qed
  then have "get_words (put_bytes d off ?b) (off + 12) 12 = di_direct x"
    using assms(2) by (intro list_eq_nthI) (simp_all add: get_words_def get32_def g add.assoc word_of_bytes_of_word NUM_DIRECT_BLOCKS_def)
  then show ?thesis
    unfolding put_dinode_bytes [OF assms]
    using g [of 0 2] g [of 2 2] g [of 4 2] g [of 6 2] g [of 8 4] g [of 60 4] t
    by (simp add: get_dinode_def get16_def get32_def word_of_bytes_of_word dinode.defs NUM_DIRECT_BLOCKS_def)
qed

lemma get_put_dinode_other:
  assumes "off + 64 \<le> length d" "length (di_direct x) = NUM_DIRECT_BLOCKS" "o' + 64 \<le> length d" "o' + 64 \<le> off \<or> off + 64 \<le> o'"
  shows "get_dinode (put_dinode d off x) o' = get_dinode d o'"
proof -
  have g: "get_bytes (put_bytes d off (dinode_bytes x)) (o' + i) n = get_bytes d (o' + i) n" if "i + n \<le> 64" for i n
    using assms that length_dinode_bytes [OF assms(2)] by (intro get_put_bytes_other) auto
  show ?thesis
    unfolding put_dinode_bytes [OF assms(1,2)]
    using g [of 0 2] g [of 2 2] g [of 4 2] g [of 6 2] g [of 8 4] g [of 60 4]
    by (simp add: get_dinode_def get16_def get32_def get_words_def add.assoc g NUM_DIRECT_BLOCKS_def)
qed

section \<open>Inodes in an operation\<close>

lemma inode_more:
  assumes "log_state.more s' = log_state.more (s :: 'a istate)"
  shows "superBlock s' = superBlock s" "inode_of s' = inode_of s" "itable s' = itable s" "pages s' = pages s"
    "current_table s' = current_table s" "data_address s' = data_address s" "cwd s' = cwd s"
  using assms by (cases s; cases s'; simp)+

lemma upd_inode_op [simp]:
  "op_view D B (upd_inode s ip f) V m = op_view D B s V m" "log_region (upd_inode s ip f) = log_region s"
  "superBlock (upd_inode s ip f) = superBlock s" "pid_now (upd_inode s ip f) = pid_now s" "itable (upd_inode s ip f) = itable s"
  "buffer_of (upd_inode s ip f) = buffer_of s"
  by (simp_all add: upd_inode_def op_view_def log_layout_def cache_inv_def cells_def ptr_def logged_def log_region_def log_cap_def)

lemma inode_of_upd [simp]: "inode_of (upd_inode s ip f) = (inode_of s)(ip := f (inode_of s ip))"
  by (simp add: upd_inode_def)

text \<open>Releasing a buffer does not touch the inodes.\<close>

lemma release_upd_inode:
  "cache_release (upd_inode s ip f) b = andThen (cache_release s b) (\<lambda>s'. Inr (upd_inode s' ip f))"
  by (cases s) (simp add: cache_release_def upd_inode_def upd_buffer_def Let_def andThen_def assert_that_def split: sum.split)

definition same_fields :: "inode \<Rightarrow> dinode \<Rightarrow> inode" where
  "same_fields x di = x\<lparr>di_type := di_type di, di_major := di_major di, di_minor := di_minor di,
     di_numLinks := di_numLinks di, di_size := di_size di, di_direct := di_direct di, di_indirect := di_indirect di\<rparr>"

lemma truncate_same_fields: "dinode.truncate (same_fields x di) = di"
  by (simp add: same_fields_def dinode.defs)

lemma same_fields_mutex: "same_fields (x\<lparr>i_mutex := mx\<rparr>) di = (same_fields x di)\<lparr>i_mutex := mx\<rparr>"
  by (cases x) (simp add: same_fields_def)

lemma dinode_offset_fits: "dinode_offset i + 64 \<le> BLOCK_SIZE"
proof -
  have "unat i mod 16 \<le> 15" by simp
  then show ?thesis by (simp add: dinode_offset_def INODES_PER_BLOCK_def BLOCK_SIZE_def)
qed

text \<open>\<open>update\<close> writes the fields of an inode to its place on the disk; \<open>lock\<close> of an inode that is not valid reads them.\<close>

lemma inode_update_law:
  assumes op: "op_view D B s V m" and m: "0 < m" and x: "x = inode_of s ip" "i_device x = D" "length (di_direct x) = NUM_DIRECT_BLOCKS"
    and blk: "blk = iblock (i_inum x) (superBlock s)" "blk \<in> B - log_region s"
  shows "\<exists>s'. inode_update s ip = Inr s' \<and> op_frame s s' \<and>
    op_view D B s' (V(blk := put_dinode (V blk) (dinode_offset (i_inum x)) x)) (m - 1)"
proof -
  let ?d = "put_dinode (V blk) (dinode_offset (i_inum x)) x"
  have "length ?d = BLOCK_SIZE"
    using op_cells(3) [OF op, of blk] dinode_offset_fits [of "i_inum x"] x(3) length_dinode_bytes [OF x(3)] by (simp add: put_dinode_bytes)
  from tx.modify [OF op blk(2) m this] obtain b t1 s3 s' where
    t: "cache_get s D blk = Inr (b, t1)" "b_data (buffer_of (buffer_read t1 b) b) = V blk"
    and "writeLog (set_data (buffer_read t1 b) b ?d) b = Inr s3" "cache_release s3 b = Inr s'" "op_view D B s' (V(blk := ?d)) (m - 1)" "op_frame s s'"
    by blast
  then show ?thesis using t(1,2) x(2) blk(1) unfolding x(1) by (simp add: inode_update_def Let_def)
qed

lemma inode_lock_law:
  assumes op: "op_view D B s V m" and y: "y = inode_of s jp" "i_device y = D" "1 \<le> i_refCount y" "\<not> sm_locked (i_mutex y)" "\<not> i_valid y"
    and blk: "blk = iblock (i_inum y) (superBlock s)" "blk \<in> B" and di: "di = get_dinode (V blk) (dinode_offset (i_inum y))"
  shows "if di_type di = 0 then inode_lock s jp = Inl AssertionFailed
    else \<exists>s'. inode_lock s jp = Inr s' \<and> op_view D B s' V m \<and>
      inode_of s' = (inode_of s)(jp := (same_fields y di)\<lparr>i_mutex := \<lparr>sm_locked = True, sm_pid = pid_now s\<rparr>, i_valid := True\<rparr>)"
proof -
  let ?m = "\<lparr>sm_locked = True, sm_pid = pid_now s\<rparr>"
  define s1 where "s1 = upd_inode s jp (\<lambda>x. x\<lparr>i_mutex := ?m\<rparr>)"
  have lk: "sleep_lock (pid_now s) (i_mutex y) = Inr ?m" using y(4) by (simp add: sleep_lock_def)
  have op1: "op_view D B s1 V m" using op by (simp add: s1_def)
  obtain b t1 s' where t: "cache_get s1 D blk = Inr (b, t1)" "b_data (buffer_of (buffer_read t1 b) b) = V blk"
    "cache_release (buffer_read t1 b) b = Inr s'" "op_view D B s' V m" "op_frame s1 s'"
    using tx.peek [OF op1 blk(2)] by blast
  have i': "inode_of s' = inode_of s1" using t(5) inode_more(2) [of s' s1] by (simp add: op_frame_def)
  have "inode_lock s jp = andThen (cache_release (upd_inode (buffer_read t1 b) jp (\<lambda>x. same_fields x di)) b) (\<lambda>s5.
      andThen (assert_that (di_type di \<noteq> 0)) (\<lambda>_. Inr (upd_inode s5 jp (\<lambda>x. x\<lparr>i_valid := True\<rparr>))))"
    using y lk t(1,2) blk(1) di
    by (simp add: inode_lock_def Let_def same_fields_def flip: s1_def)
  then show ?thesis
    using t(3,4) i' y(1) by (simp add: release_upd_inode) (auto simp: s1_def same_fields_mutex)
qed

section \<open>Contents of a file\<close>

text \<open>The bytes in the direct blocks of an inode, and reading and changing them piece by piece.\<close>

definition file_bytes :: "(u32 \<Rightarrow> u8 list) \<Rightarrow> 'a dinode_scheme \<Rightarrow> u8 list" where
  "file_bytes V x = concat (map V (di_direct x))"

definition direct_ok :: "u32 set \<Rightarrow> 'a dinode_scheme \<Rightarrow> nat \<Rightarrow> bool" where
  "direct_ok X x n \<longleftrightarrow> length (di_direct x) = NUM_DIRECT_BLOCKS \<and> n \<le> NUM_DIRECT_BLOCKS * BLOCK_SIZE \<and>
     (\<forall>i < NUM_DIRECT_BLOCKS. \<forall>j < NUM_DIRECT_BLOCKS. i \<noteq> j \<and> di_direct x ! i \<noteq> 0 \<longrightarrow> di_direct x ! i \<noteq> di_direct x ! j) \<and>
     (\<forall>k. k * BLOCK_SIZE < n \<longrightarrow> di_direct x ! k \<noteq> 0 \<and> di_direct x ! k \<in> X)"

lemma direct_ok_mono: "direct_ok X x n \<Longrightarrow> n' \<le> n \<Longrightarrow> X \<subseteq> Y \<Longrightarrow> direct_ok Y x n'"
  by (auto simp: direct_ok_def)

lemma get_concat:
  "\<forall>b \<in> set bss. length b = n \<Longrightarrow> k < length bss \<Longrightarrow> r + l \<le> n \<Longrightarrow> get_bytes (concat bss) (k * n + r) l = get_bytes (bss ! k) r l"
proof (induction bss arbitrary: k)
  case (Cons b bss)
  then show ?case by (cases k) (simp_all add: get_bytes_def add.assoc)
qed simp

lemma put_concat:
  "\<forall>b \<in> set bss. length b = n \<Longrightarrow> k < length bss \<Longrightarrow> r + length bs \<le> n \<Longrightarrow>
     put_bytes (concat bss) (k * n + r) bs = concat (bss[k := put_bytes (bss ! k) r bs])"
proof (induction bss arbitrary: k)
  case (Cons b bss)
  then show ?case by (cases k) (simp_all add: put_bytes_def add.assoc)
qed simp

lemma length_concat_blocks: "\<forall>b \<in> set bss. length b = n \<Longrightarrow> length (concat bss) = length bss * n"
  by (induction bss) auto

lemma get_bytes_append: "get_bytes d i a @ get_bytes d (i + a) b = get_bytes d i (a + b)"
  by (simp add: get_bytes_def take_add add.commute)

lemma file_length:
  assumes "\<forall>b. length (V b) = BLOCK_SIZE" "length (di_direct x) = NUM_DIRECT_BLOCKS"
  shows "length (file_bytes V x) = NUM_DIRECT_BLOCKS * BLOCK_SIZE"
  using assms length_concat_blocks [of "map V (di_direct x)" BLOCK_SIZE] by (simp add: file_bytes_def)

text \<open>The piece of a transfer at offset \<open>off\<close>: it lies in one block.\<close>

lemma file_piece:
  assumes ok: "direct_ok X x n" and len: "\<forall>b. length (V b) = BLOCK_SIZE" and off: "off < n"
    and l: "off mod BLOCK_SIZE + l \<le> BLOCK_SIZE"
  shows "off div BLOCK_SIZE < NUM_DIRECT_BLOCKS" "di_direct x ! (off div BLOCK_SIZE) \<noteq> 0" "di_direct x ! (off div BLOCK_SIZE) \<in> X"
    "get_bytes (file_bytes V x) off l = get_bytes (V (di_direct x ! (off div BLOCK_SIZE))) (off mod BLOCK_SIZE) l"
    "length bs = l \<Longrightarrow> file_bytes (V(di_direct x ! (off div BLOCK_SIZE) := put_bytes (V (di_direct x ! (off div BLOCK_SIZE))) (off mod BLOCK_SIZE) bs)) x =
       put_bytes (file_bytes V x) off bs"
proof -
  let ?k = "off div BLOCK_SIZE" and ?ds = "di_direct x"
  have B: "0 < BLOCK_SIZE" by (simp add: BLOCK_SIZE_def)
  have dl: "length ?ds = NUM_DIRECT_BLOCKS" and nn: "n \<le> NUM_DIRECT_BLOCKS * BLOCK_SIZE" using ok by (simp_all add: direct_ok_def)
  show k: "?k < NUM_DIRECT_BLOCKS" using off nn by (simp add: less_mult_imp_div_less)
  have "?k * BLOCK_SIZE < n" using off by (meson div_times_less_eq_dividend le_less_trans)
  then show nz: "?ds ! ?k \<noteq> 0" "?ds ! ?k \<in> X" using ok by (simp_all add: direct_ok_def)
  have all: "\<forall>b \<in> set (map V ?ds). length b = BLOCK_SIZE" using len by simp
  have o': "?k * BLOCK_SIZE + off mod BLOCK_SIZE = off" by simp
  show "get_bytes (file_bytes V x) off l = get_bytes (V (?ds ! ?k)) (off mod BLOCK_SIZE) l"
    using get_concat [OF all, of ?k "off mod BLOCK_SIZE" l] k dl l unfolding file_bytes_def o' by simp
  show "file_bytes (V(?ds ! ?k := put_bytes (V (?ds ! ?k)) (off mod BLOCK_SIZE) bs)) x = put_bytes (file_bytes V x) off bs" if "length bs = l"
  proof -
    let ?b = "put_bytes (V (?ds ! ?k)) (off mod BLOCK_SIZE) bs"
    have u: "?ds ! i \<noteq> ?ds ! ?k" if "i < NUM_DIRECT_BLOCKS" "i \<noteq> ?k" for i using ok k nz(1) that unfolding direct_ok_def by metis
    have "map (V(?ds ! ?k := ?b)) ?ds = (map V ?ds)[?k := ?b]"
      by (rule list_eq_nthI) (use dl k u in \<open>auto simp: nth_list_update\<close>)
    then show ?thesis
      using put_concat [OF all, of ?k "off mod BLOCK_SIZE" bs] k dl l that unfolding file_bytes_def o' by simp
  qed
qed

lemma bmap_direct:
  assumes "unat off div BLOCK_SIZE < NUM_DIRECT_BLOCKS" "di_direct (inode_of s ip) ! (unat off div BLOCK_SIZE) \<noteq> 0"
  shows "inode_bmap s ip (off div of_nat BLOCK_SIZE) = Inr (di_direct (inode_of s ip) ! (unat off div BLOCK_SIZE), s)"
proof -
  have u: "unat (off div of_nat BLOCK_SIZE :: u32) = unat off div BLOCK_SIZE" by (simp add: unat_div BLOCK_SIZE_def)
  then have "off div of_nat BLOCK_SIZE < (of_nat NUM_DIRECT_BLOCKS :: u32)"
    using assms(1) by (simp add: word_less_nat_alt NUM_DIRECT_BLOCKS_def)
  then show ?thesis using assms(2) u by (simp add: inode_bmap_def Let_def)
qed

lemma op_view_mono: "op_view D B s V m \<Longrightarrow> m' \<le> m \<Longrightarrow> op_view D B s V m'"
  by (auto simp: op_view_def)

text \<open>The numbers of one round of a transfer that ends within the direct blocks.\<close>

lemma transfer_round:
  assumes "tot < len" "unat offset + (unat len - unat tot) \<le> NUM_DIRECT_BLOCKS * BLOCK_SIZE" "l = unat (piece len tot offset)"
  shows "0 < l" "l \<le> unat len - unat tot" "unat offset mod BLOCK_SIZE + l \<le> BLOCK_SIZE" "unat (offset + piece len tot offset) = unat offset + l"
    "unat (tot + piece len tot offset) = unat tot + l" "tot + piece len tot offset \<le> len" "unat (offset mod of_nat BLOCK_SIZE) = unat offset mod BLOCK_SIZE"
    "l = unat len - unat tot \<or> (unat offset + l) mod BLOCK_SIZE = 0 \<and> unat offset mod BLOCK_SIZE + l = BLOCK_SIZE"
proof -
  note p = piece_nat [OF assms(1), of offset, folded assms(3)]
  have r: "unat offset mod BLOCK_SIZE < BLOCK_SIZE" by (simp add: BLOCK_SIZE_def)
  have t: "unat tot < unat len" using assms(1) by (simp add: word_less_nat_alt)
  show "0 < l" "unat (tot + piece len tot offset) = unat tot + l" using p(1,2) .
  show l: "l \<le> unat len - unat tot" "unat offset mod BLOCK_SIZE + l \<le> BLOCK_SIZE" using p(3) r by simp_all
  show "unat (offset mod of_nat BLOCK_SIZE) = unat offset mod BLOCK_SIZE" by (simp add: unat_mod BLOCK_SIZE_def)
  have "unat offset + l < 2 ^ 32" using assms(2) l(1) by (simp add: NUM_DIRECT_BLOCKS_def BLOCK_SIZE_def)
  then show "unat (offset + piece len tot offset) = unat offset + l" using assms(3) by (simp add: unat_plus_if')
  show "tot + piece len tot offset \<le> len" using p(2) l(1) t by (simp add: word_le_nat_alt)
  show "l = unat len - unat tot \<or> (unat offset + l) mod BLOCK_SIZE = 0 \<and> unat offset mod BLOCK_SIZE + l = BLOCK_SIZE"
  proof (cases "l = unat len - unat tot")
    case False
    then have "unat offset mod BLOCK_SIZE + l = BLOCK_SIZE" using p(3) r by (simp add: min_def split: if_splits)
    moreover have "(unat offset + l) mod BLOCK_SIZE = (unat offset mod BLOCK_SIZE + l) mod BLOCK_SIZE" by (simp add: mod_simps)
    ultimately show ?thesis by simp
  qed simp
qed

lemma length_get_bytes: "i + l \<le> length d \<Longrightarrow> length (get_bytes d i l) = l"
  by (simp add: get_bytes_def)

lemma read_loop_law:
  assumes "op_view D B s V m" "x = inode_of s ip" "i_device x = D" "direct_ok B x n" "tot \<le> len"
    "unat offset + (unat len - unat tot) \<le> n" "o' + (unat len - unat tot) \<le> length d"
  shows "\<exists>s'. read_loop s ip (Object d o') offset len tot =
      Inr (Some len, Object (put_bytes d o' (get_bytes (file_bytes V x) (unat offset) (unat len - unat tot))) (o' + (unat len - unat tot)), s') \<and>
    op_view D B s' V m \<and> op_frame s s'"
  using assms
proof (induction "unat len - unat tot" arbitrary: s d o' offset tot rule: less_induct)
  case less
  let ?rest = "unat len - unat tot" and ?F = "file_bytes V x" and ?n = "piece len tot offset"
  have ln: "\<forall>b. length (V b) = BLOCK_SIZE" using op_cells(3) [OF less.prems(1)] by blast
  have nn: "n \<le> NUM_DIRECT_BLOCKS * BLOCK_SIZE" "length (di_direct x) = NUM_DIRECT_BLOCKS" using less.prems(4) by (simp_all add: direct_ok_def)
  show ?case
  proof (cases "tot < len")
    case False
    then have "tot = len" using less.prems(5) by simp
    then show ?thesis using less.prems(1)
      by (subst read_loop.simps) (auto simp: put_bytes_def get_bytes_def)
  next
    case True
    define l where "l = unat ?n"
    have "unat offset + ?rest \<le> NUM_DIRECT_BLOCKS * BLOCK_SIZE" using less.prems(6) nn(1) by simp
    note r = transfer_round [OF True this l_def]
    have off: "unat offset < n" using less.prems(6) r(1,2) by simp
    note fp = file_piece [OF less.prems(4) ln off r(3)]
    let ?a = "di_direct x ! (unat offset div BLOCK_SIZE)" and ?r = "unat offset mod BLOCK_SIZE"
    obtain bp t1 s1 where t: "cache_get s D ?a = Inr (bp, t1)" "b_data (buffer_of (buffer_read t1 bp) bp) = V ?a"
      "cache_release (buffer_read t1 bp) bp = Inr s1" "op_view D B s1 V m" "op_frame s s1"
      using tx.peek [OF less.prems(1) fp(3)] by blast
    let ?bs = "get_bytes ?F (unat offset) l"
    have lb: "length ?bs = l" using off less.prems(6) r(2) nn file_length [OF ln nn(2)] by (simp add: length_get_bytes)
    have step: "read_loop s ip (Object d o') offset len tot =
        read_loop s1 ip (Object (put_bytes d o' ?bs) (o' + l)) (offset + ?n) len (tot + ?n)"
      using True bmap_direct [of offset s ip] fp(1,2,4) less.prems(2,3) t(1-3) lb r(7)
      by (subst read_loop.simps) (simp add: Let_def copy_to_place_def flip: l_def)
    have x1: "x = inode_of s1 ip" using t(5) inode_more(2) [of s1 s] less.prems(2) by (simp add: op_frame_def)
    have rest': "unat len - unat (tot + ?n) = ?rest - l" using r(5) by simp
    have "\<exists>s'. read_loop s1 ip (Object (put_bytes d o' ?bs) (o' + l)) (offset + ?n) len (tot + ?n) =
        Inr (Some len, Object (put_bytes (put_bytes d o' ?bs) (o' + l) (get_bytes ?F (unat offset + l) (?rest - l))) (o' + l + (?rest - l)), s') \<and>
      op_view D B s' V m \<and> op_frame s1 s'"
      using less.hyps [of "tot + ?n" s1 "offset + ?n" "o' + l" "put_bytes d o' ?bs"] t(4) x1 less.prems r lb unfolding rest' by simp
    then obtain s' where s': "read_loop s ip (Object d o') offset len tot =
        Inr (Some len, Object (put_bytes (put_bytes d o' ?bs) (o' + l) (get_bytes ?F (unat offset + l) (?rest - l))) (o' + l + (?rest - l)), s')"
      "op_view D B s' V m" "op_frame s1 s'" unfolding step by blast
    have "l + (?rest - l) = ?rest" using r(2) by simp
    then have "put_bytes (put_bytes d o' ?bs) (o' + l) (get_bytes ?F (unat offset + l) (?rest - l)) =
        put_bytes d o' (get_bytes ?F (unat offset) ?rest)"
      using put_bytes_append [of o' ?bs d "get_bytes ?F (unat offset + l) (?rest - l)"] lb less.prems(7) r(2)
        get_bytes_append [of ?F "unat offset" l "?rest - l"] by (simp only: lb)
    then show ?thesis using s' r(2) op_frame_trans [OF t(5) s'(3)] by (intro exI [of _ s']) simp
  qed
qed

text \<open>Writing: \<open>k\<close> blocks of the log are enough for the pieces that are left.\<close>

lemma blocks_left:
  assumes "tot < len" "l \<le> unat len - unat tot" "unat (tot + m) = unat tot + l"
    "l = unat len - unat tot \<or> (unat offset + l) mod BLOCK_SIZE = 0 \<and> unat offset mod BLOCK_SIZE + l = BLOCK_SIZE"
    "tot = len \<or> unat offset mod BLOCK_SIZE + (unat len - unat tot) \<le> k * BLOCK_SIZE"
  shows "tot + m = len \<or> (unat offset + l) mod BLOCK_SIZE + (unat len - unat tot - l) \<le> (k - 1) * BLOCK_SIZE"
proof (cases "l = unat len - unat tot")
  case True
  then have "unat (tot + m) = unat len" using assms(1,3) by (simp add: word_less_nat_alt)
  then show ?thesis by (simp add: word_unat_eq_iff)
next
  case False
  then have "(unat offset + l) mod BLOCK_SIZE = 0" "unat offset mod BLOCK_SIZE + l = BLOCK_SIZE" "tot \<noteq> len"
    using assms(1,4) by auto
  then show ?thesis using assms(2,5) by (cases k) auto
qed

lemma write_loop_step:
  assumes op: "op_view D B s V m" and lt: "tot < len" and l: "l = unat (piece len tot offset)"
    and r: "unat offset mod BLOCK_SIZE + l \<le> BLOCK_SIZE" "unat (offset mod of_nat BLOCK_SIZE) = unat offset mod BLOCK_SIZE"
    and x: "unat offset div BLOCK_SIZE < NUM_DIRECT_BLOCKS" "di_direct x ! (unat offset div BLOCK_SIZE) \<noteq> 0"
      "x = inode_of s ip" "i_device x = D"
    and a: "di_direct x ! (unat offset div BLOCK_SIZE) \<in> B - log_region s" "0 < m" and d: "length (get_bytes d o' l) = l"
  defines "A \<equiv> di_direct x ! (unat offset div BLOCK_SIZE)"
  defines "W \<equiv> V(A := put_bytes (V A) (unat offset mod BLOCK_SIZE) (get_bytes d o' l))"
  shows "\<exists>s1. write_loop s ip (Object d o') offset len tot =
      write_loop s1 ip (Object d (o' + l)) (offset + piece len tot offset) len (tot + piece len tot offset) \<and>
    op_view D B s1 W (m - 1) \<and> op_frame s s1"
proof -
  let ?d = "put_bytes (V A) (unat offset mod BLOCK_SIZE) (get_bytes d o' l)"
  have ln: "\<forall>b. length (V b) = BLOCK_SIZE" using op_cells(3) [OF op] by blast
  have ld: "length ?d = BLOCK_SIZE" using d r(1) ln by simp
  from tx.modify [OF op a ld [unfolded A_def]] obtain bp t1 s3 s1 where
    t: "cache_get s D A = Inr (bp, t1)" "b_data (buffer_of (buffer_read t1 bp) bp) = V A"
    and w: "writeLog (set_data (buffer_read t1 bp) bp ?d) bp = Inr s3" "cache_release s3 bp = Inr s1"
    "op_view D B s1 (V(A := ?d)) (m - 1)" "op_frame s s1" unfolding A_def by blast
  have gl: "length (get_bytes (V A) (unat offset mod BLOCK_SIZE) l) = l" using ln r(1) by (simp add: length_get_bytes)
  have "write_loop s ip (Object d o') offset len tot =
      write_loop s1 ip (Object d (o' + l)) (offset + piece len tot offset) len (tot + piece len tot offset)"
    using lt bmap_direct [of offset s ip] x t w(1,2) gl r(2)
    by (subst write_loop.simps) (simp add: Let_def copy_from_place_def A_def flip: l)
  then show ?thesis using w(3,4) unfolding W_def by blast
qed

lemma write_loop_law:
  assumes "op_view D B s V (k + j)" "x = inode_of s ip" "i_device x = D" "direct_ok (B - log_region s) x n" "tot \<le> len"
    "unat offset + (unat len - unat tot) \<le> n" "o' + (unat len - unat tot) \<le> length d"
    "tot = len \<or> unat offset mod BLOCK_SIZE + (unat len - unat tot) \<le> k * BLOCK_SIZE"
  shows "\<exists>s' W. write_loop s ip (Object d o') offset len tot = Inr (offset + (len - tot), len, s') \<and>
    op_view D B s' W j \<and> op_frame s s' \<and> (\<forall>b. b \<notin> set (di_direct x) \<longrightarrow> W b = V b) \<and>
    file_bytes W x = put_bytes (file_bytes V x) (unat offset) (get_bytes d o' (unat len - unat tot))"
  using assms
proof (induction "unat len - unat tot" arbitrary: s V k o' offset tot rule: less_induct)
  case less
  let ?rest = "unat len - unat tot" and ?F = "file_bytes V x" and ?n = "piece len tot offset" and ?X = "B - log_region s"
  have ln: "\<forall>b. length (V b) = BLOCK_SIZE" using op_cells(3) [OF less.prems(1)] by blast
  have nn: "n \<le> NUM_DIRECT_BLOCKS * BLOCK_SIZE" "length (di_direct x) = NUM_DIRECT_BLOCKS" using less.prems(4) by (simp_all add: direct_ok_def)
  show ?case
  proof (cases "tot < len")
    case False
    then have "tot = len" using less.prems(5) by simp
    then show ?thesis using op_view_mono [OF less.prems(1), of j]
      by (subst write_loop.simps) (auto simp: put_bytes_def get_bytes_def)
  next
    case True
    define l where "l = unat ?n"
    have "unat offset + ?rest \<le> NUM_DIRECT_BLOCKS * BLOCK_SIZE" using less.prems(6) nn(1) by simp
    note r = transfer_round [OF True this l_def]
    have off: "unat offset < n" using less.prems(6) r(1,2) by simp
    note fp = file_piece [OF less.prems(4) ln off r(3)]
    let ?a = "di_direct x ! (unat offset div BLOCK_SIZE)" and ?r = "unat offset mod BLOCK_SIZE"
    let ?bs = "get_bytes d o' l"
    let ?d = "put_bytes (V ?a) ?r ?bs"
    have lb: "length ?bs = l" using less.prems(7) r(2) by (simp add: length_get_bytes)
    have k: "0 < k" using less.prems(8) True r(1,2) by (cases k) auto
    have aB: "?a \<in> B - log_region s" "0 < k + j" using fp(3) k by auto
    obtain s1 where step: "write_loop s ip (Object d o') offset len tot = write_loop s1 ip (Object d (o' + l)) (offset + ?n) len (tot + ?n)"
      and w: "op_view D B s1 (V(?a := ?d)) (k + j - 1)" "op_frame s s1"
      using write_loop_step [OF less.prems(1) True l_def r(3,7) fp(1,2) less.prems(2,3) aB] lb by auto
    have x1: "x = inode_of s1 ip" "log_region s1 = log_region s"
      using w(2) op_frame_region(1) [OF w(2)] inode_more(2) [of s1 s] less.prems(2) by (simp_all add: op_frame_def)
    have rest': "unat len - unat (tot + ?n) = ?rest - l" using r(5) by simp
    have kk: "tot + ?n = len \<or> (unat offset + l) mod BLOCK_SIZE + (?rest - l) \<le> (k - 1) * BLOCK_SIZE"
      using blocks_left [OF True r(2,5,8) less.prems(8)] .
    have "op_view D B s1 (V(?a := ?d)) (k - 1 + j)" using w(1) k by (simp add: add.commute)
    moreover have "direct_ok (B - log_region s1) x n" using less.prems(4) x1(2) by simp
    moreover have "unat (offset + ?n) + (unat len - unat (tot + ?n)) \<le> n" "o' + l + (unat len - unat (tot + ?n)) \<le> length d"
      "unat len - unat (tot + ?n) < ?rest" using less.prems(6,7) r(1,2,4) unfolding rest' by simp_all
    moreover have "tot + ?n = len \<or> unat (offset + ?n) mod BLOCK_SIZE + (unat len - unat (tot + ?n)) \<le> (k - 1) * BLOCK_SIZE"
      using kk r(4) unfolding rest' by simp
    ultimately have "\<exists>s' W. write_loop s1 ip (Object d (o' + l)) (offset + ?n) len (tot + ?n) = Inr (offset + ?n + (len - (tot + ?n)), len, s') \<and>
      op_view D B s' W j \<and> op_frame s1 s' \<and> (\<forall>b. b \<notin> set (di_direct x) \<longrightarrow> W b = (V(?a := ?d)) b) \<and>
      file_bytes W x = put_bytes (file_bytes (V(?a := ?d)) x) (unat (offset + ?n)) (get_bytes d (o' + l) (unat len - unat (tot + ?n)))"
      using x1(1) less.prems(3) r(6) by (intro less.hyps) assumption+
    then obtain s' W where s':
      "write_loop s1 ip (Object d (o' + l)) (offset + ?n) len (tot + ?n) = Inr (offset + ?n + (len - (tot + ?n)), len, s')"
      "op_view D B s' W j" "op_frame s1 s'" "\<forall>b. b \<notin> set (di_direct x) \<longrightarrow> W b = (V(?a := ?d)) b"
      "file_bytes W x = put_bytes (file_bytes (V(?a := ?d)) x) (unat offset + l) (get_bytes d (o' + l) (?rest - l))"
      unfolding rest' r(4) by blast
    have "?a \<in> set (di_direct x)" using fp(1) nn(2) by simp
    then have "\<forall>b. b \<notin> set (di_direct x) \<longrightarrow> W b = V b" using s'(4) by auto
    moreover have "l + (?rest - l) = ?rest" using r(2) by simp
    then have "file_bytes W x = put_bytes ?F (unat offset) (get_bytes d o' ?rest)"
      using fp(5) [OF lb] put_bytes_append [of "unat offset" ?bs ?F "get_bytes d (o' + l) (?rest - l)"] lb off less.prems(6) r(2) nn
        file_length [OF ln nn(2)] get_bytes_append [of d o' l "?rest - l"] s'(5) by simp
    ultimately show ?thesis using s'(1,2) op_frame_trans [OF w(2) s'(3)] step by (intro exI [of _ s'] exI [of _ W]) simp
  qed
qed

lemma sint_small: assumes "unat (w :: u32) < 2 ^ 31" shows "sint w = int (unat w)"
proof -
  have u: "uint w = int (unat w)" by simp
  have "int (unat w) < int (2 ^ 31)" using assms by (simp only: of_nat_less_iff)
  then have "int (unat w) < 2 ^ 31" by (simp only: of_nat_power of_nat_numeral)
  moreover have "- (2 ^ 31) \<le> int (unat w)" by (rule order.trans [of _ 0]) simp_all
  ultimately have "signed_take_bit 31 (int (unat w)) = int (unat w)" by (intro signed_take_bit_int_eq_self)
  then show ?thesis by (simp add: sint_uint)
qed

text \<open>A read within the size delivers the bytes of the file; a write changes them, and the size when it ends behind the old end.\<close>

lemma inode_read_law:
  assumes op: "op_view D B s V m" and x: "x = inode_of s ip" "i_device x = D" and ok: "direct_ok B x n" and n: "n = unat offset + unat len"
    and size: "n \<le> unat (di_size x)" and d: "o' + unat len \<le> length d"
  shows "\<exists>s'. inode_read s ip (Object d o') offset len =
      Inr (int (unat len), Object (put_bytes d o' (get_bytes (file_bytes V x) (unat offset) (unat len))) (o' + unat len), s') \<and>
    op_view D B s' V m \<and> op_frame s s'"
proof -
  have n12: "n \<le> 12288" using ok by (simp add: direct_ok_def NUM_DIRECT_BLOCKS_def BLOCK_SIZE_def)
  have u: "unat (offset + len) = n" using n n12 by (simp add: unat_plus_if')
  have sl: "sint len = int (unat len)" using n n12 by (simp add: sint_small)
  have c: "\<not> di_size x < offset" "\<not> offset + len < offset" "\<not> di_size x < offset + len"
    using u n size by (simp_all add: word_less_nat_alt)
  obtain s' where "read_loop s ip (Object d o') offset len 0 =
      Inr (Some len, Object (put_bytes d o' (get_bytes (file_bytes V x) (unat offset) (unat len))) (o' + unat len), s')"
    "op_view D B s' V m" "op_frame s s'"
    using read_loop_law [OF op x ok, of 0 len offset o' d] n d by auto
  then show ?thesis using c x(1) sl by (auto simp: inode_read_def Let_def)
qed

lemma inode_write_law:
  assumes op: "op_view D B s V (k + 1 + j)" and x: "x = inode_of s ip" "i_device x = D"
    and ok: "direct_ok (B - log_region s) x n" and n: "n = unat offset + unat len"
    and blk: "blk = iblock (i_inum x) (superBlock s)" "blk \<in> B - log_region s" "blk \<notin> set (di_direct x)"
    and size: "offset \<le> di_size x" and d: "o' + unat len \<le> length d"
    and k: "unat offset mod BLOCK_SIZE + unat len \<le> k * BLOCK_SIZE"
  shows "\<exists>s' W. inode_write s ip (Object d o') offset len = Inr (int (unat len), s') \<and> op_view D B s' W j \<and>
    inode_of s' = (inode_of s)(ip := x\<lparr>di_size := max (di_size x) (offset + len)\<rparr>) \<and> itable s' = itable s \<and>
    file_bytes W x = put_bytes (file_bytes V x) (unat offset) (get_bytes d o' (unat len))"
proof -
  have n12: "n \<le> 12288" and dl: "length (di_direct x) = NUM_DIRECT_BLOCKS"
    using ok by (simp_all add: direct_ok_def NUM_DIRECT_BLOCKS_def BLOCK_SIZE_def)
  have u: "unat (offset + len) = n" using n n12 by (simp add: unat_plus_if')
  have sl: "sint len = int (unat len)" using n n12 by (simp add: sint_small)
  have nw: "\<not> offset + len < offset" "\<not> MAX_FILE * BLOCK_SIZE < unat (offset + len)" "\<not> di_size x < offset"
    using u n n12 size by (simp_all add: word_less_nat_alt word_le_nat_alt MAX_FILE_def NUM_DIRECT_BLOCKS_def NUM_INDIRECT_BLOCKS_def BLOCK_SIZE_def)
  have op': "op_view D B s V (k + (1 + j))" using op by (simp add: add.assoc)
  obtain s1 W where w: "write_loop s ip (Object d o') offset len 0 = Inr (offset + len, len, s1)"
    "op_view D B s1 W (1 + j)" "op_frame s s1" "\<forall>b. b \<notin> set (di_direct x) \<longrightarrow> W b = V b"
    "file_bytes W x = put_bytes (file_bytes V x) (unat offset) (get_bytes d o' (unat len))"
    using write_loop_law [OF op' x ok, of 0 len offset o' d] n d k by auto
  have f1: "inode_of s1 = inode_of s" "superBlock s1 = superBlock s" "log_region s1 = log_region s" "itable s1 = itable s"
    using inode_more [of s1 s] w(3) op_frame_region(1) [OF w(3)] by (simp_all add: op_frame_def)
  let ?y = "x\<lparr>di_size := max (di_size x) (offset + len)\<rparr>"
  define s2 where "s2 = (if offset + len > di_size (inode_of s1 ip) then upd_inode s1 ip (\<lambda>x. x\<lparr>di_size := offset + len\<rparr>) else s1)"
  have s2: "inode_of s2 = (inode_of s)(ip := ?y)" "op_view D B s2 W (1 + j)" "superBlock s2 = superBlock s" "log_region s2 = log_region s"
    "itable s2 = itable s" using f1 w(2) x(1) by (auto simp: s2_def max_def)
  have y: "?y = inode_of s2 ip" "i_device ?y = D" "length (di_direct ?y) = NUM_DIRECT_BLOCKS" "i_inum ?y = i_inum x" "di_direct ?y = di_direct x"
    using s2(1) x(2) dl by simp_all
  let ?V = "W(blk := put_dinode (W blk) (dinode_offset (i_inum ?y)) ?y)"
  obtain s3 where s3: "inode_update s2 ip = Inr s3" "op_frame s2 s3" "op_view D B s3 ?V j"
    using inode_update_law [OF s2(2) _ y(1-3), of blk] y(4) blk(1,2) s2(3,4) by auto
  have i3: "inode_of s3 = (inode_of s)(ip := ?y)" "itable s3 = itable s"
    using inode_more [of s3 s2] s3(2) s2(1,5) by (simp_all add: op_frame_def)
  have wr: "inode_write s ip (Object d o') offset len = Inr (int (unat len), s3)"
    using nw x(1) w(1) s3(1) sl by (simp add: inode_write_def Let_def flip: s2_def)
  have "map ?V (di_direct x) = map W (di_direct x)" using blk(3) by (auto intro: map_cong)
  then have "file_bytes ?V x = file_bytes W x" unfolding file_bytes_def by (simp only:)
  then show ?thesis using wr s3(3) i3 w(5) by (intro exI [of _ s3] exI [of _ ?V] conjI) simp_all
qed

section \<open>Properties\<close>

text \<open>
  C21: what \<open>update\<close> writes, \<open>lock\<close> reads. When an inode is written within an operation and another
  object for the same number is then locked for the first time, it gets the type, the device numbers, the links, the
  size and the block addresses of the first; the other inodes that share the block on the disk keep theirs.
\<close>

theorem inode_update_lock_round_trip:
  assumes op: "op_view D B s V m" and m: "0 < m"
    and x: "x = inode_of s ip" "i_device x = D" "length (di_direct x) = NUM_DIRECT_BLOCKS" "di_type x \<noteq> 0"
    and y: "y = inode_of s jp" "i_device y = D" "i_inum y = i_inum x" "1 \<le> i_refCount y" "\<not> sm_locked (i_mutex y)" "\<not> i_valid y"
    and blk: "blk = iblock (i_inum x) (superBlock s)" "blk \<in> B - log_region s"
  shows "\<exists>s1 s2 W. inode_update s ip = Inr s1 \<and> inode_lock s1 jp = Inr s2 \<and> op_view D B s2 W (m - 1) \<and>
    dinode.truncate (inode_of s2 jp) = dinode.truncate x \<and> i_valid (inode_of s2 jp) \<and>
    (\<forall>b. b \<noteq> blk \<longrightarrow> W b = V b) \<and>
    (\<forall>n. dinode_offset n \<noteq> dinode_offset (i_inum x) \<longrightarrow> get_dinode (W blk) (dinode_offset n) = get_dinode (V blk) (dinode_offset n))"
proof -
  let ?o = "dinode_offset (i_inum x)"
  let ?W = "V(blk := put_dinode (V blk) ?o x)"
  have len: "?o + 64 \<le> length (V blk)" "dinode_offset n + 64 \<le> length (V blk)" for n
    using op_cells(3) [OF op] dinode_offset_fits by simp_all
  obtain s1 where s1: "inode_update s ip = Inr s1" "op_frame s s1" "op_view D B s1 ?W (m - 1)"
    using inode_update_law [OF op m x(1-3) blk] by blast
  note f1 = inode_more [of s1 s]
  have m1: "log_state.more s1 = log_state.more s" using s1(2) by (simp add: op_frame_def)
  have g: "get_dinode (?W blk) (dinode_offset (i_inum y)) = dinode.truncate x"
    using get_put_dinode [OF len(1) x(3)] y(3) by simp
  have "y = inode_of s1 jp" "blk = iblock (i_inum y) (superBlock s1)" "blk \<in> B" using f1 [OF m1] y(1,3) blk by simp_all
  from inode_lock_law [OF s1(3) this(1) y(2,4,5,6) this(2,3) refl] g obtain s2 where s2: "inode_lock s1 jp = Inr s2"
    "op_view D B s2 ?W (m - 1)"
    "inode_of s2 = (inode_of s1)(jp := (same_fields y (dinode.truncate x))\<lparr>i_mutex := \<lparr>sm_locked = True, sm_pid = pid_now s1\<rparr>, i_valid := True\<rparr>)"
    using x(4) by (auto simp: dinode.defs)
  have "dinode.truncate (inode_of s2 jp) = dinode.truncate x" "i_valid (inode_of s2 jp)"
    using s2(3) truncate_same_fields [of y "dinode.truncate x"] by (simp_all add: dinode.defs)
  moreover have "get_dinode (?W blk) (dinode_offset n) = get_dinode (V blk) (dinode_offset n)" if "dinode_offset n \<noteq> ?o" for n
  proof -
    have "dinode_offset n + 64 \<le> ?o \<or> ?o + 64 \<le> dinode_offset n" using that
      by (cases "unat n mod INODES_PER_BLOCK" "unat (i_inum x) mod INODES_PER_BLOCK" rule: linorder_cases) (auto simp: dinode_offset_def)
    then show ?thesis using get_put_dinode_other [OF len(1) x(3) len(2)] by simp
  qed
  ultimately show ?thesis using s1(1) s2(1,2)
    by (intro exI [of _ s1] exI [of _ s2] exI [of _ ?W]) (simp del: fun_upd_apply, simp)
qed

text \<open>
  C11: what is written to a file can be read back. Within an operation with room for the blocks of the data and the
  inode, a write at or before the end of a file into its direct blocks returns the number of bytes, changes
  exactly these bytes of the file and grows the size when it ends behind the old end; a read of the
  same range then delivers the bytes.
\<close>

theorem inode_write_read_round_trip:
  assumes op: "op_view D B s V (k + 1)" and x: "x = inode_of s ip" "i_device x = D"
    and ok: "direct_ok (B - log_region s) x n" and n: "n = unat offset + unat len"
    and blk: "blk = iblock (i_inum x) (superBlock s)" "blk \<in> B - log_region s" "blk \<notin> set (di_direct x)"
    and size: "offset \<le> di_size x" and d: "o' + unat len \<le> length d" and e: "unat len \<le> length e"
    and k: "unat offset mod BLOCK_SIZE + unat len \<le> k * BLOCK_SIZE"
  shows "\<exists>s1 s2 W. inode_write s ip (Object d o') offset len = Inr (int (unat len), s1) \<and> op_view D B s1 W 0 \<and>
    inode_of s1 = (inode_of s)(ip := x\<lparr>di_size := max (di_size x) (offset + len)\<rparr>) \<and>
    file_bytes W x = put_bytes (file_bytes V x) (unat offset) (get_bytes d o' (unat len)) \<and>
    inode_read s1 ip (Object e 0) offset len = Inr (int (unat len), Object (put_bytes e 0 (get_bytes d o' (unat len))) (unat len), s2)"
proof -
  let ?y = "x\<lparr>di_size := max (di_size x) (offset + len)\<rparr>"
  have n12: "n \<le> NUM_DIRECT_BLOCKS * BLOCK_SIZE" and dl: "length (di_direct x) = NUM_DIRECT_BLOCKS" using ok by (simp_all add: direct_ok_def)
  have "op_view D B s V (k + 1 + 0)" using op by simp
  from inode_write_law [OF this x ok n blk size d k] obtain s1 W where w: "inode_write s ip (Object d o') offset len = Inr (int (unat len), s1)"
    "op_view D B s1 W 0" "inode_of s1 = (inode_of s)(ip := ?y)"
    "file_bytes W x = put_bytes (file_bytes V x) (unat offset) (get_bytes d o' (unat len))" by blast
  have fy: "file_bytes W ?y = file_bytes W x" by (simp add: file_bytes_def)
  have y: "?y = inode_of s1 ip" "i_device ?y = D" "direct_ok B ?y n" using w(3) x(2) ok by (auto simp: direct_ok_def)
  have "unat (offset + len) = n" using n n12 by (simp add: unat_plus_if' NUM_DIRECT_BLOCKS_def BLOCK_SIZE_def)
  then have le: "n \<le> unat (di_size ?y)" by (simp add: max_def word_le_nat_alt)
  have ln: "\<forall>b. length (V b) = BLOCK_SIZE" using op_cells(3) [OF op] by blast
  have "get_bytes (file_bytes W x) (unat offset) (unat len) = get_bytes d o' (unat len)"
    using w(4) n n12 file_length [OF ln dl] d by (simp add: length_get_bytes)
  then obtain s2 where "inode_read s1 ip (Object e 0) offset len = Inr (int (unat len), Object (put_bytes e 0 (get_bytes d o' (unat len))) (unat len), s2)"
    using inode_read_law [OF w(2) y n le, of 0 e] e fy by auto
  then show ?thesis using w by (intro exI [of _ s1] exI [of _ s2] exI [of _ W] conjI)
qed

section \<open>Concrete states\<close>

definition example_ino :: ino_state where
  "example_ino = blk_state.extend example_blk
     (ino_state.fields \<lparr>makeHash = (\<lambda>k. k), capacity = 1, capacityMask = 1, nodes = [[], []]\<rparr> (\<lambda>_. new_Inode) 0 0 example_pages 0
       (\<lambda>_. 0x80030000))"

text \<open>Two objects for inode 20 of the example disk: the first is a file of 5 bytes at block 100.\<close>

definition example_inodes :: ino_state where
  "example_inodes = blk_state.extend example_op
     (ino_state.fields \<lparr>makeHash = (\<lambda>k. k), capacity = 1, capacityMask = 1, nodes = [[], []]\<rparr>
       (\<lambda>p. if p = 0 then new_Inode\<lparr>di_type := T_FILE, di_numLinks := 1, di_size := 5, di_direct := 100 # replicate 11 0,
                i_device := 1, i_inum := 20, i_refCount := 1, i_valid := True\<rparr>
            else new_Inode\<lparr>i_device := 1, i_inum := 20, i_refCount := 1\<rparr>)
       2 0 example_pages 0 (\<lambda>_. 0x80030000))"

lemma example_inodes_view:
  "op_view 1 example_blocks example_inodes (disk_blocks example_op) 4" "log_start example_inodes = 2" "superBlock example_inodes = example_super"
proof -
  have e: "bufferTable example_inodes = bufferTable example_op" "buffer_of example_inodes = buffer_of example_op"
    "next_buffer example_inodes = next_buffer example_op" "pid_now example_inodes = pid_now example_op" "disk_blocks example_inodes = disk_blocks example_op"
    "log_start example_inodes = log_start example_op" "log_size example_inodes = log_size example_op" "log_device example_inodes = log_device example_op"
    "header_n example_inodes = header_n example_op" "header_block example_inodes = header_block example_op"
    "outstanding example_inodes = outstanding example_op" "superBlock example_inodes = superBlock example_op"
    by (simp_all add: example_inodes_def blk_state.defs)
  have c: "cells 1 example_inodes = cells 1 example_op" "logged example_inodes = logged example_op"
    "cache_inv 1 example_blocks example_inodes = cache_inv 1 example_blocks example_op"
    "log_region example_inodes = log_region example_op" "log_cap example_inodes = log_cap example_op"
    by (simp_all add: fun_eq_iff cells_def ptr_def logged_def cache_inv_def log_region_def log_cap_def e)
  show "op_view 1 example_blocks example_inodes (disk_blocks example_op) 4"
    using example_op_view(1) unfolding op_view_def log_layout_def c e .
  show "log_start example_inodes = 2" "superBlock example_inodes = example_super" using example_op_view by (simp_all add: e)
qed

theorem inode_update_lock_round_trip_witness:
  "\<exists>s1 s2. inode_update example_inodes 0 = Inr s1 \<and> inode_lock s1 1 = Inr s2 \<and> di_size (inode_of s2 1) = 5 \<and>
     di_direct (inode_of s2 1) = 100 # replicate 11 0"
proof -
  let ?x = "inode_of example_inodes 0" and ?y = "inode_of example_inodes 1"
  have x: "i_device ?x = 1" "length (di_direct ?x) = NUM_DIRECT_BLOCKS" "di_type ?x \<noteq> 0" "i_inum ?x = 20" "di_size ?x = 5"
    "di_direct ?x = 100 # replicate 11 0"
    by (simp_all add: example_inodes_def blk_state.defs ino_state.defs NUM_DIRECT_BLOCKS_def T_FILE_def)
  have y: "i_device ?y = 1" "i_inum ?y = i_inum ?x" "1 \<le> i_refCount ?y" "\<not> sm_locked (i_mutex ?y)" "\<not> i_valid ?y"
    by (simp_all add: example_inodes_def blk_state.defs ino_state.defs new_Inode_def)
  have blk: "iblock (i_inum ?x) (superBlock example_inodes) = 34"
    by (simp add: x(4) example_inodes_view(3) iblock_def example_super_def INODES_PER_BLOCK_def BLOCK_SIZE_def)
  have "34 \<in> example_blocks - log_region example_inodes"
    using example_region [OF example_inodes_view(2), of 34] by (auto simp: example_inodes_view(2))
  from inode_update_lock_round_trip [OF example_inodes_view(1) _ refl x(1-3) refl y refl, unfolded blk, OF _ this]
  obtain s1 s2 where "inode_update example_inodes 0 = Inr s1" "inode_lock s1 1 = Inr s2" "dinode.truncate (inode_of s2 1) = dinode.truncate ?x"
    by auto
  moreover from this(3) have "di_size (inode_of s2 1) = di_size ?x" "di_direct (inode_of s2 1) = di_direct ?x" by (simp_all add: dinode.defs)
  ultimately show ?thesis using x(5,6) by auto
qed

theorem inode_write_read_round_trip_witness:
  "\<exists>s1 s2 W. inode_write example_inodes 0 (Object [72, 105] 0) 4 2 = Inr (2, s1) \<and> di_size (inode_of s1 0) = 6 \<and>
     op_view 1 example_blocks s1 W 0 \<and> inode_read s1 0 (Object [0, 0] 0) 4 2 = Inr (2, Object [72, 105] 2, s2)"
proof -
  let ?x = "inode_of example_inodes 0"
  have x: "i_device ?x = 1" "di_direct ?x = 100 # replicate 11 0" "i_inum ?x = 20" "di_size ?x = 5"
    by (simp_all add: example_inodes_def blk_state.defs ino_state.defs)
  have r: "y \<notin> log_region example_inodes" if "\<not> y < 33" for y using that example_region [OF example_inodes_view(2), of y] by (auto simp: example_inodes_view(2))
  have blk: "iblock (i_inum ?x) (superBlock example_inodes) = 34"
    by (simp add: x(3) example_inodes_view(3) iblock_def example_super_def INODES_PER_BLOCK_def BLOCK_SIZE_def)
  have b: "34 \<in> example_blocks - log_region example_inodes" "34 \<notin> set (di_direct ?x)" using r [of 34] by (auto simp: x(2))
  have "(100 # replicate 11 (0 :: u32)) ! i = 0" if "0 < i" "i < 12" for i using that by (simp add: nth_Cons')
  then have ok: "direct_ok (example_blocks - log_region example_inodes) ?x 6"
    using r [of 100] unfolding direct_ok_def x(2) NUM_DIRECT_BLOCKS_def BLOCK_SIZE_def by (auto simp: nth_Cons')
  have op: "op_view 1 example_blocks example_inodes (disk_blocks example_op) (1 + 1)"
    by (rule op_view_mono [OF example_inodes_view(1)]) simp
  have g: "get_bytes [72, 105 :: u8] 0 2 = [72, 105]" "put_bytes [0, 0] 0 [72, 105 :: u8] = [72, 105]" by (simp_all add: get_bytes_def put_bytes_def)
  obtain s1 s2 W where w: "inode_write example_inodes 0 (Object [72, 105] 0) 4 2 = Inr (int (unat (2 :: u32)), s1)" "op_view 1 example_blocks s1 W 0"
    "inode_of s1 = (inode_of example_inodes)(0 := ?x\<lparr>di_size := max (di_size ?x) (4 + 2)\<rparr>)"
    "inode_read s1 0 (Object [0, 0] 0) 4 2 = Inr (int (unat (2 :: u32)), Object (put_bytes [0, 0] 0 (get_bytes [72, 105] 0 (unat (2 :: u32)))) (unat (2 :: u32)), s2)"
    using inode_write_read_round_trip [OF op refl x(1) ok, of 4 2 34 0 "[72, 105]" "[0, 0]"] b blk x(4) by (auto simp: BLOCK_SIZE_def)
  have "di_size (inode_of s1 0) = 6" using w(3) by (simp add: x(4) max_def)
  moreover have "unat (2 :: u32) = 2" by simp
  ultimately show ?thesis using w(1,2,4) g by (intro exI [of _ s1] exI [of _ s2] exI [of _ W]) simp
qed

end
