(* ===== verification/Console.thy ===== *)
theory Console
  imports Mem_User
begin

unbundle bit_operations_syntax

text \<open>
  The console, \<open>kernel/console/console.cpp\<close> and \<open>kernel/console/uart.cpp\<close>: number printing and
  \<open>printf\<close>, the line buffer between \<open>consoleInterrupt\<close> and \<open>readline\<close>, and the transmit buffer of the
  UART. What \<open>putc\<close> sends is the list \<open>out\<close>; the receive side of the UART is the list of the bytes
  that have arrived. On RISC-V \<open>char\<close> is unsigned.
\<close>

section \<open>Model: printing\<close>

definition digits :: "u8 list" where
  "digits = [48, 49, 50, 51, 52, 53, 54, 55, 56, 57, 65, 66, 67, 68, 69, 70]"

text \<open>
  The \<open>do\<close> loop of \<open>print_int\<close>: the characters of \<open>buf\<close> in the order they are stored. A negative remainder
  indexes before \<open>digits\<close>; \<open>buf\<close> has 16 elements; the callers pass 10 or 16 as \<open>base\<close>. C++ division rounds towards zero.
\<close>

function digit_loop :: "int \<Rightarrow> int \<Rightarrow> u8 list \<Rightarrow> u8 list outcome" where
  "digit_loop n base buf =
     (if n < 0 \<or> base < 2 \<or> base > 16 \<or> length buf \<ge> 16 then Inl Undefined
      else
        let buf' = buf @ [digits ! nat (n mod base)]
        in if n div base \<noteq> 0 then digit_loop (n div base) base buf' else Inr buf')"
  by pat_completeness auto
termination
proof (relation "measure (\<lambda>(n, base, buf). nat n)")
  fix n base :: int and buf buf' :: "u8 list"
  assume g: "\<not> (n < 0 \<or> base < 2 \<or> base > 16 \<or> length buf \<ge> 16)" and d: "n div base \<noteq> 0"
  then have "0 < n" by (cases "n = 0") auto
  then have "n div base < n" using g by (intro int_div_less_self) auto
  then show "((n div base, base, buf'), n, base, buf) \<in> measure (\<lambda>(n, base, buf). nat n)" using \<open>0 < n\<close> by simp
qed simp

declare digit_loop.simps [simp del]

text \<open>\<open>n = -n\<close> has no value for the least \<open>int\<close>.\<close>

definition print_int :: "int \<Rightarrow> int \<Rightarrow> bool \<Rightarrow> u8 list outcome" where
  "print_int n base sign =
     (let neg = sign \<and> n < 0 in
      if neg \<and> n = - (2 ^ 31) then Inl Undefined
      else andThen (digit_loop (if neg then - n else n) base []) (\<lambda>buf.
        let buf' = (if neg then buf @ [45] else buf)
        in if length buf' > 16 then Inl Undefined else Inr (rev buf')))"

fun ptr_loop :: "u64 \<Rightarrow> nat \<Rightarrow> u8 list" where
  "ptr_loop p 0 = []"
| "ptr_loop p (Suc k) = digits ! unat (drop_bit 60 p) # ptr_loop (push_bit 4 p) k"

definition print_ptr :: "u64 \<Rightarrow> u8 list" where
  "print_ptr p = 48 # 120 # ptr_loop p 16"

text \<open>
  The variable arguments of \<open>printf\<close>. Taking an argument of another type than the one passed, or one that
  was not passed, is undefined. \<open>Str None\<close> is a null pointer.
\<close>

datatype arg = Int32 u32 | Ptr64 u64 | Str "u8 list option"

fun format_arg :: "u8 \<Rightarrow> arg list \<Rightarrow> (u8 list \<times> arg list) outcome" where
  "format_arg c args =
     (if c = 100 then (case args of Int32 w # as \<Rightarrow> andThen (print_int (sint w) 10 True) (\<lambda>o'. Inr (o', as)) | _ \<Rightarrow> Inl Undefined)
      else if c = 117 then (case args of Int32 w # as \<Rightarrow> andThen (print_int (sint w) 10 False) (\<lambda>o'. Inr (o', as)) | _ \<Rightarrow> Inl Undefined)
      else if c = 120 then (case args of Int32 w # as \<Rightarrow> andThen (print_int (sint w) 16 True) (\<lambda>o'. Inr (o', as)) | _ \<Rightarrow> Inl Undefined)
      else if c = 99 then (case args of Int32 w # as \<Rightarrow> Inr ([ucast w], as) | _ \<Rightarrow> Inl Undefined)
      else if c = 112 then (case args of Ptr64 p # as \<Rightarrow> Inr (print_ptr p, as) | _ \<Rightarrow> Inl Undefined)
      else if c = 115 then (case args of Str s # as \<Rightarrow>
             Inr (case s of None \<Rightarrow> [40, 110, 117, 108, 108, 41] | Some cs \<Rightarrow> cs, as) | _ \<Rightarrow> Inl Undefined)
      else if c = 37 then Inr ([37], args)
      else Inr ([37, c], args))"

fun printf :: "u8 list \<Rightarrow> arg list \<Rightarrow> u8 list outcome" where
  "printf [] args = Inr []"
| "printf (c # fmt) args =
     (if c \<noteq> 37 then andThen (printf fmt args) (\<lambda>o'. Inr (c # o'))
      else case fmt of
        [] \<Rightarrow> Inr [37]
      | d # fmt' \<Rightarrow> andThen (format_arg d args) (\<lambda>(o1, args'). andThen (printf fmt' args') (\<lambda>o2. Inr (o1 @ o2))))"

section \<open>Model: the line buffer\<close>

definition BUF_SIZE :: nat where "BUF_SIZE = 1024"

record cons_state =
  cbuf :: "u8 list"
  readPos :: u64
  writePos :: u64
  editPos :: u64
  out :: "u8 list"

definition putc :: "cons_state \<Rightarrow> u8 \<Rightarrow> cons_state" where
  "putc s c = s\<lparr>out := out s @ [c]\<rparr>"

definition slot :: "u64 \<Rightarrow> nat" where
  "slot pos = unat pos mod BUF_SIZE"

definition consoleInterrupt :: "cons_state \<Rightarrow> u8 \<Rightarrow> cons_state" where
  "consoleInterrupt s c =
     (if c = 8 \<or> c = 127 then
        (if editPos s \<noteq> writePos s then putc (putc (putc (s\<lparr>editPos := editPos s - 1\<rparr>) 8) 32) 8 else s)
      else if c = 0 then s
      else if editPos s - readPos s < of_nat BUF_SIZE then
        let c = (if c = 13 then 10 else c);
            s1 = putc s c;
            s2 = s1\<lparr>cbuf := (cbuf s1)[slot (editPos s1) := c], editPos := editPos s1 + 1\<rparr>
        in if c = 10 \<or> c = 4 \<or> editPos s2 - readPos s2 = of_nat BUF_SIZE
           then s2\<lparr>writePos := editPos s2\<rparr> else s2
      else s)"

text \<open>
  The loop of \<open>readline\<close>. \<open>copy\<close> stands for \<open>eitherCopyout\<close> of the local \<open>c\<close> to \<open>buf\<close>. The result is the number
  of bytes not filled and whether the loop has ended or sleeps for input.
\<close>

type_synonym 'm copy1 = "'m \<Rightarrow> u64 \<Rightarrow> u8 \<Rightarrow> (bool \<times> 'm) outcome"

function readline_loop :: "'m copy1 \<Rightarrow> cons_state \<Rightarrow> 'm \<Rightarrow> u64 \<Rightarrow> u64 \<Rightarrow> u64 \<Rightarrow> (u64 \<times> cons_state \<times> 'm) outcome" where
  "readline_loop copy s m buf len max' =
     (if len > 0 then
        if readPos s = writePos s then Inl Sleeping
        else
          let c = cbuf s ! slot (readPos s);
              s1 = s\<lparr>readPos := readPos s + 1\<rparr>;
              s2 = (if c = 4 \<and> len < max' then s1\<lparr>readPos := readPos s1 - 1\<rparr> else s1)
          in andThen (copy m buf c) (\<lambda>(ok, m1).
               if \<not> ok then Inr (len, s2, m1)
               else if c = 10 then Inr (len - 1, s2, m1)
               else readline_loop copy s2 m1 (buf + 1) (len - 1) max')
      else Inr (len, s, m))"
  by pat_completeness auto
termination
  by (relation "measure (\<lambda>(copy, s, m, buf, len, max'). unat len)") (auto simp: unat_pred unat_gt_0 word_gt_0)

declare readline_loop.simps [simp del]

text \<open>\<open>readline\<close> returns a \<open>char\<close>.\<close>

definition readline :: "'m copy1 \<Rightarrow> cons_state \<Rightarrow> 'm \<Rightarrow> u64 \<Rightarrow> u64 \<Rightarrow> (u8 \<times> cons_state \<times> 'm) outcome" where
  "readline copy s m buf len =
     andThen (readline_loop copy s m buf len len) (\<lambda>(rest, s1, m1). Inr (ucast (len - rest), s1, m1))"

definition copyout_char :: "u64 \<Rightarrow> u64 \<Rightarrow> bool \<Rightarrow> page_state copy1" where
  "copyout_char table caddr user ps buf c =
     eitherCopyout (ps\<lparr>memory := write_bytes (memory ps) caddr [c]\<rparr>) table user buf caddr 1"

section \<open>Model: the UART\<close>

definition UART_BUF :: nat where "UART_BUF = 32"

text \<open>\<open>idle\<close> tells for each poll of the line status whether the transmitter is idle.\<close>

record uart_state =
  ubuf :: "u8 list"
  wpos :: u64
  rpos :: u64
  sent :: "u8 list"

definition RHR :: u64 where "RHR = 0"
definition THR :: u64 where "THR = 0"
definition IER :: u64 where "IER = 1"
definition IER_RX_ENABLE :: u8 where "IER_RX_ENABLE = push_bit 0 1"
definition IER_TX_ENABLE :: u8 where "IER_TX_ENABLE = push_bit 1 1"
definition FCR :: u64 where "FCR = 2"
definition FCR_FIFO_ENABLE :: u8 where "FCR_FIFO_ENABLE = push_bit 0 1"
definition FCR_FIFO_CLEAR :: u8 where "FCR_FIFO_CLEAR = push_bit 1 3"
definition LCR :: u64 where "LCR = 3"
definition LCR_EIGHT_BITS :: u8 where "LCR_EIGHT_BITS = push_bit 0 3"
definition LCR_BAUD_LATCH :: u8 where "LCR_BAUD_LATCH = push_bit 7 1"
definition LSR :: u64 where "LSR = 5"
definition LSR_RX_READY :: u8 where "LSR_RX_READY = push_bit 0 1"
definition LSR_TX_IDLE :: u8 where "LSR_TX_IDLE = push_bit 5 1"

definition reg :: "u64 \<Rightarrow> u64" where
  "reg r = UART_BASE + r"

text \<open>Reading a register: \<open>dev\<close> is what the device answers at an address. A write is the pair of address and value.\<close>

definition read_reg :: "(u64 \<Rightarrow> u8) \<Rightarrow> u64 \<Rightarrow> u8" where
  "read_reg dev r = dev (reg r)"

definition write_reg :: "u64 \<Rightarrow> u8 \<Rightarrow> u64 \<times> u8" where
  "write_reg r val = (reg r, val)"

fun uart_start :: "uart_state \<Rightarrow> u8 list \<Rightarrow> uart_state \<times> u8 list" where
  "uart_start s [] = (s, [])"
| "uart_start s (lsr # polls) =
     (if wpos s = rpos s then (s, lsr # polls)
      else if lsr AND LSR_TX_IDLE = 0 then (s, polls)
      else uart_start (s\<lparr>rpos := rpos s + 1, sent := sent s @ [ubuf s ! (unat (rpos s) mod UART_BUF)]\<rparr>) polls)"

definition uartPutc :: "uart_state \<Rightarrow> u8 list \<Rightarrow> u8 \<Rightarrow> (uart_state \<times> u8 list) outcome" where
  "uartPutc s polls c =
     (if wpos s = rpos s + of_nat UART_BUF then Inl Sleeping
      else Inr (uart_start (s\<lparr>ubuf := (ubuf s)[unat (wpos s) mod UART_BUF := c], wpos := wpos s + 1\<rparr>) polls))"

text \<open>\<open>uartPutcSync\<close> polls until the transmitter is idle; the polls left over are returned.\<close>

fun uartPutcSync :: "u8 list \<Rightarrow> u8 list \<Rightarrow> u8 \<Rightarrow> (u8 list \<times> u8 list) outcome" where
  "uartPutcSync tx [] c = Inl Sleeping"
| "uartPutcSync tx (lsr # polls) c =
     (if lsr AND LSR_TX_IDLE = 0 then uartPutcSync tx polls c else Inr (tx @ [c], polls))"

text \<open>
  The received bytes: the bit \<open>LSR_RX_READY\<close> is set as long as there are some, and \<open>RHR\<close> delivers them in order. \<open>uartGetc\<close> gives 0
  when there is none.
\<close>

definition uartGetc :: "u8 list \<Rightarrow> u8 \<times> u8 list" where
  "uartGetc rx = (case rx of [] \<Rightarrow> (0, []) | c # rx' \<Rightarrow> (c, rx'))"

fun uartInterrupt :: "cons_state \<Rightarrow> u8 list \<Rightarrow> cons_state \<times> u8 list" where
  "uartInterrupt s [] = (s, [])"
| "uartInterrupt s (c # rx) = (if c = 0 then (s, rx) else uartInterrupt (consoleInterrupt s c) rx)"

definition initializeUart :: "(u64 \<times> u8) list" where
  "initializeUart =
     [write_reg IER 0, write_reg LCR LCR_BAUD_LATCH, write_reg 0 3, write_reg 1 0, write_reg LCR LCR_EIGHT_BITS,
      write_reg FCR (FCR_FIFO_ENABLE OR FCR_FIFO_CLEAR), write_reg IER (IER_TX_ENABLE OR IER_RX_ENABLE)]"

section \<open>Printed numbers\<close>

definition digit_value :: "u8 \<Rightarrow> int" where
  "digit_value c = (if c \<ge> 65 then uint c - 55 else uint c - 48)"

fun parse_nat :: "int \<Rightarrow> u8 list \<Rightarrow> int \<Rightarrow> int" where
  "parse_nat base [] acc = acc"
| "parse_nat base (c # cs) acc = parse_nat base cs (acc * base + digit_value c)"

text \<open>What a reader makes of the printed text: an optional minus sign and digits.\<close>

definition parse_int :: "int \<Rightarrow> u8 list \<Rightarrow> int" where
  "parse_int base cs = (if take 1 cs = [45] then - parse_nat base (tl cs) 0 else parse_nat base cs 0)"

lemma digit_value_digits: "k < 16 \<Longrightarrow> digit_value (digits ! k) = int k"
proof -
  have "\<forall>k \<in> set [0..<16]. digit_value (digits ! k) = int k" by code_simp
  then show "k < 16 \<Longrightarrow> ?thesis" by auto
qed

lemma digits_range: "k < 16 \<Longrightarrow> digits ! k \<noteq> 45" "k < 16 \<Longrightarrow> digits ! k = 48 \<longleftrightarrow> k = 0"
proof -
  have "\<forall>k \<in> set [0..<16]. digits ! k \<noteq> 45 \<and> (digits ! k = 48 \<longleftrightarrow> k = 0)" by code_simp
  then show "k < 16 \<Longrightarrow> digits ! k \<noteq> 45" "k < 16 \<Longrightarrow> digits ! k = 48 \<longleftrightarrow> k = 0" by auto
qed

lemma parse_nat_append: "parse_nat base (xs @ ys) acc = parse_nat base ys (parse_nat base xs acc)"
  by (induction xs arbitrary: acc) auto

text \<open>The loop appends the digits of \<open>n\<close>, least significant first; the last one is zero only for zero.\<close>

lemma digit_loop_digits:
  assumes "0 \<le> n" "n < base ^ k" "2 \<le> base" "base \<le> 16" "length buf + k \<le> 16" "0 < k"
  shows "\<exists>ds. digit_loop n base buf = Inr (buf @ ds) \<and> ds \<noteq> [] \<and> length ds \<le> k \<and> parse_nat base (rev ds) 0 = n \<and>
    last ds \<noteq> 45 \<and> (last ds = 48 \<longrightarrow> n = 0)"
  using assms
proof (induction k arbitrary: n buf)
  case (Suc k)
  let ?c = "digits ! nat (n mod base)"
  have m: "0 \<le> n mod base" "n mod base < base" using Suc.prems(3) by auto
  then have k: "nat (n mod base) < 16" "int (nat (n mod base)) = n mod base" using Suc.prems(4) by linarith+
  note dv = digit_value_digits [OF k(1), unfolded k(2)]
  show ?case
  proof (cases "n div base = 0")
    case True
    then have n: "n mod base = n" using Suc.prems(1,3) by (auto simp: zdiv_eq_0_iff)
    have "digit_loop n base buf = Inr (buf @ [?c])" using Suc.prems True by (subst digit_loop.simps) (simp add: Let_def)
    moreover have "?c = 48 \<longrightarrow> n = 0" using digits_range(2) [OF k(1)] n Suc.prems(1) k(2) by auto
    ultimately show ?thesis using dv n digits_range(1) [OF k(1)] by (intro exI [of _ "[?c]"]) simp
  next
    case False
    have d0: "0 \<le> n div base" using Suc.prems by (simp add: pos_imp_zdiv_nonneg_iff)
    have "n < base * base ^ k" using Suc.prems(2) by simp
    moreover have "n div base * base \<le> n" using m(1) by (simp add: minus_mod_eq_div_mult [symmetric])
    moreover have "base ^ k \<le> n div base \<Longrightarrow> base ^ k * base \<le> n div base * base" using Suc.prems(3) by (intro mult_right_mono) auto
    ultimately have dk: "n div base < base ^ k" by (simp add: mult.commute) (metis linorder_not_less)
    have k0: "0 < k" using dk d0 False by (cases k) auto
    have "length (buf @ [?c]) + k \<le> 16" using Suc.prems(5) by simp
    from Suc.IH [OF d0 dk Suc.prems(3,4) this k0] obtain ds where ds: "digit_loop (n div base) base (buf @ [?c]) = Inr ((buf @ [?c]) @ ds)"
      "ds \<noteq> []" "length ds \<le> k" "parse_nat base (rev ds) 0 = n div base" "last ds \<noteq> 45" "last ds = 48 \<longrightarrow> n div base = 0" by blast
    have "digit_loop n base buf = Inr (buf @ ?c # ds)"
      using Suc.prems False ds(1) by (subst digit_loop.simps) (simp add: Let_def)
    moreover have "parse_nat base (rev (?c # ds)) 0 = n" using ds(4) dv by (simp add: parse_nat_append)
    ultimately show ?thesis using ds False by (intro exI [of _ "?c # ds"]) simp
  qed
qed simp

text \<open>
  C39: a printed number reads back. For every \<open>int\<close> except the least one, in base 10 or 16, signed
  \<open>print_int\<close> stays within its buffer, and what it prints is an optional minus sign and digits without a
  leading zero whose value is the number.
\<close>

theorem print_int_round_trip:
  assumes "- (2 ^ 31) < n" "n < 2 ^ 31" "base = 10 \<or> base = 16"
  shows "\<exists>cs. print_int n base True = Inr cs \<and> parse_int base cs = n \<and> length cs \<le> 11 \<and>
    (n \<noteq> 0 \<longrightarrow> cs \<noteq> [] \<and> hd cs \<noteq> 48) \<and> (n = 0 \<longrightarrow> cs = [48])"
proof -
  let ?n = "if n < 0 then - n else n"
  have a: "0 \<le> ?n" "2 \<le> base" "base \<le> 16" using assms by auto
  have "?n < base ^ 10" using assms by auto
  from digit_loop_digits [OF a(1) this a(2,3), of "[]"] obtain ds where ds: "digit_loop ?n base [] = Inr ds" "ds \<noteq> []"
    "length ds \<le> 10" "parse_nat base (rev ds) 0 = ?n" "last ds \<noteq> 45" "last ds = 48 \<longrightarrow> ?n = 0" by auto
  have h: "hd (rev ds) = last ds" using ds(2) by (simp add: hd_rev)
  show ?thesis
  proof (cases "n < 0")
    case True
    then have "print_int n base True = Inr (45 # rev ds)" using ds assms(1) by (simp add: print_int_def Let_def)
    then show ?thesis using True ds by (intro exI [of _ "45 # rev ds"]) (simp add: parse_int_def)
  next
    case False
    then have p: "print_int n base True = Inr (rev ds)" using ds by (simp add: print_int_def Let_def)
    have "take 1 (rev ds) \<noteq> [45]" using ds(2,5) by (cases ds rule: rev_cases) simp_all
    moreover have "n = 0 \<Longrightarrow> rev ds = [48]"
      using ds(1) assms(3) by (subst (asm) digit_loop.simps) (auto simp: digits_def)
    ultimately show ?thesis using False p ds h by (intro exI [of _ "rev ds"]) (auto simp: parse_int_def)
  qed
qed

theorem print_int_round_trip_witness:
  "print_int (-208) 16 True = Inr [45, 68, 48] \<and> parse_int 16 [45, 68, 48] = -208"
proof -
  have p: "print_int (-208) 16 True = Inr [45, 68, 48]"
    by (simp add: print_int_def Let_def digit_loop.simps digits_def)
  from print_int_round_trip [of "-208" 16] p show ?thesis by auto
qed

section \<open>The line discipline\<close>

text \<open>
  What the ring holds: the committed input, which \<open>readline\<close> may take, and the line that is being
  edited.
\<close>

definition span :: "cons_state \<Rightarrow> u64 \<Rightarrow> u64 \<Rightarrow> u8 list" where
  "span s a b = map (\<lambda>i. cbuf s ! slot (a + of_nat i)) [0..<unat (b - a)]"

definition committed :: "cons_state \<Rightarrow> u8 list" where
  "committed s = span s (readPos s) (writePos s)"

definition editing :: "cons_state \<Rightarrow> u8 list" where
  "editing s = span s (writePos s) (editPos s)"

definition cons_ok :: "cons_state \<Rightarrow> bool" where
  "cons_ok s \<longleftrightarrow> length (cbuf s) = BUF_SIZE \<and>
     unat (writePos s - readPos s) \<le> unat (editPos s - readPos s) \<and> unat (editPos s - readPos s) \<le> BUF_SIZE"

text \<open>The specification: an unbounded queue of input and a line under edit, together at most \<open>BUF_SIZE\<close>.\<close>

fun type_char :: "u8 list \<times> u8 list \<Rightarrow> u8 \<Rightarrow> u8 list \<times> u8 list" where
  "type_char (com, ed) c =
     (if c = 8 \<or> c = 127 then (com, butlast ed)
      else if c = 0 \<or> length com + length ed \<ge> BUF_SIZE then (com, ed)
      else
        let ed' = ed @ [if c = 13 then 10 else c]
        in if c = 13 \<or> c = 10 \<or> c = 4 \<or> length com + length ed' = BUF_SIZE then (com @ ed', []) else (com, ed'))"

lemma length_span [simp]: "length (span s a b) = unat (b - a)"
  by (simp add: span_def)

lemma span_empty [simp]: "span s a a = []"
  by (simp add: span_def)

lemma slot_add: "slot (a + of_nat i) = (slot a + i) mod BUF_SIZE"
proof -
  have "unat (a + of_nat i) mod 1024 = (unat a + i) mod 1024"
    by (simp add: unat_word_ariths unat_of_nat take_bit_eq_mod mod_mod_cancel mod_add_right_eq)
  then show ?thesis by (simp add: slot_def BUF_SIZE_def mod_add_left_eq)
qed

lemma slot_inj:
  assumes "i < BUF_SIZE" "j < BUF_SIZE" "slot (a + of_nat i) = slot (a + of_nat j)"
  shows "i = j"
proof (rule ccontr)
  assume "i \<noteq> j"
  then consider "i < j" | "j < i" by linarith
  then show False
  proof cases
    case 1
    then have "1024 dvd (slot a + j) - (slot a + i)"
      using assms by (metis slot_add mod_eq_dvd_iff_nat add_le_mono le_refl less_imp_le BUF_SIZE_def)
    then show False using 1 assms by (auto dest!: dvd_imp_le simp: BUF_SIZE_def)
  next
    case 2
    then have "1024 dvd (slot a + i) - (slot a + j)"
      using assms by (metis slot_add mod_eq_dvd_iff_nat add_le_mono le_refl less_imp_le BUF_SIZE_def)
    then show False using 2 assms by (auto dest!: dvd_imp_le simp: BUF_SIZE_def)
  qed
qed

text \<open>Positions after \<open>readPos\<close> as numbers: \<open>w\<close> committed bytes, \<open>e\<close> bytes in all.\<close>

lemma cons_positions:
  assumes "cons_ok s"
  obtains w e where "writePos s = readPos s + of_nat w" "editPos s = readPos s + of_nat e" "w \<le> e" "e \<le> BUF_SIZE"
proof
  show "writePos s = readPos s + of_nat (unat (writePos s - readPos s))" "editPos s = readPos s + of_nat (unat (editPos s - readPos s))" by simp_all
qed (use assms in \<open>auto simp: cons_ok_def\<close>)

lemma unat_of_nat_64: "n < 2 ^ 64 \<Longrightarrow> unat (of_nat n :: u64) = n"
  by (simp add: unat_of_nat take_bit_nat_eq_self)

lemma span_from:
  assumes "i \<le> j" "j < 2 ^ 64"
  shows "span s (a + of_nat i) (a + of_nat j) = map (\<lambda>k. cbuf s ! slot (a + of_nat k)) [i..<j]"
proof -
  have "(a + of_nat j) - (a + of_nat i) = (of_nat (j - i) :: u64)" using assms by (simp add: of_nat_diff)
  then have "unat ((a + of_nat j) - (a + of_nat i)) = j - i" using unat_of_nat_64 [of "j - i"] assms by simp
  moreover have "[i..<j] = map (\<lambda>k. k + i) [0..<j - i]" using assms(1) by (simp add: map_add_upt)
  ultimately show ?thesis by (simp add: span_def comp_def add_ac)
qed

lemma cons_abs:
  assumes "writePos s = readPos s + of_nat w" "editPos s = readPos s + of_nat e" "w \<le> e" "e \<le> BUF_SIZE"
  shows "committed s = map (\<lambda>k. cbuf s ! slot (readPos s + of_nat k)) [0..<w]"
    "editing s = map (\<lambda>k. cbuf s ! slot (readPos s + of_nat k)) [w..<e]"
    "length (cbuf s) = BUF_SIZE \<Longrightarrow> cons_ok s"
proof -
  have b: "w < 2 ^ 64" "e < 2 ^ 64" using assms(3,4) by (auto simp: BUF_SIZE_def)
  show "committed s = map (\<lambda>k. cbuf s ! slot (readPos s + of_nat k)) [0..<w]"
    using span_from [of 0 w s "readPos s"] b assms(1) by (simp add: committed_def)
  show "editing s = map (\<lambda>k. cbuf s ! slot (readPos s + of_nat k)) [w..<e]"
    using span_from [OF assms(3) b(2), of s "readPos s"] assms(1,2) by (simp add: editing_def)
  show "length (cbuf s) = BUF_SIZE \<Longrightarrow> cons_ok s" using assms b by (simp add: cons_ok_def unat_of_nat_64)
qed

text \<open>The two cases that change the buffer: \<open>w\<close> committed bytes, \<open>e\<close> bytes in all.\<close>

lemma interrupt_erases:
  assumes p: "writePos s = readPos s + of_nat w" "editPos s = readPos s + of_nat e" "w \<le> e" "e \<le> BUF_SIZE"
    and len: "length (cbuf s) = BUF_SIZE" and c: "c = 8 \<or> c = 127" "w < e"
  shows "cons_ok (consoleInterrupt s c) \<and> (committed (consoleInterrupt s c), editing (consoleInterrupt s c)) = type_char (committed s, editing s) c"
proof -
  let ?s = "consoleInterrupt s c"
  have b: "e < 2 ^ 64" "w < 2 ^ 64" using p by (auto simp: BUF_SIZE_def)
  note ab = cons_abs(1,2) [OF p]
  have "editPos s \<noteq> writePos s"
  proof
    assume "editPos s = writePos s"
    then have "(of_nat e :: u64) = of_nat w" using p by simp
    then show False using c(2) b by (metis unat_of_nat_64 less_irrefl)
  qed
  then have st: "cbuf ?s = cbuf s" "readPos ?s = readPos s" "writePos ?s = writePos s" "editPos ?s = editPos s - 1"
    using c by (auto simp: consoleInterrupt_def putc_def)
  have e1: "editPos ?s = readPos ?s + of_nat (e - 1)" using st p(2) c(2) by (simp add: of_nat_diff)
  have q: "writePos ?s = readPos ?s + of_nat w" "w \<le> e - 1" "e - 1 \<le> BUF_SIZE" using st p c(2) by auto
  note ab' = cons_abs [OF q(1) e1 q(2,3)]
  have "[w..<e] = [w..<e - 1] @ [e - 1]" using c(2) by (metis Suc_diff_1 less_imp_Suc_add upt_Suc_append le_add1 less_Suc_eq_le q(2) zero_less_Suc)
  then have "editing ?s = butlast (editing s)" using ab ab' st by (simp add: butlast_append)
  then show ?thesis using c(1) ab ab' st len by simp
qed

lemma interrupt_adds:
  assumes p: "writePos s = readPos s + of_nat w" "editPos s = readPos s + of_nat e" "w \<le> e" "e \<le> BUF_SIZE"
    and len: "length (cbuf s) = BUF_SIZE" and c: "\<not> (c = 8 \<or> c = 127)" "c \<noteq> 0" "e < BUF_SIZE"
  shows "cons_ok (consoleInterrupt s c) \<and> (committed (consoleInterrupt s c), editing (consoleInterrupt s c)) = type_char (committed s, editing s) c"
proof -
  let ?s = "consoleInterrupt s c" and ?f = "\<lambda>k. cbuf s ! slot (readPos s + of_nat k)"
  have b: "e < 2 ^ 64" using p by (auto simp: BUF_SIZE_def)
  note ab = cons_abs(1,2) [OF p]
  have lens: "length (committed s) + length (editing s) = e" using ab p(3) by simp
  have dist: "unat (editPos s - readPos s) = e" using p(2) b by (simp add: unat_of_nat_64)
  let ?c = "if c = 13 then 10 else c"
  let ?done = "?c = 10 \<or> ?c = 4 \<or> Suc e = BUF_SIZE"
  have lt: "editPos s - readPos s < of_nat BUF_SIZE" using dist c(3) by (simp add: word_less_nat_alt BUF_SIZE_def)
  have se64: "unat (of_nat (Suc e) :: u64) = Suc e" and bs64: "unat (of_nat BUF_SIZE :: u64) = BUF_SIZE"
    using c(3) by (simp_all add: unat_of_nat_64 BUF_SIZE_def del: of_nat_Suc)
  have "editPos s + 1 - readPos s = (of_nat (Suc e) :: u64)" using p(2) by simp
  then have fl: "editPos s + 1 - readPos s = of_nat BUF_SIZE \<longleftrightarrow> Suc e = BUF_SIZE"
    using se64 bs64 by (metis (no_types))
  have st: "cbuf ?s = (cbuf s)[slot (editPos s) := ?c]" "readPos ?s = readPos s" "editPos ?s = editPos s + 1"
    "writePos ?s = (if ?done then editPos s + 1 else writePos s)"
    using c(1,2) lt fl by (auto simp: consoleInterrupt_def putc_def Let_def)
  have e1: "editPos ?s = readPos ?s + of_nat (Suc e)" using st p(2) by simp
  define w' where "w' = (if ?done then Suc e else w)"
  have q: "writePos ?s = readPos ?s + of_nat w'" "w' \<le> Suc e" "Suc e \<le> BUF_SIZE"
    using st p c(3) by (auto simp: w'_def)
  note ab' = cons_abs [OF q(1) e1 q(2,3)]
  have se: "slot (editPos s) < BUF_SIZE" by (simp add: slot_def BUF_SIZE_def)
  have old: "cbuf ?s ! slot (readPos s + of_nat k) = ?f k" if "k < e" for k
  proof -
    have "slot (readPos s + of_nat k) \<noteq> slot (editPos s)"
      using slot_inj [of k e "readPos s"] that c(3) p(2) by auto
    then show ?thesis using st(1) by simp
  qed
  have new: "cbuf ?s ! slot (readPos s + of_nat e) = ?c" using st(1) se len p(2) by simp
  have m: "map (\<lambda>k. cbuf ?s ! slot (readPos s + of_nat k)) [i..<Suc e] = map ?f [i..<e] @ [?c]" if "i \<le> e" for i
    using that old new by simp
  have m': "map (\<lambda>k. cbuf ?s ! slot (readPos s + of_nat k)) [0..<w] = map ?f [0..<w]" using old p(3) by simp
  have cat: "map ?f [0..<e] = committed s @ editing s" using ab p(3) upt_add_eq_append [of 0 w "e - w"] by simp
  show ?thesis
  proof (cases ?done)
    case True
    then have "committed ?s = committed s @ editing s @ [?c]" "editing ?s = []"
      using ab' st(2) m [of 0] cat by (simp_all add: w'_def)
    moreover have "type_char (committed s, editing s) c = (committed s @ editing s @ [?c], [])"
      using c True lens by (auto simp: Let_def)
    ultimately show ?thesis using ab'(3) st len by simp
  next
    case False
    then have "committed ?s = committed s" "editing ?s = editing s @ [?c]"
      using ab' ab st(2) m [OF p(3)] m' by (simp_all add: w'_def)
    moreover have "type_char (committed s, editing s) c = (committed s, editing s @ [?c])"
      using c False lens by (auto simp: Let_def split: if_splits)
    ultimately show ?thesis using ab'(3) st len by simp
  qed
qed

lemma interrupt_refines:
  assumes ok: "cons_ok s"
  shows "cons_ok (consoleInterrupt s c)" "(committed (consoleInterrupt s c), editing (consoleInterrupt s c)) = type_char (committed s, editing s) c"
proof -
  obtain w e where p: "writePos s = readPos s + of_nat w" "editPos s = readPos s + of_nat e" "w \<le> e" "e \<le> BUF_SIZE"
    using cons_positions [OF ok] .
  let ?s = "consoleInterrupt s c"
  have len: "length (cbuf s) = BUF_SIZE" using ok by (simp add: cons_ok_def)
  note ab = cons_abs(1,2) [OF p]
  consider (erase) "c = 8 \<or> c = 127" "w < e" | (none) "c = 8 \<or> c = 127" "w = e" | (nul) "c = 0"
    | (full) "\<not> (c = 8 \<or> c = 127)" "c \<noteq> 0" "e = BUF_SIZE" | (add) "\<not> (c = 8 \<or> c = 127)" "c \<noteq> 0" "e < BUF_SIZE"
    using p by linarith
  then have "cons_ok ?s \<and> (committed ?s, editing ?s) = type_char (committed s, editing s) c"
  proof cases
    case none
    then have "?s = s" using p by (auto simp: consoleInterrupt_def)
    moreover have "editing s = []" using ab none by simp
    ultimately show ?thesis using none ok by auto
  next
    case full
    have "unat (editPos s - readPos s) = e" using p(2) full(3) by (simp add: unat_of_nat_64 BUF_SIZE_def)
    then have "?s = s" using full by (auto simp: consoleInterrupt_def word_less_nat_alt BUF_SIZE_def)
    moreover have "length (committed s) + length (editing s) = e" using ab p(3) by simp
    ultimately show ?thesis using full ok by simp
  qed (use interrupt_erases [OF p len] interrupt_adds [OF p len] ok in \<open>auto simp: consoleInterrupt_def\<close>)
  then show "cons_ok ?s" "(committed ?s, editing ?s) = type_char (committed s, editing s) c" by auto
qed

text \<open>Reading: the bytes up to the end of the line or of the request; \<open>None\<close> when more input is needed.\<close>

fun take_line :: "nat \<Rightarrow> u8 list \<Rightarrow> (u8 list \<times> u8 list) option" where
  "take_line 0 com = Some ([], com)"
| "take_line (Suc n) [] = None"
| "take_line (Suc n) (c # com) =
     (if c = 10 then Some ([c], com) else map_option (\<lambda>(l, r). (c # l, r)) (take_line n com))"

fun store_all :: "('m \<Rightarrow> u64 \<Rightarrow> u8 \<Rightarrow> 'm) \<Rightarrow> 'm \<Rightarrow> u64 \<Rightarrow> u8 list \<Rightarrow> 'm" where
  "store_all f m a [] = m"
| "store_all f m a (c # cs) = store_all f (f m a c) (a + 1) cs"

lemma committed_Cons:
  assumes ok: "cons_ok s" and ne: "readPos s \<noteq> writePos s"
  shows "cons_ok (s\<lparr>readPos := readPos s + 1\<rparr>)"
    "committed s = cbuf s ! slot (readPos s) # committed (s\<lparr>readPos := readPos s + 1\<rparr>)"
    "editing (s\<lparr>readPos := readPos s + 1\<rparr>) = editing s"
proof -
  obtain w e where p: "writePos s = readPos s + of_nat w" "editPos s = readPos s + of_nat e" "w \<le> e" "e \<le> BUF_SIZE"
    using cons_positions [OF ok] .
  have w: "0 < w" using ne p(1) by (cases w) auto
  let ?s = "s\<lparr>readPos := readPos s + 1\<rparr>"
  have q: "writePos ?s = readPos ?s + of_nat (w - 1)" "editPos ?s = readPos ?s + of_nat (e - 1)" "w - 1 \<le> e - 1" "e - 1 \<le> BUF_SIZE"
    using p w by (simp_all add: of_nat_diff)
  note a = cons_abs [OF p] and b = cons_abs [OF q]
  show "cons_ok ?s" using b(3) ok by (simp add: cons_ok_def)
  have "[0..<w] = 0 # map Suc [0..<w - 1]" using w by (metis Suc_diff_1 map_Suc_upt upt_conv_Cons)
  then show "committed s = cbuf s ! slot (readPos s) # committed ?s"
    using a(1) b(1) by (simp add: comp_def add_ac)
  show "editing ?s = editing s" by (simp add: editing_def span_def)
qed

lemma committed_empty: "cons_ok s \<Longrightarrow> committed s = [] \<longleftrightarrow> readPos s = writePos s"
  by (cases "readPos s = writePos s") (simp add: committed_def, simp add: committed_Cons(2))

lemma readline_loop_takes:
  assumes "cons_ok s" "4 \<notin> set (committed s)" "\<forall>m a c. copy m a c = Inr (True, f m a c)"
  shows "case take_line (unat len) (committed s) of
      None \<Rightarrow> readline_loop copy s m buf len mx = Inl Sleeping
    | Some (l, r) \<Rightarrow> \<exists>s'. readline_loop copy s m buf len mx = Inr (len - of_nat (length l), s', store_all f m buf l) \<and>
        cons_ok s' \<and> committed s' = r \<and> editing s' = editing s"
  using assms(1,2)
proof (induction "unat len" arbitrary: s m buf len)
  case 0
  then have "len = 0" by (simp add: unat_eq_0)
  then show ?case using 0 by (simp add: readline_loop.simps)
next
  case (Suc n)
  have "len \<noteq> 0" using Suc.hyps(2) by auto
  then have len: "0 < len" "unat (len - 1) = n" using Suc.hyps(2) by (simp_all add: unat_pred word_gt_0 flip: Suc.hyps(2))
  show ?case
  proof (cases "readPos s = writePos s")
    case True
    then have "committed s = []" using committed_empty Suc.prems(1) by blast
    then show ?thesis using True len by (simp add: readline_loop.simps flip: Suc.hyps(2))
  next
    case False
    let ?c = "cbuf s ! slot (readPos s)" and ?s = "s\<lparr>readPos := readPos s + 1\<rparr>"
    note cc = committed_Cons [OF Suc.prems(1) False]
    have c4: "?c \<noteq> 4" "4 \<notin> set (committed ?s)" using Suc.prems(2) cc(2) by auto
    have st: "readline_loop copy s m buf len mx =
        (if ?c = 10 then Inr (len - 1, ?s, f m buf ?c) else readline_loop copy ?s (f m buf ?c) (buf + 1) (len - 1) mx)"
      using False len c4(1) assms(3) by (subst readline_loop.simps) (simp add: Let_def)
    show ?thesis
    proof (cases "?c = 10")
      case True
      then show ?thesis using st cc by (simp flip: Suc.hyps(2))
    next
      case nl: False
      have ih: "case take_line n (committed ?s) of
          None \<Rightarrow> readline_loop copy ?s (f m buf ?c) (buf + 1) (len - 1) mx = Inl Sleeping
        | Some (l, r) \<Rightarrow> \<exists>s'. readline_loop copy ?s (f m buf ?c) (buf + 1) (len - 1) mx =
              Inr (len - 1 - of_nat (length l), s', store_all f (f m buf ?c) (buf + 1) l) \<and>
            cons_ok s' \<and> committed s' = r \<and> editing s' = editing ?s"
        using Suc.hyps(1) [of "len - 1" ?s "f m buf ?c" "buf + 1"] len(2) cc(1) c4(2) by simp
      show ?thesis
        using ih st nl cc(2,3) by (cases "take_line n (committed ?s)") (auto simp: algebra_simps simp flip: Suc.hyps(2))
    qed
  qed
qed

lemma ucast_of_nat_8: "ucast (of_nat n :: u64) = (of_nat n :: u8)"
  by (rule bit_word_eqI) (simp add: bit_simps)

text \<open>
  C26: the console refines a line editor. A received byte edits the line (erase, or append with \<open>\r\<close> read
  as \<open>\n\<close>), and a newline, an end-of-file byte or a full buffer commits it; \<open>readline\<close> takes committed
  bytes in their order up to a newline or the size of the request, or sleeps. For input
  without end-of-file bytes, whatever the positions of the ring and their wrap-around.
\<close>

theorem console_refines_line_editor:
  assumes "cons_ok s"
  shows "cons_ok (consoleInterrupt s c) \<and>
    (committed (consoleInterrupt s c), editing (consoleInterrupt s c)) = type_char (committed s, editing s) c \<and>
    (4 \<notin> set (committed s) \<and> (\<forall>m a c. copy m a c = Inr (True, f m a c)) \<longrightarrow>
      (case take_line (unat len) (committed s) of
         None \<Rightarrow> readline copy s m buf len = Inl Sleeping
       | Some (l, r) \<Rightarrow> \<exists>s'. readline copy s m buf len = Inr (of_nat (length l), s', store_all f m buf l) \<and>
           cons_ok s' \<and> committed s' = r \<and> editing s' = editing s))"
proof (intro conjI impI)
  show "cons_ok (consoleInterrupt s c)"
    "(committed (consoleInterrupt s c), editing (consoleInterrupt s c)) = type_char (committed s, editing s) c"
    using interrupt_refines [OF assms] by simp_all
  assume a: "4 \<notin> set (committed s) \<and> (\<forall>m a c. copy m a c = Inr (True, f m a c))"
  then show "case take_line (unat len) (committed s) of
         None \<Rightarrow> readline copy s m buf len = Inl Sleeping
       | Some (l, r) \<Rightarrow> \<exists>s'. readline copy s m buf len = Inr (of_nat (length l), s', store_all f m buf l) \<and>
           cons_ok s' \<and> committed s' = r \<and> editing s' = editing s"
    using readline_loop_takes [OF assms, where copy = copy and f = f and len = len and m = m and buf = buf and mx = len]
    by (cases "take_line (unat len) (committed s)") (auto simp: readline_def ucast_of_nat_8)
qed

definition example_cons :: cons_state where
  "example_cons = \<lparr>cbuf = replicate BUF_SIZE 0, readPos = 0, writePos = 0, editPos = 0, out = []\<rparr>"

theorem console_refines_line_editor_witness:
  "\<exists>s. committed s = [104, 10] \<and> (\<exists>s'. readline (\<lambda>m a c. Inr (True, m @ [c])) s [] 0 5 = Inr (2, s', [104, 10]) \<and> committed s' = [])"
proof -
  let ?s = "consoleInterrupt (consoleInterrupt (consoleInterrupt (consoleInterrupt example_cons 104) 105) 127) 13"
  have ok: "cons_ok example_cons" by (simp add: cons_ok_def example_cons_def)
  have c: "committed example_cons = []" "editing example_cons = []" by (simp_all add: committed_def editing_def example_cons_def)
  note th = console_refines_line_editor
  have r: "cons_ok (consoleInterrupt s c) \<and> committed (consoleInterrupt s c) = fst (type_char (committed s, editing s) c) \<and>
      editing (consoleInterrupt s c) = snd (type_char (committed s, editing s) c)" if "cons_ok s" for s c
    using th [OF that, of c] by (metis fst_conv snd_conv)
  note r1 = r [OF ok, of 104] and r2 = r [of "consoleInterrupt example_cons 104" 105]
    and r3 = r [of "consoleInterrupt (consoleInterrupt example_cons 104) 105" 127]
    and r4 = r [of "consoleInterrupt (consoleInterrupt (consoleInterrupt example_cons 104) 105) 127" 13]
  have "cons_ok ?s \<and> committed ?s = [104, 10]" using r1 r2 r3 r4 c by (simp add: Let_def BUF_SIZE_def)
  moreover have "take_line (unat (5 :: u64)) [104, 10] = Some ([104, 10], [])" by code_simp
  ultimately show ?thesis
    using th [where s = ?s and copy = "\<lambda>m a c. Inr (True, m @ [c])" and f = "\<lambda>m a c. m @ [c]" and len = 5 and m = "[]" and buf = 0]
    by (intro exI [of _ ?s]) auto
qed

text \<open>
  An end-of-file byte that is not the first of the request is put back but not treated as the end: the
  rest of the buffer is filled with it.
\<close>

lemma readline_repeats_end_of_file:
  assumes "readPos s \<noteq> writePos s" "cbuf s ! slot (readPos s) = 4" "len < mx" "\<forall>m a c. copy m a c = Inr (True, f m a c)"
  shows "readline_loop copy s m buf len mx = Inr (0, s, store_all f m buf (replicate (unat len) 4))"
  using assms(3)
proof (induction "unat len" arbitrary: m buf len)
  case 0
  then have "len = 0" by (simp add: unat_eq_0)
  then show ?case by (simp add: readline_loop.simps)
next
  case (Suc n)
  have "len \<noteq> 0" using Suc.hyps(2) by auto
  then have len: "0 < len" "unat (len - 1) = n" using Suc.hyps(2) by (simp_all add: unat_pred word_gt_0 flip: Suc.hyps(2))
  then have "len - 1 < mx" using Suc.prems Suc.hyps(2) by (simp add: word_less_nat_alt)
  moreover have "readline_loop copy s m buf len mx = readline_loop copy s (f m buf 4) (buf + 1) (len - 1) mx"
    using assms len Suc.prems by (subst readline_loop.simps) (simp add: Let_def)
  ultimately show ?case using Suc.hyps(1) [of "len - 1"] len(2) by (simp flip: Suc.hyps(2))
qed

end
