(* ===== verification/Fs_File.thy ===== *)
theory Fs_File
  imports Fs_Inode Console
begin

unbundle bit_operations_syntax

text \<open>
  Open files and devices: \<open>kernel/fs/file.cpp\<close>, \<open>kernel/fs/device.cpp\<close>. A \<open>File*\<close> is an index of
  the table \<open>ftable\<close>. The two members of the union of \<open>File\<close> share the inode; \<open>offset\<close> is read only in a
  file of type \<open>Inode\<close> and \<open>major\<close> only in one of type \<open>Device\<close>, so they are fields of their own. The function
  pointers of a device name the routine they point to. \<open>int\<close> arguments are 32-bit words read with
  their sign.
\<close>

section \<open>Model\<close>

definition NUM_FILES :: nat where "NUM_FILES = 200"
definition NUM_DEVICES :: int where "NUM_DEVICES = 10"
definition CONSOLE :: nat where "CONSOLE = 1"

datatype FileType = NoFile | Pipe | InodeFile | DeviceFile

record open_file =
  f_type :: FileType
  f_refCount :: u32
  readable :: bool
  writable :: bool
  f_ip :: nat
  f_offset :: u32
  f_major :: u16

definition new_File :: open_file where
  "new_File = \<lparr>f_type = NoFile, f_refCount = 0, readable = False, writable = False, f_ip = 0, f_offset = 0, f_major = 0\<rparr>"

datatype routine = ConsoleRead | ConsoleWrite

record device =
  dev_read :: "routine option"
  dev_write :: "routine option"

text \<open>\<open>stack_address\<close> is where the local buffers of the console routines lie.\<close>

record file_state = ino_state +
  ftable :: "open_file list"
  deviceMap :: "device list"
  cons :: cons_state
  stack_address :: u64

type_synonym 'a fstate = "'a file_state_scheme"

definition upd_file :: "'a fstate \<Rightarrow> nat \<Rightarrow> (open_file \<Rightarrow> open_file) \<Rightarrow> 'a fstate" where
  "upd_file s f g = s\<lparr>ftable := (ftable s)[f := g (ftable s ! f)]\<rparr>"

definition initializeDevices :: "'a fstate \<Rightarrow> 'a fstate" where
  "initializeDevices s =
     s\<lparr>deviceMap := (deviceMap s)[CONSOLE := \<lparr>dev_read = Some ConsoleRead, dev_write = Some ConsoleWrite\<rparr>]\<rparr>"

definition getDevice :: "'a fstate \<Rightarrow> int \<Rightarrow> device option" where
  "getDevice s d = (if d < 0 \<or> d \<ge> NUM_DEVICES then None else Some (deviceMap s ! nat d))"

definition consoleRead :: "'a fstate \<Rightarrow> bool \<Rightarrow> u64 \<Rightarrow> u32 \<Rightarrow> (int \<times> 'a fstate) outcome" where
  "consoleRead s user dst n =
     andThen (readline (copyout_char (current_table s) (stack_address s) user) (cons s) (pages s) dst (scast n))
       (\<lambda>(c, cs, ps). Inr (uint c, s\<lparr>cons := cs, pages := ps\<rparr>))"

definition put_all :: "cons_state \<Rightarrow> u8 list \<Rightarrow> cons_state" where
  "put_all = foldl putc"

text \<open>The loop of \<open>consoleWrite\<close>; \<open>n\<close> counts down and \<open>offset\<close> up, so neither overflows.\<close>

function console_write_loop :: "'a fstate \<Rightarrow> bool \<Rightarrow> u64 \<Rightarrow> int \<Rightarrow> int \<Rightarrow> (int \<times> 'a fstate) outcome" where
  "console_write_loop s user src offset n =
     (if n > 0 then
        let len = min n 1024 in
        andThen (eitherCopyin (pages s) (current_table s) (stack_address s) user (src + of_int offset) (of_int len)) (\<lambda>(ok, ps).
          if \<not> ok then Inr (offset, s\<lparr>pages := ps\<rparr>)
          else let bs = read_bytes (memory ps) (stack_address s) (nat len)
               in console_write_loop (s\<lparr>pages := ps, cons := put_all (cons s) bs\<rparr>) user src (offset + len) (n - len))
      else Inr (offset, s))"
  by pat_completeness auto
termination
  by (relation "measure (\<lambda>(s, user, src, offset, n). nat n)") auto

declare console_write_loop.simps [simp del]

definition consoleWrite :: "'a fstate \<Rightarrow> bool \<Rightarrow> u64 \<Rightarrow> u32 \<Rightarrow> (int \<times> 'a fstate) outcome" where
  "consoleWrite s user src n = console_write_loop s user src 0 (sint n)"

text \<open>A call through a function pointer; \<open>None\<close> is \<open>nullptr\<close>.\<close>

definition call_routine :: "routine option \<Rightarrow> 'a fstate \<Rightarrow> bool \<Rightarrow> u64 \<Rightarrow> u32 \<Rightarrow> (int \<times> 'a fstate) outcome" where
  "call_routine r s user addr n =
     (case r of
        None \<Rightarrow> Inl Undefined
      | Some ConsoleRead \<Rightarrow> consoleRead s user addr n
      | Some ConsoleWrite \<Rightarrow> consoleWrite s user addr n)"

fun free_file :: "open_file list \<Rightarrow> nat \<Rightarrow> nat option" where
  "free_file [] i = None"
| "free_file (f # fs) i = (if f_refCount f = 0 then Some i else free_file fs (Suc i))"

definition file_allocate :: "'a fstate \<Rightarrow> nat option \<times> 'a fstate" where
  "file_allocate s =
     (case free_file (ftable s) 0 of
        None \<Rightarrow> (None, s)
      | Some f \<Rightarrow> (Some f, upd_file s f (\<lambda>x. x\<lparr>f_refCount := f_refCount x + 1\<rparr>)))"

definition file_dup :: "'a fstate \<Rightarrow> nat \<Rightarrow> 'a fstate outcome" where
  "file_dup s f =
     andThen (assert_that (f_refCount (ftable s ! f) \<ge> 1)) (\<lambda>_.
       Inr (upd_file s f (\<lambda>x. x\<lparr>f_refCount := f_refCount x + 1\<rparr>)))"

definition file_read :: "'a fstate \<Rightarrow> nat \<Rightarrow> u64 \<Rightarrow> u32 \<Rightarrow> (int \<times> 'a fstate) outcome" where
  "file_read s f addr n =
     (let x = ftable s ! f in
      if \<not> readable x then Inr (-1, s)
      else case f_type x of
        Pipe \<Rightarrow> Inr (0, s)
      | DeviceFile \<Rightarrow>
          (case getDevice s (sint (f_major x)) of
             None \<Rightarrow> Inr (-1, s)
           | Some dev \<Rightarrow> call_routine (dev_read dev) s True addr n)
      | InodeFile \<Rightarrow>
          andThen (inode_lock s (f_ip x)) (\<lambda>s1.
          andThen (inode_read s1 (f_ip x) (User addr) (f_offset (ftable s1 ! f)) n) (\<lambda>(len, _, s2).
            let s3 = (if len > 0 then upd_file s2 f (\<lambda>y. y\<lparr>f_offset := f_offset y + of_int len\<rparr>) else s2)
            in andThen (inode_unlock s3 (f_ip x)) (\<lambda>s4. Inr (len, s4))))
      | NoFile \<Rightarrow> Inl AssertionFailed)"

definition max_write :: int where
  "max_write = (int MAX_OP_BLOCKS - 1 - 1 - 2) div 2 * int BLOCK_SIZE"

function file_write_loop :: "'a fstate \<Rightarrow> nat \<Rightarrow> u64 \<Rightarrow> int \<Rightarrow> int \<Rightarrow> (int \<times> 'a fstate) outcome" where
  "file_write_loop s f addr n i =
     (if i < n then
        let len = min (n - i) max_write; ip = f_ip (ftable s ! f) in
        andThen (beginOp s) (\<lambda>s1.
        andThen (inode_lock s1 ip) (\<lambda>s2.
        andThen (inode_write s2 ip (User (addr + of_int i)) (f_offset (ftable s2 ! f)) (of_int len)) (\<lambda>(res, s3).
          let s4 = (if res > 0 then upd_file s3 f (\<lambda>y. y\<lparr>f_offset := f_offset y + of_int res\<rparr>) else s3)
          in andThen (inode_unlock s4 ip) (\<lambda>s5.
             andThen (endOp s5) (\<lambda>s6.
               if res \<noteq> len then Inr (i, s6) else file_write_loop s6 f addr n (i + res))))))
      else Inr (i, s))"
  by pat_completeness auto
termination
  by (relation "measure (\<lambda>(s, f, addr, n, i). nat (n - i))")
    (auto simp: max_write_def MAX_OP_BLOCKS_def BLOCK_SIZE_def)

declare file_write_loop.simps [simp del]

definition file_write :: "'a fstate \<Rightarrow> nat \<Rightarrow> u64 \<Rightarrow> u32 \<Rightarrow> (int \<times> 'a fstate) outcome" where
  "file_write s f addr n =
     (let x = ftable s ! f in
      if \<not> writable x then Inr (-1, s)
      else case f_type x of
        Pipe \<Rightarrow> Inr (0, s)
      | DeviceFile \<Rightarrow>
          (case getDevice s (sint (f_major x)) of
             None \<Rightarrow> Inr (-1, s)
           | Some dev \<Rightarrow> call_routine (dev_write dev) s True addr n)
      | InodeFile \<Rightarrow>
          andThen (file_write_loop s f addr (sint n) 0) (\<lambda>(i, s1).
            Inr (if i = sint n then sint n else -1, s1))
      | NoFile \<Rightarrow> Inl AssertionFailed)"

definition put_in_op :: "'a fstate \<Rightarrow> nat \<Rightarrow> 'a fstate outcome" where
  "put_in_op s ip = andThen (beginOp s) (\<lambda>s1. andThen (inode_put s1 ip) endOp)"

definition file_close :: "'a fstate \<Rightarrow> nat \<Rightarrow> 'a fstate outcome" where
  "file_close s f =
     andThen (assert_that (f_refCount (ftable s ! f) \<ge> 1)) (\<lambda>_.
       let s1 = upd_file s f (\<lambda>x. x\<lparr>f_refCount := f_refCount x - 1\<rparr>)
       in if f_refCount (ftable s1 ! f) > 0 then Inr s1
          else let x = ftable s1 ! f;
                   s2 = upd_file s1 f (\<lambda>x. x\<lparr>f_refCount := 0, f_type := NoFile\<rparr>)
               in case f_type x of
                    NoFile \<Rightarrow> Inr s2
                  | Pipe \<Rightarrow> Inr s2
                  | InodeFile \<Rightarrow> put_in_op s2 (f_ip x)
                  | DeviceFile \<Rightarrow> put_in_op s2 (f_ip x))"

section \<open>Concrete states\<close>

definition example_fs :: file_state where
  "example_fs = ino_state.extend example_ino
     (file_state.fields (replicate NUM_FILES new_File) (replicate 10 \<lparr>dev_read = None, dev_write = None\<rparr>) example_cons 0x80040000)"

end
