(* ===== verification/Proc_Process.thy ===== *)
theory Proc_Process
  imports Proc_Scheduler Fs_File
begin

unbundle bit_operations_syntax

text \<open>
  Processes: \<open>kernel/process/process.cpp\<close> and \<open>user_init_proc.cpp\<close>, on the scheduler, the address spaces and the
  open files. The state of the kernel joins the state of the file system (with the pages and the
  console) and that of the scheduler. What the linker or the allocator places (the
  trampoline, \<open>returnFork\<close>, a process and its \<open>exitStatus\<close>) is given by its address. A file system
  call of a process runs with its number, working directory and page table (\<open>as_process\<close>).
\<close>

section \<open>State\<close>

record kernel =
  fsys :: file_state
  sched :: sched_state
  nextPid :: u64
  pidMutex :: spin_mutex
  waitMutex :: spin_mutex
  next_process :: nat
  initProc :: "nat option"
  first :: bool
  kernelPageTable :: u64
  trampoline :: u64
  returnFork_address :: u64
  process_address :: "nat \<Rightarrow> u64"
  status_address :: "nat \<Rightarrow> u64"

definition proc :: "kernel \<Rightarrow> nat \<Rightarrow> process" where
  "proc k p = process_of (sched k) p"

definition upd_proc :: "kernel \<Rightarrow> nat \<Rightarrow> (process \<Rightarrow> process) \<Rightarrow> kernel" where
  "upd_proc k p f = k\<lparr>sched := upd_process (sched k) p f\<rparr>"

definition as_process :: "kernel \<Rightarrow> nat \<Rightarrow> file_state" where
  "as_process k p =
     (fsys k)\<lparr>pid_now := p_pid (proc k p), cwd := (case p_cwd (proc k p) of None \<Rightarrow> 0 | Some ip \<Rightarrow> ip),
       current_table := pageTable (proc k p)\<rparr>"

definition in_sched :: "kernel \<Rightarrow> sched_state outcome \<Rightarrow> kernel outcome" where
  "in_sched k r = andThen r (\<lambda>s. Inr (k\<lparr>sched := s\<rparr>))"

definition in_pages :: "kernel \<Rightarrow> page_state outcome \<Rightarrow> kernel outcome" where
  "in_pages k r = andThen r (\<lambda>ps. Inr (k\<lparr>fsys := (fsys k)\<lparr>pages := ps\<rparr>\<rparr>))"

definition set_cpu :: "kernel \<Rightarrow> cpu \<Rightarrow> kernel" where
  "set_cpu k c = k\<lparr>sched := (sched k)\<lparr>this_cpu := c\<rparr>\<rparr>"

definition lock_pid :: "kernel \<Rightarrow> kernel outcome" where
  "lock_pid k = andThen (spin_lock (this_cpu (sched k)) (tp (sched k)) (pidMutex k)) (\<lambda>(c, m). Inr ((set_cpu k c)\<lparr>pidMutex := m\<rparr>))"

definition unlock_pid :: "kernel \<Rightarrow> kernel outcome" where
  "unlock_pid k = andThen (spin_unlock (this_cpu (sched k)) (tp (sched k)) (pidMutex k)) (\<lambda>(c, m). Inr ((set_cpu k c)\<lparr>pidMutex := m\<rparr>))"

definition lock_wait :: "kernel \<Rightarrow> kernel outcome" where
  "lock_wait k = andThen (spin_lock (this_cpu (sched k)) (tp (sched k)) (waitMutex k)) (\<lambda>(c, m). Inr ((set_cpu k c)\<lparr>waitMutex := m\<rparr>))"

definition unlock_wait :: "kernel \<Rightarrow> kernel outcome" where
  "unlock_wait k = andThen (spin_unlock (this_cpu (sched k)) (tp (sched k)) (waitMutex k)) (\<lambda>(c, m). Inr ((set_cpu k c)\<lparr>waitMutex := m\<rparr>))"

section \<open>Model: making a process\<close>

definition process_initialize :: "kernel \<Rightarrow> kernel" where
  "process_initialize k = k\<lparr>nextPid := 1\<rparr>"

definition kernel_stack :: "u64 \<Rightarrow> u64" where
  "kernel_stack pid = TRAMPOLINE - pid * 2 * PAGE_SIZE"

definition makePageTable :: "page_state \<Rightarrow> u64 \<Rightarrow> u64 \<Rightarrow> (u64 \<times> page_state) outcome" where
  "makePageTable ps tramp tf =
     andThen (operator_new ps PAGE_SIZE) (\<lambda>(pt, ps1).
     andThen (map_pages (new_PageTable ps1 pt) pt TRAMPOLINE PAGE_SIZE tramp (ucast (PTE_R OR PTE_X))) (\<lambda>(_, ps2).
     andThen (map_pages ps2 pt TRAPFRAME PAGE_SIZE tf (ucast (PTE_R OR PTE_W))) (\<lambda>(_, ps3). Inr (pt, ps3))))"

text \<open>The object comes from cleared pages, so the members the constructor leaves alone are zero.\<close>

definition blank_process :: process where
  "blank_process =
     \<lparr>p_pid = 0, p_parent = None, children = [], p_state = Used, p_mutex = new_SpinMutex, p_context = zero_context,
      trapFrame = 0, frame = new_TrapFrame, pageTable = 0, kernelStackPage = 0, kernelStack = 0, memorySize = 0,
      chan = 0, p_cwd = None, openFiles = [], p_name = replicate 16 0, killed = False, exitStatus = 0\<rparr>"

definition take_pid :: "kernel \<Rightarrow> (u64 \<times> kernel) outcome" where
  "take_pid k =
     andThen (lock_pid k) (\<lambda>k1.
     andThen (unlock_pid (k1\<lparr>nextPid := nextPid k1 + 1\<rparr>)) (\<lambda>k2. Inr (nextPid k1, k2)))"

definition new_Process :: "kernel \<Rightarrow> (nat \<times> kernel) outcome" where
  "new_Process k =
     andThen (take_pid k) (\<lambda>(pid, k1).
     andThen (operator_new (pages (fsys k1)) 288) (\<lambda>(tf, ps1).
     andThen (operator_new ps1 (PAGE_SIZE * 2)) (\<lambda>(ks, ps2).
     andThen (makePageTable ps2 (trampoline k1) tf) (\<lambda>(pt, ps3).
     andThen (map_pages ps3 (kernelPageTable k1) (kernel_stack pid) PAGE_SIZE ks (ucast (PTE_R OR PTE_W))) (\<lambda>(_, ps4).
       let p = next_process k1;
           x = blank_process\<lparr>p_pid := pid, p_state := Used, trapFrame := tf, kernelStackPage := ks,
                 kernelStack := kernel_stack pid, pageTable := pt,
                 p_context := zero_context\<lparr>ctx_ra := returnFork_address k1, ctx_sp := kernel_stack pid + PAGE_SIZE\<rparr>\<rparr>
       in Inr (p, upd_proc (k1\<lparr>fsys := (fsys k1)\<lparr>pages := ps4\<rparr>, next_process := Suc p\<rparr>) p (\<lambda>_. x)))))))"

section \<open>Model: files of a process\<close>

definition O_RDONLY :: u32 where "O_RDONLY = 0"
definition O_WRONLY :: u32 where "O_WRONLY = 1"
definition O_RDWR :: u32 where "O_RDWR = 2"
definition O_CREATE :: u32 where "O_CREATE = 0x200"
definition O_TRUNC :: u32 where "O_TRUNC = 0x400"

definition name_array :: "u8 list" where
  "name_array = replicate MAX_DIR_NAME_LENGTH 0"

text \<open>The first half of \<open>Process::open\<close>: the inode, locked unless \<open>create\<close> found it, or \<open>nullptr\<close>.\<close>

definition open_inode :: "'a fstate \<Rightarrow> u8 list \<Rightarrow> u32 \<Rightarrow> (nat option \<times> 'a fstate) outcome" where
  "open_inode s path mode =
     (if mode AND O_CREATE \<noteq> 0 then inode_create s path name_array T_FILE 0 0
      else andThen (inode_open s path False name_array) (\<lambda>(r, _, s1).
        case r of
          None \<Rightarrow> Inr (None, s1)
        | Some ip \<Rightarrow> andThen (inode_lock s1 ip) (\<lambda>s2.
            if di_type (inode_of s2 ip) = T_DIR \<and> mode \<noteq> O_RDONLY
            then andThen (unlock_put s2 ip) (\<lambda>s3. Inr (None, s3)) else Inr (Some ip, s2))))"

definition fill_file :: "inode \<Rightarrow> nat \<Rightarrow> u32 \<Rightarrow> open_file \<Rightarrow> open_file" where
  "fill_file x ip mode f =
     (let f1 = (if di_type x = T_DEVICE then f\<lparr>f_type := DeviceFile, f_ip := ip, f_major := di_major x\<rparr>
                else f\<lparr>f_type := InodeFile, f_ip := ip, f_offset := 0\<rparr>)
      in f1\<lparr>readable := (mode AND O_WRONLY = 0), writable := (mode AND O_WRONLY = 0 \<or> mode AND O_RDWR \<noteq> 0)\<rparr>)"

definition bad_major :: "inode \<Rightarrow> bool" where
  "bad_major x \<longleftrightarrow> di_type x = T_DEVICE \<and> (sint (di_major x) < 0 \<or> sint (di_major x) \<ge> NUM_DEVICES)"

text \<open>The result is the file, or \<open>None\<close> for the return value \<open>-1\<close>.\<close>

definition open_file_of :: "'a fstate \<Rightarrow> u8 list \<Rightarrow> u32 \<Rightarrow> (nat option \<times> 'a fstate) outcome" where
  "open_file_of s path mode =
     andThen (beginOp s) (\<lambda>s1.
     andThen (open_inode s1 path mode) (\<lambda>(r, s2).
     case r of
       None \<Rightarrow> andThen (endOp s2) (\<lambda>s3. Inr (None, s3))
     | Some ip \<Rightarrow>
         if bad_major (inode_of s2 ip) then andThen (unlock_put s2 ip) (\<lambda>s3. Inr (None, s3))
         else case file_allocate s2 of
           (None, s3) \<Rightarrow> andThen (unlock_put s3 ip) (\<lambda>s4. andThen (endOp s4) (\<lambda>s5. Inr (None, s5)))
         | (Some f, s3) \<Rightarrow>
             let s4 = upd_file s3 f (fill_file (inode_of s3 ip) ip mode) in
             andThen (if mode AND O_TRUNC \<noteq> 0 \<and> di_type (inode_of s4 ip) = T_FILE then inode_truncate s4 ip else Inr s4) (\<lambda>s5.
             andThen (inode_unlock s5 ip) (\<lambda>s6.
             andThen (endOp s6) (\<lambda>s7. Inr (Some f, s7))))))"

definition process_open :: "kernel \<Rightarrow> nat \<Rightarrow> u8 list \<Rightarrow> u32 \<Rightarrow> (int \<times> kernel) outcome" where
  "process_open k p path mode =
     andThen (open_file_of (as_process k p) path mode) (\<lambda>(r, s).
       case r of
         None \<Rightarrow> Inr (-1, k\<lparr>fsys := s\<rparr>)
       | Some f \<Rightarrow> Inr (int (length (openFiles (proc k p))),
           upd_proc (k\<lparr>fsys := s\<rparr>) p (\<lambda>x. x\<lparr>openFiles := openFiles x @ [Some f]\<rparr>)))"

definition process_close :: "kernel \<Rightarrow> nat \<Rightarrow> int \<Rightarrow> (int \<times> kernel) outcome" where
  "process_close k p fd =
     (if fd < 0 \<or> nat fd \<ge> length (openFiles (proc k p)) then Inr (-1, k)
      else case openFiles (proc k p) ! nat fd of
        None \<Rightarrow> Inl Undefined
      | Some f \<Rightarrow> andThen (file_close (as_process k p) f) (\<lambda>s.
          Inr (0, upd_proc (k\<lparr>fsys := s\<rparr>) p (\<lambda>x. x\<lparr>openFiles := (openFiles x)[nat fd := None]\<rparr>))))"

section \<open>Model: fork, exit, wait\<close>

fun dup_files :: "'a fstate \<Rightarrow> nat option list \<Rightarrow> 'a fstate outcome" where
  "dup_files s [] = Inr s"
| "dup_files s (None # fs) = dup_files s fs"
| "dup_files s (Some f # fs) = andThen (file_dup s f) (\<lambda>s1. dup_files s1 fs)"

definition adopt :: "kernel \<Rightarrow> nat \<Rightarrow> nat \<Rightarrow> kernel outcome" where
  "adopt k p q =
     andThen (lock_wait k) (\<lambda>k1.
       unlock_wait (upd_proc (upd_proc k1 q (\<lambda>x. x\<lparr>p_parent := Some p\<rparr>)) p (\<lambda>x. x\<lparr>children := children x @ [q]\<rparr>)))"

definition make_ready :: "kernel \<Rightarrow> nat \<Rightarrow> kernel outcome" where
  "make_ready k q =
     in_sched k
       (andThen (lock_process (sched k) q) (\<lambda>s1.
        andThen (unlock_process (upd_process s1 q (\<lambda>x. x\<lparr>p_state := Ready\<rparr>)) q) (\<lambda>s2.
          registerProcess s2 (Some q))))"

definition fork :: "kernel \<Rightarrow> nat \<Rightarrow> (nat \<times> kernel) outcome" where
  "fork k p =
     andThen (new_Process k) (\<lambda>(q, k1).
     let x = proc k1 p in
     andThen (in_pages k1 (copyUserVirtualMemory (pages (fsys k1)) (pageTable x) (pageTable (proc k1 q)) (memorySize x))) (\<lambda>k2.
     let k3 = upd_proc k2 q (\<lambda>y. y\<lparr>memorySize := memorySize x, frame := (frame x)\<lparr>tf_a0 := 0\<rparr>\<rparr>) in
     andThen (dup_files (as_process k3 p) (openFiles x)) (\<lambda>s.
     case p_cwd x of None \<Rightarrow> Inl Undefined | Some ip \<Rightarrow>
     let k4 = k3\<lparr>fsys := snd (inode_dup s ip)\<rparr> in
     andThen (strncpy_bytes (p_name x) 16) (\<lambda>nm.
     andThen (adopt (upd_proc k4 q (\<lambda>y. y\<lparr>openFiles := openFiles x, p_cwd := Some ip, p_name := nm\<rparr>)) p q) (\<lambda>k5.
     andThen (make_ready k5 q) (\<lambda>k6. Inr (q, k6)))))))"

fun close_files :: "'a fstate \<Rightarrow> nat option list \<Rightarrow> 'a fstate outcome" where
  "close_files s [] = Inr s"
| "close_files s (None # fs) = close_files s fs"
| "close_files s (Some f # fs) = andThen (file_close s f) (\<lambda>s1. close_files s1 fs)"

definition chan_of :: "kernel \<Rightarrow> nat option \<Rightarrow> u64" where
  "chan_of k q = (case q of None \<Rightarrow> 0 | Some p \<Rightarrow> process_address k p)"

fun reparent_loop :: "kernel \<Rightarrow> nat list \<Rightarrow> kernel outcome" where
  "reparent_loop k [] = Inr k"
| "reparent_loop k (c # cs) =
     andThen (in_sched k (lock_process (sched k) c)) (\<lambda>k1.
     let k2 = upd_proc k1 c (\<lambda>x. x\<lparr>p_parent := initProc k1\<rparr>) in
     andThen (in_sched k2 (wakeup (sched k2) (chan_of k2 (initProc k2)))) (\<lambda>k3.
     andThen (in_sched k3 (unlock_process (sched k3) c)) (\<lambda>k4. reparent_loop k4 cs)))"

definition reparent :: "kernel \<Rightarrow> nat \<Rightarrow> kernel outcome" where
  "reparent k p = reparent_loop k (children (proc k p))"

text \<open>\<open>exit\<close> up to the switch in \<open>reschedule\<close>, from which a zombie does not come back.\<close>

definition become_zombie :: "kernel \<Rightarrow> nat \<Rightarrow> u32 \<Rightarrow> kernel outcome" where
  "become_zombie k p status =
     andThen (lock_wait k) (\<lambda>k1.
     andThen (reparent k1 p) (\<lambda>k2.
     andThen (in_sched k2 (wakeup (sched k2) (chan_of k2 (p_parent (proc k2 p))))) (\<lambda>k3.
     andThen (in_sched k3 (lock_process (sched k3) p)) (\<lambda>k4.
       unlock_wait (upd_proc k4 p (\<lambda>x. x\<lparr>exitStatus := status, p_state := Zombie\<rparr>))))))"

definition exit_enter :: "kernel \<Rightarrow> nat \<Rightarrow> u32 \<Rightarrow> kernel outcome" where
  "exit_enter k p status =
     andThen (close_files (as_process k p) (openFiles (proc k p))) (\<lambda>s1.
     case p_cwd (proc k p) of None \<Rightarrow> Inl Undefined | Some ip \<Rightarrow>
     andThen (put_in_op s1 ip) (\<lambda>s2.
     andThen (become_zombie (upd_proc (k\<lparr>fsys := s2\<rparr>) p (\<lambda>x. x\<lparr>openFiles := [], p_cwd := None\<rparr>)) p status) (\<lambda>k1.
     andThen (reschedule_enter (sched k1)) (\<lambda>(_, s). Inr (k1\<lparr>sched := s\<rparr>)))))"

definition growMemory :: "kernel \<Rightarrow> nat \<Rightarrow> u64 \<Rightarrow> kernel outcome" where
  "growMemory k p size' =
     (let x = proc k p; ps = pages (fsys k) in
      andThen
        (in_pages k
          (if size' > memorySize x
           then andThen (allocateUserVirtualMemory ps (pageTable x) (memorySize x) size' (ucast PTE_W)) (\<lambda>(_, ps1). Inr ps1)
           else if size' < memorySize x
           then Inr (snd (deallocateUserVirtualMemory ps (pageTable x) size' (memorySize x)))
           else Inr ps))
        (\<lambda>k1. Inr (upd_proc k1 p (\<lambda>x. x\<lparr>memorySize := size'\<rparr>))))"

text \<open>
  The scan of \<open>wait\<close> over the children from index \<open>i\<close>: the returned \<open>bool\<close>, or \<open>None\<close> when no child is a
  zombie. After \<open>erase\<close> the reference \<open>child\<close> names the slot of the erased element: the next child, or the
  same pointer when there is none.
\<close>

definition reap :: "kernel \<Rightarrow> nat \<Rightarrow> nat \<Rightarrow> bool \<times> kernel" where
  "reap k p i =
     (let cs = children (proc k p);
          slot = (if Suc i < length cs then cs ! Suc i else cs ! i)
      in (p_pid (proc k slot) \<noteq> 0, upd_proc k p (\<lambda>x. x\<lparr>children := take i cs @ drop (Suc i) cs\<rparr>)))"

definition copy_status :: "kernel \<Rightarrow> nat \<Rightarrow> nat \<Rightarrow> u64 \<Rightarrow> (bool \<times> kernel) outcome" where
  "copy_status k p c addr =
     (if addr = 0 then Inr (True, k)
      else let ps = pages (fsys k); src = status_address k c;
               ps1 = ps\<lparr>memory := write_bytes (memory ps) src (bytes_of_word 4 (exitStatus (proc k c)))\<rparr>
           in andThen (copyout ps1 (pageTable (proc k p)) addr src 4) (\<lambda>(ok, ps2).
                Inr (ok, k\<lparr>fsys := (fsys k)\<lparr>pages := ps2\<rparr>\<rparr>)))"

fun wait_scan :: "kernel \<Rightarrow> nat \<Rightarrow> u64 \<Rightarrow> nat \<Rightarrow> nat \<Rightarrow> (bool option \<times> kernel) outcome" where
  "wait_scan k p addr i 0 = Inr (None, k)"
| "wait_scan k p addr i (Suc n) =
     (let c = children (proc k p) ! i in
      andThen (in_sched k (lock_process (sched k) c)) (\<lambda>k1.
        if p_state (proc k1 c) = Zombie then
          andThen (copy_status k1 p c addr) (\<lambda>(ok, k2).
          let (r, k3) = (if ok then reap k2 p i else (True, k2)) in
          andThen (in_sched k3 (unlock_process (sched k3) c)) (\<lambda>k4. Inr (Some r, k4)))
        else andThen (in_sched k1 (unlock_process (sched k1) c)) (\<lambda>k2. wait_scan k2 p addr (Suc i) n)))"

text \<open>
  One round of \<open>wait\<close>. \<open>return -1\<close> of a \<open>bool\<close> function is \<open>true\<close>. Without a zombie the process sleeps on
  its own address and the round is repeated after the wakeup.
\<close>

datatype wait_result = Returned bool | Waits bool

definition wait_round :: "kernel \<Rightarrow> nat \<Rightarrow> u64 \<Rightarrow> (wait_result \<times> kernel) outcome" where
  "wait_round k p addr =
     (if children (proc k p) = [] then andThen (unlock_wait k) (\<lambda>k1. Inr (Returned True, k1))
      else andThen (wait_scan k p addr 0 (length (children (proc k p)))) (\<lambda>(r, k1).
        case r of
          Some b \<Rightarrow> andThen (unlock_wait k1) (\<lambda>k2. Inr (Returned b, k2))
        | None \<Rightarrow> andThen (sleep_enter (sched k1) (process_address k1 p) (waitMutex k1)) (\<lambda>(flag, m, s).
            Inr (Waits flag, k1\<lparr>sched := s, waitMutex := m\<rparr>))))"

definition wait_enter :: "kernel \<Rightarrow> nat \<Rightarrow> u64 \<Rightarrow> (wait_result \<times> kernel) outcome" where
  "wait_enter k p addr = andThen (lock_wait k) (\<lambda>k1. wait_round k1 p addr)"

definition wait_resume :: "kernel \<Rightarrow> nat \<Rightarrow> u64 \<Rightarrow> bool \<Rightarrow> (wait_result \<times> kernel) outcome" where
  "wait_resume k p addr flag =
     andThen (sleep_leave (sched k) p flag (waitMutex k)) (\<lambda>(m, s). wait_round (k\<lparr>sched := s, waitMutex := m\<rparr>) p addr)"

section \<open>Model: the first process\<close>

definition initcode_name :: "u8 list" where
  "initcode_name = [105, 110, 105, 116, 99, 111, 100, 101, 0]"

definition init_message :: "u8 list" where
  "init_message = ascii ''User init process initialised.'' @ [10]"

definition startUserInitProcess :: "kernel \<Rightarrow> u8 list \<Rightarrow> kernel outcome" where
  "startUserInitProcess k code =
     andThen (new_Process k) (\<lambda>(p, k1).
     andThen (operator_new (pages (fsys k1)) PAGE_SIZE) (\<lambda>(mem, ps1).
     let ps2 = ps1\<lparr>memory := fst (memset (memory ps1) mem 0 PAGE_SIZE)\<rparr> in
     andThen (map_pages ps2 (pageTable (proc k1 p)) 0 PAGE_SIZE mem (ucast (PTE_W OR PTE_R OR PTE_X OR PTE_U))) (\<lambda>(_, ps3).
     let k2 = k1\<lparr>fsys := (fsys k1)\<lparr>pages := ps3\<lparr>memory := write_bytes (memory ps3) mem code\<rparr>\<rparr>\<rparr> in
     andThen (strncpy_bytes initcode_name 9) (\<lambda>nm.
     andThen (inode_open (as_process k2 p) [47] False name_array) (\<lambda>(ip, _, s).
     let k3 = upd_proc (k2\<lparr>fsys := s\<lparr>cons := put_all (cons s) init_message\<rparr>, initProc := Some p\<rparr>) p (\<lambda>x. x\<lparr>memorySize := PAGE_SIZE,
                frame := (frame x)\<lparr>epc := 0, tf_sp := PAGE_SIZE\<rparr>, p_name := put_bytes (p_name x) 0 nm, p_cwd := ip, p_state := Ready\<rparr>)
     in in_sched k3 (registerProcess (sched k3) (Some p)))))))"

section \<open>Concrete states\<close>

definition example_kernel :: kernel where
  "example_kernel =
     \<lparr>fsys = example_fs, sched = example_sched, nextPid = 2, pidMutex = new_SpinMutex, waitMutex = new_SpinMutex,
      next_process = 10, initProc = Some 9, first = False, kernelPageTable = 0x80010000, trampoline = 0x80007000,
      returnFork_address = 0x80000100, process_address = (\<lambda>p. 0x80100000 + of_nat p), status_address = (\<lambda>p. 0x80200000 + of_nat p)\<rparr>"

end
