(* ===== verification/Elf_Exec.thy ===== *)
theory Elf_Exec
  imports Proc_Process
begin

unbundle bit_operations_syntax

text \<open>
  The program loader: \<open>kernel/elf/elf.h\<close> and \<open>kernel/elf/exec.cpp\<close>. \<open>exec\<close> reads an ELF file into a new page
  table, puts the arguments on a new stack and only then changes the process. The
  arguments are the addresses of terminated strings in buffers of a page, as the system call makes them; the two
  headers are local objects that \<open>Inode::read\<close> fills. \<open>delete\<close> of a page table is a call of the empty \<open>operator delete\<close>: it does nothing.
\<close>

section \<open>Model\<close>

definition ELF_MAGIC :: u32 where "ELF_MAGIC = 0x464C457F"
definition ELF_PROG_LOAD :: u32 where "ELF_PROG_LOAD = 1"
definition MAX_ARGS :: nat where "MAX_ARGS = 32"

record elf_header =
  eh_magic :: u32
  eh_elf :: "u8 list"
  eh_type :: u16
  eh_machine :: u16
  eh_version :: u32
  eh_entry :: u64
  eh_phoff :: u64
  eh_shoff :: u64
  eh_flags :: u32
  eh_ehsize :: u16
  eh_phentsize :: u16
  eh_phnum :: u16
  eh_shentsize :: u16
  eh_shnum :: u16
  eh_shstrndx :: u16

record program_header =
  ph_type :: u32
  ph_flags :: u32
  ph_off :: u64
  ph_vaddr :: u64
  ph_paddr :: u64
  ph_filesz :: u64
  ph_memsz :: u64
  ph_align :: u64

definition parse_elf_header :: "u8 list \<Rightarrow> elf_header" where
  "parse_elf_header d =
     \<lparr>eh_magic = get32 d 0, eh_elf = get_bytes d 4 12, eh_type = get16 d 16, eh_machine = get16 d 18, eh_version = get32 d 20,
      eh_entry = get64 d 24, eh_phoff = get64 d 32, eh_shoff = get64 d 40, eh_flags = get32 d 48, eh_ehsize = get16 d 52,
      eh_phentsize = get16 d 54, eh_phnum = get16 d 56, eh_shentsize = get16 d 58, eh_shnum = get16 d 60, eh_shstrndx = get16 d 62\<rparr>"

definition parse_program_header :: "u8 list \<Rightarrow> program_header" where
  "parse_program_header d =
     \<lparr>ph_type = get32 d 0, ph_flags = get32 d 4, ph_off = get64 d 8, ph_vaddr = get64 d 16, ph_paddr = get64 d 24,
      ph_filesz = get64 d 32, ph_memsz = get64 d 40, ph_align = get64 d 48\<rparr>"

definition flagsToPerm :: "u32 \<Rightarrow> u32" where
  "flagsToPerm flags =
     (let perm = (if flags AND 1 \<noteq> 0 then ucast PTE_X else 0)
      in if flags AND 2 \<noteq> 0 then perm OR ucast PTE_W else perm)"

definition object_bytes :: "place \<Rightarrow> u8 list" where
  "object_bytes p = (case p of Object d _ \<Rightarrow> d | _ \<Rightarrow> [])"

text \<open>
  \<open>loadSegment\<close>; \<open>k\<close> bounds the number of pages left, \<open>size / PAGE_SIZE + 1\<close> at the start. Every round needs a
  mapped page, so a size whose last page number would wrap fails the assertion before.
\<close>

fun load_segment_loop :: "'a fstate \<Rightarrow> u64 \<Rightarrow> u64 \<Rightarrow> nat \<Rightarrow> u64 \<Rightarrow> u64 \<Rightarrow> u64 \<Rightarrow> nat \<Rightarrow> (bool \<times> 'a fstate) outcome" where
  "load_segment_loop s pt va ip offset sz i 0 = Inr (True, s)"
| "load_segment_loop s pt va ip offset sz i (Suc k) =
     (if i < sz then
        andThen (walkAddress (pages s) pt (va + i)) (\<lambda>pa.
        andThen (assert_that (pa \<noteq> 0)) (\<lambda>_.
          let n = (if sz - i < PAGE_SIZE then sz - i else PAGE_SIZE) in
          andThen (inode_read s ip (Kernel pa) (ucast (offset + i)) (ucast n)) (\<lambda>(len, _, s1).
            if of_int len \<noteq> n then Inr (False, s1)
            else load_segment_loop s1 pt va ip offset sz (i + PAGE_SIZE) k)))
      else Inr (True, s))"

definition loadSegment :: "'a fstate \<Rightarrow> u64 \<Rightarrow> u64 \<Rightarrow> nat \<Rightarrow> u64 \<Rightarrow> u64 \<Rightarrow> (bool \<times> 'a fstate) outcome" where
  "loadSegment s pt va ip offset sz = load_segment_loop s pt va ip offset sz 0 (unat sz div 4096 + 1)"

text \<open>One program header: the new size of the image, or \<open>None\<close> for a bad file.\<close>

definition load_header :: "'a fstate \<Rightarrow> nat \<Rightarrow> u64 \<Rightarrow> program_header \<Rightarrow> u64 \<Rightarrow> (u64 option \<times> 'a fstate) outcome" where
  "load_header s ip pt ph sz =
     (if ph_type ph \<noteq> ELF_PROG_LOAD then Inr (Some sz, s)
      else if ph_memsz ph < ph_filesz ph then Inr (None, s)
      else if ph_vaddr ph + ph_memsz ph < ph_vaddr ph then Inr (None, s)
      else if ph_vaddr ph mod PAGE_SIZE \<noteq> 0 then Inr (None, s)
      else andThen (allocateUserVirtualMemory (pages s) pt sz (ph_vaddr ph + ph_memsz ph) (flagsToPerm (ph_flags ph))) (\<lambda>(sz', ps).
        let s1 = s\<lparr>pages := ps\<rparr> in
        if sz' = 0 then Inr (None, s1)
        else andThen (loadSegment s1 pt (ph_vaddr ph) ip (ph_off ph) (ph_filesz ph)) (\<lambda>(res, s2).
          Inr (if res then Some sz' else None, s2))))"

fun load_headers :: "'a fstate \<Rightarrow> nat \<Rightarrow> u64 \<Rightarrow> u64 \<Rightarrow> u64 \<Rightarrow> nat \<Rightarrow> (u64 option \<times> 'a fstate) outcome" where
  "load_headers s ip pt offset sz 0 = Inr (Some sz, s)"
| "load_headers s ip pt offset sz (Suc k) =
     andThen (inode_read s ip (Object (replicate 56 0) 0) (ucast offset) 56) (\<lambda>(len, d, s1).
       if len \<noteq> 56 then Inr (None, s1)
       else andThen (load_header s1 ip pt (parse_program_header (object_bytes d)) sz) (\<lambda>(r, s2).
         case r of None \<Rightarrow> Inr (None, s2) | Some sz' \<Rightarrow> load_headers s2 ip pt (offset + 56) sz' k))"

text \<open>
  The part of \<open>exec\<close> inside of the transaction: the entry point and the size of the image, or \<open>None\<close>. The inode
  is unlocked and put and the transaction ended in both cases, by \<open>bad\<close> or by the code after the loop.
\<close>

definition load_image :: "'a fstate \<Rightarrow> nat \<Rightarrow> u64 \<Rightarrow> ((u64 \<times> u64) option \<times> 'a fstate) outcome" where
  "load_image s ip pt =
     andThen (inode_read s ip (Object (replicate 64 0) 0) 0 64) (\<lambda>(len, d, s1).
       let h = parse_elf_header (object_bytes d) in
       if len \<noteq> 64 then Inr (None, s1)
       else if eh_magic h \<noteq> ELF_MAGIC then Inr (None, s1)
       else andThen (load_headers s1 ip pt (eh_phoff h) 0 (unat (eh_phnum h))) (\<lambda>(r, s2).
         Inr (map_option (\<lambda>sz. (eh_entry h, sz)) r, s2)))"

definition c_bytes :: "mem \<Rightarrow> u64 \<Rightarrow> nat \<Rightarrow> u8 list" where
  "c_bytes m a n = takeWhile (\<lambda>b. b \<noteq> 0) (read_bytes m a n)"

text \<open>The loop over \<open>argv\<close>: the stack pointer and \<open>ustack\<close>, or \<open>None\<close>.\<close>

fun push_args :: "page_state \<Rightarrow> u64 \<Rightarrow> u64 \<Rightarrow> u64 \<Rightarrow> u64 list \<Rightarrow> u64 list \<Rightarrow> ((u64 \<times> u64 list) option \<times> page_state) outcome" where
  "push_args ps pt base sp ustack [] = Inr (Some (sp, ustack), ps)"
| "push_args ps pt base sp ustack (a # argv) =
     (if length ustack \<ge> MAX_ARGS then Inr (None, ps)
      else
        let n = of_nat (length (c_bytes (memory ps) a 4096)) + 1;
            sp1 = sp - n;
            sp2 = sp1 - sp1 mod 16
        in if sp2 < base then Inr (None, ps)
           else andThen (copyout ps pt sp2 a n) (\<lambda>(ok, ps1).
             if \<not> ok then Inr (None, ps1) else push_args ps1 pt base sp2 (ustack @ [sp2]) argv))"

definition words_bytes :: "u64 list \<Rightarrow> u8 list" where
  "words_bytes ws = concat (map (bytes_of_word 8) ws)"

text \<open>
  The stack: two pages, of which the lower one is made a guard, with the strings and \<open>ustack\<close>. The
  result is the size of the memory, the stack pointer and \<open>argc\<close>.
\<close>

definition make_stack :: "page_state \<Rightarrow> u64 \<Rightarrow> u64 \<Rightarrow> u64 \<Rightarrow> u64 list \<Rightarrow> ((u64 \<times> u64 \<times> nat) option \<times> page_state) outcome" where
  "make_stack ps pt img buf argv =
     (let sz = roundUp img in
      andThen (allocateUserVirtualMemory ps pt sz (sz + PAGE_SIZE * 2) (ucast PTE_W)) (\<lambda>(alloc, ps1).
        if alloc = 0 then Inr (None, ps1)
        else
          andThen (clearUserVirtualMemory ps1 pt (alloc - PAGE_SIZE * 2)) (\<lambda>ps2.
          let base = alloc - PAGE_SIZE in
          andThen (push_args ps2 pt base alloc [] argv) (\<lambda>(r, ps3).
          case r of
            None \<Rightarrow> Inr (None, ps3)
          | Some (sp, ustack) \<Rightarrow>
              if length ustack \<ge> MAX_ARGS then Inl Undefined
              else
                let n = (of_nat (length ustack) + 1) * 8;
                    sp1 = sp - n;
                    sp2 = sp1 - sp1 mod 16
                in if sp2 < base then Inr (None, ps3)
                   else andThen (copyout (ps3\<lparr>memory := write_bytes (memory ps3) buf (words_bytes (ustack @ [0]))\<rparr>) pt sp2 buf n) (\<lambda>(ok, ps4).
                     Inr (if ok then Some (alloc, sp2, length ustack) else None, ps4))))))"

definition last_element :: "u8 list \<Rightarrow> u8 list" where
  "last_element path = rev (takeWhile (\<lambda>c. c \<noteq> 47) (rev path))"

definition exec :: "kernel \<Rightarrow> nat \<Rightarrow> u8 list \<Rightarrow> u64 list \<Rightarrow> (int \<times> kernel) outcome" where
  "exec k p path argv =
     andThen (beginOp (as_process k p)) (\<lambda>s1.
     andThen (inode_open s1 path False name_array) (\<lambda>(r, _, s2).
     case r of
       None \<Rightarrow> andThen (endOp s2) (\<lambda>s3. Inr (-1, k\<lparr>fsys := s3\<rparr>))
     | Some ip \<Rightarrow>
         andThen (inode_lock s2 ip) (\<lambda>s3.
         andThen (makePageTable (pages s3) (trampoline k) (trapFrame (proc k p))) (\<lambda>(pt, ps).
         andThen (load_image (s3\<lparr>pages := ps\<rparr>) ip pt) (\<lambda>(r, s4).
         andThen (unlock_put s4 ip) (\<lambda>s5.
         andThen (endOp s5) (\<lambda>s6.
         case r of
           None \<Rightarrow> Inr (-1, k\<lparr>fsys := s6\<rparr>)
         | Some (entry, img) \<Rightarrow>
             andThen (make_stack (pages s6) pt img (stack_address s6) argv) (\<lambda>(r, ps1).
             let k1 = k\<lparr>fsys := s6\<lparr>pages := ps1\<rparr>\<rparr> in
             case r of
               None \<Rightarrow> Inr (-1, k1)
             | Some (sz, sp, argc) \<Rightarrow>
                 andThen (strncpy_bytes (last_element path @ [0]) 16) (\<lambda>nm.
                   Inr (int argc, upd_proc k1 p (\<lambda>x. x\<lparr>p_name := nm, pageTable := pt, memorySize := sz,
                     frame := (frame x)\<lparr>tf_a1 := sp, epc := entry, tf_sp := sp\<rparr>\<rparr>)))))))))))"

section \<open>The new image\<close>

lemma push_args_law:
  "push_args ps pt base sp us argv = Inr (Some (sp', us'), ps') \<Longrightarrow> length us' = length us + length argv"
  by (induction argv arbitrary: ps sp us) (auto simp: Let_def outcome_simps split: if_splits)

text \<open>The stack pointer that \<open>exec\<close> computes: aligned to 16 bytes and above the guard page.\<close>

lemma align_down: "(x - x mod 16) mod 16 = (0 :: u64)"
proof -
  have "x = x div 16 * 16 + x mod 16" by (simp add: word_mod_div_equality)
  then have "x - x mod 16 = x div 16 * 16" by (metis add_diff_cancel_right')
  moreover have "unat (x div 16 * 16) = unat x div 16 * 16"
    by (subst unat_mult_lem [THEN iffD1]) (use unsigned_less [of x, where 'a = nat] in \<open>simp_all add: unat_div\<close>)
  ultimately show ?thesis by (simp add: word_unat_eq_iff unat_mod)
qed

lemma make_stack_law:
  assumes "make_stack ps pt img buf argv = Inr (Some (sz, sp, argc), ps')"
  shows "argc = length argv" "argc < MAX_ARGS" "sp mod 16 = 0" "sz - PAGE_SIZE \<le> sp"
proof -
  let ?a = "allocateUserVirtualMemory ps pt (roundUp img) (roundUp img + PAGE_SIZE * 2) (ucast PTE_W)"
  obtain alloc ps1 where a: "?a = Inr (alloc, ps1)" "alloc \<noteq> 0"
    using assms by (cases ?a) (auto simp: make_stack_def Let_def split: if_splits)
  obtain ps2 where c: "clearUserVirtualMemory ps1 pt (alloc - PAGE_SIZE * 2) = Inr ps2"
    using assms a by (cases "clearUserVirtualMemory ps1 pt (alloc - PAGE_SIZE * 2)") (auto simp: make_stack_def Let_def)
  let ?p = "push_args ps2 pt (alloc - PAGE_SIZE) alloc [] argv"
  obtain r ps3 where p: "?p = Inr (r, ps3)" using assms a c by (cases ?p) (auto simp: make_stack_def Let_def)
  then obtain sp0 us where r: "r = Some (sp0, us)" using assms a c by (cases r) (auto simp: make_stack_def Let_def)
  have us: "length us = length argv" using push_args_law p r by fastforce
  let ?sp = "sp0 - (of_nat (length us) + 1) * 8"
  have "length us < MAX_ARGS" "\<not> ?sp - ?sp mod 16 < alloc - PAGE_SIZE"
    using assms a c p r by (auto simp: make_stack_def Let_def split: if_splits)
  moreover have "sz = alloc \<and> sp = ?sp - ?sp mod 16 \<and> argc = length us"
    using assms a c p r calculation by (auto simp: make_stack_def Let_def outcome_simps split: if_splits)
  ultimately show "argc = length argv" "argc < MAX_ARGS" "sp mod 16 = 0" "sz - PAGE_SIZE \<le> sp"
    using us align_down [of ?sp] by auto
qed


end
