(* ===== verification/Syscall.thy ===== *)
theory Syscall
  imports Elf_Exec
begin

unbundle bit_operations_syntax

text \<open>
  System calls: \<open>kernel/syscall/\<close>. The arguments are registers of the trap frame of the running process;
  pointers among them are user addresses, which the copy routines translate. Local arrays of a
  call lie on the kernel stack at \<open>stack_address\<close>. The entries of \<open>syscallMap\<close> name the function they point to. A
  call yields the value for the register \<open>a0\<close>, or the process has given the processor away.
\<close>

section \<open>Model: arguments\<close>

definition MAX_PATH_LENGTH :: nat where "MAX_PATH_LENGTH = 128"

definition getArg :: "trap_frame \<Rightarrow> int \<Rightarrow> u64 outcome" where
  "getArg f n =
     andThen (assert_that (n \<ge> 0 \<and> n \<le> 5)) (\<lambda>_.
       Inr (if n = 0 then tf_a0 f else if n = 1 then tf_a1 f else if n = 2 then tf_a2 f
            else if n = 3 then tf_a3 f else if n = 4 then tf_a4 f else tf_a5 f))"

definition set_pages :: "kernel \<Rightarrow> page_state \<Rightarrow> kernel" where
  "set_pages k ps = k\<lparr>fsys := (fsys k)\<lparr>pages := ps\<rparr>\<rparr>"

definition fetchAddress :: "kernel \<Rightarrow> nat \<Rightarrow> u64 \<Rightarrow> u64 \<Rightarrow> (u64 option \<times> kernel) outcome" where
  "fetchAddress k p address ip =
     (if address \<ge> memorySize (proc k p) then Inr (None, k)
      else if address + 8 > memorySize (proc k p) then Inr (None, k)
      else andThen (copyin (pages (fsys k)) (pageTable (proc k p)) ip address 8) (\<lambda>(ok, ps).
        Inr (if ok then Some (load64 (memory ps) ip) else None, set_pages k ps)))"

text \<open>\<open>fetchString\<close>: after a successful copy the buffer holds a terminated string, which \<open>strlen\<close> measures.\<close>

definition fetchString :: "kernel \<Rightarrow> nat \<Rightarrow> u64 \<Rightarrow> u64 \<Rightarrow> nat \<Rightarrow> (int \<times> kernel) outcome" where
  "fetchString k p address buf len =
     andThen (copyinString (pages (fsys k)) (pageTable (proc k p)) buf address (of_nat len)) (\<lambda>(ok, ps).
       Inr (if ok then int (length (c_bytes (memory ps) buf len)) else -1, set_pages k ps))"

definition getArgInt :: "kernel \<Rightarrow> nat \<Rightarrow> int \<Rightarrow> u32 outcome" where
  "getArgInt k p n = andThen (getArg (frame (proc k p)) n) (\<lambda>v. Inr (ucast v))"

definition getArgAddress :: "kernel \<Rightarrow> nat \<Rightarrow> int \<Rightarrow> u64 outcome" where
  "getArgAddress k p n = getArg (frame (proc k p)) n"

definition getArgString :: "kernel \<Rightarrow> nat \<Rightarrow> int \<Rightarrow> u64 \<Rightarrow> nat \<Rightarrow> (int \<times> kernel) outcome" where
  "getArgString k p n buf len = andThen (getArgAddress k p n) (\<lambda>a. fetchString k p a buf len)"

definition getArgFd :: "kernel \<Rightarrow> nat \<Rightarrow> int \<Rightarrow> (nat \<times> nat) option outcome" where
  "getArgFd k p n =
     andThen (getArgInt k p n) (\<lambda>fd.
       if sint fd < 0 then Inr None
       else if nat (sint fd) \<ge> length (openFiles (proc k p)) then Inr None
       else Inr (map_option (Pair (nat (sint fd))) (openFiles (proc k p) ! nat (sint fd))))"

section \<open>Model: the calls\<close>

datatype sys_result = Value u64 | Switched

definition sys_fork :: "kernel \<Rightarrow> nat \<Rightarrow> (sys_result \<times> kernel) outcome" where
  "sys_fork k p = andThen (fork k p) (\<lambda>(q, k1). Inr (Value (p_pid (proc k1 q)), k1))"

definition sys_exit :: "kernel \<Rightarrow> nat \<Rightarrow> (sys_result \<times> kernel) outcome" where
  "sys_exit k p = andThen (getArgInt k p 0) (\<lambda>status. andThen (exit_enter k p status) (\<lambda>k1. Inr (Switched, k1)))"

definition wait_value :: "wait_result \<Rightarrow> sys_result" where
  "wait_value r = (case r of Returned b \<Rightarrow> Value (if b then 0 else -1) | Waits _ \<Rightarrow> Switched)"

definition sys_wait :: "kernel \<Rightarrow> nat \<Rightarrow> (sys_result \<times> kernel) outcome" where
  "sys_wait k p =
     andThen (getArgAddress k p 0) (\<lambda>ptr. andThen (wait_enter k p ptr) (\<lambda>(r, k1). Inr (wait_value r, k1)))"

definition sys_read :: "kernel \<Rightarrow> nat \<Rightarrow> (sys_result \<times> kernel) outcome" where
  "sys_read k p =
     andThen (getArgFd k p 0) (\<lambda>r.
     case r of None \<Rightarrow> Inr (Value (-1), k) | Some (_, f) \<Rightarrow>
     andThen (getArgAddress k p 1) (\<lambda>buf.
     andThen (getArgInt k p 2) (\<lambda>n.
     andThen (file_read (as_process k p) f buf n) (\<lambda>(v, s). Inr (Value (of_int v), k\<lparr>fsys := s\<rparr>)))))"

definition sys_write :: "kernel \<Rightarrow> nat \<Rightarrow> (sys_result \<times> kernel) outcome" where
  "sys_write k p =
     andThen (getArgAddress k p 1) (\<lambda>address.
     andThen (getArgInt k p 2) (\<lambda>len.
     andThen (getArgFd k p 0) (\<lambda>r.
     case r of None \<Rightarrow> Inr (Value (-1), k) | Some (_, f) \<Rightarrow>
     andThen (file_write (as_process k p) f address len) (\<lambda>(v, s). Inr (Value (of_int v), k\<lparr>fsys := s\<rparr>)))))"

definition sys_close :: "kernel \<Rightarrow> nat \<Rightarrow> (sys_result \<times> kernel) outcome" where
  "sys_close k p =
     andThen (getArgFd k p 0) (\<lambda>r.
     case r of None \<Rightarrow> Inr (Value (-1), k) | Some (fd, _) \<Rightarrow>
     andThen (process_close k p (int fd)) (\<lambda>(v, k1). Inr (Value (of_int v), k1)))"

definition path_at :: "kernel \<Rightarrow> u8 list" where
  "path_at k = c_bytes (memory (pages (fsys k))) (stack_address (fsys k)) MAX_PATH_LENGTH"

definition sys_open :: "kernel \<Rightarrow> nat \<Rightarrow> (sys_result \<times> kernel) outcome" where
  "sys_open k p =
     andThen (getArgInt k p 1) (\<lambda>mode.
     andThen (getArgString k p 0 (stack_address (fsys k)) MAX_PATH_LENGTH) (\<lambda>(len, k1).
       if len < 0 then Inr (Value (-1), k1)
       else andThen (process_open k1 p (path_at k1) mode) (\<lambda>(v, k2). Inr (Value (of_int v), k2))))"

definition sys_mknod :: "kernel \<Rightarrow> nat \<Rightarrow> (sys_result \<times> kernel) outcome" where
  "sys_mknod k p =
     andThen (beginOp (as_process k p)) (\<lambda>s1.
     andThen (getArgInt k p 1) (\<lambda>major.
     andThen (getArgInt k p 2) (\<lambda>minor.
     andThen (getArgString (k\<lparr>fsys := s1\<rparr>) p 0 (stack_address s1) MAX_PATH_LENGTH) (\<lambda>(len, k1).
       if len < 0 then andThen (endOp (fsys k1)) (\<lambda>s2. Inr (Value (-1), k1\<lparr>fsys := s2\<rparr>))
       else andThen (inode_create (fsys k1) (path_at k1) name_array T_DEVICE (ucast major) (ucast minor)) (\<lambda>(r, s2).
         case r of
           None \<Rightarrow> andThen (endOp s2) (\<lambda>s3. Inr (Value (-1), k1\<lparr>fsys := s3\<rparr>))
         | Some ip \<Rightarrow> andThen (unlock_put s2 ip) (\<lambda>s3.
             andThen (endOp s3) (\<lambda>s4. Inr (Value 0, k1\<lparr>fsys := s4\<rparr>))))))))"

text \<open>The loop that fetches \<open>argv\<close>; \<open>n\<close> slots of the array are left.\<close>

fun fetch_args :: "kernel \<Rightarrow> nat \<Rightarrow> u64 \<Rightarrow> u64 list \<Rightarrow> nat \<Rightarrow> (u64 list option \<times> kernel) outcome" where
  "fetch_args k p uargv argv 0 = Inr (None, k)"
| "fetch_args k p uargv argv (Suc n) =
     andThen (fetchAddress k p (uargv + 8 * of_nat (length argv)) (stack_address (fsys k) + of_nat MAX_PATH_LENGTH)) (\<lambda>(r, k1).
       case r of
         None \<Rightarrow> Inr (None, k1)
       | Some uarg \<Rightarrow>
           if uarg = 0 then Inr (Some argv, k1)
           else andThen (operator_new (pages (fsys k1)) PAGE_SIZE) (\<lambda>(a, ps).
             andThen (fetchString (set_pages k1 ps) p uarg a 4096) (\<lambda>(len, k2).
               if len < 0 then Inr (None, k2) else fetch_args k2 p uargv (argv @ [a]) n)))"

definition sys_exec :: "kernel \<Rightarrow> nat \<Rightarrow> (sys_result \<times> kernel) outcome" where
  "sys_exec k p =
     andThen (getArgAddress k p 1) (\<lambda>uargv.
     andThen (getArgString k p 0 (stack_address (fsys k)) MAX_PATH_LENGTH) (\<lambda>(len, k1).
       if len < 0 then Inr (Value (-1), k1)
       else andThen (fetch_args k1 p uargv [] MAX_ARGS) (\<lambda>(r, k2).
         case r of
           None \<Rightarrow> Inr (Value (-1), k2)
         | Some argv \<Rightarrow> andThen (exec k2 p (path_at k1) argv) (\<lambda>(v, k3). Inr (Value (of_int v), k3)))))"

section \<open>Model: dispatch\<close>

datatype sysfun = Fork | Exit | Wait | Read | Exec | Open | Write | Mknod | Close

definition SYS_FORK :: u64 where "SYS_FORK = 1"
definition SYS_EXIT :: u64 where "SYS_EXIT = 2"
definition SYS_WAIT :: u64 where "SYS_WAIT = 3"
definition SYS_READ :: u64 where "SYS_READ = 5"
definition SYS_EXEC :: u64 where "SYS_EXEC = 7"
definition SYS_OPEN :: u64 where "SYS_OPEN = 15"
definition SYS_WRITE :: u64 where "SYS_WRITE = 16"
definition SYS_MKNOD :: u64 where "SYS_MKNOD = 17"
definition SYS_CLOSE :: u64 where "SYS_CLOSE = 21"

definition syscall_entries :: "(u64 \<times> sysfun) list" where
  "syscall_entries =
     [(SYS_FORK, Fork), (SYS_EXIT, Exit), (SYS_WAIT, Wait), (SYS_READ, Read), (SYS_EXEC, Exec), (SYS_OPEN, Open),
      (SYS_WRITE, Write), (SYS_MKNOD, Mknod), (SYS_CLOSE, Close)]"

fun assign_all :: "(u64, sysfun) hash_map \<Rightarrow> (u64 \<times> sysfun) list \<Rightarrow> (u64, sysfun) hash_map outcome" where
  "assign_all t [] = Inr t"
| "assign_all t ((key, f) # es) = andThen (assign t key Fork f) (\<lambda>t1. assign_all t1 es)"

definition syscall_initialize :: "(u64 \<Rightarrow> u64) \<Rightarrow> (u64, sysfun) hash_map outcome" where
  "syscall_initialize h = andThen (new_HashMap h 8) (\<lambda>t. assign_all t syscall_entries)"

definition call :: "sysfun \<Rightarrow> kernel \<Rightarrow> nat \<Rightarrow> (sys_result \<times> kernel) outcome" where
  "call f k p =
     (case f of
        Fork \<Rightarrow> sys_fork k p | Exit \<Rightarrow> sys_exit k p | Wait \<Rightarrow> sys_wait k p | Read \<Rightarrow> sys_read k p
      | Exec \<Rightarrow> sys_exec k p | Open \<Rightarrow> sys_open k p | Write \<Rightarrow> sys_write k p | Mknod \<Rightarrow> sys_mknod k p
      | Close \<Rightarrow> sys_close k p)"

definition unknown_format :: "u8 list" where
  "unknown_format = ascii ''pid=%d %s: Unknown system call %d'' @ [10]"

definition unknown_call :: "kernel \<Rightarrow> nat \<Rightarrow> u64 \<Rightarrow> (sys_result \<times> kernel) outcome" where
  "unknown_call k p code =
     andThen (printf unknown_format
       [Int32 (ucast (p_pid (proc k p))), Str (Some (takeWhile (\<lambda>c. c \<noteq> 0) (p_name (proc k p)))), Int32 (ucast code)]) (\<lambda>text.
       Inr (Value (-1), k\<lparr>fsys := (fsys k)\<lparr>cons := put_all (cons (fsys k)) text\<rparr>\<rparr>))"

definition syscall :: "(u64, sysfun) hash_map \<Rightarrow> kernel \<Rightarrow> (sys_result \<times> (u64, sysfun) hash_map \<times> kernel) outcome" where
  "syscall t k =
     (case cpu_process (sched k) of
        None \<Rightarrow> Inr (Switched, t, k)
      | Some p \<Rightarrow>
          let code = tf_a7 (frame (proc k p)) in
          andThen (contains t code) (\<lambda>known.
          andThen (if known then subscript t code Fork else Inr (t, Fork)) (\<lambda>(t1, f).
          andThen (if known then call f k p else unknown_call k p code) (\<lambda>(r, k1).
            Inr (r, t1, case r of
              Value v \<Rightarrow> upd_proc k1 p (\<lambda>x. x\<lparr>frame := (frame x)\<lparr>tf_a0 := v\<rparr>\<rparr>)
            | Switched \<Rightarrow> k1)))))"

section \<open>The dispatcher\<close>

definition unknown_text :: "u8 list \<Rightarrow> u8 list \<Rightarrow> u8 list \<Rightarrow> u8 list" where
  "unknown_text pid name code = ascii ''pid='' @ pid @ ascii '' '' @ name @ ascii '': Unknown system call '' @ code @ [10]"

lemma printf_unknown:
  "printf unknown_format [Int32 pid, Str (Some name), Int32 code] =
     andThen (print_int (sint pid) 10 True) (\<lambda>o1. andThen (print_int (sint code) 10 True) (\<lambda>o2. Inr (unknown_text o1 name o2)))"
  by (cases "print_int (sint pid) 10 True"; cases "print_int (sint code) 10 True")
    (simp_all add: unknown_format_def unknown_text_def ascii_cons)

lemma print_int_word:
  "print_int (sint (w :: u32)) 10 True =
     (if w = 0x80000000 then Inl Undefined else Inr (case print_int (sint w) 10 True of Inr cs \<Rightarrow> cs | Inl _ \<Rightarrow> []))"
proof (cases "w = 0x80000000")
  case True
  then show ?thesis by (simp add: print_int_def)
next
  case False
  have "sint w \<noteq> sint (0x80000000 :: u32)" using False by (metis signed_word_eqI)
  then have ne: "sint w \<noteq> - (2 ^ 31)" by simp
  have r: "- (2 ^ 31) \<le> sint w" "sint w < 2 ^ 31" using sint_ge [of w] sint_lt [of w] by simp_all
  let ?n = "if sint w < 0 then - sint w else sint w"
  have "0 \<le> ?n" "?n < 10 ^ 10" using r by auto
  from digit_loop_digits [OF this, of "[]"] obtain ds where "digit_loop ?n 10 [] = Inr ds" "length ds \<le> 10" by auto
  then have "\<exists>cs. print_int (sint w) 10 True = Inr cs" using ne by (auto simp: print_int_def Let_def)
  then show ?thesis using False by auto
qed

definition shown :: "u32 \<Rightarrow> u8 list" where
  "shown w = (case print_int (sint w) 10 True of Inr cs \<Rightarrow> cs | Inl _ \<Rightarrow> [])"

text \<open>Filling a table whose buckets for the new keys are empty and all different stores every entry.\<close>

lemma hm_empty_chain:
  assumes "hm_invar t" "hm_lookup t = Map.empty"
  shows "hm_chain t k = []"
proof (rule ccontr)
  assume "hm_chain t k \<noteq> []"
  then obtain j v where jv: "(j, v) \<in> set (hm_chain t k)" by (cases "hm_chain t k") auto
  then have "index_of t j = index_of t k" using hm_chain_keys [OF assms(1)] by fastforce
  then have "hm_chain t j = hm_chain t k" by (simp add: hm_chain_def)
  then have "hm_lookup t j \<noteq> None" using jv by (metis hm_lookup_def map_of_eq_None_iff fst_conv imageI)
  then show False using assms(2) by simp
qed

lemma assign_all_law:
  assumes "hm_invar t" "distinct (map (index_of t \<circ> fst) es)" "\<forall>e \<in> set es. hm_chain t (fst e) = []"
  shows "\<exists>t'. assign_all t es = Inr t' \<and> hm_invar t' \<and> hm_lookup t' = hm_lookup t ++ map_of es"
  using assms
proof (induction es arbitrary: t)
  case (Cons e es)
  obtain k f where e: "e = (k, f)" by (cases e)
  define t1 where "t1 = hm_set_chain t k (chain_put k f (hm_chain t k))"
  have a: "assign t k Fork f = Inr t1" "hm_invar t1"
    using Cons.prems(1) assign_chain [of t k Fork f] assign_invar [of t k f] by (simp_all add: t1_def)
  have ch: "hm_chain t k = []" using Cons.prems(3) e by simp
  have l: "hm_lookup t1 = (hm_lookup t)(k \<mapsto> f)"
    using assign_lookup [OF Cons.prems(1), of k f] ch
    by (auto simp: t1_def last_node_def hm_lookup_def hm_chain_def)
  have ne: "index_of t (fst x) \<noteq> index_of t k" if "x \<in> set es" for x using Cons.prems(2) that e by force
  then have "\<forall>x \<in> set es. hm_chain t1 (fst x) = []"
    using Cons.prems(1,3) by (simp add: t1_def hm_chain_set_chain)
  moreover have "distinct (map (index_of t1 \<circ> fst) es)" using Cons.prems(2) by (simp add: t1_def comp_def)
  ultimately obtain t' where t': "assign_all t1 es = Inr t'" "hm_invar t'" "hm_lookup t' = hm_lookup t1 ++ map_of es"
    using Cons.IH [OF a(2)] by blast
  have "k \<notin> dom (map_of es)" using ne by (fastforce dest!: map_of_SomeD)
  then have "hm_lookup t' = hm_lookup t ++ map_of (e # es)"
    using t'(3) l e by (auto simp: map_add_def fun_eq_iff split: option.splits)
  moreover have "assign_all t (e # es) = Inr t'" using t'(1) a(1) e by simp
  ultimately show ?case using t'(2) by blast
qed simp

lemma syscall_table:
  assumes "distinct (map (\<lambda>e. h (fst e) AND 0xFF) syscall_entries)"
  shows "\<exists>t. syscall_initialize h = Inr t \<and> hm_invar t \<and> hm_lookup t = map_of syscall_entries"
proof -
  obtain t :: "(u64, sysfun) hash_map" where t: "new_HashMap h 8 = Inr t" "hm_invar t" "makeHash t = h"
    "capacityMask t = mask 8" "hm_lookup t = Map.empty" using new_HashMap_invar [of 8 h] by auto
  have "map (index_of t \<circ> fst) syscall_entries = map unat (map (\<lambda>e. h (fst e) AND 0xFF) syscall_entries)"
    using t(3,4) by (simp add: index_of_def mask_eq_exp_minus_1)
  moreover have "distinct (map unat (map (\<lambda>e. h (fst e) AND 0xFF) syscall_entries))"
    using assms by (simp only: distinct_map [of unat] inj_on_def) (metis word_unat_eq_iff)
  ultimately have "distinct (map (index_of t \<circ> fst) syscall_entries)" by (simp only:)
  from assign_all_law [OF t(2) this] show ?thesis
    using hm_empty_chain [OF t(2,5)] t(1,5) by (simp add: syscall_initialize_def)
qed

definition set_a0 :: "kernel \<Rightarrow> nat \<Rightarrow> sys_result \<Rightarrow> kernel" where
  "set_a0 k p r = (case r of Value v \<Rightarrow> upd_proc k p (\<lambda>x. x\<lparr>frame := (frame x)\<lparr>tf_a0 := v\<rparr>\<rparr>) | Switched \<Rightarrow> k)"

text \<open>
  C28: the dispatcher. If the hash keeps the nine call numbers in different buckets, the table that
  \<open>initialize\<close> fills sends each of them to its function, whose value goes into \<open>a0\<close> of the caller. Any other number
  is printed and answered by \<open>-1\<close>, and nothing else changes. But for a number whose low half is
  0x80000000 the message makes the kernel negate the least \<open>int\<close> and index before an array: any process
  can cause undefined behaviour in the kernel.
\<close>

theorem syscall_dispatch:
  assumes "distinct (map (\<lambda>e. h (fst e) AND 0xFF) syscall_entries)"
    "cpu_process (sched k) = Some p" "code = tf_a7 (frame (proc k p))"
    "(ucast (p_pid (proc k p)) :: u32) \<noteq> 0x80000000"
  shows "\<exists>t. syscall_initialize h = Inr t \<and> syscall t k =
    (case map_of syscall_entries code of
       Some f \<Rightarrow> andThen (call f k p) (\<lambda>(r, k1). Inr (r, t, set_a0 k1 p r))
     | None \<Rightarrow>
         if (ucast code :: u32) = 0x80000000 then Inl Undefined
         else Inr (Value (- 1), t, set_a0
           (k\<lparr>fsys := (fsys k)\<lparr>cons := put_all (cons (fsys k))
              (unknown_text (shown (ucast (p_pid (proc k p)))) (takeWhile (\<lambda>c. c \<noteq> 0) (p_name (proc k p))) (shown (ucast code)))\<rparr>\<rparr>)
           p (Value (- 1))))"
proof -
  obtain t where t: "syscall_initialize h = Inr t" "hm_invar t" "hm_lookup t = map_of syscall_entries"
    using syscall_table [OF assms(1)] by blast
  have pid: "print_int (sint (ucast (p_pid (proc k p)) :: u32)) 10 True = Inr (shown (ucast (p_pid (proc k p))))"
    unfolding shown_def using assms(4) by (subst print_int_word) (simp only: if_False)
  have code: "print_int (sint (ucast code :: u32)) 10 True =
      (if (ucast code :: u32) = 0x80000000 then Inl Undefined else Inr (shown (ucast code)))"
    unfolding shown_def by (rule print_int_word)
  show ?thesis
  proof (cases "map_of syscall_entries code")
    case None
    then have "contains t code = Inr False" using t by (simp add: contains_iff)
    then have "syscall t k = andThen (unknown_call k p code) (\<lambda>(r, k1). Inr (r, t, set_a0 k1 p r))"
      using assms(2,3) by (simp add: syscall_def Let_def set_a0_def)
    then show ?thesis using t(1) None by (simp add: unknown_call_def printf_unknown pid code)
  next
    case (Some f)
    then have "contains t code = Inr True" "subscript t code Fork = Inr (t, f)"
      using t by (simp_all add: contains_iff subscript_present)
    then show ?thesis using assms(2,3) t(1) Some by (simp add: syscall_def Let_def set_a0_def)
  qed
qed

lemma example_kernel_calls:
  "cpu_process (sched example_kernel) = Some 9" "tf_a7 (frame (proc example_kernel 9)) = 0" "p_pid (proc example_kernel 9) = 1"
  "p_name (proc example_kernel 9) = []"
  by (simp_all add: example_kernel_def example_sched_def proc_def example_process_def new_TrapFrame_def)

theorem syscall_dispatch_witness:
  "\<exists>t k. syscall_initialize (\<lambda>x. x) = Inr t \<and> syscall t example_kernel = Inr (Value (- 1), t, k) \<and>
     tf_a0 (frame (proc k 9)) = - 1"
proof -
  have d: "distinct (map (\<lambda>e. fst e AND 0xFF) syscall_entries)"
    by (simp add: syscall_entries_def SYS_FORK_def SYS_EXIT_def SYS_WAIT_def SYS_READ_def SYS_EXEC_def SYS_OPEN_def
        SYS_WRITE_def SYS_MKNOD_def SYS_CLOSE_def)
  have n: "map_of syscall_entries 0 = None"
    by (simp add: syscall_entries_def SYS_FORK_def SYS_EXIT_def SYS_WAIT_def SYS_READ_def SYS_EXEC_def SYS_OPEN_def
        SYS_WRITE_def SYS_MKNOD_def SYS_CLOSE_def)
  show ?thesis
    using syscall_dispatch [of "\<lambda>x. x" example_kernel 9 0] d n example_kernel_calls
    by (auto simp: set_a0_def upd_proc_def upd_process_def proc_def)
qed

end
