(* ===== verification/Fs_Virtio.thy ===== *)
theory Fs_Virtio
  imports Kernel_Prelude "HOL-Library.Multiset"
begin

unbundle bit_operations_syntax

text \<open>
  The virtio disk driver, \<open>kernel/fs/virtio.cpp\<close>: the descriptor table, the rings and the requests in
  flight. \<open>diskrw\<close> is split where it sleeps: \<open>diskrw_submit\<close> allocates and posts a request,
  \<open>diskrw_finish\<close> runs when \<open>buf->disk\<close> is false again. The device is outside the kernel; in
  \<open>vstep\<close> it takes posted requests in any order and reports them in the used ring.
\<close>

section \<open>Model\<close>

definition NUM_DESCS :: nat where "NUM_DESCS = 8"
definition VRING_DESC_F_NEXT :: u16 where "VRING_DESC_F_NEXT = 1"
definition VRING_DESC_F_WRITE :: u16 where "VRING_DESC_F_WRITE = 2"
definition VIRTIO_BLK_T_IN :: u32 where "VIRTIO_BLK_T_IN = 0"
definition VIRTIO_BLK_T_OUT :: u32 where "VIRTIO_BLK_T_OUT = 1"

record descriptor =
  d_address :: u64
  d_length :: u32
  d_flags :: u16
  d_next :: u16

record block_request =
  r_type :: u32
  reserved :: u32
  sector :: u64

text \<open>
  \<open>struct Disk\<close> with the rings it points to; \<open>buf_disk\<close> is the flag \<open>disk\<close> of the buffers, the last three
  fields are the addresses of \<open>ops\<close>, \<open>info[i].status\<close> and of the data of a buffer.
\<close>

record vdisk =
  descs :: "descriptor list"
  avail_index :: u16
  avail_ring :: "u16 list"
  used_index :: u16
  used_ring :: "u32 list"
  free_desc :: "bool list"
  usedIndex :: u16
  info_buffer :: "nat option list"
  info_status :: "u8 list"
  ops :: "block_request list"
  buf_disk :: "nat \<Rightarrow> bool"
  ops_address :: "nat \<Rightarrow> u64"
  status_address :: "nat \<Rightarrow> u64"
  buf_address :: "nat \<Rightarrow> u64"

fun first_free :: "bool list \<Rightarrow> nat \<Rightarrow> nat option" where
  "first_free [] i = None"
| "first_free (f # fs) i = (if f then Some i else first_free fs (Suc i))"

definition allocateDescriptor :: "vdisk \<Rightarrow> nat option \<times> vdisk" where
  "allocateDescriptor d =
     (case first_free (free_desc d) 0 of
        None \<Rightarrow> (None, d)
      | Some i \<Rightarrow> (Some i, d\<lparr>free_desc := (free_desc d)[i := False]\<rparr>))"

definition freeDescriptor :: "vdisk \<Rightarrow> nat \<Rightarrow> vdisk outcome" where
  "freeDescriptor d i =
     andThen (assert_that (i < NUM_DESCS)) (\<lambda>_.
     andThen (assert_that (\<not> free_desc d ! i)) (\<lambda>_.
       Inr (d\<lparr>descs := (descs d)[i := \<lparr>d_address = 0, d_length = 0, d_flags = 0, d_next = 0\<rparr>],
              free_desc := (free_desc d)[i := True]\<rparr>)))"

text \<open>The loop of \<open>freeChain\<close>: a freed descriptor is not freed twice, so \<open>NUM_DESCS\<close> rounds and one that fails are enough.\<close>

fun freeChain_loop :: "vdisk \<Rightarrow> nat \<Rightarrow> nat \<Rightarrow> vdisk outcome" where
  "freeChain_loop d i 0 = Inl AssertionFailed"
| "freeChain_loop d i (Suc k) =
     (let x = descs d ! i in
      andThen (freeDescriptor d i) (\<lambda>d1.
        if d_flags x AND VRING_DESC_F_NEXT \<noteq> 0 then freeChain_loop d1 (unat (d_next x)) k else Inr d1))"

definition freeChain :: "vdisk \<Rightarrow> nat \<Rightarrow> vdisk outcome" where
  "freeChain d i = freeChain_loop d i (Suc NUM_DESCS)"

text \<open>
  One round of the allocation loop of \<open>diskrw\<close>: \<open>None\<close> when the process has to sleep. When the first
  descriptor is missing \<open>ok\<close> stays true and \<open>index[0] = -1\<close> is used.
\<close>

definition allocate3 :: "vdisk \<Rightarrow> ((nat \<times> nat \<times> nat) option \<times> vdisk) outcome" where
  "allocate3 d =
     (case allocateDescriptor d of
        (None, d1) \<Rightarrow> Inl Undefined
      | (Some i0, d1) \<Rightarrow>
          case allocateDescriptor d1 of
            (None, d2) \<Rightarrow> andThen (freeDescriptor d2 i0) (\<lambda>d3. Inr (None, d3))
          | (Some i1, d2) \<Rightarrow>
              case allocateDescriptor d2 of
                (None, d3) \<Rightarrow> andThen (freeDescriptor d3 i0) (\<lambda>d4. andThen (freeDescriptor d4 i1) (\<lambda>d5. Inr (None, d5)))
              | (Some i2, d3) \<Rightarrow> Inr (Some (i0, i1, i2), d3))"

text \<open>The request and its three descriptors, posted to the device.\<close>

definition post_request :: "vdisk \<Rightarrow> nat \<Rightarrow> u32 \<Rightarrow> bool \<Rightarrow> nat \<Rightarrow> nat \<Rightarrow> nat \<Rightarrow> vdisk" where
  "post_request d buf block write i0 i1 i2 =
     (let req = \<lparr>r_type = (if write then VIRTIO_BLK_T_OUT else VIRTIO_BLK_T_IN), reserved = 0, sector = ucast block * 2\<rparr>;
          x0 = \<lparr>d_address = ops_address d i0, d_length = 16, d_flags = VRING_DESC_F_NEXT, d_next = of_nat i1\<rparr>;
          x1 = \<lparr>d_address = buf_address d buf, d_length = 1024,
                d_flags = (if write then 0 else VRING_DESC_F_WRITE) OR VRING_DESC_F_NEXT, d_next = of_nat i2\<rparr>;
          x2 = \<lparr>d_address = status_address d i0, d_length = 1, d_flags = VRING_DESC_F_WRITE, d_next = 0\<rparr>
      in d\<lparr>ops := (ops d)[i0 := req],
           descs := (descs d)[i0 := x0, i1 := x1, i2 := x2],
           info_status := (info_status d)[i0 := 255],
           buf_disk := (buf_disk d)(buf := True),
           info_buffer := (info_buffer d)[i0 := Some buf],
           avail_ring := (avail_ring d)[unat (avail_index d) mod NUM_DESCS := of_nat i0],
           avail_index := avail_index d + 1\<rparr>)"

definition diskrw_submit :: "vdisk \<Rightarrow> nat \<Rightarrow> u32 \<Rightarrow> bool \<Rightarrow> (nat option \<times> vdisk) outcome" where
  "diskrw_submit d buf block write =
     andThen (allocate3 d) (\<lambda>(r, d1).
       case r of
         None \<Rightarrow> Inr (None, d1)
       | Some (i0, i1, i2) \<Rightarrow> Inr (Some i0, post_request d1 buf block write i0 i1 i2))"

definition diskrw_finish :: "vdisk \<Rightarrow> nat \<Rightarrow> nat \<Rightarrow> vdisk outcome" where
  "diskrw_finish d buf i0 =
     (if buf_disk d buf then Inl Sleeping
      else freeChain (d\<lparr>info_buffer := (info_buffer d)[i0 := None]\<rparr>) i0)"

text \<open>\<open>diskInterrupt\<close>: the loop over the used ring.\<close>

function diskInterrupt :: "vdisk \<Rightarrow> vdisk outcome" where
  "diskInterrupt d =
     (if usedIndex d \<noteq> used_index d then
        let id = unat (used_ring d ! (unat (usedIndex d) mod NUM_DESCS)) in
        if id \<ge> NUM_DESCS then Inl Undefined
        else andThen (assert_that (info_status d ! id = 0)) (\<lambda>_.
          case info_buffer d ! id of
            None \<Rightarrow> Inl Undefined
          | Some buf \<Rightarrow> diskInterrupt (d\<lparr>buf_disk := (buf_disk d)(buf := False), usedIndex := usedIndex d + 1\<rparr>))
      else Inr d)"
  by pat_completeness auto
termination
proof (relation "measure (\<lambda>d. unat (used_index d - usedIndex d))")
  fix d :: vdisk and buf
  assume ne: "usedIndex d \<noteq> used_index d"
  then have "used_index d - usedIndex d \<noteq> 0" by auto
  then have "unat ((used_index d - usedIndex d) - 1) < unat (used_index d - usedIndex d)"
    by (simp add: unat_pred unat_gt_0)
  then show "(d\<lparr>buf_disk := (buf_disk d)(buf := False), usedIndex := usedIndex d + 1\<rparr>, d)
      \<in> measure (\<lambda>d. unat (used_index d - usedIndex d))"
    by (simp add: algebra_simps)
qed simp

declare diskInterrupt.simps [simp del]

section \<open>Initialisation\<close>

text \<open>
  The registers of the device. \<open>dev ws r\<close> is what the device answers to a read of register \<open>r\<close> after the
  writes \<open>ws\<close>; the result of \<open>initializeVirtio\<close> is the list of the writes it makes.
\<close>

type_synonym mmio = "(u64 \<times> u32) list"
type_synonym device_regs = "mmio \<Rightarrow> u64 \<Rightarrow> u32"

definition VIRTIO_MMIO_MAGIC_VALUE :: u64 where "VIRTIO_MMIO_MAGIC_VALUE = 0x000"
definition VIRTIO_MMIO_VERSION :: u64 where "VIRTIO_MMIO_VERSION = 0x004"
definition VIRTIO_MMIO_DEVICE_ID :: u64 where "VIRTIO_MMIO_DEVICE_ID = 0x008"
definition VIRTIO_MMIO_VENDOR_ID :: u64 where "VIRTIO_MMIO_VENDOR_ID = 0x00c"
definition VIRTIO_MMIO_DEVICE_FEATURES :: u64 where "VIRTIO_MMIO_DEVICE_FEATURES = 0x010"
definition VIRTIO_MMIO_DRIVER_FEATURES :: u64 where "VIRTIO_MMIO_DRIVER_FEATURES = 0x020"
definition VIRTIO_MMIO_QUEUE_SEL :: u64 where "VIRTIO_MMIO_QUEUE_SEL = 0x030"
definition VIRTIO_MMIO_QUEUE_NUM_MAX :: u64 where "VIRTIO_MMIO_QUEUE_NUM_MAX = 0x034"
definition VIRTIO_MMIO_QUEUE_NUM :: u64 where "VIRTIO_MMIO_QUEUE_NUM = 0x038"
definition VIRTIO_MMIO_QUEUE_READY :: u64 where "VIRTIO_MMIO_QUEUE_READY = 0x044"
definition VIRTIO_MMIO_QUEUE_NOTIFY :: u64 where "VIRTIO_MMIO_QUEUE_NOTIFY = 0x050"
definition VIRTIO_MMIO_INTERRUPT_STATUS :: u64 where "VIRTIO_MMIO_INTERRUPT_STATUS = 0x060"
definition VIRTIO_MMIO_INTERRUPT_ACK :: u64 where "VIRTIO_MMIO_INTERRUPT_ACK = 0x064"
definition VIRTIO_MMIO_STATUS :: u64 where "VIRTIO_MMIO_STATUS = 0x070"
definition VIRTIO_MMIO_QUEUE_DESC_LOW :: u64 where "VIRTIO_MMIO_QUEUE_DESC_LOW = 0x080"
definition VIRTIO_MMIO_QUEUE_DESC_HIGH :: u64 where "VIRTIO_MMIO_QUEUE_DESC_HIGH = 0x084"
definition VIRTIO_MMIO_DRIVER_DESC_LOW :: u64 where "VIRTIO_MMIO_DRIVER_DESC_LOW = 0x090"
definition VIRTIO_MMIO_DRIVER_DESC_HIGH :: u64 where "VIRTIO_MMIO_DRIVER_DESC_HIGH = 0x094"
definition VIRTIO_MMIO_DEVICE_DESC_LOW :: u64 where "VIRTIO_MMIO_DEVICE_DESC_LOW = 0x0a0"
definition VIRTIO_MMIO_DEVICE_DESC_HIGH :: u64 where "VIRTIO_MMIO_DEVICE_DESC_HIGH = 0x0a4"
definition VIRTIO_CONFIG_S_ACKNOWLEDGE :: u32 where "VIRTIO_CONFIG_S_ACKNOWLEDGE = 1"
definition VIRTIO_CONFIG_S_DRIVER :: u32 where "VIRTIO_CONFIG_S_DRIVER = 2"
definition VIRTIO_CONFIG_S_DRIVER_OK :: u32 where "VIRTIO_CONFIG_S_DRIVER_OK = 4"
definition VIRTIO_CONFIG_S_FEATURES_OK :: u32 where "VIRTIO_CONFIG_S_FEATURES_OK = 8"
definition VIRTIO_BLK_F_RO :: nat where "VIRTIO_BLK_F_RO = 5"
definition VIRTIO_BLK_F_SCSI :: nat where "VIRTIO_BLK_F_SCSI = 7"
definition VIRTIO_BLK_F_CONFIG_WCE :: nat where "VIRTIO_BLK_F_CONFIG_WCE = 11"
definition VIRTIO_BLK_F_MQ :: nat where "VIRTIO_BLK_F_MQ = 12"
definition VIRTIO_F_ANY_LAYOUT :: nat where "VIRTIO_F_ANY_LAYOUT = 27"
definition VIRTIO_RING_F_INDIRECT_DESC :: nat where "VIRTIO_RING_F_INDIRECT_DESC = 28"
definition VIRTIO_RING_F_EVENT_IDX :: nat where "VIRTIO_RING_F_EVENT_IDX = 29"

definition findVirtioDisk :: "device_regs \<Rightarrow> mmio \<Rightarrow> bool" where
  "findVirtioDisk dev ws \<longleftrightarrow>
     dev ws VIRTIO_MMIO_MAGIC_VALUE = 0x74726976 \<and> dev ws VIRTIO_MMIO_VERSION = 2 \<and>
     dev ws VIRTIO_MMIO_DEVICE_ID = 2 \<and> dev ws VIRTIO_MMIO_VENDOR_ID = 0x554d4551"

text \<open>The feature bits the driver refuses.\<close>

definition refused_features :: "nat list" where
  "refused_features =
     [VIRTIO_BLK_F_RO, VIRTIO_BLK_F_SCSI, VIRTIO_BLK_F_CONFIG_WCE, VIRTIO_BLK_F_MQ, VIRTIO_F_ANY_LAYOUT,
      VIRTIO_RING_F_EVENT_IDX, VIRTIO_RING_F_INDIRECT_DESC]"

definition driver_features :: "u32 \<Rightarrow> u32" where
  "driver_features f = foldl (\<lambda>f b. f AND NOT (push_bit b 1)) f refused_features"

definition low :: "u64 \<Rightarrow> u32" where "low a = ucast a"
definition high :: "u64 \<Rightarrow> u32" where "high a = ucast (drop_bit 32 a)"

definition queue_addresses :: "u64 \<Rightarrow> u64 \<Rightarrow> u64 \<Rightarrow> mmio" where
  "queue_addresses desc avail used =
     [(VIRTIO_MMIO_QUEUE_DESC_LOW, low desc), (VIRTIO_MMIO_QUEUE_DESC_HIGH, high desc),
      (VIRTIO_MMIO_DRIVER_DESC_LOW, low avail), (VIRTIO_MMIO_DRIVER_DESC_HIGH, high avail),
      (VIRTIO_MMIO_DEVICE_DESC_LOW, low used), (VIRTIO_MMIO_DEVICE_DESC_HIGH, high used)]"

text \<open>The rings are new objects in cleared pages; \<open>desc\<close>, \<open>avail\<close> and \<open>used\<close> are their addresses.\<close>

definition no_desc :: descriptor where
  "no_desc = \<lparr>d_address = 0, d_length = 0, d_flags = 0, d_next = 0\<rparr>"

definition new_rings :: "vdisk \<Rightarrow> vdisk" where
  "new_rings d =
     d\<lparr>descs := replicate NUM_DESCS no_desc, avail_index := 0, avail_ring := replicate NUM_DESCS 0,
       used_index := 0, used_ring := replicate NUM_DESCS 0\<rparr>"

definition initializeVirtio :: "device_regs \<Rightarrow> u64 \<Rightarrow> u64 \<Rightarrow> u64 \<Rightarrow> vdisk \<Rightarrow> (vdisk \<times> mmio) outcome" where
  "initializeVirtio dev desc avail used d =
     andThen (assert_that (findVirtioDisk dev [])) (\<lambda>_.
       let status1 = VIRTIO_CONFIG_S_ACKNOWLEDGE;
           status2 = status1 OR VIRTIO_CONFIG_S_DRIVER;
           ws1 = [(VIRTIO_MMIO_STATUS, 0), (VIRTIO_MMIO_STATUS, status1), (VIRTIO_MMIO_STATUS, status2)];
           features = driver_features (dev ws1 VIRTIO_MMIO_DEVICE_FEATURES);
           ws2 = ws1 @ [(VIRTIO_MMIO_DRIVER_FEATURES, features), (VIRTIO_MMIO_STATUS, status2 OR VIRTIO_CONFIG_S_FEATURES_OK)];
           status = dev ws2 VIRTIO_MMIO_STATUS
       in andThen (assert_that (status AND VIRTIO_CONFIG_S_FEATURES_OK \<noteq> 0)) (\<lambda>_.
       let ws3 = ws2 @ [(VIRTIO_MMIO_QUEUE_SEL, 0)] in
       andThen (assert_that (dev ws3 VIRTIO_MMIO_QUEUE_READY = 0)) (\<lambda>_.
       let qmax = dev ws3 VIRTIO_MMIO_QUEUE_NUM_MAX in
       andThen (assert_that (qmax \<noteq> 0)) (\<lambda>_.
       andThen (assert_that (qmax \<ge> of_nat NUM_DESCS)) (\<lambda>_.
         Inr ((new_rings d)\<lparr>free_desc := replicate NUM_DESCS True\<rparr>,
              ws3 @ [(VIRTIO_MMIO_QUEUE_NUM, of_nat NUM_DESCS)] @ queue_addresses desc avail used @
              [(VIRTIO_MMIO_QUEUE_READY, 1), (VIRTIO_MMIO_STATUS, status OR VIRTIO_CONFIG_S_DRIVER_OK)]))))))"

text \<open>The registers that \<open>diskrw\<close> and \<open>diskInterrupt\<close> write: the notification of the queue and the acknowledgement of the interrupt.\<close>

definition notify_queue :: "u64 \<times> u32" where
  "notify_queue = (VIRTIO_MMIO_QUEUE_NOTIFY, 0)"

definition acknowledge :: "device_regs \<Rightarrow> mmio \<Rightarrow> u64 \<times> u32" where
  "acknowledge dev ws = (VIRTIO_MMIO_INTERRUPT_ACK, dev ws VIRTIO_MMIO_INTERRUPT_STATUS AND 3)"

section \<open>The driver and the device\<close>

text \<open>
  The heads of the requests in flight: posted, reported by the device but not yet seen by an interrupt,
  and seen but not yet taken back by the process that sleeps in \<open>diskrw\<close>. A process has the buffer
  locked, so no two requests are for one buffer.
\<close>

record vsys =
  dk :: vdisk
  posted :: "nat list"
  reported :: "nat list"
  seen :: "nat list"

definition in_flight :: "vsys \<Rightarrow> nat list" where
  "in_flight v = posted v @ reported v @ seen v"

definition buffers_of :: "vsys \<Rightarrow> nat set" where
  "buffers_of v = {b. \<exists>h \<in> set (in_flight v). info_buffer (dk v) ! h = Some b}"

definition report :: "vdisk \<Rightarrow> nat \<Rightarrow> vdisk" where
  "report d h = d\<lparr>info_status := (info_status d)[h := 0],
     used_ring := (used_ring d)[unat (used_index d) mod NUM_DESCS := of_nat h], used_index := used_index d + 1\<rparr>"

inductive vstep :: "vsys \<Rightarrow> vsys \<Rightarrow> bool" where
  submit: "buf \<notin> buffers_of v \<Longrightarrow> diskrw_submit (dk v) buf block w = Inr (Some h, d) \<Longrightarrow>
     vstep v (v\<lparr>dk := d, posted := posted v @ [h]\<rparr>)"
| wait: "buf \<notin> buffers_of v \<Longrightarrow> diskrw_submit (dk v) buf block w = Inr (None, d) \<Longrightarrow> vstep v (v\<lparr>dk := d\<rparr>)"
| device: "h \<in> set (posted v) \<Longrightarrow>
     vstep v (v\<lparr>dk := report (dk v) h, posted := remove1 h (posted v), reported := reported v @ [h]\<rparr>)"
| interrupt: "diskInterrupt (dk v) = Inr d \<Longrightarrow>
     vstep v (v\<lparr>dk := d, reported := [], seen := seen v @ reported v\<rparr>)"
| finish: "h \<in> set (seen v) \<Longrightarrow> info_buffer (dk v) ! h = Some buf \<Longrightarrow> diskrw_finish (dk v) buf h = Inr d \<Longrightarrow>
     vstep v (v\<lparr>dk := d, seen := remove1 h (seen v)\<rparr>)"

definition sized :: "vdisk \<Rightarrow> bool" where
  "sized d \<longleftrightarrow> length (descs d) = NUM_DESCS \<and> length (avail_ring d) = NUM_DESCS \<and> length (used_ring d) = NUM_DESCS \<and>
     length (free_desc d) = NUM_DESCS \<and> length (info_buffer d) = NUM_DESCS \<and> length (info_status d) = NUM_DESCS \<and>
     length (ops d) = NUM_DESCS"

text \<open>The static object \<open>disk\<close> before \<open>initializeVirtio\<close>: its arrays have their sizes and its counter is zero.\<close>

definition static_disk :: "vdisk \<Rightarrow> bool" where
  "static_disk d \<longleftrightarrow> length (info_buffer d) = NUM_DESCS \<and> length (info_status d) = NUM_DESCS \<and> length (ops d) = NUM_DESCS \<and> usedIndex d = 0"

inductive vreach :: "vsys \<Rightarrow> bool" where
  start: "static_disk d0 \<Longrightarrow> initializeVirtio dev desc avail used d0 = Inr (d, ws) \<Longrightarrow>
     vreach \<lparr>dk = d, posted = [], reported = [], seen = []\<rparr>"
| step: "vreach v \<Longrightarrow> vstep v v' \<Longrightarrow> vreach v'"

text \<open>The three descriptors of a request, as the device and \<open>freeChain\<close> follow them.\<close>

definition next_of :: "vdisk \<Rightarrow> nat \<Rightarrow> nat" where
  "next_of d i = unat (d_next (descs d ! i))"

definition more :: "vdisk \<Rightarrow> nat \<Rightarrow> bool" where
  "more d i \<longleftrightarrow> d_flags (descs d ! i) AND VRING_DESC_F_NEXT \<noteq> 0"

definition chain :: "vdisk \<Rightarrow> nat \<Rightarrow> nat list" where
  "chain d h = [h, next_of d h, next_of d (next_of d h)]"

definition linked :: "vdisk \<Rightarrow> nat \<Rightarrow> bool" where
  "linked d h \<longleftrightarrow> more d h \<and> more d (next_of d h) \<and> \<not> more d (next_of d (next_of d h))"

definition taken :: "vsys \<Rightarrow> nat list" where
  "taken v = concat (map (chain (dk v)) (in_flight v))"

definition table_inv :: "vsys \<Rightarrow> bool" where
  "table_inv v \<longleftrightarrow> sized (dk v) \<and> distinct (taken v) \<and> set (taken v) \<subseteq> {..<NUM_DESCS} \<and>
     (\<forall>i < NUM_DESCS. free_desc (dk v) ! i \<longleftrightarrow> i \<notin> set (taken v)) \<and>
     (\<forall>h \<in> set (in_flight v). linked (dk v) h)"

definition buffer_inv :: "vsys \<Rightarrow> bool" where
  "buffer_inv v \<longleftrightarrow> (\<forall>h \<in> set (in_flight v). info_buffer (dk v) ! h \<noteq> None) \<and>
     distinct (map (\<lambda>h. info_buffer (dk v) ! h) (in_flight v)) \<and>
     (\<forall>h \<in> set (in_flight v). buf_disk (dk v) (the (info_buffer (dk v) ! h)) \<longleftrightarrow> h \<notin> set (seen v))"

definition ring_inv :: "vsys \<Rightarrow> bool" where
  "ring_inv v \<longleftrightarrow> (\<forall>h \<in> set (reported v). info_status (dk v) ! h = 0) \<and>
     used_index (dk v) = usedIndex (dk v) + of_nat (length (reported v)) \<and>
     (\<forall>j < length (reported v). unat (used_ring (dk v) ! ((unat (usedIndex (dk v)) + j) mod NUM_DESCS)) = reported v ! j)"

section \<open>Allocation and release\<close>

lemma first_free_None: "first_free fs i = None \<longleftrightarrow> (\<forall>j < length fs. \<not> fs ! j)"
  by (induction fs i rule: first_free.induct) (auto simp: less_Suc_eq_0_disj)

lemma first_free_Some: "first_free fs i = Some k \<Longrightarrow> i \<le> k \<and> k - i < length fs \<and> fs ! (k - i)"
proof (induction fs i rule: first_free.induct)
  case (2 f fs i)
  show ?case
  proof (cases f)
    case False
    then have "Suc i \<le> k \<and> k - Suc i < length fs \<and> fs ! (k - Suc i)" using 2 by simp
    then show ?thesis by (auto simp: nth_Cons')
  qed (use 2 in auto)
qed simp

definition free_set :: "bool list \<Rightarrow> nat set" where
  "free_set fs = {i. i < length fs \<and> fs ! i}"

lemma free_set_finite [simp]: "finite (free_set fs)"
  by (simp add: free_set_def)

lemma free_set_clear: "i \<in> free_set fs \<Longrightarrow> free_set (fs[i := False]) = free_set fs - {i}"
  by (auto simp: free_set_def nth_list_update)

lemma allocate_cases:
  "(free_set (free_desc d) = {} \<and> allocateDescriptor d = (None, d)) \<or>
   (\<exists>i \<in> free_set (free_desc d). allocateDescriptor d = (Some i, d\<lparr>free_desc := (free_desc d)[i := False]\<rparr>))"
proof (cases "first_free (free_desc d) 0")
  case None
  then have "free_set (free_desc d) = {}" by (auto simp: first_free_None free_set_def)
  then show ?thesis using None by (simp add: allocateDescriptor_def)
next
  case (Some i)
  then have "i \<in> free_set (free_desc d)" using first_free_Some [OF Some] by (simp add: free_set_def)
  then show ?thesis using Some by (auto simp: allocateDescriptor_def)
qed

lemma freeDescriptor_ok:
  "i < NUM_DESCS \<Longrightarrow> \<not> free_desc d ! i \<Longrightarrow>
     freeDescriptor d i = Inr (d\<lparr>descs := (descs d)[i := no_desc], free_desc := (free_desc d)[i := True]\<rparr>)"
  by (simp add: freeDescriptor_def no_desc_def)

text \<open>With two descriptors left \<open>diskrw\<close> gives both back and sleeps, with three or more it takes three.\<close>

lemma allocate3_spec:
  assumes len: "length (free_desc d) = NUM_DESCS" and two: "2 \<le> card (free_set (free_desc d))"
  shows "(\<exists>a b c. {a, b, c} \<subseteq> free_set (free_desc d) \<and> distinct [a, b, c] \<and>
      allocate3 d = Inr (Some (a, b, c), d\<lparr>free_desc := (free_desc d)[a := False, b := False, c := False]\<rparr>)) \<or>
    (\<exists>a b. {a, b} \<subseteq> free_set (free_desc d) \<and> a \<noteq> b \<and>
      allocate3 d = Inr (None, d\<lparr>descs := (descs d)[a := no_desc, b := no_desc]\<rparr>))"
proof -
  let ?F = "free_set (free_desc d)"
  from two have "?F \<noteq> {}" by auto
  then obtain a where a: "a \<in> ?F" "allocateDescriptor d = (Some a, d\<lparr>free_desc := (free_desc d)[a := False]\<rparr>)"
    using allocate_cases [of d] by auto
  define d1 where "d1 = d\<lparr>free_desc := (free_desc d)[a := False]\<rparr>"
  have f1: "free_set (free_desc d1) = ?F - {a}" using free_set_clear [OF a(1)] by (simp add: d1_def)
  have "card (?F - {a}) \<ge> 1" using two a(1) by simp
  then have "?F - {a} \<noteq> {}" by (metis card.empty not_one_le_zero)
  then obtain b where b: "b \<in> ?F - {a}" "allocateDescriptor d1 = (Some b, d1\<lparr>free_desc := (free_desc d1)[b := False]\<rparr>)"
    using allocate_cases [of d1] f1 by auto
  define d2 where "d2 = d1\<lparr>free_desc := (free_desc d1)[b := False]\<rparr>"
  have f2: "free_set (free_desc d2) = ?F - {a, b}" using free_set_clear [of b "free_desc d1"] b(1) f1 by (auto simp: d2_def)
  have ab: "a < NUM_DESCS" "b < NUM_DESCS" "a \<noteq> b" "free_desc d ! a" "free_desc d ! b"
    using a(1) b(1) len by (auto simp: free_set_def)
  from allocate_cases [of d2] show ?thesis
  proof
    assume n: "free_set (free_desc d2) = {} \<and> allocateDescriptor d2 = (None, d2)"
    have fa: "\<not> free_desc d2 ! a" "\<not> free_desc d2 ! b" using ab len by (simp_all add: d2_def d1_def)
    have r1: "freeDescriptor d2 a = Inr (d2\<lparr>descs := (descs d2)[a := no_desc], free_desc := (free_desc d2)[a := True]\<rparr>)"
      using freeDescriptor_ok [OF ab(1) fa(1)] .
    have r2: "freeDescriptor (d2\<lparr>descs := (descs d2)[a := no_desc], free_desc := (free_desc d2)[a := True]\<rparr>) b =
        Inr (d2\<lparr>descs := (descs d2)[a := no_desc, b := no_desc], free_desc := (free_desc d2)[a := True, b := True]\<rparr>)"
      using freeDescriptor_ok [OF ab(2), of "d2\<lparr>descs := (descs d2)[a := no_desc], free_desc := (free_desc d2)[a := True]\<rparr>"] fa(2) ab(3) by simp
    have "(free_desc d2)[a := True, b := True] = free_desc d"
      using ab len by (intro nth_equalityI) (auto simp: d2_def d1_def nth_list_update)
    then have "allocate3 d = Inr (None, d\<lparr>descs := (descs d)[a := no_desc, b := no_desc]\<rparr>)"
      using a(2) b(2) n r1 r2 by (simp add: allocate3_def d1_def [symmetric] d2_def [symmetric]) (simp add: d2_def d1_def)
    then show ?thesis using a(1) b(1) ab(3) by blast
  next
    assume "\<exists>c \<in> free_set (free_desc d2). allocateDescriptor d2 = (Some c, d2\<lparr>free_desc := (free_desc d2)[c := False]\<rparr>)"
    then obtain c where c: "c \<in> ?F - {a, b}" "allocateDescriptor d2 = (Some c, d2\<lparr>free_desc := (free_desc d2)[c := False]\<rparr>)"
      using f2 by auto
    have "allocate3 d = Inr (Some (a, b, c), d\<lparr>free_desc := (free_desc d)[a := False, b := False, c := False]\<rparr>)"
      using a(2) b(2) c(2) by (simp add: allocate3_def d1_def [symmetric] d2_def [symmetric]) (simp add: d2_def d1_def)
    then show ?thesis using a(1) b(1) c(1) by (intro disjI1 exI [of _ a] exI [of _ b] exI [of _ c]) auto
  qed
qed

lemma freeChain_chain:
  assumes "linked d h" "distinct (chain d h)" "set (chain d h) \<subseteq> {..<NUM_DESCS}" "\<forall>i \<in> set (chain d h). \<not> free_desc d ! i"
    "length (descs d) = NUM_DESCS"
  shows "\<exists>d'. freeChain d h = Inr d' \<and> d' = d\<lparr>descs := descs d', free_desc := free_desc d'\<rparr> \<and> length (descs d') = NUM_DESCS \<and>
    (\<forall>i. i \<notin> set (chain d h) \<longrightarrow> descs d' ! i = descs d ! i) \<and>
    free_desc d' = (free_desc d)[h := True, next_of d h := True, next_of d (next_of d h) := True]"
proof -
  let ?a = "next_of d h" and ?b = "next_of d (next_of d h)"
  let ?d1 = "d\<lparr>descs := (descs d)[h := no_desc], free_desc := (free_desc d)[h := True]\<rparr>"
  let ?d2 = "?d1\<lparr>descs := (descs ?d1)[?a := no_desc], free_desc := (free_desc ?d1)[?a := True]\<rparr>"
  let ?d3 = "?d2\<lparr>descs := (descs ?d2)[?b := no_desc], free_desc := (free_desc ?d2)[?b := True]\<rparr>"
  have i: "h < NUM_DESCS" "?a < NUM_DESCS" "?b < NUM_DESCS" "h \<noteq> ?a" "h \<noteq> ?b" "?a \<noteq> ?b"
    "\<not> free_desc d ! h" "\<not> free_desc d ! ?a" "\<not> free_desc d ! ?b"
    using assms(2-4) by (auto simp: chain_def)
  have m: "d_flags (descs d ! h) AND VRING_DESC_F_NEXT \<noteq> 0" "d_flags (descs d ! ?a) AND VRING_DESC_F_NEXT \<noteq> 0"
    "d_flags (descs d ! ?b) AND VRING_DESC_F_NEXT = 0" using assms(1) by (auto simp: linked_def more_def)
  have nx: "unat (d_next (descs d ! h)) = ?a" "unat (d_next (descs d ! ?a)) = ?b" by (simp_all add: next_of_def)
  have e1: "freeDescriptor d h = Inr ?d1" using freeDescriptor_ok [OF i(1,7)] .
  have e2: "freeDescriptor ?d1 ?a = Inr ?d2" using freeDescriptor_ok [OF i(2), of ?d1] i by simp
  have e3: "freeDescriptor ?d2 ?b = Inr ?d3" using freeDescriptor_ok [OF i(3), of ?d2] i by simp
  have "freeChain d h = freeChain_loop ?d1 ?a 8"
    using e1 m(1) nx(1) by (simp add: freeChain_def NUM_DESCS_def Let_def eval_nat_numeral)
  also have "\<dots> = freeChain_loop ?d2 ?b 7"
    using e2 m(2) nx(2) i by (simp add: eval_nat_numeral Let_def)
  also have "\<dots> = Inr ?d3"
    using e3 m(3) i by (simp add: eval_nat_numeral Let_def)
  finally show ?thesis using assms(5) i by (intro exI [of _ ?d3]) (simp add: chain_def)
qed

section \<open>Invariants\<close>

lemma length_taken: "length (taken v) = 3 * length (in_flight v)"
  by (simp add: taken_def length_concat comp_def chain_def sum_list_triv)

lemma taken_heads: "h \<in> set (in_flight v) \<Longrightarrow> set (chain (dk v) h) \<subseteq> set (taken v)"
  by (auto simp: taken_def)

lemma distinct_chain: "distinct (concat (map f xs)) \<Longrightarrow> x \<in> set xs \<Longrightarrow> distinct (f x)"
  by (induction xs) auto

lemma heads_distinct: "distinct (concat (map (chain d) hs)) \<Longrightarrow> distinct hs"
  by (induction hs) (auto simp: chain_def)

text \<open>At most two requests fit into the eight descriptors, and two descriptors are always left.\<close>

lemma at_most_two:
  assumes "table_inv v"
  shows "length (in_flight v) \<le> 2" "2 \<le> card (free_set (free_desc (dk v)))"
proof -
  have c: "card (set (taken v)) = 3 * length (in_flight v)" "set (taken v) \<subseteq> {..<8}"
    using assms length_taken [of v] by (auto simp: table_inv_def distinct_card NUM_DESCS_def)
  then have "3 * length (in_flight v) \<le> 8" using card_mono [OF _ c(2)] by simp
  then show two: "length (in_flight v) \<le> 2" by linarith
  have "free_set (free_desc (dk v)) = {..<8} - set (taken v)"
    using assms by (auto simp: free_set_def table_inv_def sized_def NUM_DESCS_def)
  then show "2 \<le> card (free_set (free_desc (dk v)))" using c two by (simp add: card_Diff_subset)
qed

text \<open>A change of the table outside the descriptors in use keeps the chains in flight.\<close>

lemma chains_kept:
  assumes "\<forall>i \<in> set (concat (map (chain d) hs)). descs d' ! i = descs d ! i"
  shows "map (chain d') hs = map (chain d) hs" "\<forall>h \<in> set hs. linked d' h = linked d h"
proof -
  have "chain d' h = chain d h \<and> linked d' h = linked d h" if h: "h \<in> set hs" for h
  proof -
    have "set (chain d h) \<subseteq> set (concat (map (chain d) hs))" using h by auto
    then have "\<forall>i \<in> set (chain d h). descs d' ! i = descs d ! i" using assms by blast
    then show ?thesis by (simp add: chain_def linked_def next_of_def more_def)
  qed
  then show "map (chain d') hs = map (chain d) hs" "\<forall>h \<in> set hs. linked d' h = linked d h" by auto
qed

lemma post_chain:
  assumes "distinct [a, b, c]" "{a, b, c} \<subseteq> {..<NUM_DESCS}" "length (descs d) = NUM_DESCS"
  shows "chain (post_request d buf block w a b c) a = [a, b, c]" "linked (post_request d buf block w a b c) a"
proof -
  let ?d = "post_request d buf block w a b c"
  have u: "unat (of_nat i :: u16) = i" if "i < NUM_DESCS" for i using that by (simp add: unat_of_nat NUM_DESCS_def take_bit_nat_eq_self)
  have n: "next_of ?d a = b" "next_of ?d b = c" using assms u by (auto simp: next_of_def post_request_def Let_def)
  then show "chain ?d a = [a, b, c]" by (simp add: chain_def)
  have "(VRING_DESC_F_WRITE OR VRING_DESC_F_NEXT) AND VRING_DESC_F_NEXT \<noteq> 0" "VRING_DESC_F_NEXT AND VRING_DESC_F_NEXT \<noteq> 0"
    "VRING_DESC_F_WRITE AND VRING_DESC_F_NEXT = 0" "(0 OR VRING_DESC_F_NEXT) AND VRING_DESC_F_NEXT \<noteq> 0"
    by (simp_all add: VRING_DESC_F_WRITE_def VRING_DESC_F_NEXT_def)
  then show "linked ?d a" using assms n by (auto simp: linked_def more_def post_request_def Let_def)
qed

lemma mset_concat_map: "mset xs = mset ys \<Longrightarrow> mset (concat (map f xs)) = mset (concat (map f ys))"
proof -
  have "mset (concat (map f zs)) = (\<Sum>z \<in># mset zs. mset (f z))" for zs by (induction zs) simp_all
  then show "mset xs = mset ys \<Longrightarrow> ?thesis" by simp
qed

lemma distinct_concat_insert:
  "distinct (concat (map f (xs @ a # ys))) \<longleftrightarrow>
     distinct (f a) \<and> distinct (concat (map f (xs @ ys))) \<and> set (f a) \<inter> set (concat (map f (xs @ ys))) = {}"
  by auto

lemma submit_table:
  assumes inv: "table_inv v" and F: "{a, b, c} \<subseteq> free_set (free_desc (dk v))" "distinct [a, b, c]"
    and d: "d = post_request (dk v\<lparr>free_desc := (free_desc (dk v))[a := False, b := False, c := False]\<rparr>) buf block w a b c"
    and v': "v' = v\<lparr>dk := d, posted := posted v @ [a]\<rparr>"
  shows "table_inv v'" "a \<notin> set (in_flight v)"
proof -
  let ?d = "dk v" and ?hs = "in_flight v"
  have sz: "sized ?d" and len: "length (free_desc ?d) = NUM_DESCS" "length (descs ?d) = NUM_DESCS"
    using inv by (auto simp: table_inv_def sized_def)
  have lt: "a < NUM_DESCS" "b < NUM_DESCS" "c < NUM_DESCS" and nt: "a \<notin> set (taken v)" "b \<notin> set (taken v)" "c \<notin> set (taken v)"
    using F(1) len inv by (auto simp: free_set_def table_inv_def)
  then show an: "a \<notin> set ?hs" using taken_heads [of a v] by (auto simp: chain_def)
  have "descs d ! i = descs ?d ! i" if "i \<in> set (taken v)" for i
  proof -
    have "i \<noteq> a" "i \<noteq> b" "i \<noteq> c" using that nt by auto
    then show ?thesis by (simp add: d post_request_def Let_def)
  qed
  then have "\<forall>i \<in> set (concat (map (chain ?d) ?hs)). descs d ! i = descs ?d ! i" by (simp add: taken_def)
  note kept = chains_kept [OF this]
  have ca: "chain d a = [a, b, c]" "linked d a"
    using post_chain [OF F(2)] lt len unfolding d by simp_all
  have hs: "in_flight v' = posted v @ a # (reported v @ seen v)" "?hs = posted v @ (reported v @ seen v)"
    by (simp_all add: v' in_flight_def)
  have old: "concat (map (chain d) ?hs) = taken v" unfolding taken_def by (simp only: kept(1))
  have dv: "dk v' = d" by (simp add: v')
  have "taken v' = concat (map (chain d) (posted v)) @ chain d a @ concat (map (chain d) (reported v @ seen v))"
    by (simp add: taken_def hs(1) dv)
  moreover have "set (concat (map (chain d) ?hs)) = set (taken v)" using old by simp
  ultimately have tk: "set (taken v') = {a, b, c} \<union> set (taken v)" using ca(1) unfolding hs(2) by auto
  have "distinct (concat (map (chain d) (posted v @ a # (reported v @ seen v))))"
    unfolding distinct_concat_insert hs(2) [symmetric] old ca(1) using nt F(2) inv by (simp add: table_inv_def)
  then have "distinct (taken v')" unfolding taken_def hs(1) dv .
  moreover have "sized d" using sz by (simp add: sized_def d post_request_def Let_def)
  moreover have "free_desc d ! i \<longleftrightarrow> i \<notin> set (taken v')" if "i < NUM_DESCS" for i
    using that inv len lt tk by (auto simp: d post_request_def Let_def table_inv_def nth_list_update)
  moreover have "linked d h" if "h \<in> set (in_flight v')" for h
    using that kept(2) ca(2) inv hs by (auto simp: table_inv_def)
  moreover have "set (taken v') \<subseteq> {..<NUM_DESCS}" using tk lt inv by (auto simp: table_inv_def)
  ultimately show "table_inv v'" by (simp add: table_inv_def v')
qed

lemma submit_buffers:
  assumes inv: "buffer_inv v" "ring_inv v" and a: "a \<notin> set (in_flight v)" "a < NUM_DESCS" and sz: "sized (dk v)"
    and buf: "buf \<notin> buffers_of v"
    and d: "d = post_request (dk v\<lparr>free_desc := fs\<rparr>) buf block w a b c"
    and v': "v' = v\<lparr>dk := d, posted := posted v @ [a]\<rparr>"
  shows "buffer_inv v'" "ring_inv v'"
proof -
  let ?i = "info_buffer (dk v)"
  have hs: "set (in_flight v') = insert a (set (in_flight v))" "set (seen v') = set (seen v)" by (auto simp: v' in_flight_def)
  have ib: "info_buffer d = ?i[a := Some buf]" "buf_disk d = (buf_disk (dk v))(buf := True)" by (simp_all add: d post_request_def Let_def)
  have ia: "?i[a := Some buf] ! a = Some buf" using a(2) sz by (simp add: sized_def)
  have io: "?i[a := Some buf] ! h = ?i ! h" if "h \<in> set (in_flight v)" for h using that a(1) by (metis nth_list_update_neq)
  have nb: "?i ! h \<noteq> Some buf" "?i ! h \<noteq> None" if "h \<in> set (in_flight v)" for h
    using that buf inv by (auto simp: buffers_of_def buffer_inv_def)
  have sn: "a \<notin> set (seen v)" using a(1) by (simp add: in_flight_def)
  have keep: "map (\<lambda>h. info_buffer d ! h) xs = map (\<lambda>h. ?i ! h) xs" if "set xs \<subseteq> set (in_flight v)" for xs
    using that io ib(1) by (intro map_cong) auto
  have "distinct (map (\<lambda>h. info_buffer d ! h) (in_flight v'))"
  proof -
    have "map (\<lambda>h. info_buffer d ! h) (in_flight v') =
        map (\<lambda>h. ?i ! h) (posted v) @ Some buf # map (\<lambda>h. ?i ! h) (reported v @ seen v)"
      using keep [of "posted v"] keep [of "reported v @ seen v"] ia ib(1) by (simp add: v' in_flight_def)
    moreover have "Some buf \<notin> set (map (\<lambda>h. ?i ! h) (in_flight v))" using nb(1) by force
    ultimately show ?thesis using inv(1) by (auto simp: buffer_inv_def in_flight_def)
  qed
  moreover have "buf_disk d (the (info_buffer d ! h)) \<longleftrightarrow> h \<notin> set (seen v')" if "h \<in> set (in_flight v')" for h
  proof (cases "h = a")
    case False
    then have h: "h \<in> set (in_flight v)" using that hs by auto
    then have "the (?i ! h) \<noteq> buf" using nb [OF h] by auto
    then show ?thesis using inv(1) h io [OF h] hs(2) by (simp add: ib buffer_inv_def)
  qed (use ia ib sn hs in simp)
  moreover have "info_buffer d ! h \<noteq> None" if "h \<in> set (in_flight v')" for h
    using that hs(1) ia io nb(2) ib(1) by (cases "h = a") auto
  ultimately show "buffer_inv v'" by (simp add: buffer_inv_def v')
  have "info_status d ! h = info_status (dk v) ! h" if "h \<in> set (reported v)" for h
  proof -
    have "h \<noteq> a" using that a(1) by (auto simp: in_flight_def)
    then show ?thesis by (simp add: d post_request_def Let_def)
  qed
  then show "ring_inv v'" using inv(2) by (simp add: ring_inv_def v') (simp add: d post_request_def Let_def)
qed

lemma wait_inv:
  assumes inv: "table_inv v" "buffer_inv v" "ring_inv v" and F: "{a, b} \<subseteq> free_set (free_desc (dk v))"
    and v': "v' = v\<lparr>dk := dk v\<lparr>descs := (descs (dk v))[a := no_desc, b := no_desc]\<rparr>\<rparr>"
  shows "table_inv v'" "buffer_inv v'" "ring_inv v'"
proof -
  have hs: "in_flight v' = in_flight v" by (simp add: in_flight_def v')
  have nt: "a \<notin> set (taken v)" "b \<notin> set (taken v)" using F inv(1) by (auto simp: free_set_def table_inv_def sized_def)
  have "descs (dk v') ! i = descs (dk v) ! i" if "i \<in> set (taken v)" for i
  proof -
    have "i \<noteq> a" "i \<noteq> b" using that nt by auto
    then show ?thesis by (simp add: v')
  qed
  then have "\<forall>i \<in> set (concat (map (chain (dk v)) (in_flight v))). descs (dk v') ! i = descs (dk v) ! i" by (simp add: taken_def)
  note kept = chains_kept [OF this]
  have "taken v' = taken v" unfolding taken_def hs by (simp only: kept(1))
  then show "table_inv v'" using inv(1) kept(2) hs by (simp add: table_inv_def) (simp add: v' sized_def)
  show "buffer_inv v'" "ring_inv v'" using inv(2,3) hs by (simp_all add: buffer_inv_def ring_inv_def v')
qed

lemma mod8_ne: "j < n \<Longrightarrow> n < 8 \<Longrightarrow> (x + j) mod 8 \<noteq> (x + n) mod (8 :: nat)"
proof
  assume j: "j < n" "n < 8" and eq: "(x + j) mod 8 = (x + n) mod 8"
  then have "8 dvd (x + n) - (x + j)" by (metis mod_eq_dvd_iff_nat add_le_mono le_refl less_imp_le)
  then have "8 dvd n - j" by simp
  then show False using j by (auto dest: dvd_imp_le)
qed

lemma device_inv:
  assumes inv: "table_inv v" "buffer_inv v" "ring_inv v" and h: "h \<in> set (posted v)"
    and v': "v' = v\<lparr>dk := report (dk v) h, posted := remove1 h (posted v), reported := reported v @ [h]\<rparr>"
  shows "table_inv v'" "buffer_inv v'" "ring_inv v'"
proof -
  let ?d = "dk v"
  have "distinct (taken v)" using inv(1) by (simp add: table_inv_def)
  then have dist: "distinct (in_flight v)" unfolding taken_def by (rule heads_distinct)
  then have ms: "set (in_flight v') = set (in_flight v)" "distinct (in_flight v')"
    using h by (auto simp: in_flight_def v' distinct_remove1)
  have hl: "h < NUM_DESCS" using h inv(1) taken_heads [of h v] by (auto simp: in_flight_def table_inv_def chain_def)
  have ch: "chain (dk v') = chain ?d" "linked (dk v') = linked ?d"
    by (auto simp: fun_eq_iff chain_def linked_def next_of_def more_def v' report_def)
  have mse: "mset (in_flight v') = mset (in_flight v)" by (rule set_eq_iff_mset_eq_distinct [THEN iffD1, OF ms(2) dist ms(1)])
  have tk: "mset (taken v') = mset (taken v)"
    unfolding taken_def ch(1) by (rule mset_concat_map [OF mse])
  then have "set (taken v') = set (taken v)" "distinct (taken v') = distinct (taken v)"
    by (metis set_mset_mset, metis mset_eq_imp_distinct_iff)
  then show "table_inv v'" using inv(1) ms(1) ch(2) by (simp add: table_inv_def sized_def) (simp add: v' report_def)
  have "mset (map (\<lambda>h. info_buffer ?d ! h) (in_flight v')) = mset (map (\<lambda>h. info_buffer ?d ! h) (in_flight v))" using mse by simp
  then have "distinct (map (\<lambda>h. info_buffer ?d ! h) (in_flight v'))" using inv(2) mset_eq_imp_distinct_iff by (metis buffer_inv_def)
  then show "buffer_inv v'" using inv(2) ms(1) by (simp add: buffer_inv_def) (simp add: v' report_def)
  let ?n = "length (reported v)"
  have n2: "?n < 2" using at_most_two(1) [OF inv(1)] h by (cases "posted v") (auto simp: in_flight_def)
  have ui: "used_index ?d = usedIndex ?d + of_nat ?n" using inv(3) by (simp add: ring_inv_def)
  then have um: "unat (used_index ?d) mod NUM_DESCS = (unat (usedIndex ?d) + ?n) mod NUM_DESCS"
    using n2 by (simp add: unat_word_ariths unat_of_nat NUM_DESCS_def mod_mod_cancel take_bit_nat_eq_self)
  have r: "unat (used_ring (dk v') ! ((unat (usedIndex ?d) + j) mod NUM_DESCS)) = (reported v @ [h]) ! j" if j: "j < Suc ?n" for j
  proof -
    have lr: "length (used_ring ?d) = NUM_DESCS" using inv(1) by (simp add: table_inv_def sized_def)
    have hh: "unat (of_nat h :: u32) = h" using hl by (simp add: unat_of_nat NUM_DESCS_def take_bit_nat_eq_self)
    show ?thesis
    proof (cases "j = ?n")
      case True
      then show ?thesis using um lr hh by (simp add: v' report_def NUM_DESCS_def)
    next
      case False
      then have "j < ?n" using j by simp
      moreover have "(unat (usedIndex ?d) + j) mod NUM_DESCS \<noteq> (unat (usedIndex ?d) + ?n) mod NUM_DESCS"
        unfolding NUM_DESCS_def using \<open>j < ?n\<close> n2 by (intro mod8_ne) simp_all
      ultimately show ?thesis using inv(3) um by (simp add: v' report_def ring_inv_def nth_append)
    qed
  qed
  have "info_status (dk v') ! k = 0" if "k \<in> set (reported v @ [h])" for k
    using that inv(1,3) hl by (cases "k = h") (auto simp: v' report_def ring_inv_def table_inv_def sized_def)
  then show "ring_inv v'" using r ui by (simp add: ring_inv_def) (simp add: v' report_def algebra_simps)
qed

lemma interrupt_sees:
  assumes "\<forall>j < length hs. unat (used_ring d ! ((unat (usedIndex d) + j) mod NUM_DESCS)) = hs ! j"
    "\<forall>h \<in> set hs. h < NUM_DESCS \<and> info_status d ! h = 0 \<and> info_buffer d ! h \<noteq> None"
    "used_index d = usedIndex d + of_nat (length hs)" "length hs < 2 ^ 16"
  shows "diskInterrupt d = Inr (d\<lparr>buf_disk := (\<lambda>b. buf_disk d b \<and> (\<forall>h \<in> set hs. info_buffer d ! h \<noteq> Some b)), usedIndex := used_index d\<rparr>)"
  using assms
proof (induction hs arbitrary: d)
  case Nil
  then show ?case by (subst diskInterrupt.simps) simp
next
  case (Cons h hs)
  obtain b where b: "info_buffer d ! h = Some b" using Cons.prems(2) by auto
  let ?d = "d\<lparr>buf_disk := (buf_disk d)(b := False), usedIndex := usedIndex d + 1\<rparr>"
  have h: "unat (used_ring d ! (unat (usedIndex d) mod NUM_DESCS)) = h" "h < NUM_DESCS" "info_status d ! h = 0"
    using Cons.prems(1) [rule_format, of 0] Cons.prems(2) by auto
  have "(of_nat (Suc (length hs)) :: u16) \<noteq> 0"
  proof
    assume z: "(of_nat (Suc (length hs)) :: u16) = 0"
    have "unat (of_nat (Suc (length hs)) :: u16) = Suc (length hs)"
      using Cons.prems(4) by (simp add: unat_of_nat take_bit_nat_eq_self del: of_nat_Suc)
    then show False using z by simp
  qed
  then have ne: "usedIndex d \<noteq> used_index d" using Cons.prems(3) by auto
  have "diskInterrupt d = diskInterrupt ?d" using ne h b by (subst diskInterrupt.simps) (simp add: Let_def)
  also have "\<dots> = Inr (?d\<lparr>buf_disk := (\<lambda>c. buf_disk ?d c \<and> (\<forall>h \<in> set hs. info_buffer ?d ! h \<noteq> Some c)), usedIndex := used_index ?d\<rparr>)"
  proof (rule Cons.IH)
    show "\<forall>j < length hs. unat (used_ring ?d ! ((unat (usedIndex ?d) + j) mod NUM_DESCS)) = hs ! j"
    proof (intro allI impI)
      fix j assume "j < length hs"
      then have "unat (used_ring d ! ((unat (usedIndex d) + Suc j) mod NUM_DESCS)) = hs ! j" using Cons.prems(1) by auto
      moreover have "(unat (usedIndex d + 1) + j) mod NUM_DESCS = (unat (usedIndex d) + Suc j) mod NUM_DESCS"
      proof -
        have "unat (usedIndex d + 1) mod 8 = (unat (usedIndex d) + 1) mod 8" by (simp add: unat_word_ariths mod_mod_cancel)
        then have "(unat (usedIndex d + 1) + j) mod 8 = (unat (usedIndex d) + 1 + j) mod 8" by (metis mod_add_left_eq)
        then show ?thesis by (simp add: NUM_DESCS_def)
      qed
      ultimately show "unat (used_ring ?d ! ((unat (usedIndex ?d) + j) mod NUM_DESCS)) = hs ! j" by simp
    qed
    show "used_index ?d = usedIndex ?d + of_nat (length hs)" using Cons.prems(3) by simp
  qed (use Cons.prems in auto)
  also have "?d\<lparr>buf_disk := (\<lambda>c. buf_disk ?d c \<and> (\<forall>h \<in> set hs. info_buffer ?d ! h \<noteq> Some c)), usedIndex := used_index ?d\<rparr> =
      d\<lparr>buf_disk := (\<lambda>c. buf_disk d c \<and> (\<forall>h \<in> set (h # hs). info_buffer d ! h \<noteq> Some c)), usedIndex := used_index d\<rparr>"
    using b by (auto simp: fun_eq_iff intro!: vdisk.equality)
  finally show ?case .
qed

lemma reported_ok:
  assumes "table_inv v" "buffer_inv v" "ring_inv v"
  shows "diskInterrupt (dk v) = Inr ((dk v)\<lparr>buf_disk := (\<lambda>b. buf_disk (dk v) b \<and> (\<forall>h \<in> set (reported v). info_buffer (dk v) ! h \<noteq> Some b)),
      usedIndex := used_index (dk v)\<rparr>)"
proof (rule interrupt_sees)
  show "length (reported v) < 2 ^ 16" using at_most_two(1) [OF assms(1)] by (simp add: in_flight_def)
  show "\<forall>h \<in> set (reported v). h < NUM_DESCS \<and> info_status (dk v) ! h = 0 \<and> info_buffer (dk v) ! h \<noteq> None"
  proof
    fix h assume h: "h \<in> set (reported v)"
    then have "h \<in> set (in_flight v)" by (simp add: in_flight_def)
    moreover then have "h \<in> set (taken v)" using taken_heads [of h v] by (auto simp: chain_def)
    ultimately show "h < NUM_DESCS \<and> info_status (dk v) ! h = 0 \<and> info_buffer (dk v) ! h \<noteq> None"
      using h assms by (auto simp: table_inv_def buffer_inv_def ring_inv_def)
  qed
qed (use assms(3) in \<open>auto simp: ring_inv_def\<close>)

lemma interrupt_inv:
  assumes inv: "table_inv v" "buffer_inv v" "ring_inv v" and d: "diskInterrupt (dk v) = Inr d"
    and v': "v' = v\<lparr>dk := d, reported := [], seen := seen v @ reported v\<rparr>"
  shows "table_inv v'" "buffer_inv v'" "ring_inv v'"
proof -
  let ?i = "info_buffer (dk v)"
  have d': "d = (dk v)\<lparr>buf_disk := (\<lambda>b. buf_disk (dk v) b \<and> (\<forall>h \<in> set (reported v). ?i ! h \<noteq> Some b)), usedIndex := used_index (dk v)\<rparr>"
    using reported_ok [OF inv] d by simp
  have ms: "mset (in_flight v') = mset (in_flight v)" by (simp add: in_flight_def v')
  then have st: "set (in_flight v') = set (in_flight v)" by (metis set_mset_mset)
  have ch: "chain (dk v') = chain (dk v)" "linked (dk v') = linked (dk v)"
    by (auto simp: fun_eq_iff chain_def linked_def next_of_def more_def v' d')
  have tk: "mset (taken v') = mset (taken v)"
    unfolding taken_def ch(1) by (rule mset_concat_map [OF ms])
  then have "set (taken v') = set (taken v)" "distinct (taken v') = distinct (taken v)"
    by (metis set_mset_mset, metis mset_eq_imp_distinct_iff)
  then show "table_inv v'" using inv(1) st ch(2) by (simp add: table_inv_def sized_def) (simp add: v' d')
  have "mset (map (\<lambda>h. ?i ! h) (in_flight v')) = mset (map (\<lambda>h. ?i ! h) (in_flight v))" using ms by simp
  then have dist: "distinct (map (\<lambda>h. ?i ! h) (in_flight v'))" using inv(2) mset_eq_imp_distinct_iff by (metis buffer_inv_def)
  have inj: "?i ! h = ?i ! k \<longleftrightarrow> h = k" if "h \<in> set (in_flight v)" "k \<in> set (in_flight v)" for h k
    using inv(2) that by (auto simp: buffer_inv_def distinct_map inj_on_def)
  have "buf_disk d (the (?i ! h)) \<longleftrightarrow> h \<notin> set (seen v @ reported v)" if h: "h \<in> set (in_flight v)" for h
  proof -
    have "?i ! h = Some (the (?i ! h))" using inv(2) h by (auto simp: buffer_inv_def)
    then have "(\<forall>k \<in> set (reported v). ?i ! k \<noteq> Some (the (?i ! h))) \<longleftrightarrow> h \<notin> set (reported v)"
      using inj h by (metis Un_iff in_flight_def set_append)
    then show ?thesis using inv(2) h by (auto simp: d' buffer_inv_def)
  qed
  then show "buffer_inv v'" using inv(2) st dist by (simp add: buffer_inv_def v') (simp add: d')
  show "ring_inv v'" by (simp add: ring_inv_def v' d')
qed

lemma finish_inv:
  assumes inv: "table_inv v" "buffer_inv v" "ring_inv v" and h: "h \<in> set (seen v)" and b: "info_buffer (dk v) ! h = Some buf"
  shows "\<exists>d. diskrw_finish (dk v) buf h = Inr d \<and>
    (let v' = v\<lparr>dk := d, seen := remove1 h (seen v)\<rparr> in table_inv v' \<and> buffer_inv v' \<and> ring_inv v')"
proof -
  let ?e = "(dk v)\<lparr>info_buffer := (info_buffer (dk v))[h := None]\<rparr>"
  have hf: "h \<in> set (in_flight v)" using h by (simp add: in_flight_def)
  have nb: "\<not> buf_disk (dk v) buf" using inv(2) hf h b by (force simp: buffer_inv_def)
  have che: "chain ?e = chain (dk v)" "linked ?e = linked (dk v)" "next_of ?e = next_of (dk v)"
    by (auto simp: fun_eq_iff chain_def linked_def next_of_def more_def)
  have dt: "distinct (taken v)" using inv(1) by (simp add: table_inv_def)
  then have dh: "distinct (chain ?e h)" unfolding taken_def che(1) by (rule distinct_chain [OF _ hf])
  have sub: "set (chain (dk v) h) \<subseteq> set (taken v)" by (rule taken_heads [OF hf])
  have "linked ?e h" "set (chain ?e h) \<subseteq> {..<NUM_DESCS}" "\<forall>i \<in> set (chain ?e h). \<not> free_desc ?e ! i" "length (descs ?e) = NUM_DESCS"
    unfolding che using inv(1) hf sub by (auto simp: table_inv_def sized_def)
  from freeChain_chain [OF this(1) dh this(2-4)] che obtain d where d: "freeChain ?e h = Inr d" "d = ?e\<lparr>descs := descs d, free_desc := free_desc d\<rparr>"
    "length (descs d) = NUM_DESCS" "\<forall>i. i \<notin> set (chain (dk v) h) \<longrightarrow> descs d ! i = descs (dk v) ! i"
    "free_desc d = (free_desc (dk v))[h := True, next_of (dk v) h := True, next_of (dk v) (next_of (dk v) h) := True]"
    by auto
  have fin: "diskrw_finish (dk v) buf h = Inr d" using nb d(1) by (simp add: diskrw_finish_def)
  define v' where "v' = v\<lparr>dk := d, seen := remove1 h (seen v)\<rparr>"
  obtain xs ys where xy: "seen v = xs @ h # ys" "h \<notin> set xs" "remove1 h (seen v) = xs @ ys"
    using split_list_first [OF h] by (auto simp: remove1_append)
  have hd: "distinct (in_flight v)" using dt unfolding taken_def by (rule heads_distinct)
  have fl: "in_flight v = (posted v @ reported v @ xs) @ h # ys" "in_flight v' = (posted v @ reported v @ xs) @ ys"
    by (simp add: in_flight_def xy(1), simp add: in_flight_def v'_def xy(3))
  let ?r = "concat (map (chain (dk v)) (in_flight v'))"
  have dj: "distinct ?r" "set (chain (dk v) h) \<inter> set ?r = {}" and tv: "set (taken v) = set (chain (dk v) h) \<union> set ?r"
    using dt fl unfolding taken_def by auto
  have "\<forall>i \<in> set ?r. descs d ! i = descs (dk v) ! i" using d(4) dj(2) by blast
  note kept = chains_kept [OF this]
  have "dk v' = d" by (simp add: v'_def)
  then have tk: "taken v' = ?r" unfolding taken_def by (simp only: kept(1))
  have fs: "free_desc d ! i \<longleftrightarrow> i \<notin> set ?r" if i: "i < NUM_DESCS" for i
  proof -
    have "length (free_desc (dk v)) = NUM_DESCS" using inv(1) by (simp add: table_inv_def sized_def)
    moreover have "set (chain (dk v) h) \<subseteq> {..<NUM_DESCS}" using sub inv(1) by (auto simp: table_inv_def)
    ultimately have "free_desc d ! i \<longleftrightarrow> i \<in> set (chain (dk v) h) \<or> free_desc (dk v) ! i"
      using i d(5) by (auto simp: nth_list_update chain_def)
    also have "\<dots> \<longleftrightarrow> i \<notin> set ?r" using inv(1) i tv dj(2) by (auto simp: table_inv_def)
    finally show ?thesis .
  qed
  have "sized d" using inv(1) d(3,5) by (subst d(2)) (simp add: sized_def table_inv_def)
  then have ti: "table_inv v'"
    using tk fs tv dj(1) kept(2) inv(1) fl by (simp add: table_inv_def) (auto simp: v'_def)
  have sub': "set (in_flight v') = set (in_flight v) - {h}" using hd fl by auto
  have ib: "info_buffer d = (info_buffer (dk v))[h := None]" "buf_disk d = buf_disk (dk v)"
    by (subst d(2), simp)+
  have eqb: "info_buffer d ! k = info_buffer (dk v) ! k" if "k \<in> set (in_flight v')" for k using that sub' ib(1) by simp
  have me: "map (\<lambda>k. info_buffer d ! k) (in_flight v') = map (\<lambda>k. info_buffer (dk v) ! k) (in_flight v')" using eqb by simp
  have "distinct (map (\<lambda>k. info_buffer (dk v) ! k) (in_flight v'))" using inv(2) fl by (auto simp: buffer_inv_def)
  then have dm: "distinct (map (\<lambda>k. info_buffer d ! k) (in_flight v'))" unfolding me .
  have dv: "dk v' = d" by (simp add: v'_def)
  have "set (seen v') = set (seen v) - {h}" using xy hd by (auto simp: v'_def in_flight_def)
  then have bi: "buffer_inv v'"
    using inv(2) eqb ib(2) sub' dm unfolding buffer_inv_def dv by simp
  have "used_ring d = used_ring (dk v)" "info_status d = info_status (dk v)" "used_index d = used_index (dk v)" "usedIndex d = usedIndex (dk v)"
    by (subst d(2), simp)+
  then have "ring_inv v'" using inv(3) by (simp add: ring_inv_def v'_def)
  then show ?thesis using fin ti bi by (intro exI [of _ d]) (simp add: v'_def Let_def)
qed

lemma initialised:
  assumes "static_disk d0" "initializeVirtio dev desc avail used d0 = Inr (d, ws)"
  shows "sized d" "free_desc d = replicate NUM_DESCS True" "used_index d = usedIndex d"
  using assms by (auto simp: initializeVirtio_def Let_def outcome_simps static_disk_def sized_def new_rings_def)

lemma vreach_inv: "vreach v \<Longrightarrow> table_inv v \<and> buffer_inv v \<and> ring_inv v"
proof (induction rule: vreach.induct)
  case (start d0 dev desc avail used d ws)
  then show ?case
    using initialised [OF start] by (simp add: table_inv_def buffer_inv_def ring_inv_def in_flight_def taken_def)
next
  case (step v v')
  then have inv: "table_inv v" "buffer_inv v" "ring_inv v" by auto
  have sz: "sized (dk v)" "length (free_desc (dk v)) = NUM_DESCS" using inv(1) by (auto simp: table_inv_def sized_def)
  note a3 = allocate3_spec [OF sz(2) at_most_two(2) [OF inv(1)]]
  from step.hyps(2) show ?case
  proof cases
    case (submit buf block w h d)
    from a3 obtain a b c where abc: "{a, b, c} \<subseteq> free_set (free_desc (dk v))" "distinct [a, b, c]" "h = a"
      "d = post_request (dk v\<lparr>free_desc := (free_desc (dk v))[a := False, b := False, c := False]\<rparr>) buf block w a b c"
      using submit(3) by (auto simp: diskrw_submit_def)
    note t = submit_table [OF inv(1) abc(1,2,4) submit(1) [unfolded abc(3)]]
    have "a < NUM_DESCS" using abc(1) sz(2) by (auto simp: free_set_def)
    from submit_buffers [OF inv(2,3) t(2) this sz(1) submit(2) abc(4) submit(1) [unfolded abc(3)]] t(1) show ?thesis by simp
  next
    case (wait buf block w d)
    from a3 obtain a b where "{a, b} \<subseteq> free_set (free_desc (dk v))" "d = dk v\<lparr>descs := (descs (dk v))[a := no_desc, b := no_desc]\<rparr>"
      using wait(3) by (auto simp: diskrw_submit_def)
    from wait_inv [OF inv this(1) wait(1) [unfolded this(2)]] show ?thesis by simp
  next
    case (device h)
    from device_inv [OF inv device(2,1)] show ?thesis by simp
  next
    case (interrupt d)
    from interrupt_inv [OF inv interrupt(2,1)] show ?thesis by simp
  next
    case (finish h buf d)
    from finish_inv [OF inv finish(2,3)] finish(1,4) show ?thesis by (auto simp: Let_def)
  qed
qed

lemma finish_frees:
  assumes inv: "table_inv v" "buffer_inv v" "ring_inv v" and h: "h \<in> set (seen v)" and b: "info_buffer (dk v) ! h = Some b"
  shows "\<exists>d. diskrw_finish (dk v) b h = Inr d \<and>
    (\<forall>i < NUM_DESCS. free_desc d ! i \<longleftrightarrow> free_desc (dk v) ! i \<or> i \<in> set (chain (dk v) h))"
proof -
  obtain d where d: "diskrw_finish (dk v) b h = Inr d" using finish_inv [OF inv h b] by blast
  have hf: "h \<in> set (in_flight v)" using h by (simp add: in_flight_def)
  have "distinct (taken v)" using inv(1) by (simp add: table_inv_def)
  then have dc: "distinct (chain (dk v) h)" unfolding taken_def by (rule distinct_chain [OF _ hf])
  have c: "set (chain (dk v) h) \<subseteq> {..<NUM_DESCS}" "\<forall>i \<in> set (chain (dk v) h). \<not> free_desc (dk v) ! i"
    "linked (dk v) h" "length (descs (dk v)) = NUM_DESCS" "length (free_desc (dk v)) = NUM_DESCS"
    using inv(1) taken_heads [OF hf] hf by (auto simp: table_inv_def sized_def)
  let ?e = "(dk v)\<lparr>info_buffer := (info_buffer (dk v))[h := None]\<rparr>"
  have che: "chain ?e = chain (dk v)" "linked ?e = linked (dk v)" "next_of ?e = next_of (dk v)"
    by (auto simp: fun_eq_iff chain_def linked_def next_of_def more_def)
  have "freeChain ?e h = Inr d" using d by (auto simp: diskrw_finish_def split: if_splits)
  then have "free_desc d = (free_desc (dk v))[h := True, next_of (dk v) h := True, next_of (dk v) (next_of (dk v) h) := True]"
    using freeChain_chain [of ?e h] c dc che by auto
  then have "\<forall>i < NUM_DESCS. free_desc d ! i \<longleftrightarrow> free_desc (dk v) ! i \<or> i \<in> set (chain (dk v) h)"
    using c(1,5) by (auto simp: chain_def nth_list_update)
  then show ?thesis using d by blast
qed

section \<open>Properties\<close>


definition example_disk :: vdisk where
  "example_disk =
     \<lparr>descs = replicate 8 no_desc, avail_index = 0, avail_ring = replicate 8 0, used_index = 0, used_ring = replicate 8 0,
      free_desc = replicate 8 True, usedIndex = 0, info_buffer = replicate 8 None, info_status = replicate 8 0,
      ops = replicate 8 \<lparr>r_type = 0, reserved = 0, sector = 0\<rparr>, buf_disk = (\<lambda>_. False),
      ops_address = (\<lambda>i. 4096 + of_nat i * 16), status_address = (\<lambda>i. 8192 + of_nat i), buf_address = (\<lambda>i. 65536 + of_nat i * 1024)\<rparr>"

lemmas virtio_registers = VIRTIO_MMIO_MAGIC_VALUE_def VIRTIO_MMIO_VERSION_def VIRTIO_MMIO_DEVICE_ID_def VIRTIO_MMIO_VENDOR_ID_def
  VIRTIO_MMIO_DEVICE_FEATURES_def VIRTIO_MMIO_DRIVER_FEATURES_def VIRTIO_MMIO_QUEUE_SEL_def VIRTIO_MMIO_QUEUE_NUM_MAX_def
  VIRTIO_MMIO_QUEUE_NUM_def VIRTIO_MMIO_QUEUE_READY_def VIRTIO_MMIO_STATUS_def VIRTIO_CONFIG_S_ACKNOWLEDGE_def
  VIRTIO_CONFIG_S_DRIVER_def VIRTIO_CONFIG_S_DRIVER_OK_def VIRTIO_CONFIG_S_FEATURES_OK_def

text \<open>A device that offers no features, confirms them and has a queue of eight entries.\<close>

definition example_device :: device_regs where
  "example_device ws r =
     (if r = 0 then 0x74726976 else if r = 4 \<or> r = 8 then 2 else if r = 12 then 0x554d4551
      else if r = 0x034 then 8 else if r = 0x070 then 11 else 0)"

definition example_writes :: mmio where
  "example_writes =
     [(0x070, 0), (0x070, 1), (0x070, 3), (0x020, 0), (0x070, 11), (0x030, 0), (0x038, 8)] @ queue_addresses 0x1000 0x2000 0x3000 @
     [(0x044, 1), (0x070, 15)]"

lemma example_disk_eqs: "(new_rings example_disk)\<lparr>free_desc := replicate 8 True\<rparr> = example_disk" "driver_features 0 = 0"
  by (simp_all add: new_rings_def example_disk_def NUM_DESCS_def driver_features_def refused_features_def)


end
