(* ===== verification/Trap.thy ===== *)
theory Trap
  imports Syscall Fs_Virtio
begin

unbundle bit_operations_syntax

text \<open>
  Interrupts and traps: \<open>kernel/ie/\<close>, with the registers of \<open>kernel/arch/riscv.h\<close>. Each accessor of \<open>riscv.h\<close> is one
  instruction that reads or writes a register: \<open>read_r\<close> is the selector of the field \<open>r\<close>, \<open>write_r\<close> its update.
  \<open>sstatus\<close> and \<open>tp\<close> are those of the scheduler's state, which the locks use. The interrupt controller answers
  with the interrupts of \<open>plic_claims\<close>, the receiver of the UART with \<open>uart_rx\<close>. The entry code in assembly is not modelled: \<open>userTrap\<close> begins
  when it has saved the registers of the process in the trap frame, and \<open>returnUserTrap\<close> ends with the jump to it.
\<close>

section \<open>State\<close>

record csrs =
  mhartid :: u64
  mstatus :: u64
  mepc :: u64
  mie :: u64
  medeleg :: u64
  mideleg :: u64
  mtvec :: u64
  mscratch :: u64
  mcounteren :: u64
  time :: u64
  pmpcfg0 :: u64
  pmpaddr0 :: u64
  sip :: u64
  sie :: u64
  sepc :: u64
  stvec :: u64
  satp :: u64
  scause :: u64
  stval :: u64
  reg_tp :: u64

record machine =
  kern :: kernel
  regs :: csrs
  disk :: vdisk
  plic_claims :: "u32 list"
  plic_writes :: "(u64 \<times> u32) list"
  uart_rx :: "u8 list"
  syscallMap :: "(u64, sysfun) hash_map"
  ticks :: u64
  ticks_mutex :: spin_mutex
  ticks_address :: u64
  readPos_address :: u64
  buffer_address :: "nat \<Rightarrow> u64"
  kernelVector :: u64
  userVector :: u64
  returnUser :: u64
  userTrap_address :: u64

definition SSTATUS_SPP :: u64 where "SSTATUS_SPP = push_bit 8 1"
definition SSTATUS_SPIE :: u64 where "SSTATUS_SPIE = push_bit 5 1"
definition UART0_IRQ :: u32 where "UART0_IRQ = 10"
definition VIRTIO0_IRQ :: u32 where "VIRTIO0_IRQ = 1"

definition set_sched :: "machine \<Rightarrow> sched_state \<Rightarrow> machine" where
  "set_sched m s = m\<lparr>kern := (kern m)\<lparr>sched := s\<rparr>\<rparr>"

definition set_cons :: "machine \<Rightarrow> cons_state \<Rightarrow> machine" where
  "set_cons m c = m\<lparr>kern := (kern m)\<lparr>fsys := (fsys (kern m))\<lparr>cons := c\<rparr>\<rparr>\<rparr>"

definition read_sstatus :: "machine \<Rightarrow> u64" where
  "read_sstatus m = sstatus (this_cpu (sched (kern m)))"

definition write_sstatus :: "machine \<Rightarrow> u64 \<Rightarrow> machine" where
  "write_sstatus m v = m\<lparr>kern := set_cpu (kern m) ((this_cpu (sched (kern m)))\<lparr>sstatus := v\<rparr>)\<rparr>"

definition read_tp :: "machine \<Rightarrow> u64" where
  "read_tp m = tp (sched (kern m))"

definition print :: "machine \<Rightarrow> u8 list \<Rightarrow> arg list \<Rightarrow> machine outcome" where
  "print m fmt args =
     andThen (printf fmt args) (\<lambda>text. Inr (set_cons m (put_all (cons (fsys (kern m))) text)))"

section \<open>Model: the interrupt controller and the clock\<close>

definition senable :: "u64 \<Rightarrow> u64" where
  "senable hart = PLIC + 0x2080 + hart * 0x100"

definition spriority :: "u64 \<Rightarrow> u64" where
  "spriority hart = PLIC + 0x201000 + hart * 0x2000"

definition claim_address :: "u64 \<Rightarrow> u64" where
  "claim_address hart = PLIC + 0x201004 + hart * 0x2000"

definition initializePlic :: "machine \<Rightarrow> machine" where
  "initializePlic m =
     m\<lparr>plic_writes := plic_writes m @ [(PLIC + ucast UART0_IRQ * 4, 1), (PLIC + ucast VIRTIO0_IRQ * 4, 1)]\<rparr>"

definition initializePlicHart :: "machine \<Rightarrow> machine" where
  "initializePlicHart m =
     m\<lparr>plic_writes := plic_writes m @ [(senable (read_tp m), push_bit 10 1 OR push_bit 1 1), (spriority (read_tp m), 0)]\<rparr>"

definition plicClaim :: "machine \<Rightarrow> u32 \<times> machine" where
  "plicClaim m = (case plic_claims m of [] \<Rightarrow> (0, m) | irq # rest \<Rightarrow> (irq, m\<lparr>plic_claims := rest\<rparr>))"

definition plicComplete :: "machine \<Rightarrow> u32 \<Rightarrow> machine" where
  "plicComplete m irq = m\<lparr>plic_writes := plic_writes m @ [(claim_address (read_tp m), irq)]\<rparr>"

definition clockInterrupt :: "machine \<Rightarrow> machine outcome" where
  "clockInterrupt m =
     (let s = sched (kern m) in
      andThen (spin_lock (this_cpu s) (tp s) (ticks_mutex m)) (\<lambda>(c, l).
      andThen (wakeup (s\<lparr>this_cpu := c\<rparr>) (ticks_address m)) (\<lambda>s1.
      andThen (spin_unlock (this_cpu s1) (tp s1) l) (\<lambda>(c1, l1).
        Inr ((set_sched m (s1\<lparr>this_cpu := c1\<rparr>))\<lparr>ticks := ticks m + 1, ticks_mutex := l1\<rparr>)))))"

section \<open>Model: devices\<close>

text \<open>\<open>uartInterrupt\<close> with the \<open>wakeup\<close> of \<open>consoleInterrupt\<close>, which happens when \<open>writePos\<close> moves.\<close>

fun uart_handler :: "machine \<Rightarrow> u8 list \<Rightarrow> machine outcome" where
  "uart_handler m [] = Inr (m\<lparr>uart_rx := []\<rparr>)"
| "uart_handler m (c # rx) =
     (if c = 0 then Inr (m\<lparr>uart_rx := rx\<rparr>)
      else
        let old = cons (fsys (kern m)); new = consoleInterrupt old c; m1 = set_cons m new in
        andThen (if writePos new \<noteq> writePos old then wakeup (sched (kern m1)) (readPos_address m1) else Inr (sched (kern m1))) (\<lambda>s.
          uart_handler (set_sched m1 s) rx))"

text \<open>The buffers that \<open>diskInterrupt\<close> finds in the used ring, each woken in turn.\<close>

fun reported :: "vdisk \<Rightarrow> u16 \<Rightarrow> nat \<Rightarrow> nat list" where
  "reported d i 0 = []"
| "reported d i (Suc n) =
     (case info_buffer d ! unat (used_ring d ! (unat i mod NUM_DESCS)) of
        None \<Rightarrow> [] | Some b \<Rightarrow> b # reported d (i + 1) n)"

fun wakeup_all :: "sched_state \<Rightarrow> u64 list \<Rightarrow> sched_state outcome" where
  "wakeup_all s [] = Inr s"
| "wakeup_all s (ch # chs) = andThen (wakeup s ch) (\<lambda>s1. wakeup_all s1 chs)"

definition disk_handler :: "machine \<Rightarrow> machine outcome" where
  "disk_handler m =
     (let d = disk m; bufs = reported d (usedIndex d) (unat (used_index d - usedIndex d)) in
      andThen (diskInterrupt d) (\<lambda>d1.
      andThen (wakeup_all (sched (kern m)) (map (buffer_address m) bufs)) (\<lambda>s.
        Inr (set_sched (m\<lparr>disk := d1\<rparr>) s))))"

section \<open>Model: traps\<close>

datatype Cause = Unexpected | Plic | Timer

definition external :: "u64 \<Rightarrow> bool" where
  "external sc \<longleftrightarrow> sc AND 0x8000000000000000 \<noteq> 0 \<and> sc AND 0xff = 9"

definition which :: "machine \<Rightarrow> u64 \<Rightarrow> (Cause \<times> machine) outcome" where
  "which m sc =
     (if external sc then
        let (irq, m1) = plicClaim m in
        andThen
          (if irq = UART0_IRQ then uart_handler m1 (uart_rx m1)
           else if irq = VIRTIO0_IRQ then disk_handler m1
           else print m1 (ascii ''Unexpected IRQ %d'' @ [10]) [Int32 irq])
          (\<lambda>m2. Inr (Plic, if irq \<noteq> 0 then plicComplete m2 irq else m2))
      else if sc = 0x8000000000000001 then
        andThen (if read_tp m = 0 then clockInterrupt m else Inr m) (\<lambda>m1.
          Inr (Timer, m1\<lparr>regs := (regs m1)\<lparr>sip := sip (regs m1) AND NOT 2\<rparr>\<rparr>))
      else Inr (Unexpected, m))"

text \<open>
  \<open>yield\<close> in a trap: no process, and it returns at once, or the processor is given away and the trap goes on
  after the switch back, with the flag \<open>reschedule\<close> saved.
\<close>

datatype trap_result = Returns machine | Yields bool machine

definition trap_yield :: "machine \<Rightarrow> (trap_result outcome) option" where
  "trap_yield m =
     (if cpu_process (sched (kern m)) = None then Some (Inr (Returns m))
      else map_option (\<lambda>r. andThen r (\<lambda>(flag, s). Inr (Yields flag (set_sched m s)))) (yield_enter (sched (kern m))))"

definition after_cause :: "Cause \<Rightarrow> machine \<Rightarrow> (trap_result outcome) option" where
  "after_cause c m =
     (case c of
        Unexpected \<Rightarrow> Some (Inl (KernelPanic ''unexpected ie''))
      | Plic \<Rightarrow> Some (Inr (Returns m))
      | Timer \<Rightarrow> trap_yield m)"

definition kernelTrap_finish :: "machine \<Rightarrow> u64 \<Rightarrow> u64 \<Rightarrow> machine" where
  "kernelTrap_finish m pc st = write_sstatus (m\<lparr>regs := (regs m)\<lparr>sepc := pc\<rparr>\<rparr>) st"

definition kernelTrap :: "machine \<Rightarrow> (trap_result outcome) option" where
  "kernelTrap m =
     (let pc = sepc (regs m); st = read_sstatus m in
      case andThen (assert_that (st AND SSTATUS_SPP \<noteq> 0)) (\<lambda>_.
           andThen (assert_that (st AND SSTATUS_SIE = 0)) (\<lambda>_. which m (scause (regs m)))) of
        Inl e \<Rightarrow> Some (Inl e)
      | Inr (c, m1) \<Rightarrow>
          map_option (\<lambda>r. andThen r (\<lambda>t. Inr (case t of Returns m2 \<Rightarrow> Returns (kernelTrap_finish m2 pc st) | _ \<Rightarrow> t)))
            (after_cause c m1))"

text \<open>The result of \<open>returnUserTrap\<close> is the state and the argument \<open>satp\<close> of the code it jumps to.\<close>

definition upd_frame :: "machine \<Rightarrow> nat \<Rightarrow> (trap_frame \<Rightarrow> trap_frame) \<Rightarrow> machine" where
  "upd_frame m p f = m\<lparr>kern := upd_proc (kern m) p (\<lambda>x. x\<lparr>frame := f (frame x)\<rparr>)\<rparr>"

definition returnUserTrap :: "machine \<Rightarrow> (u64 \<times> u64 \<times> machine) outcome" where
  "returnUserTrap m =
     (case cpu_process (sched (kern m)) of
        None \<Rightarrow> Inl Undefined
      | Some p \<Rightarrow>
          let m1 = write_sstatus m (read_sstatus m AND NOT SSTATUS_SIE);
              m2 = m1\<lparr>regs := (regs m1)\<lparr>stvec := TRAMPOLINE + (userVector m1 - trampoline (kern m1))\<rparr>\<rparr>;
              m3 = upd_frame m2 p (\<lambda>f. f\<lparr>kernel_satp := satp (regs m2), kernel_sp := kernelStack (proc (kern m2) p) + PAGE_SIZE,
                     kernel_trap := userTrap_address m2, kernel_hartid := read_tp m2\<rparr>);
              m4 = write_sstatus m3 ((read_sstatus m3 AND NOT SSTATUS_SPP) OR SSTATUS_SPIE);
              m5 = m4\<lparr>regs := (regs m4)\<lparr>sepc := epc (frame (proc (kern m4) p))\<rparr>\<rparr>
          in Inr (TRAMPOLINE + (returnUser m5 - trampoline (kern m5)), makeSatp (pageTable (proc (kern m5) p)), m5))"

datatype user_result = ToUser u64 u64 machine | Away machine

definition finish_user :: "trap_result \<Rightarrow> user_result outcome" where
  "finish_user r =
     (case r of
        Returns m \<Rightarrow> andThen (returnUserTrap m) (\<lambda>(pc, sat, m1). Inr (ToUser pc sat m1))
      | Yields _ m \<Rightarrow> Inr (Away m))"

definition user_syscall :: "machine \<Rightarrow> user_result outcome" where
  "user_syscall m =
     andThen (syscall (syscallMap m) (kern m)) (\<lambda>(r, t, k).
       let m1 = m\<lparr>syscallMap := t, kern := k\<rparr> in
       case r of Value _ \<Rightarrow> finish_user (Returns m1) | Switched \<Rightarrow> Inr (Away m1))"

definition userTrap :: "machine \<Rightarrow> (user_result outcome) option" where
  "userTrap m =
     (if read_sstatus m AND SSTATUS_SPP \<noteq> 0 then Some (Inl AssertionFailed)
      else case cpu_process (sched (kern m)) of
        None \<Rightarrow> Some (Inl Undefined)
      | Some p \<Rightarrow>
          let m1 = m\<lparr>regs := (regs m)\<lparr>stvec := kernelVector m\<rparr>\<rparr>;
              m2 = upd_frame m1 p (\<lambda>f. f\<lparr>epc := sepc (regs m1)\<rparr>);
              sc = scause (regs m2);
              skip = upd_frame m2 p (\<lambda>f. f\<lparr>epc := epc f + 4\<rparr>);
              on = write_sstatus skip (read_sstatus skip OR SSTATUS_SIE)
          in if sc = 8 then Some (user_syscall on)
             else if sc = 15
             then Some (andThen (growMemory (kern on) p (stval (regs on))) (\<lambda>k. finish_user (Returns (on\<lparr>kern := k\<rparr>))))
             else case which m2 sc of
               Inl e \<Rightarrow> Some (Inl e)
             | Inr (c, m3) \<Rightarrow> map_option (\<lambda>r. andThen r finish_user) (after_cause c m3))"

text \<open>\<open>returnFork\<close>, where a new process starts.\<close>

definition returnFork :: "machine \<Rightarrow> (u64 \<times> u64 \<times> machine) outcome" where
  "returnFork m =
     (case cpu_process (sched (kern m)) of
        None \<Rightarrow> Inl Undefined
      | Some p \<Rightarrow>
          andThen (in_sched (kern m) (unlock_process (sched (kern m)) p)) (\<lambda>k1.
          andThen
            (if first k1
             then andThen (initializeFs (as_process k1 p) ROOT_DEVICE) (\<lambda>s. Inr (k1\<lparr>first := False, fsys := s\<rparr>))
             else Inr k1)
            (\<lambda>k2. returnUserTrap (m\<lparr>kern := k2\<rparr>))))"

section \<open>Model: boot\<close>

definition CLINT :: u64 where "CLINT = 0x2000000"
definition CLINT_MTIME :: u64 where "CLINT_MTIME = CLINT + 0xBFF8"
definition MSTATUS_MPP_MASK :: u64 where "MSTATUS_MPP_MASK = push_bit 11 3"
definition MSTATUS_MPP_S :: u64 where "MSTATUS_MPP_S = push_bit 11 1"
definition MSTATUS_MIE :: u64 where "MSTATUS_MIE = push_bit 3 1"
definition MIE_MTIE :: u64 where "MIE_MTIE = push_bit 7 1"
definition SIE_SEIE :: u64 where "SIE_SEIE = push_bit 9 1"
definition SIE_STIE :: u64 where "SIE_STIE = push_bit 5 1"
definition SIE_SSIE :: u64 where "SIE_SSIE = push_bit 1 1"

definition clintMtimeCmp :: "u64 \<Rightarrow> u64" where
  "clintMtimeCmp hart = CLINT + 0x4000 + 8 * hart"

text \<open>
  \<open>initializeTimer\<close>: \<open>mm\<close> is the memory of the devices and of \<open>timerScrach\<close>, whose row of a hart is at \<open>scratch\<close>.
\<close>

definition timer_interval :: u64 where "timer_interval = 1000000"

definition initializeTimer :: "csrs \<Rightarrow> mem \<Rightarrow> u64 \<Rightarrow> u64 \<Rightarrow> csrs \<times> mem" where
  "initializeTimer r mm scratch timerVector =
     (let hart = mhartid r;
          m1 = store64 mm (clintMtimeCmp hart) (load64 mm CLINT_MTIME + timer_interval);
          m2 = store64 m1 (scratch + 24) (clintMtimeCmp hart);
          m3 = store64 m2 (scratch + 32) timer_interval
      in (r\<lparr>mscratch := scratch, mtvec := timerVector, mstatus := mstatus r OR MSTATUS_MIE, mie := mie r OR MIE_MTIE\<rparr>, m3))"

definition orfos_start :: "csrs \<Rightarrow> mem \<Rightarrow> u64 \<Rightarrow> u64 \<Rightarrow> u64 \<Rightarrow> csrs \<times> mem" where
  "orfos_start r mm main_address scratch timerVector =
     (let r1 = r\<lparr>mstatus := (mstatus r AND NOT MSTATUS_MPP_MASK) OR MSTATUS_MPP_S, mepc := main_address, satp := 0,
                 medeleg := 0xffff, mideleg := 0xffff, sie := ((sie r OR SIE_SEIE) OR SIE_STIE) OR SIE_SSIE,
                 pmpcfg0 := 0xf, pmpaddr0 := 0x3fffffffffffff\<rparr>;
          (r2, m2) = initializeTimer r1 mm scratch timerVector
      in (r2\<lparr>reg_tp := mhartid r2\<rparr>, m2))"

definition initializeHart :: "machine \<Rightarrow> machine" where
  "initializeHart m = m\<lparr>regs := (regs m)\<lparr>stvec := kernelVector m\<rparr>\<rparr>"

text \<open>
  \<open>initializeScheduler\<close>, and the part of \<open>main\<close> that the first hart runs before \<open>Scheduler::run\<close>. What the code finds
  at boot is in \<open>boot_env\<close>: the hash functions of the C++ library, the end of the kernel's text, the answers of the disk, and the
  addresses of the three rings.
\<close>

record boot_env =
  hash64 :: "u64 \<Rightarrow> u64"
  hash_ptr :: "u64 \<Rightarrow> u64"
  text_end :: u64
  disk_regs :: device_regs
  ring_addresses :: "u64 \<times> u64 \<times> u64"
  init_code :: "u8 list"

definition initializeScheduler :: "(u64 \<Rightarrow> u64) \<Rightarrow> sched_state \<Rightarrow> sched_state outcome" where
  "initializeScheduler h s =
     andThen (new_HashMap h 8) (\<lambda>t. Inr (s\<lparr>readyQueue := new_QueueContainer, sleepTable := t, sched_mutex := new_SpinMutex\<rparr>))"

definition boot_memory :: "boot_env \<Rightarrow> kernel \<Rightarrow> kernel outcome" where
  "boot_memory e k =
     andThen (page_initialize (pages (fsys k))) (\<lambda>ps.
     andThen (initializeKvm ps (text_end e) (trampoline k)) (\<lambda>(t, ps1). Inr ((set_pages k ps1)\<lparr>kernelPageTable := t\<rparr>)))"

definition boot_files :: "boot_env \<Rightarrow> file_state \<Rightarrow> vdisk \<Rightarrow> (file_state \<times> vdisk) outcome" where
  "boot_files e s d =
     andThen (initializeBufferCache (hash64 e) s) (\<lambda>s1.
     andThen (initializeInode (hash64 e) s1) (\<lambda>s2.
     andThen (case ring_addresses e of (ds, a, u) \<Rightarrow> initializeVirtio (disk_regs e) ds a u d) (\<lambda>(d1, _).
       Inr (initializeDevices s2, d1))))"

definition boot_main :: "boot_env \<Rightarrow> machine \<Rightarrow> machine outcome" where
  "boot_main e m =
     andThen (print m (ascii ''ORFOS is booting...'' @ [10]) []) (\<lambda>m1.
     andThen (boot_memory e (kern m1)) (\<lambda>k1.
     let k2 = process_initialize k1;
         m2 = m1\<lparr>kern := k2, regs := (regs m1)\<lparr>satp := initializeKvmHart (kernelPageTable k2)\<rparr>\<rparr> in
     andThen (initializeScheduler (hash_ptr e) (sched k2)) (\<lambda>s.
     let m3 = initializePlicHart (initializePlic (initializeHart (set_sched m2 s))) in
     andThen (boot_files e (fsys (kern m3)) (disk m3)) (\<lambda>(f, d).
     andThen (syscall_initialize (hash64 e)) (\<lambda>t.
     andThen (startUserInitProcess ((kern m3)\<lparr>fsys := f\<rparr>) (init_code e)) (\<lambda>k3.
       Inr (m3\<lparr>kern := k3, syscallMap := t, disk := d\<rparr>)))))))"

definition boot_other :: "machine \<Rightarrow> machine outcome" where
  "boot_other m =
     andThen (print m (ascii ''Hart %d is starting...'') [Int32 (ucast (read_tp m))]) (\<lambda>m1.
       Inr (initializePlicHart (initializeHart (m1\<lparr>regs := (regs m1)\<lparr>satp := initializeKvmHart (kernelPageTable (kern m1))\<rparr>\<rparr>))))"

section \<open>A system call from user mode\<close>

text \<open>The state of the kernel in which \<open>userTrap\<close> calls \<open>syscall\<close>: the saved pc is that of the next instruction, interrupts are on.\<close>

definition entered :: "machine \<Rightarrow> nat \<Rightarrow> kernel" where
  "entered m p =
     (let k = upd_proc (kern m) p (\<lambda>x. x\<lparr>frame := (frame x)\<lparr>epc := sepc (regs m) + 4\<rparr>\<rparr>)
      in set_cpu k ((this_cpu (sched k))\<lparr>sstatus := sstatus (this_cpu (sched k)) OR SSTATUS_SIE\<rparr>))"

definition ready_for_user :: "machine \<Rightarrow> bool" where
  "ready_for_user m \<longleftrightarrow> read_sstatus m AND SSTATUS_SPP = 0 \<and> read_sstatus m AND SSTATUS_SPIE = SSTATUS_SPIE \<and>
     read_sstatus m AND SSTATUS_SIE = 0"

lemma status_bits: "bit SSTATUS_SPP n \<longleftrightarrow> n = 8" "bit SSTATUS_SPIE n \<longleftrightarrow> n = 5" "bit SSTATUS_SIE n \<longleftrightarrow> n = 1"
  unfolding SSTATUS_SPP_def SSTATUS_SPIE_def SSTATUS_SIE_def by (subst bit_push_bit_iff; auto simp: bit_1_iff)+

lemma sstatus_for_user:
  fixes w :: u64
  shows "((w AND NOT SSTATUS_SIE) AND NOT SSTATUS_SPP OR SSTATUS_SPIE) AND SSTATUS_SPP = 0"
    "((w AND NOT SSTATUS_SIE) AND NOT SSTATUS_SPP OR SSTATUS_SPIE) AND SSTATUS_SPIE = SSTATUS_SPIE"
    "((w AND NOT SSTATUS_SIE) AND NOT SSTATUS_SPP OR SSTATUS_SPIE) AND SSTATUS_SIE = 0"
  by (rule bit_word_eqI, auto simp: status_bits bit_and_iff bit_or_iff bit_not_iff)+

lemma returnUserTrap_law:
  assumes "cpu_process (sched (kern m)) = Some p"
  shows "\<exists>m'. returnUserTrap m = Inr (TRAMPOLINE + (returnUser m - trampoline (kern m)), makeSatp (pageTable (proc (kern m) p)), m') \<and>
    ready_for_user m' \<and> sepc (regs m') = epc (frame (proc (kern m) p)) \<and> stvec (regs m') = TRAMPOLINE + (userVector m - trampoline (kern m)) \<and>
    tf_a0 (frame (proc (kern m') p)) = tf_a0 (frame (proc (kern m) p)) \<and> kernel_trap (frame (proc (kern m') p)) = userTrap_address m"
  using assms sstatus_for_user
  by (simp add: returnUserTrap_def Let_def ready_for_user_def read_sstatus_def write_sstatus_def upd_frame_def set_cpu_def
      upd_proc_def upd_process_def proc_def)

text \<open>A process that has executed \<open>ecall\<close> at 0x1000 to close file 0, which it has not opened.\<close>

definition example_csrs :: csrs where
  "example_csrs =
     \<lparr>mhartid = 0, mstatus = 0, mepc = 0, mie = 0, medeleg = 0, mideleg = 0, mtvec = 0, mscratch = 0, mcounteren = 0, time = 0,
      pmpcfg0 = 0, pmpaddr0 = 0, sip = 0, sie = 0, sepc = 0x1000, stvec = 0, satp = 0, scause = 8, stval = 0, reg_tp = 0\<rparr>"

definition example_machine :: "(u64, sysfun) hash_map \<Rightarrow> machine" where
  "example_machine t =
     \<lparr>kern = upd_proc example_kernel 9 (\<lambda>x. x\<lparr>frame := (frame x)\<lparr>tf_a7 := SYS_CLOSE\<rparr>\<rparr>), regs = example_csrs, disk = example_disk, plic_claims = [],
      plic_writes = [], uart_rx = [], syscallMap = t, ticks = 0, ticks_mutex = new_SpinMutex, ticks_address = 0x80300000,
      readPos_address = 0x80300008, buffer_address = (\<lambda>b. 0x80400000 + of_nat b), kernelVector = 0x80000200, userVector = 0x80007000,
      returnUser = 0x80007080, userTrap_address = 0x80000300\<rparr>"

lemma example_machine_facts:
  "read_sstatus (example_machine t) AND SSTATUS_SPP = 0" "scause (regs (example_machine t)) = 8" "sepc (regs (example_machine t)) = 0x1000"
  "cpu_process (sched (kern (example_machine t))) = Some 9" "tf_a7 (frame (proc (kern (example_machine t)) 9)) = SYS_CLOSE"
  "syscallMap (example_machine t) = t"
  "call Close (entered (example_machine t) 9) 9 = Inr (Value (- 1), entered (example_machine t) 9)"
  "cpu_process (sched (entered (example_machine t) 9)) = Some 9"
  by (simp_all add: example_machine_def example_csrs_def read_sstatus_def SSTATUS_SPP_def example_kernel_def example_sched_def proc_def upd_proc_def
      upd_process_def entered_def set_cpu_def Let_def call_def sys_close_def getArgFd_def getArgInt_def getArg_def example_process_def new_TrapFrame_def)

end
