(* ===== verification/Fs_Directory.thy ===== *)
theory Fs_Directory
  imports Fs_Inode
begin

unbundle bit_operations_syntax

text \<open>
  Directories as lists of entries: what \<open>dirLookup\<close> and \<open>dirLink\<close> of \<open>kernel/fs/inode.cpp\<close> do to the entries of a
  directory whose contents lie in its direct blocks. The operations themselves are defined in \<open>Fs_Inode\<close>.
\<close>

section \<open>Names\<close>

definition cname :: "u8 list \<Rightarrow> u8 list" where
  "cname cs = takeWhile (\<lambda>c. c \<noteq> 0) cs"

lemma cname_simps [simp]: "cname [] = []" "cname (c # cs) = (if c = 0 then [] else c # cname cs)"
  by (simp_all add: cname_def)

text \<open>A terminated name that is shorter than the other array is compared as a string.\<close>

lemma strncmp_bytes_names:
  assumes "0 \<in> set name" "length (cname name) < length en"
  shows "\<exists>c. strncmp_bytes name en = Inr c \<and> (c = 0 \<longleftrightarrow> cname name = cname en)"
  using assms
proof (induction name en rule: strncmp_bytes.induct)
  case (1 x xs y ys)
  then show ?case by (cases "x = y"; cases "x = 0") (auto simp: word_uint_eq_iff)
qed simp_all

lemma strncpy_bytes_name:
  assumes "0 \<in> set name" "length (cname name) \<le> n"
  shows "strncpy_bytes name n = Inr (cname name @ replicate (n - length (cname name)) 0)"
  using assms
proof (induction name n rule: strncpy_bytes.induct)
  case (3 x xs n)
  then show ?case by (cases "x = 0") auto
qed (auto simp: cname_def)

lemma cname_padded [simp]: "cname (cname name @ replicate k 0) = cname name"
  by (induction name) (cases k; simp)+

section \<open>Entries\<close>

definition dir_entry :: "(u32 \<Rightarrow> u8 list) \<Rightarrow> 'a dinode_scheme \<Rightarrow> nat \<Rightarrow> u8 list" where
  "dir_entry V x i = get_bytes (file_bytes V x) (16 * i) 16"

lemma dir_entry_size [simp]: "dir_entry V (x\<lparr>di_size := v\<rparr>) i = dir_entry V x i"
  by (simp add: dir_entry_def file_bytes_def)

definition names :: "u8 list \<Rightarrow> u8 list \<Rightarrow> bool" where
  "names name e \<longleftrightarrow> entry_inum e \<noteq> 0 \<and> cname (entry_name e) = cname name"

definition made_entry :: "u8 list \<Rightarrow> u32 \<Rightarrow> u8 list" where
  "made_entry name inum = bytes_of_word 2 (ucast inum :: u16) @ cname name @ replicate (14 - length (cname name)) 0"

text \<open>The search of \<open>dirLookup\<close> and of \<open>dirLink\<close>, from entry \<open>i\<close> of \<open>n\<close>.\<close>

definition entry_with :: "(u8 list \<Rightarrow> bool) \<Rightarrow> (u32 \<Rightarrow> u8 list) \<Rightarrow> 'a dinode_scheme \<Rightarrow> nat \<Rightarrow> nat \<Rightarrow> nat option" where
  "entry_with P V x i n = find (\<lambda>j. P (dir_entry V x j)) [i..<n]"

lemma entry_with_step:
  "entry_with P V x i n = (if i < n then if P (dir_entry V x i) then Some i else entry_with P V x (Suc i) n else None)"
  by (simp add: entry_with_def upt_rec)

lemma read_entry:
  assumes op: "op_view D B s V m" and x: "x = inode_of s dp" "i_device x = D" and ok: "direct_ok B x (16 * n)"
    and sz: "unat (di_size x) = 16 * n" and i: "i < n" and e: "length e = 16"
  shows "\<exists>s'. inode_read s dp (Object e 0) (of_nat (16 * i)) DIR_ENTRY_SIZE = Inr (16, Object (dir_entry V x i) 16, s') \<and>
    op_view D B s' V m \<and> op_frame s s' \<and> length (dir_entry V x i) = 16"
proof -
  let ?o = "of_nat (16 * i) :: u32"
  have n12: "16 * n \<le> 12288" and dl: "length (di_direct x) = NUM_DIRECT_BLOCKS"
    using ok by (simp_all add: direct_ok_def NUM_DIRECT_BLOCKS_def BLOCK_SIZE_def)
  have u: "unat ?o = 16 * i" using i n12 by (simp add: unat_of_nat take_bit_nat_eq_self del: of_nat_mult)
  have ok': "direct_ok B x (16 * i + 16)" using direct_ok_mono [OF ok] i by auto
  have ln: "\<forall>b. length (V b) = BLOCK_SIZE" using op_cells(3) [OF op] by blast
  have len: "length (dir_entry V x i) = 16"
    unfolding dir_entry_def using file_length [OF ln dl] i n12 by (intro length_get_bytes) (simp add: NUM_DIRECT_BLOCKS_def BLOCK_SIZE_def)
  have "put_bytes e 0 (dir_entry V x i) = dir_entry V x i" using e len by (simp add: put_bytes_def)
  then show ?thesis
    using inode_read_law [OF op x ok', of ?o 16 0 e] u sz i e len by (auto simp: DIR_ENTRY_SIZE_def dir_entry_def)
qed

section \<open>Lookup\<close>

text \<open>A name that fits: terminated, of at most 13 characters.\<close>

definition fits :: "u8 list \<Rightarrow> bool" where
  "fits name \<longleftrightarrow> 0 \<in> set name \<and> length (cname name) < MAX_DIR_NAME_LENGTH"

lemma entry_slot:
  assumes "unat (di_size x) = 16 * n" "16 * n \<le> 12288" "i \<le> n"
  shows "(of_nat (16 * i) :: u32) < di_size x \<longleftrightarrow> i < n" "(of_nat (16 * i) :: u32) + DIR_ENTRY_SIZE = of_nat (16 * Suc i)"
proof -
  have "unat (of_nat (16 * i) :: u32) = 16 * i" using assms by (simp add: unat_of_nat take_bit_nat_eq_self del: of_nat_mult)
  then show "(of_nat (16 * i) :: u32) < di_size x \<longleftrightarrow> i < n" using assms by (simp add: word_less_nat_alt del: of_nat_mult)
qed (simp add: DIR_ENTRY_SIZE_def)

definition found :: "'a istate \<Rightarrow> nat \<Rightarrow> u32 \<Rightarrow> u16 \<Rightarrow> nat \<Rightarrow> ((nat \<times> u32) option \<times> 'a istate) outcome" where
  "found s dp D num i =
     andThen (inode_get (upd_inode s dp (\<lambda>x. x\<lparr>i_inum := ucast num\<rparr>)) D (ucast num)) (\<lambda>(ip, s1). Inr (Some (ip, of_nat (16 * i)), s1))"

lemma dirLookup_loop_law:
  assumes "op_view D B s V m" "x = inode_of s dp" "i_device x = D" "direct_ok B x (16 * n)" "unat (di_size x) = 16 * n"
    "fits name" "length e = 16" "i \<le> n" "n < i + k"
  shows "\<exists>s'. op_view D B s' V m \<and> op_frame s s' \<and> dirLookup_loop s dp name (of_nat (16 * i)) e k =
    (case entry_with (names name) V x i n of None \<Rightarrow> Inr (None, s')
     | Some j \<Rightarrow> found s' dp D (entry_inum (dir_entry V x j)) j)"
  using assms
proof (induction k arbitrary: s e i)
  case (Suc k)
  have n12: "16 * n \<le> 12288" using Suc.prems(4) by (simp add: direct_ok_def NUM_DIRECT_BLOCKS_def BLOCK_SIZE_def)
  note slot = entry_slot [OF Suc.prems(5) n12 Suc.prems(8)]
  show ?case
  proof (cases "i < n")
    case False
    then have "dirLookup_loop s dp name (of_nat (16 * i)) e (Suc k) = Inr (None, s)" using slot(1) Suc.prems(2) by simp
    then show ?thesis using False Suc.prems(1) by (intro exI [of _ s]) (simp add: entry_with_step)
  next
    case True
    let ?e = "dir_entry V x i"
    obtain s1 where r: "inode_read s dp (Object e 0) (of_nat (16 * i)) DIR_ENTRY_SIZE = Inr (16, Object ?e 16, s1)"
      "op_view D B s1 V m" "op_frame s s1" "length ?e = 16"
      using read_entry [OF Suc.prems(1-5) True Suc.prems(7)] by blast
    have x1: "x = inode_of s1 dp" using inode_more(2) [of s1 s] r(3) Suc.prems(2) by (simp add: op_frame_def)
    obtain c where c: "strncmp_bytes name (entry_name ?e) = Inr c" "c = 0 \<longleftrightarrow> cname name = cname (entry_name ?e)"
      using strncmp_bytes_names [of name "entry_name ?e"] Suc.prems(6) r(4)
      by (auto simp: fits_def entry_name_def get_bytes_def MAX_DIR_NAME_LENGTH_def)
    have step: "dirLookup_loop s dp name (of_nat (16 * i)) e (Suc k) =
        (if names name ?e then found s1 dp D (entry_inum ?e) i else dirLookup_loop s1 dp name (of_nat (16 * Suc i)) ?e k)"
      using True slot r(1) c x1 Suc.prems(2,3) by (auto simp: names_def found_def Let_def add.commute simp del: of_nat_mult of_nat_Suc)
    show ?thesis
    proof (cases "names name ?e")
      case True
      then show ?thesis using step r(2,3) \<open>i < n\<close> by (intro exI [of _ s1]) (simp add: entry_with_step)
    next
      case False
      have "Suc i \<le> n" "n < Suc i + k" using True Suc.prems(9) by simp_all
      from Suc.IH [OF r(2) x1 Suc.prems(3-6) r(4) this] show ?thesis
        unfolding step using False True op_frame_trans [OF r(3)] by (subst entry_with_step) auto
    qed
  qed
qed simp

lemma dirLookup_law:
  assumes "op_view D B s V m" "x = inode_of s dp" "i_device x = D" "di_type x = T_DIR" "direct_ok B x (16 * n)" "unat (di_size x) = 16 * n" "fits name"
  shows "\<exists>s'. op_view D B s' V m \<and> op_frame s s' \<and> dirLookup s dp name =
    (case entry_with (names name) V x 0 n of None \<Rightarrow> Inr (None, s')
     | Some j \<Rightarrow> found s' dp D (entry_inum (dir_entry V x j)) j)"
  using dirLookup_loop_law [OF assms(1-3,5-7), of "replicate 16 0" 0 "entry_slots s dp"] assms(2,4,6)
  by (simp add: dirLookup_def entry_slots_def del: dirLookup_loop.simps)

lemma free_entry_loop_law:
  assumes "op_view D B s V m" "x = inode_of s dp" "i_device x = D" "direct_ok B x (16 * n)" "unat (di_size x) = 16 * n"
    "length e = 16" "i \<le> n" "n < i + k"
  shows "\<exists>s' e'. op_view D B s' V m \<and> op_frame s s' \<and> length e' = 16 \<and> free_entry_loop s dp (of_nat (16 * i)) e k =
    Inr (of_nat (16 * (case entry_with (\<lambda>e. entry_inum e = 0) V x i n of None \<Rightarrow> n | Some j \<Rightarrow> j)), e', s')"
  using assms
proof (induction k arbitrary: s e i)
  case (Suc k)
  have n12: "16 * n \<le> 12288" using Suc.prems(4) by (simp add: direct_ok_def NUM_DIRECT_BLOCKS_def BLOCK_SIZE_def)
  note slot = entry_slot [OF Suc.prems(5) n12 Suc.prems(7)]
  show ?case
  proof (cases "i < n")
    case False
    then show ?thesis using slot(1) Suc.prems(1,2,6,7) by (intro exI [of _ s] exI [of _ e]) (simp add: entry_with_step)
  next
    case True
    let ?e = "dir_entry V x i"
    obtain s1 where r: "inode_read s dp (Object e 0) (of_nat (16 * i)) DIR_ENTRY_SIZE = Inr (16, Object ?e 16, s1)"
      "op_view D B s1 V m" "op_frame s s1" "length ?e = 16"
      using read_entry [OF Suc.prems(1-5) True Suc.prems(6)] by blast
    have x1: "x = inode_of s1 dp" using inode_more(2) [of s1 s] r(3) Suc.prems(2) by (simp add: op_frame_def)
    have step: "free_entry_loop s dp (of_nat (16 * i)) e (Suc k) =
        (if entry_inum ?e = 0 then Inr (of_nat (16 * i), ?e, s1) else free_entry_loop s1 dp (of_nat (16 * Suc i)) ?e k)"
      using True slot r(1) Suc.prems(2) by (auto simp: Let_def add.commute simp del: of_nat_mult of_nat_Suc)
    show ?thesis
    proof (cases "entry_inum ?e = 0")
      case True
      then show ?thesis using step r(2-4) \<open>i < n\<close> by (intro exI [of _ s1] exI [of _ ?e]) (simp add: entry_with_step)
    next
      case False
      have "Suc i \<le> n" "n < Suc i + k" using True Suc.prems(8) by simp_all
      from Suc.IH [OF r(2) x1 Suc.prems(3-5) r(4) this] show ?thesis
        unfolding step using False True op_frame_trans [OF r(3)] by (subst entry_with_step) auto
    qed
  qed
qed simp

section \<open>The inode table\<close>

lemma itable_op [simp]: "op_view D B (s\<lparr>itable := t\<rparr>) V m = op_view D B s V m" "op_view D B (s\<lparr>next_inode := k\<rparr>) V m = op_view D B s V m"
  "op_view D B (s\<lparr>inode_of := f\<rparr>) V m = op_view D B s V m" "log_region (s\<lparr>inode_of := f\<rparr>) = log_region s"
  by (simp_all add: op_view_def log_layout_def cache_inv_def cells_def ptr_def logged_def log_region_def log_cap_def)

text \<open>\<open>Inode::get\<close> delivers the object that the table has for the number from then on.\<close>

lemma inode_get_law:
  assumes "op_view D B s V m" "hm_invar (itable s)"
  shows "\<exists>ip s'. inode_get s D inum = Inr (ip, s') \<and> op_view D B s' V m \<and> hm_invar (itable s') \<and>
    hm_lookup (itable s') (buffer_key D inum) = Some ip \<and>
    (case hm_lookup (itable s) (buffer_key D inum) of
       None \<Rightarrow> inode_of s' = (inode_of s)(ip := new_Inode\<lparr>i_device := D, i_inum := inum, i_refCount := 1, i_valid := False\<rparr>)
     | Some jp \<Rightarrow> ip = jp \<and> inode_of s' = (inode_of s)(ip := (inode_of s ip)\<lparr>i_refCount := i_refCount (inode_of s ip) + 1\<rparr>))"
proof -
  let ?key = "buffer_key D inum"
  obtain t where t: "subscript (itable s) ?key (next_inode s) =
      Inr (t, case hm_lookup (itable s) ?key of None \<Rightarrow> next_inode s | Some v \<Rightarrow> v)" "hm_invar t"
    "hm_lookup t ?key = Some (case hm_lookup (itable s) ?key of None \<Rightarrow> next_inode s | Some v \<Rightarrow> v)"
    using subscript_law [OF assms(2), of ?key "next_inode s"] by auto
  have c: "contains (itable s) ?key = Inr (hm_lookup (itable s) ?key \<noteq> None)" using contains_iff [OF assms(2)] .
  show ?thesis
    using assms(1) t by (cases "hm_lookup (itable s) ?key") (simp_all add: inode_get_def c upd_inode_def)
qed

lemma found_law:
  assumes "op_view D B s V m" "hm_invar (itable s)"
  shows "\<exists>ip s'. found s dp D num i = Inr (Some (ip, of_nat (16 * i)), s') \<and> op_view D B s' V m \<and>
    hm_lookup (itable s') (buffer_key D (ucast num)) = Some ip \<and> i_inum (inode_of s' dp) = ucast num"
proof -
  let ?s = "upd_inode s dp (\<lambda>x. x\<lparr>i_inum := ucast num\<rparr>)"
  have "op_view D B ?s V m" "hm_invar (itable ?s)" using assms by simp_all
  from inode_get_law [OF this, of "ucast num"] obtain ip s' where g: "inode_get ?s D (ucast num) = Inr (ip, s')" "op_view D B s' V m"
    "hm_lookup (itable s') (buffer_key D (ucast num)) = Some ip" "i_inum (inode_of s' dp) = ucast num"
    by (auto split: option.splits)
  then show ?thesis by (intro exI [of _ ip] exI [of _ s']) (simp add: found_def)
qed

section \<open>Link\<close>

lemma made_entry_fields:
  assumes "length (cname name) < MAX_DIR_NAME_LENGTH"
  shows "length (made_entry name inum) = 16" "entry_inum (made_entry name inum) = ucast inum" "cname (entry_name (made_entry name inum)) = cname name"
proof -
  let ?n = "cname name @ replicate (14 - length (cname name)) 0"
  have l: "length (bytes_of_word 2 (ucast inum :: u16)) = 2" "length ?n = 14" using assms by (simp_all add: MAX_DIR_NAME_LENGTH_def)
  then show "length (made_entry name inum) = 16" by (simp add: made_entry_def)
  show "entry_inum (made_entry name inum) = ucast inum" using l word_of_bytes_of_word [of 2 "ucast inum :: u16"]
    by (simp add: made_entry_def entry_inum_def get16_def get_bytes_def)
  have "entry_name (made_entry name inum) = ?n" using l by (simp add: made_entry_def entry_name_def get_bytes_def MAX_DIR_NAME_LENGTH_def)
  then show "cname (entry_name (made_entry name inum)) = cname name" by simp
qed

lemma made_entry_bytes:
  assumes "length e = 16" "fits name"
  shows "put16 (put_bytes e 2 (cname name @ replicate (MAX_DIR_NAME_LENGTH - length (cname name)) 0)) 0 (ucast inum) = made_entry name inum"
  using assms by (simp add: put16_def put_bytes_def made_entry_def fits_def MAX_DIR_NAME_LENGTH_def)

lemma dirLink_law:
  assumes op: "op_view D B s V (2 + m)" and x: "x = inode_of s dp" "i_device x = D" "di_type x = T_DIR"
    and sz: "unat (di_size x) = 16 * n" and j: "j = (case entry_with (\<lambda>e. entry_inum e = 0) V x 0 n of None \<Rightarrow> n | Some j \<Rightarrow> j)"
    and ok: "direct_ok (B - log_region s) x (16 * max n (Suc j))"
    and blk: "blk = iblock (i_inum x) (superBlock s)" "blk \<in> B - log_region s" "blk \<notin> set (di_direct x)"
    and name: "fits name" "entry_with (names name) V x 0 n = None"
  shows "\<exists>s' W. dirLink s dp name inum = Inr (True, s') \<and> op_view D B s' W m \<and> itable s' = itable s \<and>
    inode_of s' = (inode_of s)(dp := x\<lparr>di_size := of_nat (16 * max n (Suc j))\<rparr>) \<and>
    (\<forall>i < max n (Suc j). dir_entry W x i = (if i = j then made_entry name inum else dir_entry V x i))"
proof -
  let ?o = "of_nat (16 * j) :: u32" and ?e = "made_entry name inum" and ?N = "max n (Suc j)"
  have okB: "direct_ok B x (16 * n)" using direct_ok_mono [OF ok] by auto
  have jn: "j \<le> n" using j by (auto simp: entry_with_def find_Some_iff split: option.splits)
  have n12: "16 * ?N \<le> 12288" and dl: "length (di_direct x) = NUM_DIRECT_BLOCKS"
    using ok by (simp_all add: direct_ok_def NUM_DIRECT_BLOCKS_def BLOCK_SIZE_def)
  have u: "unat ?o = 16 * j" "unat (?o + 16) = 16 * Suc j"
    using jn n12 by (simp_all add: unat_of_nat take_bit_nat_eq_self unat_plus_if' del: of_nat_mult)
  obtain s1 where s1: "op_view D B s1 V (2 + m)" "op_frame s s1" "dirLookup s dp name = Inr (None, s1)"
    using dirLookup_law [OF op x okB sz name(1)] name(2) by auto
  have x1: "x = inode_of s1 dp" using inode_more(2) [of s1 s] s1(2) x(1) by (simp add: op_frame_def)
  obtain s2 e where s2: "op_view D B s2 V (2 + m)" "op_frame s1 s2" "length e = 16"
    "free_entry_loop s1 dp 0 (replicate 16 0) (entry_slots s1 dp) = Inr (?o, e, s2)"
    using free_entry_loop_law [OF s1(1) x1 x(2) okB sz, of "replicate 16 0" 0 "entry_slots s1 dp"] x1 sz j
    by (auto simp: entry_slots_def simp del: free_entry_loop.simps of_nat_mult)
  have f2: "op_frame s s2" using op_frame_trans [OF s1(2) s2(2)] .
  have m2: "superBlock s2 = superBlock s" "inode_of s2 = inode_of s" "itable s2 = itable s" "log_region s2 = log_region s"
    using inode_more [of s2 s] f2 op_frame_region(1) [OF f2] by (simp_all add: op_frame_def)
  have nm: "strncpy_bytes name MAX_DIR_NAME_LENGTH = Inr (cname name @ replicate (MAX_DIR_NAME_LENGTH - length (cname name)) 0)"
    using strncpy_bytes_name [of name MAX_DIR_NAME_LENGTH] name(1) by (simp add: fits_def)
  note ef = made_entry_fields [of name inum]
  have le: "length ?e = 16" using name(1) ef(1) by (simp add: fits_def)
  have op2: "op_view D B s2 V (1 + 1 + m)" "x = inode_of s2 dp" using s2(1) m2(2) x(1) by (simp_all add: numeral_2_eq_2)
  have "direct_ok (B - log_region s2) x (unat ?o + unat (16 :: u32))" unfolding u(1) m2(4) by (rule direct_ok_mono [OF ok]) (auto simp: max_def)
  moreover have "unat ?o mod BLOCK_SIZE + unat (16 :: u32) \<le> 1 * BLOCK_SIZE"
  proof -
    have "16 * j mod 1024 = 16 * (j mod 64)" by (simp add: mult_mod_right)
    moreover have "j mod 64 < 64" by simp
    ultimately show ?thesis unfolding u(1) by (simp add: BLOCK_SIZE_def del: mod_less_divisor)
  qed
  moreover have "?o \<le> di_size x" "0 + unat (16 :: u32) \<le> length ?e" using u(1) sz jn le by (simp_all add: word_le_nat_alt)
  moreover have "blk = iblock (i_inum x) (superBlock s2)" "blk \<in> B - log_region s2" using blk(1,2) m2(1,4) by simp_all
  ultimately obtain s3 W where w: "inode_write s2 dp (Object ?e 0) ?o 16 = Inr (int (unat (16 :: u32)), s3)" "op_view D B s3 W m"
    "inode_of s3 = (inode_of s2)(dp := x\<lparr>di_size := max (di_size x) (?o + 16)\<rparr>)" "itable s3 = itable s2"
    "file_bytes W x = put_bytes (file_bytes V x) (unat ?o) (get_bytes ?e 0 (unat (16 :: u32)))"
    using inode_write_law [OF op2 x(2) _ refl _ _ blk(3)] by blast
  have "max (di_size x) (?o + 16) = of_nat (16 * ?N)"
    by (rule word_unat_eq_iff [THEN iffD2]) (use u sz n12 jn in \<open>auto simp: max_def word_le_nat_alt unat_of_nat take_bit_nat_eq_self simp del: of_nat_mult\<close>)
  moreover have "dirLink s dp name inum = Inr (True, s3)"
    using s1(3) s2(3,4) nm w(1) made_entry_bytes [OF s2(3) name(1)] by (simp add: dirLink_def DIR_ENTRY_SIZE_def del: of_nat_mult)
  moreover have "dir_entry W x i = (if i = j then ?e else dir_entry V x i)" if "i < ?N" for i
  proof -
    have ln: "\<forall>b. length (V b) = BLOCK_SIZE" using op_cells(3) [OF op] by blast
    have fl: "length (file_bytes V x) = 12288" using file_length [OF ln dl] by (simp add: NUM_DIRECT_BLOCKS_def BLOCK_SIZE_def)
    have g: "get_bytes ?e 0 16 = ?e" using le by (simp add: get_bytes_def)
    show ?thesis
    proof (cases "i = j")
      case True
      then show ?thesis using fl le g n12 by (simp add: dir_entry_def w(5) u(1) del: of_nat_mult)
    next
      case False
      then have "get_bytes (put_bytes (file_bytes V x) (16 * j) ?e) (16 * i) 16 = get_bytes (file_bytes V x) (16 * i) 16"
        using fl le n12 that by (intro get_put_bytes_other) auto
      then show ?thesis using False g by (simp add: dir_entry_def w(5) u(1) del: of_nat_mult)
    qed
  qed
  ultimately show ?thesis using w(2-4) m2(2,3) by (intro exI [of _ s3] exI [of _ W]) simp
qed

section \<open>Properties\<close>

text \<open>
  C12: a directory entry that \<open>dirLink\<close> has made is found by \<open>dirLookup\<close>. In an operation with room for two writes, a name of at most
  13 characters that the directory does not have is linked in the first free slot, or at the end when there is none, and no other
  entry changes; the lookup then returns the inode object of the number, at the offset of the slot. (The
  lookup also stores the number in the directory's own object.)
\<close>

theorem dir_link_then_lookup:
  assumes op: "op_view D B s V (2 + m)" and x: "x = inode_of s dp" "i_device x = D" "di_type x = T_DIR"
    and sz: "unat (di_size x) = 16 * n" and j: "j = (case entry_with (\<lambda>e. entry_inum e = 0) V x 0 n of None \<Rightarrow> n | Some j \<Rightarrow> j)"
    and ok: "direct_ok (B - log_region s) x (16 * max n (Suc j))"
    and blk: "blk = iblock (i_inum x) (superBlock s)" "blk \<in> B - log_region s" "blk \<notin> set (di_direct x)"
    and name: "fits name" "entry_with (names name) V x 0 n = None" and inum: "num = (ucast inum :: u16)" "num \<noteq> 0" and tab: "hm_invar (itable s)"
  shows "\<exists>s1 W ip s2. dirLink s dp name inum = Inr (True, s1) \<and> op_view D B s1 W m \<and>
    (\<forall>i < max n (Suc j). dir_entry W x i = (if i = j then made_entry name inum else dir_entry V x i)) \<and>
    dirLookup s1 dp name = Inr (Some (ip, of_nat (16 * j)), s2) \<and> op_view D B s2 W m \<and>
    hm_lookup (itable s2) (buffer_key D (ucast num)) = Some ip \<and> i_inum (inode_of s2 dp) = ucast num"
proof -
  let ?N = "max n (Suc j)" and ?e = "made_entry name inum"
  let ?y = "x\<lparr>di_size := of_nat (16 * ?N)\<rparr>"
  obtain s1 W where s1: "dirLink s dp name inum = Inr (True, s1)" "op_view D B s1 W m" "itable s1 = itable s"
    "inode_of s1 = (inode_of s)(dp := ?y)" "\<forall>i < ?N. dir_entry W x i = (if i = j then ?e else dir_entry V x i)"
    using dirLink_law [OF op x sz j ok blk name, of inum] by blast
  have N12: "16 * ?N \<le> 12288" using ok by (simp add: direct_ok_def NUM_DIRECT_BLOCKS_def BLOCK_SIZE_def)
  have jn: "j \<le> n" using j by (auto simp: entry_with_def find_Some_iff split: option.splits)
  have ef: "entry_inum ?e = num" "cname (entry_name ?e) = cname name"
    using made_entry_fields [of name inum] name(1) inum(1) by (simp_all add: fits_def)
  have "\<not> names name (dir_entry V x i)" if "i < n" for i using name(2) that by (simp add: entry_with_def find_None_iff)
  moreover have "names name ?e" using ef inum(2) by (simp add: names_def)
  ultimately have "entry_with (names name) W ?y 0 ?N = Some j"
    using s1(5) jn by (auto simp: entry_with_def find_upt)
  moreover have "?y = inode_of s1 dp" "i_device ?y = D" "di_type ?y = T_DIR" "direct_ok B ?y (16 * ?N)" "unat (di_size ?y) = 16 * ?N"
    using s1(4) x(2,3) direct_ok_mono [OF ok, of "16 * ?N" B] N12
    by (auto simp: direct_ok_def unat_of_nat take_bit_nat_eq_self simp del: of_nat_mult of_nat_max)
  moreover have "dir_entry W ?y j = ?e" using s1(5) by simp
  ultimately obtain s2 where s2: "op_view D B s2 W m" "op_frame s1 s2" "dirLookup s1 dp name = found s2 dp D num j"
    using dirLookup_law [OF s1(2), of ?y dp ?N name] name(1) ef(1) by auto
  have "hm_invar (itable s2)" using inode_more(3) [of s2 s1] s2(2) s1(3) tab by (simp add: op_frame_def)
  from found_law [OF s2(1) this, of dp num j] show ?thesis
    unfolding s2(3) [symmetric] using s1(1,2,5) by (elim exE conjE) (intro exI conjI)
qed

definition example_dir :: ino_state where
  "example_dir = example_inodes\<lparr>inode_of := (inode_of example_inodes)(0 := (inode_of example_inodes 0)\<lparr>di_type := T_DIR, di_size := 32\<rparr>)\<rparr>"

theorem dir_link_then_lookup_witness:
  "\<exists>s1 ip s2. dirLink example_dir 0 [97, 0] 7 = Inr (True, s1) \<and> dirLookup s1 0 [97, 0] = Inr (Some (ip, 0), s2)"
proof -
  let ?x = "inode_of example_dir 0" and ?V = "disk_blocks example_op" and ?X = "example_blocks - log_region example_dir"
  have e: "log_region example_dir = log_region example_inodes" "superBlock example_dir = example_super" "hm_invar (itable example_dir)"
    using example_inodes_view(3) by (simp_all add: example_dir_def)
      (simp add: example_inodes_def blk_state.defs ino_state.defs hm_invar_def mask_eq_exp_minus_1 less_Suc_eq)
  have x: "i_device ?x = 1" "di_type ?x = T_DIR" "di_direct ?x = 100 # replicate 11 0" "i_inum ?x = 20" "di_size ?x = 32"
    by (simp_all add: example_dir_def example_inodes_def blk_state.defs ino_state.defs)
  have op: "op_view 1 example_blocks example_dir ?V (2 + 2)" using example_inodes_view(1) by (simp add: example_dir_def)
  have r: "y \<in> ?X" if "33 \<le> y" "y < 256" for y
    using that example_region [OF example_inodes_view(2), of y] e(1) by auto
  have blk: "iblock (i_inum ?x) (superBlock example_dir) = 34"
    by (simp add: x(4) e(2) iblock_def example_super_def INODES_PER_BLOCK_def BLOCK_SIZE_def)
  have "(100 # replicate 11 (0 :: u32)) ! i = 0" if "0 < i" "i < 12" for i using that by (simp add: nth_Cons')
  then have ok: "direct_ok ?X ?x 32"
    using r [of 100] unfolding direct_ok_def x(3) NUM_DIRECT_BLOCKS_def BLOCK_SIZE_def by (auto simp: nth_Cons')
  have "dir_entry ?V ?x i = replicate 16 0" if "i < 2" for i
    using that by (auto simp: dir_entry_def file_bytes_def x(3) example_op_def get_bytes_def BLOCK_SIZE_def)
  then have z: "entry_inum (dir_entry ?V ?x i) = 0" if "i < 2" for i
    using that by (simp add: entry_inum_def get16_def get_bytes_def numeral_eq_Suc)
  then have f: "entry_with (\<lambda>e. entry_inum e = 0) ?V ?x 0 2 = Some 0" "entry_with (names [97, 0]) ?V ?x 0 2 = None"
    by (simp_all add: entry_with_def upt_rec names_def)
  show ?thesis
    using dir_link_then_lookup [OF op refl x(1,2), of 2 0 34 "[97, 0]" 7 7] f ok r [of 34] blk e(3) x(3,5)
    by (auto simp: fits_def MAX_DIR_NAME_LENGTH_def)
qed

end
