(* ===== verification/Proc_Fork.thy ===== *)
theory Proc_Fork
  imports Proc_Process
begin

unbundle bit_operations_syntax

text \<open>
  The making of processes, across the components that take part in it: the page table of a new process, \<open>new Process\<close> and
  \<open>Process::fork\<close> of \<open>kernel/process/process.cpp\<close>, which are defined in \<open>Proc_Process\<close>. The proofs rest on the contracts
  of the page mapper, of the frame source, of the mutexes inside the kernel's state and of the ready queue.
\<close>

section \<open>Mutexes of the kernel\<close>

interpretation pid_lock: guarded_state "\<lambda>k. this_cpu (sched k)" "\<lambda>k. tp (sched k)" pidMutex "\<lambda>k c m. (set_cpu k c)\<lparr>pidMutex := m\<rparr>"
  lock_pid unlock_pid
  by unfold_locales (simp_all add: lock_pid_def unlock_pid_def set_cpu_def)

interpretation wait_lock: guarded_state "\<lambda>k. this_cpu (sched k)" "\<lambda>k. tp (sched k)" waitMutex "\<lambda>k c m. (set_cpu k c)\<lparr>waitMutex := m\<rparr>"
  lock_wait unlock_wait
  by unfold_locales (simp_all add: lock_wait_def unlock_wait_def set_cpu_def)

lemma take_pid_law:
  assumes "pidMutex k = new_SpinMutex" "quiet (Suc n) (this_cpu (sched k))"
  shows "take_pid k = Inr (nextPid k, k\<lparr>sched := (sched k)\<lparr>this_cpu := settle (this_cpu (sched k))\<rparr>, nextPid := nextPid k + 1\<rparr>)"
proof -
  let ?k = "(set_cpu k (push (this_cpu (sched k))))\<lparr>pidMutex := own (tp (sched k)), nextPid := nextPid k + 1\<rparr>"
  have "unlock_pid ?k = Inr ((set_cpu ?k (settle (this_cpu (sched k))))\<lparr>pidMutex := new_SpinMutex\<rparr>)"
    by (rule pid_lock.release_own [OF _ _ assms(2)]) (simp_all add: set_cpu_def)
  then show ?thesis
    using pid_lock.acquire_free [OF assms(1)] assms(1) by (cases k) (simp add: take_pid_def set_cpu_def)
qed

section \<open>The page table of a process\<close>

definition trampoline_flags :: u16 where
  "trampoline_flags = ucast (PTE_R OR PTE_X)"

definition trapframe_flags :: u16 where
  "trapframe_flags = ucast (PTE_R OR PTE_W)"

lemma process_pages:
  "page_aligned TRAMPOLINE" "page_aligned TRAPFRAME" "TRAMPOLINE < MAX_VIRTUAL_ADDRESS" "TRAPFRAME < MAX_VIRTUAL_ADDRESS" "TRAPFRAME \<noteq> TRAMPOLINE"
  by (simp_all add: page_aligned_mod TRAMPOLINE_def TRAPFRAME_def MAX_VIRTUAL_ADDRESS_eq PAGE_SIZE_def)

text \<open>A new table holds the trampoline and the trap frame and nothing else.\<close>

lemma makePageTable_law:
  assumes ff: "free_frames s F" and card: "5 \<le> card F"
  shows "\<exists>pt s' F'. makePageTable s tramp tf = Inr (pt, s') \<and> pt_wf (memory s') pt F' \<and> free_frames s' F' \<and> F' \<subseteq> F \<and>
    card F \<le> card F' + 5 \<and> tables (memory s') pt \<subseteq> F - F' \<and> touched_pages (F - F') s s' \<and>
    (\<forall>page < MAX_VIRTUAL_ADDRESS. page_aligned page \<longrightarrow> entry_of (memory s') pt page =
       (if page = TRAMPOLINE then fill_entry 0 tramp trampoline_flags
        else if page = TRAPFRAME then fill_entry 0 tf trapframe_flags else 0))"
proof -
  have "F \<noteq> {}" using card by auto
  then obtain pt s1 where p: "page_allocate s = Inr (pt, s1)" "pt \<in> F" "free_frames s1 (F - {pt})" "page_aligned pt"
    "zero_page (memory s1) pt" "\<And>q. q \<noteq> pt \<Longrightarrow> same_page q (memory s1) (memory s)"
    using pg.alloc_law [OF ff] by blast
  let ?s = "new_PageTable s1 pt"
  have off: "same_page q (memory ?s) (memory s1)" if "page_aligned q" "q \<noteq> pt" for q
    using store64_other_page_0 [of pt q] p(4) that by (simp add: new_PageTable_def)
  have al: "page_aligned q" if "q \<in> F" for q using ff that by (auto simp: free_frames_def page_inv_def)
  have "zero_page (memory ?s) pt"
    using p(5) by (auto simp: new_PageTable_def zero_page_def store64_def write_bytes_def nth_bytes_of_word)
  note fr = fresh_root [OF this p(4), of "F - {pt}"]
  have "free_frames (s1\<lparr>memory := memory ?s\<rparr>) (F - {pt})"
    by (rule pg.put_law [OF p(3)]) (use off al same_page_sym in auto)
  then have f1: "free_frames ?s (F - {pt})" by (simp add: new_PageTable_def)
  have fin: "finite F" using ff by (auto simp: free_frames_def)
  have c: "card F = Suc (card (F - {pt}))" using fin p(2) by (rule card.remove)
  have "4 \<le> card (F - {pt})" using card c by linarith
  from pm.map_two [OF fr(1) f1 this process_pages(1,3,2,4,5) fr(3) fr(3), of tramp trampoline_flags tf trapframe_flags]
  obtain s2 s3 F' where m: "map_pages ?s pt TRAMPOLINE PAGE_SIZE tramp trampoline_flags = Inr (True, s2)"
    "map_pages s2 pt TRAPFRAME PAGE_SIZE tf trapframe_flags = Inr (True, s3)" "pt_wf (memory s3) pt F'" "free_frames s3 F'"
    "F' \<subseteq> F - {pt}" "card (F - {pt}) \<le> card F' + 4" "tables (memory s3) pt = tables (memory ?s) pt \<union> (F - {pt} - F')"
    "touched_pages (tables (memory ?s) pt \<union> (F - {pt} - F')) ?s s3"
    "\<forall>page < MAX_VIRTUAL_ADDRESS. page_aligned page \<longrightarrow> entry_of (memory s3) pt page =
       (if page = TRAMPOLINE then fill_entry 0 tramp trampoline_flags
        else if page = TRAPFRAME then fill_entry 0 tf trapframe_flags else entry_of (memory ?s) pt page)"
    by auto
  have "touched_pages {pt} s ?s" using off p(6) by (auto simp: touched_pages_def intro: same_page_trans)
  then have "touched_pages (F - F') s s3" using m(8) by (rule pm.touched_trans) (use p(2) m(5) fr(2) in auto)
  moreover have "makePageTable s tramp tf = Inr (pt, s3)"
    using p(1) m(1,2) by (simp add: makePageTable_def operator_new_page trampoline_flags_def trapframe_flags_def)
  moreover have "tables (memory s3) pt \<subseteq> F - F'" using m(5,7) fr(2) p(2) by auto
  moreover have "F' \<subseteq> F" "card F \<le> card F' + 5" using m(5,6) c by auto
  ultimately show ?thesis using m(3,4,9) fr(3) by (intro exI [of _ pt] exI [of _ s3] exI [of _ F']) simp
qed

section \<open>A new process\<close>

lemma kernel_stack_aligned: "page_aligned (kernel_stack pid)"
proof -
  have "unat (pid * 2 * PAGE_SIZE) mod 4096 = 0"
    by (simp add: PAGE_SIZE_def unat_word_ariths mod_mod_cancel)
  then have "page_aligned (pid * 2 * PAGE_SIZE)" by (simp add: page_aligned_mod)
  then show ?thesis using page_aligned_diff [OF process_pages(1)] by (simp add: kernel_stack_def)
qed

definition made_process :: "kernel \<Rightarrow> u64 \<Rightarrow> u64 \<Rightarrow> u64 \<Rightarrow> process" where
  "made_process k tf ks pt =
     blank_process\<lparr>p_pid := nextPid k, trapFrame := tf, kernelStackPage := ks, kernelStack := kernel_stack (nextPid k), pageTable := pt,
       p_context := zero_context\<lparr>ctx_ra := returnFork_address k, ctx_sp := kernel_stack (nextPid k) + PAGE_SIZE\<rparr>\<rparr>"

text \<open>What the constructor leaves of the pages: \<open>F'\<close> of the frames \<open>F\<close> are left, the new table \<open>pt\<close> is made of the others.\<close>

definition process_made :: "kernel \<Rightarrow> u64 set \<Rightarrow> page_state \<Rightarrow> u64 set \<Rightarrow> u64 \<Rightarrow> u64 \<Rightarrow> u64 \<Rightarrow> bool" where
  "process_made k F ps' F' tf ks pt \<longleftrightarrow>
     free_frames ps' F' \<and> F' \<subseteq> F \<and> card F \<le> card F' + 10 \<and> {tf, ks} \<subseteq> F - F' \<and>
     pt_wf (memory ps') pt F' \<and> tables (memory ps') pt \<subseteq> F - F' \<and>
     touched_pages (tables (memory (pages (fsys k))) (kernelPageTable k) \<union> (F - F')) (pages (fsys k)) ps' \<and>
     pt_wf (memory ps') (kernelPageTable k) F' \<and>
     (\<forall>page < MAX_VIRTUAL_ADDRESS. page_aligned page \<longrightarrow> entry_of (memory ps') (kernelPageTable k) page =
        (if page = kernel_stack (nextPid k) then fill_entry 0 ks trapframe_flags
         else entry_of (memory (pages (fsys k))) (kernelPageTable k) page)) \<and>
     (\<forall>page < MAX_VIRTUAL_ADDRESS. page_aligned page \<longrightarrow> entry_of (memory ps') pt page =
        (if page = TRAMPOLINE then fill_entry 0 (trampoline k) trampoline_flags
         else if page = TRAPFRAME then fill_entry 0 tf trapframe_flags else 0))"

lemma new_Process_law:
  assumes ff: "free_frames (pages (fsys k)) F" "10 \<le> card F"
    and kt: "pt_wf (memory (pages (fsys k))) (kernelPageTable k) F"
      "entry_of (memory (pages (fsys k))) (kernelPageTable k) (kernel_stack (nextPid k)) = 0" "kernel_stack (nextPid k) < MAX_VIRTUAL_ADDRESS"
    and lock: "pidMutex k = new_SpinMutex" "quiet (Suc n) (this_cpu (sched k))"
  shows "\<exists>tf ks pt ps' F'. process_made k F ps' F' tf ks pt \<and> new_Process k = Inr (next_process k,
      upd_proc (k\<lparr>sched := (sched k)\<lparr>this_cpu := settle (this_cpu (sched k))\<rparr>, nextPid := nextPid k + 1, fsys := (fsys k)\<lparr>pages := ps'\<rparr>,
        next_process := Suc (next_process k)\<rparr>) (next_process k) (\<lambda>_. made_process k tf ks pt))"
proof -
  let ?ps = "pages (fsys k)" and ?kt = "kernelPageTable k" and ?ks = "kernel_stack (nextPid k)"
  have sizes: "(0 :: u64) < 288" "unat (288 :: u64) + 4095 < 2 ^ 64" "1 = (unat (288 :: u64) + 4095) div 4096"
    "0 < PAGE_SIZE * 2" "unat (PAGE_SIZE * 2) + 4095 < 2 ^ 64" "2 = (unat (PAGE_SIZE * 2) + 4095) div 4096" by (simp_all add: PAGE_SIZE_def)
  obtain tf s1 F1 where a: "operator_new ?ps 288 = Inr (tf, s1)" "tf \<in> F - F1" "free_frames s1 F1" "F1 \<subseteq> F" "card F = card F1 + 1"
    "touched_pages (F - F1) ?ps s1" using operator_new_frames [OF ff(1) sizes(1,2,3)] ff(2) by fastforce
  obtain ks s2 F2 where b: "operator_new s1 (PAGE_SIZE * 2) = Inr (ks, s2)" "ks \<in> F1 - F2" "free_frames s2 F2" "F2 \<subseteq> F1" "card F1 = card F2 + 2"
    "touched_pages (F1 - F2) s1 s2" using operator_new_frames [OF a(3) sizes(4,5,6)] ff(2) a(5) by fastforce
  have "5 \<le> card F2" using ff(2) a(5) b(5) by simp
  from makePageTable_law [OF b(3) this, of "trampoline k" tf] obtain pt s3 F3 where
    c: "makePageTable s2 (trampoline k) tf = Inr (pt, s3)" "pt_wf (memory s3) pt F3" "free_frames s3 F3" "F3 \<subseteq> F2" "card F2 \<le> card F3 + 5"
      "tables (memory s3) pt \<subseteq> F2 - F3" "touched_pages (F2 - F3) s2 s3"
      "\<forall>page < MAX_VIRTUAL_ADDRESS. page_aligned page \<longrightarrow> entry_of (memory s3) pt page =
         (if page = TRAMPOLINE then fill_entry 0 (trampoline k) trampoline_flags
          else if page = TRAPFRAME then fill_entry 0 tf trapframe_flags else 0)" by blast
  have t12: "touched_pages (F - F2) ?ps s2" by (rule pm.touched_trans [OF a(6) b(6)]) (use a(4) b(4) in auto)
  have t3: "touched_pages (F - F3) ?ps s3" by (rule pm.touched_trans [OF t12 c(7)]) (use a(4) b(4) c(4) in auto)
  have sub: "F3 \<subseteq> F" using a(4) b(4) c(4) by auto
  have k3: "pt_wf (memory s3) ?kt F3" "tables (memory s3) ?kt = tables (memory ?ps) ?kt"
    "\<And>va. entry_of (memory s3) ?kt va = entry_of (memory ?ps) ?kt va"
    using pm.tree_beside [OF kt(1) t3, of "{}" F3] sub by auto
  have apart: "tables (memory ?ps) ?kt \<inter> F = {}" using pm.tree_free [OF kt(1)] .
  have "2 \<le> card F3" "entry_of (memory s3) ?kt ?ks = 0" using ff(2) a(5) b(5) c(5) kt(2) k3(3) by simp_all
  from pm.map_law [OF k3(1) c(3) this(1) kernel_stack_aligned kt(3) this(2), of ks trapframe_flags] obtain s4 F4 where
    d: "map_pages s3 ?kt ?ks PAGE_SIZE ks trapframe_flags = Inr (True, s4)" "pt_wf (memory s4) ?kt F4" "free_frames s4 F4" "F4 \<subseteq> F3"
      "card F3 \<le> card F4 + 2" "touched_pages (tables (memory s3) ?kt \<union> (F3 - F4)) s3 s4"
      "\<forall>page < MAX_VIRTUAL_ADDRESS. page_aligned page \<longrightarrow>
         entry_of (memory s4) ?kt page = (if page = ?ks then fill_entry 0 ks trapframe_flags else entry_of (memory s3) ?kt page)" by blast
  have "tables (memory s3) pt \<inter> tables (memory s3) ?kt = {}" using c(6) b(4) a(4) k3(2) apart by blast
  then have p4: "pt_wf (memory s4) pt F4" "tables (memory s4) pt = tables (memory s3) pt" "\<And>va. entry_of (memory s4) pt va = entry_of (memory s3) pt va"
    using pm.tree_beside [OF c(2) d(6), of "tables (memory s3) ?kt" F4] d(4) by auto
  have "touched_pages (tables (memory ?ps) ?kt \<union> (F - F4)) ?ps s4"
    by (rule pm.touched_trans [OF t3 d(6)]) (use k3(2) d(4) sub in auto)
  moreover have "card F \<le> card F4 + 10" using a(5) b(5) c(5) d(5) by linarith
  moreover have "{tf, ks} \<subseteq> F - F4" "F4 \<subseteq> F" "tables (memory s4) pt \<subseteq> F - F4" using a(2,4) b(2,4) c(4,6) d(4) p4(2) sub by auto
  ultimately have "process_made k F s4 F4 tf ks pt"
    using d(2,3,7) p4(1,3) c(8) k3(3) by (simp add: process_made_def)
  moreover have "new_Process k = Inr (next_process k,
      upd_proc (k\<lparr>sched := (sched k)\<lparr>this_cpu := settle (this_cpu (sched k))\<rparr>, nextPid := nextPid k + 1, fsys := (fsys k)\<lparr>pages := s4\<rparr>,
        next_process := Suc (next_process k)\<rparr>) (next_process k) (\<lambda>_. made_process k tf ks pt))"
    using take_pid_law [OF lock] a(1) b(1) c(1) d(1)
    by (simp add: new_Process_def Let_def made_process_def trapframe_flags_def blank_process_def)
  ultimately show ?thesis by blast
qed

section \<open>The steps of fork\<close>

lemma dup_files_law:
  assumes "\<forall>f. Some f \<in> set fs \<longrightarrow> f < length (ftable s) \<and> 1 \<le> f_refCount (ftable s ! f) \<and> unat (f_refCount (ftable s ! f)) + length fs < 2 ^ 32"
  shows "\<exists>t. dup_files s fs = Inr (s\<lparr>ftable := t\<rparr>) \<and> length t = length (ftable s) \<and>
    (\<forall>f < length (ftable s). t ! f = (ftable s ! f)\<lparr>f_refCount := f_refCount (ftable s ! f) + of_nat (count_list fs (Some f))\<rparr>)"
  using assms
proof (induction fs arbitrary: s)
  case Nil
  then show ?case by (intro exI [of _ "ftable s"]) simp
next
  case (Cons g fs)
  show ?case
  proof (cases g)
    case None
    then show ?thesis using Cons.IH [of s] Cons.prems by fastforce
  next
    case (Some f)
    let ?u = "\<lambda>x. x\<lparr>f_refCount := f_refCount x + 1\<rparr>" and ?s = "upd_file s f (\<lambda>x. x\<lparr>f_refCount := f_refCount x + 1\<rparr>)"
    have f: "f < length (ftable s)" "1 \<le> f_refCount (ftable s ! f)" "unat (f_refCount (ftable s ! f)) + Suc (length fs) < 2 ^ 32"
      using Cons.prems Some by auto
    have t: "ftable ?s = (ftable s)[f := ?u (ftable s ! f)]" by (simp add: upd_file_def)
    have u: "unat (f_refCount (ftable s ! f) + 1) = unat (f_refCount (ftable s ! f)) + 1" using f(3) by (simp add: unat_plus_if')
    have "h < length (ftable ?s) \<and> 1 \<le> f_refCount (ftable ?s ! h) \<and> unat (f_refCount (ftable ?s ! h)) + length fs < 2 ^ 32"
      if "Some h \<in> set fs" for h
      using Cons.prems that f u by (cases "h = f") (auto simp: t word_le_nat_alt)
    then obtain t' where t': "dup_files ?s fs = Inr (?s\<lparr>ftable := t'\<rparr>)" "length t' = length (ftable ?s)"
      "\<forall>h < length (ftable ?s). t' ! h = (ftable ?s ! h)\<lparr>f_refCount := f_refCount (ftable ?s ! h) + of_nat (count_list fs (Some h))\<rparr>"
      using Cons.IH [of ?s] by blast
    have "dup_files s (g # fs) = Inr (s\<lparr>ftable := t'\<rparr>)" using Some f(2) t'(1) by (simp add: file_dup_def upd_file_def)
    then show ?thesis using t'(2,3) t Some f(1) by (intro exI [of _ t']) (auto simp: nth_list_update)
  qed
qed

lemma strncpy_bytes_returns: "n \<le> length t \<Longrightarrow> \<exists>nm. strncpy_bytes t n = Inr nm"
proof (induction t n rule: strncpy_bytes.induct)
  case (3 x xs n)
  then show ?case by (cases "x = 0") auto
qed auto

lemma adopt_law:
  assumes "waitMutex k = new_SpinMutex" "quiet (Suc n) (this_cpu (sched k))" "p \<noteq> q"
  shows "adopt k p q = Inr (upd_proc (upd_proc (set_cpu k (settle (this_cpu (sched k)))) q (\<lambda>x. x\<lparr>p_parent := Some p\<rparr>))
    p (\<lambda>x. x\<lparr>children := children x @ [q]\<rparr>))"
proof -
  let ?f = "\<lambda>k. upd_proc (upd_proc k q (\<lambda>x. x\<lparr>p_parent := Some p\<rparr>)) p (\<lambda>x. x\<lparr>children := children x @ [q]\<rparr>)"
  have "andThen (lock_wait k) (\<lambda>k1. unlock_wait (?f k1)) =
    Inr ((set_cpu (?f ((set_cpu k (push (this_cpu (sched k))))\<lparr>waitMutex := own (tp (sched k))\<rparr>)) (settle (this_cpu (sched k))))\<lparr>waitMutex := new_SpinMutex\<rparr>)"
    by (rule wait_lock.critical_section [OF assms(1,2)]) (simp_all add: upd_proc_def upd_process_def set_cpu_def)
  then show ?thesis using assms(1) by (cases k) (simp add: adopt_def upd_proc_def upd_process_def set_cpu_def)
qed

lemma make_ready_law:
  assumes "p_mutex (proc k q) = new_SpinMutex" "sched_mutex (sched k) = new_SpinMutex" "quiet (Suc n) (this_cpu (sched k))" "ready (sched k) xs"
  shows "\<exists>s'. make_ready k q = Inr (k\<lparr>sched := s'\<rparr>) \<and> ready s' (xs @ [q]) \<and>
    process_of s' = (process_of (sched k))(q := (proc k q)\<lparr>p_state := Ready\<rparr>) \<and> sched_mutex s' = new_SpinMutex \<and>
    this_cpu s' = settle (this_cpu (sched k)) \<and> tp s' = tp (sched k) \<and> cpu_process s' = cpu_process (sched k)"
proof -
  let ?s = "sched k" and ?c = "this_cpu (sched k)"
  let ?f = "\<lambda>s. upd_process s q (\<lambda>x. x\<lparr>p_state := Ready\<rparr>)"
  define s2 where "s2 = ?s\<lparr>this_cpu := settle ?c, process_of := (process_of ?s)(q := (proc k q)\<lparr>p_state := Ready\<rparr>)\<rparr>"
  have "andThen (lock_process ?s q) (\<lambda>s1. unlock_process (?f s1) q) =
    Inr (upd_process ((?f (upd_process (?s\<lparr>this_cpu := push ?c\<rparr>) q (\<lambda>x. x\<lparr>p_mutex := own (tp ?s)\<rparr>)))\<lparr>this_cpu := settle ?c\<rparr>) q
      (\<lambda>x. x\<lparr>p_mutex := new_SpinMutex\<rparr>))"
    by (rule process_lock.critical_section) (use assms in \<open>simp_all add: upd_process_def proc_def\<close>)
  also have "\<dots> = Inr s2" using assms(1) by (cases ?s; cases "process_of ?s q") (simp add: s2_def upd_process_def proc_def)
  finally have "make_ready k q = in_sched k (registerProcess s2 (Some q))"
    by (cases "lock_process ?s q") (simp_all add: make_ready_def)
  moreover have "sched_mutex s2 = new_SpinMutex" "quiet (Suc n) (this_cpu s2)" "p_state (process_of s2 q) = Ready" "ready s2 xs"
    using assms(2-4) by (simp_all add: s2_def ready_def)
  from registerProcess_ready [OF this] obtain h t where "registerProcess s2 (Some q) = Inr (s2\<lparr>queue_nodes := h, readyQueue := t, this_cpu := settle (this_cpu s2)\<rparr>)"
    "ready (s2\<lparr>queue_nodes := h, readyQueue := t, this_cpu := settle (this_cpu s2)\<rparr>) (xs @ [q])" by blast
  ultimately show ?thesis
    using assms(2) by (intro exI [of _ "s2\<lparr>queue_nodes := h, readyQueue := t, this_cpu := settle (this_cpu s2)\<rparr>"]) (simp add: in_sched_def s2_def)
qed

section \<open>Fork\<close>

text \<open>
  The state in which process \<open>p\<close> can fork: \<open>F\<close> are the free frames, \<open>n\<close> the pages of its memory, \<open>xs\<close> the ready queue. Its page
  table and the kernel's are trees apart from each other; its pages are mapped, outside of \<open>F\<close> and of the kernel's table; the
  slot of the new kernel stack is empty; the mutexes that fork takes are free; its open files are counted.
\<close>

definition can_fork :: "kernel \<Rightarrow> nat \<Rightarrow> u64 set \<Rightarrow> nat \<Rightarrow> nat list \<Rightarrow> bool" where
  "can_fork k p F n xs \<longleftrightarrow>
     (let x = proc k p; ps = pages (fsys k); m = memory ps; kt = kernelPageTable k; ks = kernel_stack (nextPid k) in
      free_frames ps F \<and> 10 + 3 * n \<le> card F \<and> (\<forall>q \<in> F. q < physicalAddressStop) \<and>
      pt_wf m kt F \<and> entry_of m kt ks = 0 \<and> ks < MAX_VIRTUAL_ADDRESS \<and>
      pt_wf m (pageTable x) F \<and> tables m (pageTable x) \<inter> tables m kt = {} \<and>
      n = (unat (memorySize x) + 4095) div 4096 \<and> 4096 * n \<le> unat TRAPFRAME \<and>
      (\<forall>j < n. let e = entry_of m (pageTable x) (nth_page 0 j) in
         pte_v e \<and> toPhysicalAddress e < physicalAddressStop \<and> toPhysicalAddress e \<notin> F \<union> tables m kt) \<and>
      p \<noteq> next_process k \<and> p_cwd x \<noteq> None \<and> 16 \<le> length (p_name x) \<and>
      (\<forall>f. Some f \<in> set (openFiles x) \<longrightarrow> f < length (ftable (fsys k)) \<and> 1 \<le> f_refCount (ftable (fsys k) ! f) \<and>
         unat (f_refCount (ftable (fsys k) ! f)) + length (openFiles x) < 2 ^ 32) \<and>
      pidMutex k = new_SpinMutex \<and> waitMutex k = new_SpinMutex \<and> sched_mutex (sched k) = new_SpinMutex \<and>
      quiet 1 (this_cpu (sched k)) \<and> ready (sched k) xs)"

lemma nth_page_low:
  assumes "4096 * n \<le> unat TRAPFRAME" "j < n"
  shows "nth_page 0 j < MAX_VIRTUAL_ADDRESS" "page_aligned (nth_page 0 j)" "nth_page 0 j \<noteq> TRAMPOLINE" "nth_page 0 j \<noteq> TRAPFRAME"
proof -
  have t: "unat TRAPFRAME = 0x3FFFFFE000" "unat TRAMPOLINE = 0x3FFFFFF000" "unat MAX_VIRTUAL_ADDRESS = 0x4000000000"
    by (simp_all add: TRAPFRAME_def TRAMPOLINE_def MAX_VIRTUAL_ADDRESS_eq PAGE_SIZE_def)
  have u: "unat (nth_page 0 j) = 4096 * j"
    using assms t by (simp add: nth_page_def PAGE_SIZE_def unat_word_ariths unat_of_nat take_bit_nat_eq_self)
  then have "unat (nth_page 0 j) < unat TRAPFRAME" using assms by simp
  then show "nth_page 0 j < MAX_VIRTUAL_ADDRESS" "page_aligned (nth_page 0 j)" "nth_page 0 j \<noteq> TRAMPOLINE" "nth_page 0 j \<noteq> TRAPFRAME"
    using t u by (auto simp: word_less_nat_alt page_aligned_mod)
qed

text \<open>The memory of the child: pages of its own with the contents of the parent's, which stay as they are.\<close>

definition memory_copied :: "mem \<Rightarrow> mem \<Rightarrow> u64 \<Rightarrow> u64 \<Rightarrow> nat \<Rightarrow> (nat \<Rightarrow> u64) \<Rightarrow> bool" where
  "memory_copied m m' old new n f \<longleftrightarrow>
     (\<forall>j < n. let e = entry_of m old (nth_page 0 j) in
        entry_of m' new (nth_page 0 j) = fill_entry 0 (f j) (pte_flags e) \<and> same_contents m' (f j) m (toPhysicalAddress e) \<and>
        same_page (toPhysicalAddress e) m' m \<and> f j \<noteq> toPhysicalAddress e) \<and>
     (\<forall>i < n. \<forall>j < n. f i = f j \<longrightarrow> i = j) \<and> (\<forall>va. entry_of m' old va = entry_of m old va)"

lemma fork_memory:
  assumes can: "can_fork k p F n xs" and made: "process_made k F ps1 F1 tf ks pt"
  shows "\<exists>ps2 f. copyUserVirtualMemory ps1 (pageTable (proc k p)) pt (memorySize (proc k p)) = Inr ps2 \<and>
    memory_copied (memory (pages (fsys k))) (memory ps2) (pageTable (proc k p)) pt n f \<and>
    entry_of (memory ps2) pt TRAMPOLINE = fill_entry 0 (trampoline k) trampoline_flags \<and>
    entry_of (memory ps2) pt TRAPFRAME = fill_entry 0 tf trapframe_flags"
proof -
  let ?x = "proc k p" and ?m = "memory (pages (fsys k))" and ?kt = "kernelPageTable k"
  let ?old = "pageTable ?x" and ?e = "\<lambda>j. entry_of ?m (pageTable ?x) (nth_page 0 j)"
  have c: "10 + 3 * n \<le> card F" "\<forall>q \<in> F. q < physicalAddressStop" "pt_wf ?m ?old F" "tables ?m ?old \<inter> tables ?m ?kt = {}"
    "n = (unat (memorySize ?x) + 4095) div 4096" "4096 * n \<le> unat TRAPFRAME"
    "\<And>j. j < n \<Longrightarrow> pte_v (?e j) \<and> toPhysicalAddress (?e j) < physicalAddressStop \<and> toPhysicalAddress (?e j) \<notin> F \<union> tables ?m ?kt"
    using can by (auto simp: can_fork_def Let_def)
  have d: "free_frames ps1 F1" "F1 \<subseteq> F" "card F \<le> card F1 + 10" "pt_wf (memory ps1) pt F1" "tables (memory ps1) pt \<subseteq> F - F1"
    "touched_pages (tables ?m ?kt \<union> (F - F1)) (pages (fsys k)) ps1"
    "\<And>page. page < MAX_VIRTUAL_ADDRESS \<Longrightarrow> page_aligned page \<Longrightarrow> entry_of (memory ps1) pt page =
       (if page = TRAMPOLINE then fill_entry 0 (trampoline k) trampoline_flags
        else if page = TRAPFRAME then fill_entry 0 tf trapframe_flags else 0)"
    using made by (simp_all add: process_made_def)
  have o: "pt_wf (memory ps1) ?old F1" "tables (memory ps1) ?old = tables ?m ?old" "\<And>va. entry_of (memory ps1) ?old va = entry_of ?m ?old va"
    using pm.tree_beside [OF c(3) d(6), of "tables ?m ?kt" F1] c(4) d(2) by auto
  have apart: "tables (memory ps1) ?old \<inter> tables (memory ps1) pt = {}" using o(2) d(5) pm.tree_free [OF c(3)] by blast
  have same1: "same_page (toPhysicalAddress (?e j)) (memory ps1) ?m" if "j < n" for j
    using d(6) c(7) [OF that] by (auto simp: touched_pages_def)
  have z: "entry_of (memory ps1) pt (nth_page 0 j) = 0" if "j < n" for j
    using d(7) nth_page_low [OF c(6) that] by simp
  have f1: "toPhysicalAddress (?e j) \<notin> F1 \<union> tables (memory ps1) pt" if "j < n" for j using c(7) [OF that] d(2,5) by auto
  have m1: "4096 * n \<le> unat MAX_VIRTUAL_ADDRESS" "3 * n \<le> card F1" "\<forall>q \<in> F1. q < physicalAddressStop"
    using c(1,2,6) d(2,3) by (auto simp: TRAPFRAME_def TRAMPOLINE_def MAX_VIRTUAL_ADDRESS_eq PAGE_SIZE_def)
  have a: "unat (0 :: u64) + 4096 * n \<le> unat MAX_VIRTUAL_ADDRESS" "n = (unat (memorySize ?x) - unat (0 :: u64) + 4095) div 4096"
    "\<And>j. j < n \<Longrightarrow> pte_v (entry_of (memory ps1) ?old (nth_page 0 j)) \<and> toPhysicalAddress (entry_of (memory ps1) ?old (nth_page 0 j)) < physicalAddressStop \<and>
       toPhysicalAddress (entry_of (memory ps1) ?old (nth_page 0 j)) \<notin> F1 \<union> tables (memory ps1) pt"
    using m1(1) c(5,7) f1 o(3) by simp_all
  obtain ps2 F2 f where q: "copy_loop ps1 ?old pt (memorySize ?x) 0 = Inr ps2"
    "\<And>j. j < n \<Longrightarrow> f j \<in> F1 - F2 \<and> entry_of (memory ps2) pt (nth_page 0 j) = fill_entry 0 (f j) (pte_flags (?e j)) \<and>
       same_contents (memory ps2) (f j) (memory ps1) (toPhysicalAddress (?e j))"
    "\<forall>i < n. \<forall>j < n. f i = f j \<longrightarrow> i = j" "\<And>va. entry_of (memory ps2) ?old va = entry_of ?m ?old va"
    "\<And>q. page_aligned q \<Longrightarrow> q \<notin> tables (memory ps1) pt \<union> F1 \<Longrightarrow> same_page q (memory ps2) (memory ps1)"
    "\<And>page. page < MAX_VIRTUAL_ADDRESS \<Longrightarrow> page_aligned page \<Longrightarrow> \<forall>j < n. page \<noteq> nth_page 0 j \<Longrightarrow> entry_of (memory ps2) pt page = entry_of (memory ps1) pt page"
    using copy_loop_spec [OF d(4) o(1) d(1) m1(2) apart m1(3) example_aligned(8) a(1,2) z a(3), unfolded o(3) pages_filled_def] by blast
  have "memory_copied ?m (memory ps2) ?old pt n f"
    unfolding memory_copied_def Let_def
  proof (intro conjI allI impI)
    fix j assume j: "j < n"
    show "entry_of (memory ps2) pt (nth_page 0 j) = fill_entry 0 (f j) (pte_flags (?e j))" using q(2) [OF j] by simp
    have al: "page_aligned (toPhysicalAddress (?e j))" by simp
    show "same_contents (memory ps2) (f j) ?m (toPhysicalAddress (?e j))"
      using q(2) [OF j] same_contents_cong [OF same_page_refl frames_facts(3) [OF d(4,1)] same1 [OF j] al] by blast
    show "same_page (toPhysicalAddress (?e j)) (memory ps2) ?m" using q(5) [OF al] f1 [OF j] same1 [OF j] same_page_trans by blast
    show "f j \<noteq> toPhysicalAddress (?e j)" using q(2) [OF j] f1 [OF j] by auto
  qed (use q(3,4) in auto)
  moreover have "\<forall>j < n. TRAMPOLINE \<noteq> nth_page 0 j" "\<forall>j < n. TRAPFRAME \<noteq> nth_page 0 j" using nth_page_low(3,4) [OF c(6)] by metis+
  ultimately show ?thesis
    using q(1,6) d(7) process_pages by (intro exI [of _ ps2] exI [of _ f]) (simp add: copyUserVirtualMemory_def)
qed

section \<open>Properties\<close>

text \<open>
  C2: \<open>fork\<close>. A process that can fork gets a child with the next process number: ready, last in the ready queue, with
  the registers of the parent except \<open>a0\<close>, which is 0, and with its memory size, open files and working directory. Every page of the
  child's memory is a page of its own that holds the same bytes with the same permissions; the parent's memory is as before. The child's page
  table also has the trampoline and the child's trap frame. The parent gains a child and nothing else changes in it; no other
  process changes. Each file that the parent has open is counted once more for each descriptor.
\<close>

theorem fork_makes_child:
  assumes can: "can_fork k p F n xs" and q: "q = next_process k" and x: "x = proc k p"
  shows "\<exists>k' y f. fork k p = Inr (q, k') \<and> y = proc k' q \<and> p_pid y = nextPid k \<and> nextPid k' = nextPid k + 1 \<and>
    p_state y = Ready \<and> p_parent y = Some p \<and> ready (sched k') (xs @ [q]) \<and>
    frame y = (frame x)\<lparr>tf_a0 := 0\<rparr> \<and> memorySize y = memorySize x \<and> openFiles y = openFiles x \<and> p_cwd y = p_cwd x \<and>
    memory_copied (memory (pages (fsys k))) (memory (pages (fsys k'))) (pageTable x) (pageTable y) n f \<and>
    entry_of (memory (pages (fsys k'))) (pageTable y) TRAMPOLINE = fill_entry 0 (trampoline k) trampoline_flags \<and>
    entry_of (memory (pages (fsys k'))) (pageTable y) TRAPFRAME = fill_entry 0 (trapFrame y) trapframe_flags \<and>
    proc k' p = x\<lparr>children := children x @ [q]\<rparr> \<and> (\<forall>r. r \<noteq> p \<and> r \<noteq> q \<longrightarrow> proc k' r = proc k r) \<and>
    (\<forall>i < length (ftable (fsys k)). f_refCount (ftable (fsys k') ! i) =
       f_refCount (ftable (fsys k) ! i) + of_nat (count_list (openFiles x) (Some i)))"
proof -
  let ?ps = "pages (fsys k)"
  have c: "free_frames ?ps F" "10 \<le> card F" "pt_wf (memory ?ps) (kernelPageTable k) F"
    "entry_of (memory ?ps) (kernelPageTable k) (kernel_stack (nextPid k)) = 0" "kernel_stack (nextPid k) < MAX_VIRTUAL_ADDRESS"
    "pidMutex k = new_SpinMutex" "quiet (Suc 0) (this_cpu (sched k))" "waitMutex k = new_SpinMutex" "sched_mutex (sched k) = new_SpinMutex"
    "ready (sched k) xs" "p \<noteq> q" "p_cwd x \<noteq> None" "16 \<le> length (p_name x)"
    "\<forall>f. Some f \<in> set (openFiles x) \<longrightarrow> f < length (ftable (fsys k)) \<and> 1 \<le> f_refCount (ftable (fsys k) ! f) \<and>
       unat (f_refCount (ftable (fsys k) ! f)) + length (openFiles x) < 2 ^ 32"
    using can by (simp_all add: can_fork_def Let_def q x)
  from new_Process_law [OF c(1-7)] obtain tf ks pt ps1 F1 k1 where made: "process_made k F ps1 F1 tf ks pt" "new_Process k = Inr (q, k1)"
    "k1 = upd_proc (k\<lparr>sched := (sched k)\<lparr>this_cpu := settle (this_cpu (sched k))\<rparr>, nextPid := nextPid k + 1, fsys := (fsys k)\<lparr>pages := ps1\<rparr>,
        next_process := Suc (next_process k)\<rparr>) q (\<lambda>_. made_process k tf ks pt)" unfolding q by blast
  have k1: "proc k1 p = x" "proc k1 q = made_process k tf ks pt" "pages (fsys k1) = ps1"
    using c(11) by (simp_all add: made(3) x proc_def upd_proc_def upd_process_def)
  obtain ps2 f where cp: "copyUserVirtualMemory ps1 (pageTable x) pt (memorySize x) = Inr ps2"
    "memory_copied (memory ?ps) (memory ps2) (pageTable x) pt n f"
    "entry_of (memory ps2) pt TRAMPOLINE = fill_entry 0 (trampoline k) trampoline_flags" "entry_of (memory ps2) pt TRAPFRAME = fill_entry 0 tf trapframe_flags"
    using fork_memory [OF can made(1)] unfolding x by blast
  define k2 where "k2 = upd_proc (k1\<lparr>fsys := (fsys k1)\<lparr>pages := ps2\<rparr>\<rparr>) q (\<lambda>y. y\<lparr>memorySize := memorySize x, frame := (frame x)\<lparr>tf_a0 := 0\<rparr>\<rparr>)"
  have "ftable (as_process k2 p) = ftable (fsys k)" by (simp add: as_process_def k2_def made(3) upd_proc_def)
  then obtain t where t: "dup_files (as_process k2 p) (openFiles x) = Inr ((as_process k2 p)\<lparr>ftable := t\<rparr>)"
    "\<forall>f < length (ftable (fsys k)). t ! f = (ftable (fsys k) ! f)\<lparr>f_refCount := f_refCount (ftable (fsys k) ! f) + of_nat (count_list (openFiles x) (Some f))\<rparr>"
    using dup_files_law [of "openFiles x" "as_process k2 p"] c(14) by auto
  obtain ip nm where ip: "p_cwd x = Some ip" "strncpy_bytes (p_name x) 16 = Inr nm" using c(12) strncpy_bytes_returns [OF c(13)] by auto
  define k3 where "k3 = upd_proc (k2\<lparr>fsys := snd (inode_dup ((as_process k2 p)\<lparr>ftable := t\<rparr>) ip)\<rparr>) q
    (\<lambda>y. y\<lparr>openFiles := openFiles x, p_cwd := Some ip, p_name := nm\<rparr>)"
  have k3: "waitMutex k3 = new_SpinMutex" "sched k3 = (sched k)\<lparr>this_cpu := settle (this_cpu (sched k)), process_of := (process_of (sched k))(q :=
      (made_process k tf ks pt)\<lparr>memorySize := memorySize x, frame := (frame x)\<lparr>tf_a0 := 0\<rparr>, openFiles := openFiles x, p_cwd := Some ip, p_name := nm\<rparr>)\<rparr>"
    "nextPid k3 = nextPid k + 1" "pages (fsys k3) = ps2" "ftable (fsys k3) = t"
    using c(8) by (simp_all add: k3_def k2_def made(3) upd_proc_def upd_process_def inode_dup_def upd_inode_def as_process_def)
  define k4 where "k4 = upd_proc (upd_proc (set_cpu k3 (settle (this_cpu (sched k3)))) q (\<lambda>x. x\<lparr>p_parent := Some p\<rparr>)) p (\<lambda>x. x\<lparr>children := children x @ [q]\<rparr>)"
  have ad: "adopt k3 p q = Inr k4" using adopt_law [OF k3(1) _ c(11), of 0] c(7) k3(2) by (simp add: k4_def)
  have k4: "sched_mutex (sched k4) = new_SpinMutex" "this_cpu (sched k4) = settle (this_cpu (sched k))" "ready (sched k4) xs"
    "fsys k4 = fsys k3" "nextPid k4 = nextPid k3" "proc k4 p = x\<lparr>children := children x @ [q]\<rparr>" "\<And>r. r \<noteq> p \<Longrightarrow> r \<noteq> q \<Longrightarrow> proc k4 r = proc k r"
    "proc k4 q = (made_process k tf ks pt)\<lparr>memorySize := memorySize x, frame := (frame x)\<lparr>tf_a0 := 0\<rparr>, openFiles := openFiles x, p_cwd := Some ip,
       p_name := nm, p_parent := Some p\<rparr>"
    using c(9-11) k3(2) by (simp_all add: k4_def upd_proc_def upd_process_def set_cpu_def proc_def x ready_def)
  obtain s' where mr: "make_ready k4 q = Inr (k4\<lparr>sched := s'\<rparr>)" "ready s' (xs @ [q])"
    "process_of s' = (process_of (sched k4))(q := (proc k4 q)\<lparr>p_state := Ready\<rparr>)"
    using make_ready_law [of k4 q 0 xs] k4(1-3,8) c(7) by (auto simp: made_process_def blank_process_def)
  have e: "fork k p = Inr (q, k4\<lparr>sched := s'\<rparr>)"
    using made(2) k1 cp(1) t(1) ip ad mr(1)
    by (simp add: fork_def Let_def in_pages_def made_process_def flip: k2_def k3_def)
  have y: "proc (k4\<lparr>sched := s'\<rparr>) q = (proc k4 q)\<lparr>p_state := Ready\<rparr>" "\<And>r. r \<noteq> q \<Longrightarrow> proc (k4\<lparr>sched := s'\<rparr>) r = proc k4 r"
    using mr(3) by (simp_all add: proc_def)
  show ?thesis
    using e mr(2) y k4(4-8) k3(3-5) cp(2-4) t(2) c(11) ip(1)
    by (intro exI [of _ "k4\<lparr>sched := s'\<rparr>"] exI [of _ "(proc k4 q)\<lparr>p_state := Ready\<rparr>"] exI [of _ f]) (simp add: made_process_def)
qed

section \<open>A concrete fork\<close>

text \<open>Free frames \<open>ps\<close>, zeros everywhere else.\<close>

definition spare_state :: "u64 list \<Rightarrow> page_state" where
  "spare_state ps = foldr (\<lambda>p s. link_page s p) ps \<lparr>memory = (\<lambda>_. 0), freeList = 0, lastPage = 0x88000000, kernelPages = 0x80000000\<rparr>"

lemma spare_state_pages:
  "distinct ps \<Longrightarrow> \<forall>p \<in> set ps. page_aligned p \<and> 0x80000000 \<le> p \<and> p < 0x88000000 \<Longrightarrow> spare_pages (spare_state ps) ps"
proof (induction ps)
  case Nil
  then show ?case by (simp add: spare_state_def spare_pages_def page_inv_def zero_page_def)
next
  case (Cons p ps)
  then show ?case using spare_pages_link [of "spare_state ps" ps p] by (simp add: spare_state_def)
qed

definition example_spare :: "u64 list" where
  "example_spare = [0x80001000, 0x80002000, 0x80003000, 0x80004000, 0x80005000, 0x80006000, 0x80007000, 0x80008000,
     0x80009000, 0x8000A000, 0x8000B000, 0x8000C000, 0x8000D000, 0x8000E000, 0x8000F000]"

lemma example_spare_facts:
  "distinct example_spare" "length example_spare = 15" "\<forall>p \<in> set example_spare. page_aligned p \<and> 0x80000000 \<le> p \<and> p < 0x80010000"
  by (simp_all add: example_spare_def page_aligned_mod)

text \<open>One page of user memory in frame \<open>0x80102000\<close>, mapped by the table at \<open>0x80100000\<close>; the kernel's table at \<open>0x80101000\<close> is empty.\<close>

lemma example_fork_pages:
  "\<exists>s F. free_frames s F \<and> 13 \<le> card F \<and> (\<forall>q \<in> F. q < 0x80010000) \<and> pt_wf (memory s) 0x80100000 F \<and> pt_wf (memory s) 0x80101000 F \<and>
     tables (memory s) 0x80101000 = {0x80101000} \<and> 0x80101000 \<notin> tables (memory s) 0x80100000 \<and> (\<forall>va. entry_of (memory s) 0x80101000 va = 0) \<and>
     entry_of (memory s) 0x80100000 0 = fill_entry 0 0x80102000 0x16"
proof -
  let ?F = "set example_spare" and ?s = "spare_state example_spare"
  have sp: "spare_pages ?s example_spare"
    by (rule spare_state_pages) (use example_spare_facts in \<open>auto intro: less_trans\<close>)
  have ff: "free_frames ?s ?F" using sp by (auto simp: spare_pages_def free_frames_def)
  have card: "card ?F = 15" using distinct_card [OF example_spare_facts(1)] example_spare_facts(2) by simp
  have al: "page_aligned 0x80100000" "page_aligned 0x80101000" by (simp_all add: page_aligned_mod)
  have out: "(0x80100000 :: u64) \<notin> ?F" "(0x80101000 :: u64) \<notin> ?F" by (simp_all add: example_spare_def)
  have z: "zero_page (memory ?s) 0x80100000" "zero_page (memory ?s) 0x80101000" using sp al out by (auto simp: spare_pages_def)
  note r = fresh_root [OF z(1) al(1) out(1)] and t = fresh_root [OF z(2) al(2) out(2)]
  have "2 \<le> card ?F" "(0 :: u64) < MAX_VIRTUAL_ADDRESS" by (simp_all add: card MAX_VIRTUAL_ADDRESS_eq)
  from pm.map_law [OF r(1) ff this(1) example_aligned(8) this(2) r(3), of "0x80102000" "0x16"] obtain s F where
    s: "pt_wf (memory s) 0x80100000 F" "free_frames s F" "F \<subseteq> ?F" "card ?F \<le> card F + 2" "tables (memory s) 0x80100000 = tables (memory ?s) 0x80100000 \<union> (?F - F)"
      "touched_pages (tables (memory ?s) 0x80100000 \<union> (?F - F)) ?s s" "entry_of (memory s) 0x80100000 0 = fill_entry 0 0x80102000 0x16"
    using example_aligned(8) by (auto simp: MAX_VIRTUAL_ADDRESS_eq)
  have "pt_wf (memory s) 0x80101000 F \<and> tables (memory s) 0x80101000 = tables (memory ?s) 0x80101000 \<and>
      (\<forall>va. entry_of (memory s) 0x80101000 va = entry_of (memory ?s) 0x80101000 va)"
    by (rule pm.tree_beside [OF t(1) s(6), of "{0x80100000}"]) (use s(3) r(2) t(2) in auto)
  moreover have "\<forall>q \<in> F. q < 0x80010000" using s(3) example_spare_facts(3) by auto
  moreover have "0x80101000 \<notin> tables (memory s) 0x80100000" using s(5) r(2) out(2) by auto
  ultimately show ?thesis using s(1,2,4,7) card t(2,3) by (intro exI [of _ s] exI [of _ F]) simp
qed

definition example_parent :: process where
  "example_parent = example_process\<lparr>pageTable := 0x80100000, memorySize := 4096, p_cwd := Some 0, p_name := replicate 16 0\<rparr>"

definition example_fork :: "page_state \<Rightarrow> kernel" where
  "example_fork s = example_kernel\<lparr>fsys := example_fs\<lparr>pages := s\<rparr>, sched := example_sched\<lparr>process_of := (\<lambda>_. example_parent)\<rparr>, kernelPageTable := 0x80101000\<rparr>"

theorem fork_makes_child_witness:
  "\<exists>k k' f. fork k 9 = Inr (10, k') \<and> p_pid (proc k' 10) = 2 \<and> tf_a0 (frame (proc k' 10)) = 0 \<and> ready (sched k') [10] \<and>
     entry_of (memory (pages (fsys k'))) (pageTable (proc k' 10)) 0 = fill_entry 0 f 0x17 \<and>
     same_contents (memory (pages (fsys k'))) f (memory (pages (fsys k))) 0x80102000"
proof -
  obtain s F where s: "free_frames s F" "13 \<le> card F" "\<forall>q \<in> F. q < 0x80010000" "pt_wf (memory s) 0x80100000 F" "pt_wf (memory s) 0x80101000 F"
    "tables (memory s) 0x80101000 = {0x80101000}" "0x80101000 \<notin> tables (memory s) 0x80100000" "\<forall>va. entry_of (memory s) 0x80101000 va = 0"
    "entry_of (memory s) 0x80100000 0 = fill_entry 0 0x80102000 0x16"
    using example_fork_pages by auto
  let ?k = "example_fork s" and ?e = "fill_entry 0 0x80102000 0x16"
  have k: "pages (fsys ?k) = s" "proc ?k p = example_parent" "kernelPageTable ?k = 0x80101000" "nextPid ?k = 2" "next_process ?k = 10"
    "pidMutex ?k = new_SpinMutex" "waitMutex ?k = new_SpinMutex" "sched_mutex (sched ?k) = new_SpinMutex" for p
    by (simp_all add: example_fork_def proc_def example_kernel_def example_sched_def)
  have q: "quiet 1 (this_cpu (sched ?k))" "ready (sched ?k) []"
    using example_sched_facts(2,5) quiet_mono [of 2 "this_cpu example_sched" 1] by (simp_all add: example_fork_def ready_def)
  have x: "pageTable example_parent = 0x80100000" "memorySize example_parent = 4096" "p_cwd example_parent = Some 0" "length (p_name example_parent) = 16"
    "openFiles example_parent = []" by (simp_all add: example_parent_def example_process_def)
  have al: "page_aligned 0x80102000" by (simp add: page_aligned_mod)
  note fe = fill_entry_fields [OF al, of "0x16"]
  have fl: "pte_flags ?e = 0x17" by (simp add: pte_flags_def fill_entry_def set_pte_v_def)
  have "(0x80102000 :: u64) \<notin> F" using s(3) by auto
  moreover have "\<forall>q \<in> F. q < physicalAddressStop" using s(3) by (auto simp: physicalAddressStop_def KERNEL_BASE_def intro: less_trans)
  ultimately have "can_fork ?k 9 F 1 []"
    using s q fe by (auto simp: can_fork_def Let_def k x kernel_stack_def TRAPFRAME_def TRAMPOLINE_def MAX_VIRTUAL_ADDRESS_eq PAGE_SIZE_def
      physicalAddressStop_def KERNEL_BASE_def)
  from fork_makes_child [OF this refl refl] obtain k' f where "fork ?k 9 = Inr (10, k')" "p_pid (proc k' 10) = 2" "ready (sched k') [10]"
    "frame (proc k' 10) = (frame example_parent)\<lparr>tf_a0 := 0\<rparr>"
    "memory_copied (memory s) (memory (pages (fsys k'))) 0x80100000 (pageTable (proc k' 10)) 1 f"
    by (auto simp: k x)
  then show ?thesis
    by (intro exI [of _ ?k] exI [of _ k'] exI [of _ "f 0"]) (simp add: k memory_copied_def s(9) fe fl)
qed

end
