(* ===== verification/Proc_Sleep.thy ===== *)
theory Proc_Sleep
  imports Proc_Scheduler
begin

unbundle bit_operations_syntax

text \<open>
  Going to sleep: \<open>sleep\<close> in \<open>kernel/process/scheduler.cpp\<close> up to the switch, the return to the scheduler and the wakeup.
  The sleeper is in the table before its mutex is free, so that a wakeup that waits for the mutex finds it.
\<close>

section \<open>The table of sleepers\<close>

lemma enqueue_asleep:
  assumes "hm_invar (sleepTable s)" "p_state (process_of s p) = Asleep" "chan (process_of s p) = ch"
  shows "\<exists>t. enqueue s p = Inr (s\<lparr>sleepTable := t\<rparr>) \<and> hm_invar t \<and> hm_lookup t ch = Some (sleepers s ch @ [p]) \<and>
    (hm_room (sleepTable s) ch \<longrightarrow> (\<forall>d. d \<noteq> ch \<longrightarrow> hm_lookup t d = hm_lookup (sleepTable s) d))"
proof -
  let ?m = "sleepTable s"
  obtain t1 where t1: "subscript ?m ch [] = Inr (t1, sleepers s ch)" "hm_invar t1"
    "\<forall>d. hm_lookup t1 d = (if d = ch then Some (sleepers s ch)
       else if index_of ?m d \<noteq> index_of ?m ch \<or> hm_lookup ?m ch \<noteq> None then hm_lookup ?m d else map_of (last_node (hm_chain ?m ch)) d)"
    using subscript_law [OF assms(1), of ch "[]"] by (auto simp: sleepers_def)
  have room: "hm_room t1 ch" using t1(3) by (simp add: hm_room_def)
  obtain t where t: "assign t1 ch [] (sleepers s ch @ [p]) = Inr t" "hm_invar t" "hm_lookup t = (hm_lookup t1)(ch \<mapsto> sleepers s ch @ [p])"
    using hm.put_law [OF t1(2) room] by blast
  have "hm_lookup t d = hm_lookup ?m d" if "hm_room ?m ch" "d \<noteq> ch" for d
    using that t(3) t1(3) by (auto simp: hm_room_def last_node_short hm_lookup_def hm_chain_def)
  then show ?thesis using t t1(1) assms by (auto simp: enqueue_def Let_def)
qed

lemma registerProcess_asleep:
  assumes "sched_mutex s = new_SpinMutex" "quiet (Suc n) (this_cpu s)" "hm_invar (sleepTable s)"
    "p_state (process_of s p) = Asleep" "chan (process_of s p) = ch"
  shows "\<exists>t. registerProcess s (Some p) = Inr (s\<lparr>sleepTable := t, this_cpu := settle (this_cpu s)\<rparr>) \<and> hm_invar t \<and>
    hm_lookup t ch = Some (sleepers s ch @ [p]) \<and>
    (hm_room (sleepTable s) ch \<longrightarrow> (\<forall>d. d \<noteq> ch \<longrightarrow> hm_lookup t d = hm_lookup (sleepTable s) d))"
proof -
  let ?s = "s\<lparr>this_cpu := push (this_cpu s), sched_mutex := own (tp s)\<rparr>"
  have "sleepers ?s ch = sleepers s ch" by (simp add: sleepers_def)
  then obtain t where t: "enqueue ?s p = Inr (?s\<lparr>sleepTable := t\<rparr>)" "hm_invar t" "hm_lookup t ch = Some (sleepers s ch @ [p])"
    "hm_room (sleepTable s) ch \<longrightarrow> (\<forall>d. d \<noteq> ch \<longrightarrow> hm_lookup t d = hm_lookup (sleepTable s) d)"
    using enqueue_asleep [of ?s p ch] assms by auto
  have "registerProcess s (Some p) = Inr (s\<lparr>sleepTable := t, this_cpu := settle (this_cpu s)\<rparr>)"
    using assms(1) t(1) pop_push [OF assms(2)]
    by (cases s) (simp add: registerProcess_def lock_sched_def unlock_sched_def spin_unlock_own)
  then show ?thesis using t by blast
qed

section \<open>Going to sleep\<close>

definition asleep :: "u64 \<Rightarrow> process \<Rightarrow> process" where
  "asleep ch x = x\<lparr>chan := ch, p_state := Asleep\<rparr>"

lemma sleep_enter_law:
  assumes "cpu_process s = Some p" "p_mutex (process_of s p) = new_SpinMutex" "sched_mutex s = new_SpinMutex"
    "this_cpu s = push c" "numLocks c = 0" "hm_invar (sleepTable s)"
  shows "\<exists>t. sleep_enter s ch (own (tp s)) = Inr (sstatus c AND SSTATUS_SIE \<noteq> 0, new_SpinMutex,
      s\<lparr>process_of := (process_of s)(p := (asleep ch (process_of s p))\<lparr>p_mutex := own (tp s)\<rparr>), sleepTable := t\<rparr>) \<and>
    hm_invar t \<and> hm_lookup t ch = Some (sleepers s ch @ [p]) \<and>
    (hm_room (sleepTable s) ch \<longrightarrow> (\<forall>d. d \<noteq> ch \<longrightarrow> hm_lookup t d = hm_lookup (sleepTable s) d))"
proof -
  have q: "quiet (Suc (Suc (Suc 0))) c" using assms(5) by (simp add: quiet_def)
  note q1 = quiet_push [OF q] and n1 = quiet_push_pos [OF q]
  have one: "numLocks (push c) = 1" using assms(5) by (simp add: push_def Let_def)
  have st: "settle (push c) = push c" by (rule settle_locked [OF n1])
  define s1 where "s1 = s\<lparr>process_of := (process_of s)(p := (asleep ch (process_of s p))\<lparr>p_mutex := own (tp s)\<rparr>)\<rparr>"
  have l: "lock_process s p = Inr (upd_process (s\<lparr>this_cpu := push (push c)\<rparr>) p (\<lambda>x. x\<lparr>p_mutex := own (tp s)\<rparr>))"
    by (simp add: lock_process_def assms(2,4))
  have u: "spin_unlock (push (push c)) (tp s) (own (tp s)) = Inr (push c, new_SpinMutex)"
    by (simp add: spin_unlock_own pop_push [OF q1] st)
  have e: "upd_process ((upd_process (s\<lparr>this_cpu := push (push c)\<rparr>) p (\<lambda>x. x\<lparr>p_mutex := own (tp s)\<rparr>))\<lparr>this_cpu := push c\<rparr>) p
      (\<lambda>x. x\<lparr>chan := ch, p_state := Asleep\<rparr>) = s1"
    using assms(4) by (cases s; cases "process_of s p") (simp add: s1_def asleep_def upd_process_def)
  have "sleepers s1 ch = sleepers s ch" by (simp add: sleepers_def s1_def)
  then obtain t where t: "registerProcess s1 (Some p) = Inr (s1\<lparr>sleepTable := t, this_cpu := settle (this_cpu s1)\<rparr>)" "hm_invar t"
    "hm_lookup t ch = Some (sleepers s ch @ [p])" "hm_room (sleepTable s) ch \<longrightarrow> (\<forall>d. d \<noteq> ch \<longrightarrow> hm_lookup t d = hm_lookup (sleepTable s) d)"
    using registerProcess_asleep [of s1 1 p ch] q1 assms(3,4,6) by (auto simp: s1_def asleep_def)
  have t': "s1\<lparr>sleepTable := t, this_cpu := settle (this_cpu s1)\<rparr> = s1\<lparr>sleepTable := t\<rparr>"
    using assms(4) st by (cases s) (simp add: s1_def)
  have ie: "interruptEnabled (push c) \<longleftrightarrow> sstatus c AND SSTATUS_SIE \<noteq> 0" using assms(5) by (simp add: push_def Let_def)
  have f: "cpu_process s1 = Some p" "this_cpu s1 = push c" "tp s1 = tp s" "p_mutex (process_of s1 p) = own (tp s)" "p_state (process_of s1 p) = Asleep"
    using assms(1,4) by (simp_all add: s1_def asleep_def)
  have r: "reschedule_enter s1 = Inr (sstatus c AND SSTATUS_SIE \<noteq> 0, s1\<lparr>sleepTable := t\<rparr>)"
    using t(1) unfolding t' by (simp add: reschedule_enter_def f one push_masks ie)
  have "sleep_enter s ch (own (tp s)) = Inr (sstatus c AND SSTATUS_SIE \<noteq> 0, new_SpinMutex, s1\<lparr>sleepTable := t\<rparr>)"
    using u r e by (simp add: sleep_enter_def assms(1) l)
  then show ?thesis using t(2-4) by (auto simp: s1_def)
qed

lemma asleep_unlocked: "p_mutex x = new_SpinMutex \<Longrightarrow> (asleep ch x)\<lparr>p_mutex := own t, p_mutex := new_SpinMutex\<rparr> = asleep ch x"
  by (cases x) (simp add: asleep_def)

text \<open>The scheduler takes the process back, frees its mutex and registers it once more.\<close>

lemma run_return_asleep:
  assumes "process_of s p = (asleep ch x)\<lparr>p_mutex := own (tp s)\<rparr>" "p_mutex x = new_SpinMutex" "sched_mutex s = new_SpinMutex"
    "this_cpu s = push c" "numLocks c = 0" "hm_invar (sleepTable s)"
  shows "\<exists>t. run_return s p = Inr (s\<lparr>process_of := (process_of s)(p := asleep ch x), sleepTable := t, this_cpu := settle c, cpu_process := None\<rparr>) \<and>
    hm_invar t \<and> hm_lookup t ch = Some (sleepers s ch @ [p])"
proof -
  have q: "quiet (Suc 0) c" using assms(5) by (simp add: quiet_def)
  define s1 where "s1 = s\<lparr>process_of := (process_of s)(p := asleep ch x), this_cpu := settle c, cpu_process := None\<rparr>"
  have "unlock_process (s\<lparr>cpu_process := None\<rparr>) p = Inr s1"
    using process_lock.release_own [where p = p and s = "s\<lparr>cpu_process := None\<rparr>" and c = c and n = 0] q assms
    by (cases s; cases x) (simp add: s1_def upd_process_def asleep_def)
  moreover have "sleepers s1 ch = sleepers s ch" by (simp add: sleepers_def s1_def)
  then obtain t where "registerProcess s1 (Some p) = Inr (s1\<lparr>sleepTable := t, this_cpu := settle (this_cpu s1)\<rparr>)" "hm_invar t"
    "hm_lookup t ch = Some (sleepers s ch @ [p])"
    using registerProcess_asleep [of s1 0 p ch] q assms(3,6) by (auto simp: s1_def asleep_def)
  ultimately show ?thesis by (intro exI [of _ t]) (cases s, simp add: run_return_def s1_def)
qed


section \<open>A concrete run\<close>

definition example_sleeper :: sched_state where
  "example_sleeper = example_sched\<lparr>this_cpu := push (this_cpu example_sched)\<rparr>"


end
