(* ===== verification/Proc_Wait.thy ===== *)
theory Proc_Wait
  imports Proc_Fork Proc_Sleep
begin

text \<open>
  What \<open>Process::wait\<close> does in each case: no child, a zombie among the children, children but no zombie.
  The scan takes and gives back the mutex of one child after the other while \<open>waitMutex\<close> is held.
\<close>

section \<open>The mutex of a child\<close>

definition child_locked :: "kernel \<Rightarrow> nat \<Rightarrow> kernel" where
  "child_locked k c = upd_proc (set_cpu k (push (this_cpu (sched k)))) c (\<lambda>x. x\<lparr>p_mutex := own (tp (sched k))\<rparr>)"

text \<open>The state inside \<open>wait\<close>: \<open>waitMutex\<close> is taken, and the mutexes of the children are free.\<close>

definition scanning :: "kernel \<Rightarrow> nat \<Rightarrow> bool" where
  "scanning k p \<longleftrightarrow> numLocks (this_cpu (sched k)) \<noteq> 0 \<and> quiet 1 (this_cpu (sched k)) \<and>
     (\<forall>c \<in> set (children (proc k p)). p_mutex (proc k c) = new_SpinMutex)"

lemma lock_child: "p_mutex (proc k c) = new_SpinMutex \<Longrightarrow> in_sched k (lock_process (sched k) c) = Inr (child_locked k c)"
  using process_lock.acquire_free [where p = c and s = "sched k"]
  by (simp add: in_sched_def child_locked_def upd_proc_def set_cpu_def proc_def)

lemma unlock_child:
  assumes "p_mutex (proc k1 c) = own (tp (sched k1))" "this_cpu (sched k1) = push cpu" "numLocks cpu \<noteq> 0" "quiet 1 cpu"
  shows "in_sched k1 (unlock_process (sched k1) c) = Inr (upd_proc (set_cpu k1 cpu) c (\<lambda>x. x\<lparr>p_mutex := new_SpinMutex\<rparr>))"
  using process_lock.release_own [where p = c and s = "sched k1" and c = cpu and n = 0] assms
  by (simp add: in_sched_def upd_proc_def set_cpu_def proc_def settle_locked)

lemma child_locked_fields [simp]:
  "this_cpu (sched (child_locked k c)) = push (this_cpu (sched k))" "tp (sched (child_locked k c)) = tp (sched k)"
  "p_mutex (proc (child_locked k c) c) = own (tp (sched k))" "p_state (proc (child_locked k c) q) = p_state (proc k q)"
  "children (proc (child_locked k c) q) = children (proc k q)" "p_pid (proc (child_locked k c) q) = p_pid (proc k q)"
  "pageTable (proc (child_locked k c) q) = pageTable (proc k q)" "exitStatus (proc (child_locked k c) q) = exitStatus (proc k q)"
  "fsys (child_locked k c) = fsys k" "status_address (child_locked k c) = status_address k"
  by (simp_all add: child_locked_def upd_proc_def upd_process_def set_cpu_def proc_def)

lemma child_released:
  "p_mutex (proc k c) = new_SpinMutex \<Longrightarrow> upd_proc (set_cpu (child_locked k c) (this_cpu (sched k))) c (\<lambda>x. x\<lparr>p_mutex := new_SpinMutex\<rparr>) = k"
  by (cases k; cases "sched k"; cases "process_of (sched k) c")
    (auto simp: child_locked_def upd_proc_def upd_process_def set_cpu_def proc_def fun_eq_iff)

section \<open>The scan\<close>

lemma scan_skip:
  assumes "scanning k p" "i < length (children (proc k p))" "p_state (proc k (children (proc k p) ! i)) \<noteq> Zombie"
  shows "wait_scan k p addr i (Suc n) = wait_scan k p addr (Suc i) n"
proof -
  let ?c = "children (proc k p) ! i"
  have m: "p_mutex (proc k ?c) = new_SpinMutex" using assms(1,2) by (simp add: scanning_def)
  have "in_sched (child_locked k ?c) (unlock_process (sched (child_locked k ?c)) ?c) = Inr k"
    using unlock_child [of "child_locked k ?c" ?c "this_cpu (sched k)"] child_released [OF m] assms(1) by (simp add: scanning_def)
  then show ?thesis using assms(3) by (simp add: Let_def lock_child [OF m])
qed

lemma scan_to:
  assumes "scanning k p" "i + n \<le> length (children (proc k p))" "j \<le> n"
    "\<forall>l. i \<le> l \<and> l < i + j \<longrightarrow> p_state (proc k (children (proc k p) ! l)) \<noteq> Zombie"
  shows "wait_scan k p addr i n = wait_scan k p addr (i + j) (n - j)"
  using assms(2-4)
proof (induction j arbitrary: i n)
  case (Suc j)
  obtain m where n: "n = Suc m" using Suc.prems(2) by (cases n) auto
  have "wait_scan k p addr i n = wait_scan k p addr (Suc i) m"
    unfolding n by (rule scan_skip [OF assms(1)]) (use Suc.prems n in auto)
  also have "\<dots> = wait_scan k p addr (Suc i + j) (m - j)" by (rule Suc.IH) (use Suc.prems n in auto)
  finally show ?case using n by simp
qed simp

lemma copy_status_held:
  "copy_status (child_locked k c) p d addr = andThen (copy_status k p d addr) (\<lambda>(ok, k1). Inr (ok, child_locked k1 c))"
proof -
  have h: "child_locked (k\<lparr>fsys := fs\<rparr>) c = (child_locked k c)\<lparr>fsys := fs\<rparr>" for fs
    by (simp add: child_locked_def upd_proc_def set_cpu_def)
  show ?thesis by (simp add: copy_status_def Let_def andThen_assoc h split_def)
qed

lemma copy_status_frame:
  "copy_status k p c addr = Inr (ok, k1) \<Longrightarrow> \<exists>ps. k1 = k\<lparr>fsys := (fsys k)\<lparr>pages := ps\<rparr>\<rparr>"
  by (auto simp: copy_status_def Let_def outcome_simps split: if_splits intro: exI [of _ "pages (fsys k)"])

definition reaped :: "kernel \<Rightarrow> nat \<Rightarrow> nat \<Rightarrow> kernel" where
  "reaped k p i = upd_proc k p (\<lambda>x. x\<lparr>children := take i (children x) @ drop (Suc i) (children x)\<rparr>)"

definition next_slot :: "kernel \<Rightarrow> nat \<Rightarrow> nat \<Rightarrow> nat" where
  "next_slot k p i = (let cs = children (proc k p) in if Suc i < length cs then cs ! Suc i else cs ! i)"

lemma scan_zombie:
  assumes sc: "scanning k p" and i: "i < length (children (proc k p))" and c: "c = children (proc k p) ! i" "p_state (proc k c) = Zombie"
  shows "wait_scan k p addr i (Suc n) = andThen (copy_status k p c addr) (\<lambda>(ok, k1).
    Inr (if ok then (Some (p_pid (proc k (next_slot k p i)) \<noteq> 0), reaped k1 p i) else (Some True, k1)))"
proof (cases "copy_status k p c addr")
  case (Inl e)
  have m: "p_mutex (proc k c) = new_SpinMutex" using sc i c by (simp add: scanning_def)
  then show ?thesis using c(2) by (simp add: Let_def c(1) [symmetric] lock_child copy_status_held Inl)
next
  case (Inr r)
  obtain ok k1 where "r = (ok, k1)" by (cases r)
  then obtain ps where r: "r = (ok, k\<lparr>fsys := (fsys k)\<lparr>pages := ps\<rparr>\<rparr>)" using copy_status_frame [of k p c addr ok k1] Inr by blast
  let ?k1 = "k\<lparr>fsys := (fsys k)\<lparr>pages := ps\<rparr>\<rparr>" and ?cpu = "this_cpu (sched k)"
  have m: "p_mutex (proc k c) = new_SpinMutex" and q: "numLocks ?cpu \<noteq> 0" "quiet 1 ?cpu" using sc i c by (auto simp: scanning_def)
  have sp: "sched ?k1 = sched k" "proc ?k1 = proc k" by (simp_all add: proc_def fun_eq_iff)
  have u1: "in_sched (child_locked ?k1 c) (unlock_process (sched (child_locked ?k1 c)) c) = Inr ?k1"
    using unlock_child [of "child_locked ?k1 c" c ?cpu] child_released [of ?k1 c] m q sp by simp
  have "in_sched (reaped (child_locked ?k1 c) p i) (unlock_process (sched (reaped (child_locked ?k1 c) p i)) c) =
    Inr (upd_proc (set_cpu (reaped (child_locked ?k1 c) p i) ?cpu) c (\<lambda>x. x\<lparr>p_mutex := new_SpinMutex\<rparr>))"
    by (rule unlock_child) (use q in \<open>auto simp: reaped_def child_locked_def upd_proc_def upd_process_def set_cpu_def proc_def\<close>)
  also have "\<dots> = Inr (reaped ?k1 p i)"
    using m by (cases k; cases "sched k"; cases "process_of (sched k) c")
      (auto simp: reaped_def child_locked_def upd_proc_def upd_process_def set_cpu_def proc_def fun_eq_iff)
  finally have u2: "in_sched (reaped (child_locked ?k1 c) p i) (unlock_process (sched (reaped (child_locked ?k1 c) p i)) c) = Inr (reaped ?k1 p i)" .
  have rp: "reap (child_locked ?k1 c) p i = (p_pid (proc k (next_slot k p i)) \<noteq> 0, reaped (child_locked ?k1 c) p i)"
    by (simp add: reap_def Let_def next_slot_def reaped_def sp)
      (simp add: upd_proc_def upd_process_def proc_def child_locked_def set_cpu_def)
  show ?thesis using c(2) u1 u2 rp by (simp add: Let_def c(1) [symmetric] lock_child [OF m] copy_status_held Inr r)
qed

section \<open>The three cases of wait\<close>

definition can_wait :: "kernel \<Rightarrow> nat \<Rightarrow> bool" where
  "can_wait k p \<longleftrightarrow> cpu_process (sched k) = Some p \<and> numLocks (this_cpu (sched k)) = 0 \<and> waitMutex k = new_SpinMutex \<and>
     sched_mutex (sched k) = new_SpinMutex \<and> p_mutex (proc k p) = new_SpinMutex \<and> hm_invar (sleepTable (sched k)) \<and>
     (\<forall>c \<in> set (children (proc k p)). p_mutex (proc k c) = new_SpinMutex)"

definition first_zombie :: "kernel \<Rightarrow> nat \<Rightarrow> nat option" where
  "first_zombie k p =
     find (\<lambda>i. p_state (proc k (children (proc k p) ! i)) = Zombie) [0..<length (children (proc k p))]"

definition wait_locked :: "kernel \<Rightarrow> kernel" where
  "wait_locked k = (set_cpu k (push (this_cpu (sched k))))\<lparr>waitMutex := own (tp (sched k))\<rparr>"

lemma wait_locked_fields [simp]:
  "proc (wait_locked k) = proc k" "this_cpu (sched (wait_locked k)) = push (this_cpu (sched k))" "tp (sched (wait_locked k)) = tp (sched k)"
  "waitMutex (wait_locked k) = own (tp (sched k))" "process_address (wait_locked k) = process_address k"
  "first_zombie (wait_locked k) = first_zombie k" "next_slot (wait_locked k) = next_slot k"
  by (simp_all add: wait_locked_def set_cpu_def proc_def fun_eq_iff first_zombie_def next_slot_def)

lemma can_wait_scanning: "can_wait k p \<Longrightarrow> lock_wait k = Inr (wait_locked k) \<and> scanning (wait_locked k) p"
  using wait_lock.acquire_free [of k] quiet_push [of 1 "this_cpu (sched k)"] quiet_push_pos [of 1 "this_cpu (sched k)"]
  by (simp add: can_wait_def wait_locked_def [symmetric] scanning_def quiet_def)

lemma unlock_wait_own:
  assumes "waitMutex k1 = own (tp (sched k1))" "this_cpu (sched k1) = push c" "numLocks c = 0"
  shows "unlock_wait k1 = Inr ((set_cpu k1 (settle c))\<lparr>waitMutex := new_SpinMutex\<rparr>)"
  using wait_lock.release_own [OF assms(1,2), of 0] assms(3) by (simp add: quiet_def)

lemma wait_released:
  assumes "waitMutex k = new_SpinMutex" "numLocks (this_cpu (sched k)) = 0"
  shows "unlock_wait (wait_locked k) = Inr (set_cpu k (settle (this_cpu (sched k))))"
    "unlock_wait (reaped (wait_locked k) p i) = Inr (set_cpu (reaped k p i) (settle (this_cpu (sched k))))"
  using assms by (cases k; simp add: unlock_wait_own wait_locked_def set_cpu_def reaped_def upd_proc_def upd_process_def)+

lemma copy_status_wait:
  "copy_status (wait_locked k) p d addr = andThen (copy_status k p d addr) (\<lambda>(ok, k1). Inr (ok, wait_locked k1))"
proof -
  have h: "wait_locked (k\<lparr>fsys := fs\<rparr>) = (wait_locked k)\<lparr>fsys := fs\<rparr>" for fs by (simp add: wait_locked_def set_cpu_def)
  have "fsys (wait_locked k) = fsys k" "status_address (wait_locked k) = status_address k" by (simp_all add: wait_locked_def set_cpu_def)
  then show ?thesis by (simp add: copy_status_def Let_def andThen_assoc h split_def)
qed

lemma first_zombie_Some:
  "first_zombie k p = Some i \<Longrightarrow> i < length (children (proc k p)) \<and> p_state (proc k (children (proc k p) ! i)) = Zombie \<and>
     (\<forall>j < i. p_state (proc k (children (proc k p) ! j)) \<noteq> Zombie)"
  by (auto simp: first_zombie_def find_Some_iff)

lemma first_zombie_None:
  "first_zombie k p = None \<Longrightarrow> j < length (children (proc k p)) \<Longrightarrow> p_state (proc k (children (proc k p) ! j)) \<noteq> Zombie"
  by (auto simp: first_zombie_def find_None_iff)

lemma wait_zombie:
  assumes w: "can_wait k p" and z: "first_zombie k p = Some i"
  shows "wait_enter k p addr = andThen (copy_status k p (children (proc k p) ! i) addr) (\<lambda>(ok, k1).
    Inr (Returned (ok \<longrightarrow> p_pid (proc k (next_slot k p i)) \<noteq> 0),
      set_cpu (if ok then reaped k1 p i else k1) (settle (this_cpu (sched k)))))"
proof -
  let ?k = "wait_locked k" and ?cs = "children (proc k p)" and ?c = "children (proc k p) ! i"
  note i = first_zombie_Some [OF z] and l = can_wait_scanning [OF w]
  obtain n where n: "length ?cs - i = Suc n" using i by (metis Suc_diff_Suc)
  have "wait_scan ?k p addr 0 (length ?cs) = wait_scan ?k p addr (0 + i) (length ?cs - i)"
    by (rule scan_to) (use l i in auto)
  also have "\<dots> = andThen (copy_status ?k p ?c addr) (\<lambda>(ok, k1).
      Inr (if ok then (Some (p_pid (proc ?k (next_slot ?k p i)) \<noteq> 0), reaped k1 p i) else (Some True, k1)))"
    unfolding n using scan_zombie [of ?k p i ?c] l i by simp
  finally have sc: "wait_scan ?k p addr 0 (length ?cs) = andThen (copy_status k p ?c addr) (\<lambda>(ok, k1).
      Inr (if ok then (Some (p_pid (proc k (next_slot k p i)) \<noteq> 0), reaped (wait_locked k1) p i) else (Some True, wait_locked k1)))"
    by (cases "copy_status k p ?c addr") (auto simp: copy_status_wait)
  have un: "unlock_wait (wait_locked k1) = Inr (set_cpu k1 (settle (this_cpu (sched k))))"
    "unlock_wait (reaped (wait_locked k1) p i) = Inr (set_cpu (reaped k1 p i) (settle (this_cpu (sched k))))"
    if "copy_status k p ?c addr = Inr (ok, k1)" for ok k1
    using copy_status_frame [OF that] w wait_released [of k1] by (auto simp: can_wait_def)
  have "?cs \<noteq> []" using i by auto
  then show ?thesis
    using l sc un by (cases "copy_status k p ?c addr") (auto simp: wait_enter_def wait_round_def)
qed

lemma wait_sleeps:
  assumes w: "can_wait k p" and z: "first_zombie k p = None" and ne: "children (proc k p) \<noteq> []"
  shows "\<exists>t. wait_enter k p addr = Inr (Waits (sstatus (this_cpu (sched k)) AND SSTATUS_SIE \<noteq> 0),
      k\<lparr>sched := (sched (wait_locked k))\<lparr>process_of := (process_of (sched k))(p := (asleep (process_address k p) (proc k p))\<lparr>p_mutex := own (tp (sched k))\<rparr>),
        sleepTable := t\<rparr>\<rparr>) \<and>
    hm_invar t \<and> hm_lookup t (process_address k p) = Some (sleepers (sched k) (process_address k p) @ [p])"
proof -
  let ?k = "wait_locked k" and ?n = "length (children (proc k p))"
  note l = can_wait_scanning [OF w]
  have "wait_scan ?k p addr 0 ?n = wait_scan ?k p addr (0 + ?n) (?n - ?n)"
    by (rule scan_to) (use l first_zombie_None [OF z] in auto)
  then have sc: "wait_scan ?k p addr 0 ?n = Inr (None, ?k)" by simp
  have "sleepers (sched ?k) ch = sleepers (sched k) ch" for ch by (simp add: sleepers_def wait_locked_def set_cpu_def)
  then obtain t where t: "sleep_enter (sched ?k) (process_address k p) (own (tp (sched k))) = Inr (sstatus (this_cpu (sched k)) AND SSTATUS_SIE \<noteq> 0, new_SpinMutex,
      (sched ?k)\<lparr>process_of := (process_of (sched k))(p := (asleep (process_address k p) (proc k p))\<lparr>p_mutex := own (tp (sched k))\<rparr>), sleepTable := t\<rparr>)"
    "hm_invar t" "hm_lookup t (process_address k p) = Some (sleepers (sched k) (process_address k p) @ [p])"
    using sleep_enter_law [of "sched ?k" p "this_cpu (sched k)" "process_address k p"] w
    by (auto simp: can_wait_def proc_def wait_locked_def set_cpu_def)
  have "k\<lparr>sched := s, waitMutex := new_SpinMutex\<rparr> = k\<lparr>sched := s\<rparr>" for s using w by (cases k) (simp add: can_wait_def)
  then have "?k\<lparr>sched := s, waitMutex := new_SpinMutex\<rparr> = k\<lparr>sched := s\<rparr>" for s by (simp add: wait_locked_def set_cpu_def)
  then have "wait_enter k p addr = Inr (Waits (sstatus (this_cpu (sched k)) AND SSTATUS_SIE \<noteq> 0),
      k\<lparr>sched := (sched ?k)\<lparr>process_of := (process_of (sched k))(p := (asleep (process_address k p) (proc k p))\<lparr>p_mutex := own (tp (sched k))\<rparr>), sleepTable := t\<rparr>\<rparr>)"
    using l sc t(1) ne by (simp add: wait_enter_def wait_round_def)
  then show ?thesis using t(2,3) by blast
qed

text \<open>
  C15: \<open>wait\<close> of a process, with the mutexes that it takes free. With a zombie among the children it copies the exit status of the
  first one to the user address, when there is one, takes this child and no other out of the list of children and
  returns at once; when the copy fails it returns \<open>true\<close> as well and the child stays. The value is
  otherwise whether the process in the slot of the erased entry has a number: the next child, if there is one. Without children it returns
  \<open>true\<close>. With children but no zombie the process is asleep on its own address and in the table of sleepers, and
  the mutex of \<open>wait\<close> is free again. In all cases nothing else changes, and the processor has the locks it had.
\<close>

theorem wait_reaps_first_zombie:
  assumes "can_wait k p"
  shows "case first_zombie k p of
    Some i \<Rightarrow>
      wait_enter k p addr = andThen (copy_status k p (children (proc k p) ! i) addr) (\<lambda>(ok, k1).
        Inr (Returned (ok \<longrightarrow> p_pid (proc k (next_slot k p i)) \<noteq> 0),
          set_cpu (if ok then reaped k1 p i else k1) (settle (this_cpu (sched k)))))
  | None \<Rightarrow>
      if children (proc k p) = [] then wait_enter k p addr = Inr (Returned True, set_cpu k (settle (this_cpu (sched k))))
      else \<exists>flag s. wait_enter k p addr = Inr (Waits flag, k\<lparr>sched := s\<rparr>) \<and>
        process_of s = (process_of (sched k))(p := (asleep (process_address k p) (proc k p))\<lparr>p_mutex := own (tp (sched k))\<rparr>) \<and>
        p \<in> set (sleepers s (process_address k p)) \<and> numLocks (this_cpu s) = 1"
proof (cases "first_zombie k p")
  case None
  show ?thesis
  proof (cases "children (proc k p) = []")
    case True
    have "unlock_wait (wait_locked k) = Inr (set_cpu k (settle (this_cpu (sched k))))"
      using assms by (intro wait_released) (auto simp: can_wait_def)
    then show ?thesis
      using None True can_wait_scanning [OF assms] by (simp add: wait_enter_def wait_round_def)
  next
    case False
    have one: "numLocks (push (this_cpu (sched k))) = 1" using assms by (simp add: can_wait_def push_def Let_def)
    obtain t where "wait_enter k p addr = Inr (Waits (sstatus (this_cpu (sched k)) AND SSTATUS_SIE \<noteq> 0),
        k\<lparr>sched := (sched (wait_locked k))\<lparr>process_of := (process_of (sched k))(p := (asleep (process_address k p) (proc k p))\<lparr>p_mutex := own (tp (sched k))\<rparr>),
          sleepTable := t\<rparr>\<rparr>)" "hm_lookup t (process_address k p) = Some (sleepers (sched k) (process_address k p) @ [p])"
      using wait_sleeps [OF assms None False, of addr] by blast
    then show ?thesis using None False one by (auto simp: sleepers_def)
  qed
qed (simp add: wait_zombie [OF assms])

section \<open>A concrete run\<close>

text \<open>Process 9 has the children 3, asleep, and 7, which has ended.\<close>

definition example_waiting :: kernel where
  "example_waiting = example_kernel\<lparr>sched := example_sched\<lparr>process_of := (\<lambda>_. example_process)(
     9 := example_process\<lparr>children := [3, 7]\<rparr>, 7 := example_process\<lparr>p_state := Zombie, p_pid := 4\<rparr>)\<rparr>\<rparr>"

lemma example_waiting_facts:
  "can_wait example_waiting 9" "first_zombie example_waiting 9 = Some 1" "children (proc example_waiting 9) = [3, 7]"
  "p_pid (proc example_waiting 7) = 4"
  using example_table_facts
  by (auto simp: can_wait_def first_zombie_def example_waiting_def proc_def example_kernel_def example_process_def example_sched_def)

theorem wait_reaps_first_zombie_witness:
  "\<exists>k'. wait_enter example_waiting 9 0 = Inr (Returned True, k') \<and> children (proc k' 9) = [3]"
  using wait_reaps_first_zombie [OF example_waiting_facts(1), of 0] example_waiting_facts
  by (simp add: copy_status_def next_slot_def reaped_def upd_proc_def upd_process_def set_cpu_def) (simp add: proc_def)

end
