(* ===== verification/Proc_Files.thy ===== *)
theory Proc_Files
  imports Syscall
begin

unbundle bit_operations_syntax

text \<open>
  The table of open files over all processes and system calls: the reference count of a file is the number of
  descriptors that name it, and a file with a reference is of a type that can be read and written. The first part
  collects what the operations below leave alone: the file system code keeps the table of files, the scheduler
  keeps the descriptors.
\<close>

section \<open>The file system keeps the table of files\<close>

text \<open>\<open>above s' s\<close>: the two states agree on all that lies above the inodes: files, devices, console.\<close>

abbreviation above :: "'a istate \<Rightarrow> 'a istate \<Rightarrow> bool" where
  "above s' s \<equiv> ino_state.more s' = ino_state.more s"

lemmas hash_map_any [kept] =
  if_returns_any [of _ "contains t k" for t k] if_returns_any [of _ "subscript t k d" for t k d]
  if_returns_any [of _ "assign t k d v" for t k d v] if_returns_any [of _ "erase t k" for t k]

lemmas mutex_any [kept] =
  if_returns_any [of _ "sleep_lock p m" for p m] if_returns_any [of _ "spin_lock c h m" for c h m]
  if_returns_any [of _ "spin_unlock c h m" for c h m]

lemma upd_above [simp]:
  "ino_state.more (upd_buffer s b f) = ino_state.more s" "ino_state.more (buffer_read s b) = ino_state.more s"
  "ino_state.more (set_data s b d) = ino_state.more s" "ino_state.more (upd_inode s ip g) = ino_state.more s"
  "ino_state.more (diskWrite s b) = ino_state.more s" "ino_state.more (cache_pin s b) = ino_state.more s"
  by (simp_all add: upd_buffer_def buffer_read_def diskRead_def set_data_def upd_inode_def diskWrite_def cache_pin_def Let_def)

lemma cache_get_kept [kept]: "(\<And>b s'. above s' s \<Longrightarrow> Q (b, s')) \<Longrightarrow> if_returns Q (cache_get s d n)"
  by (auto simp: cache_get_def Let_def if_returns_simps intro!: kept)

lemma cache_release_kept [kept]: "(\<And>s'. above s' s \<Longrightarrow> Q s') \<Longrightarrow> if_returns Q (cache_release s b)"
  by (auto simp: cache_release_def Let_def if_returns_simps intro!: kept)

lemma cache_unpin_kept [kept]: "(\<And>s'. above s' s \<Longrightarrow> Q s') \<Longrightarrow> if_returns Q (cache_unpin s b)"
  by (auto simp: cache_unpin_def if_returns_simps)

lemma buffer_write_kept [kept]: "(\<And>s'. above s' s \<Longrightarrow> Q s') \<Longrightarrow> if_returns Q (buffer_write s b)"
  by (auto simp: buffer_write_def if_returns_simps)

lemma writeHead_kept [kept]: "(\<And>s'. above s' s \<Longrightarrow> Q s') \<Longrightarrow> if_returns Q (writeHead s)"
  by (auto simp: writeHead_def Let_def if_returns_simps intro!: kept)

lemma install_loop_kept [kept]: "(\<And>s'. above s' s \<Longrightarrow> Q s') \<Longrightarrow> if_returns Q (install_loop s r i k)"
  by (induction k arbitrary: s i) (auto simp: install_loop.simps Let_def if_returns_simps intro!: kept)

lemma writeLog_loop_kept [kept]: "(\<And>s'. above s' s \<Longrightarrow> Q s') \<Longrightarrow> if_returns Q (writeLog_loop s i k)"
  by (induction k arbitrary: s i) (auto simp: writeLog_loop.simps Let_def if_returns_simps intro!: kept)

lemma commit_kept [kept]: "(\<And>s'. above s' s \<Longrightarrow> Q s') \<Longrightarrow> if_returns Q (commit s)"
  by (auto simp: commit_def installTransaction_def if_returns_simps intro!: kept)

lemma beginOp_kept [kept]: "(\<And>s'. above s' s \<Longrightarrow> Q s') \<Longrightarrow> if_returns Q (beginOp s)"
  by (auto simp: beginOp_def if_returns_simps)

lemma endOp_kept [kept]: "(\<And>s'. above s' s \<Longrightarrow> Q s') \<Longrightarrow> if_returns Q (endOp s)"
  by (auto simp: endOp_def endOp_enter_def Let_def if_returns_simps intro!: kept)

lemma writeLog_kept [kept]: "(\<And>s'. above s' s \<Longrightarrow> Q s') \<Longrightarrow> if_returns Q (writeLog s b)"
  by (auto simp: writeLog_def Let_def if_returns_simps intro!: kept)

lemma fillBlock_kept [kept]: "(\<And>s'. above s' s \<Longrightarrow> Q s') \<Longrightarrow> if_returns Q (fillBlock s d b c)"
  by (auto simp: fillBlock_def Let_def if_returns_simps intro!: kept)

lemma allocate_loop_kept [kept]: "(\<And>b s'. above s' s \<Longrightarrow> Q (b, s')) \<Longrightarrow> if_returns Q (Fs_Block.allocate_loop s d n k)"
  by (induction k arbitrary: s n) (auto simp: Let_def if_returns_simps intro!: kept split: option.split)

lemma allocateBlock_kept [kept]: "(\<And>b s'. above s' s \<Longrightarrow> Q (b, s')) \<Longrightarrow> if_returns Q (allocateBlock s d)"
  unfolding allocateBlock_def by (rule allocate_loop_kept)

lemma freeBlock_kept [kept]: "(\<And>s'. above s' s \<Longrightarrow> Q s') \<Longrightarrow> if_returns Q (freeBlock s d b)"
  by (auto simp: freeBlock_def Let_def if_returns_simps intro!: kept)

lemma inode_get_kept [kept]: "(\<And>ip s'. above s' s \<Longrightarrow> Q (ip, s')) \<Longrightarrow> if_returns Q (inode_get s d n)"
  by (auto simp: inode_get_def Let_def if_returns_simps intro!: kept)

lemma inode_allocate_loop_kept [kept]:
  "(\<And>r s'. above s' s \<Longrightarrow> Q (r, s')) \<Longrightarrow> if_returns Q (inode_allocate_loop s d t i k)"
  by (induction k arbitrary: s i) (auto simp: Let_def if_returns_simps intro!: kept)

lemma inode_lock_kept [kept]: "(\<And>s'. above s' s \<Longrightarrow> Q s') \<Longrightarrow> if_returns Q (inode_lock s ip)"
  by (auto simp: inode_lock_def Let_def if_returns_simps intro!: kept)

lemma inode_unlock_kept [kept]: "(\<And>s'. above s' s \<Longrightarrow> Q s') \<Longrightarrow> if_returns Q (inode_unlock s ip)"
  by (auto simp: inode_unlock_def if_returns_simps)

lemma inode_update_kept [kept]: "(\<And>s'. above s' s \<Longrightarrow> Q s') \<Longrightarrow> if_returns Q (inode_update s ip)"
  by (auto simp: inode_update_def Let_def if_returns_simps intro!: kept)

lemma truncate_direct_kept [kept]: "(\<And>s'. above s' s \<Longrightarrow> Q s') \<Longrightarrow> if_returns Q (truncate_direct s ip i k)"
  by (induction k arbitrary: s i) (auto simp: Let_def if_returns_simps intro!: kept)

lemma truncate_indirect_kept [kept]: "(\<And>s'. above s' s \<Longrightarrow> Q s') \<Longrightarrow> if_returns Q (truncate_indirect s d b i k)"
  by (induction k arbitrary: s i) (auto simp: Let_def if_returns_simps intro!: kept)

lemma inode_truncate_kept [kept]: "(\<And>s'. above s' s \<Longrightarrow> Q s') \<Longrightarrow> if_returns Q (inode_truncate s ip)"
  by (auto simp: inode_truncate_def Let_def if_returns_simps intro!: kept)

lemma inode_put_kept [kept]: "(\<And>s'. above s' s \<Longrightarrow> Q s') \<Longrightarrow> if_returns Q (inode_put s ip)"
  by (auto simp: inode_put_def Let_def if_returns_simps intro!: kept)

lemma inode_bmap_kept [kept]: "(\<And>b s'. above s' s \<Longrightarrow> Q (b, s')) \<Longrightarrow> if_returns Q (inode_bmap s ip n)"
  by (auto simp: inode_bmap_def bmap_indirect_def Let_def if_returns_simps intro!: kept)

lemmas copy_any [kept] =
  if_returns_any [of _ "eitherCopyout ps t u d a n" for ps t u d a n] if_returns_any [of _ "eitherCopyin ps t d u a n" for ps t d u a n]
  if_returns_any [of _ "copyin ps t d a n" for ps t d a n] if_returns_any [of _ "copyout ps t d a n" for ps t d a n]
  if_returns_any [of _ "copyinString ps t d a n" for ps t d a n] if_returns_any [of _ "strncmp_bytes xs ys" for xs ys]
  if_returns_any [of _ "strncpy_bytes xs m" for xs m]

lemma copy_to_place_kept [kept]:
  "(\<And>ok p' s'. above s' s \<Longrightarrow> Q (ok, p', s')) \<Longrightarrow> if_returns Q (copy_to_place s p a bs)"
  by (auto simp: copy_to_place_def Let_def if_returns_simps intro!: kept split: place.split)

lemma copy_from_place_kept [kept]:
  "(\<And>ok p' bs s'. above s' s \<Longrightarrow> Q (ok, p', bs, s')) \<Longrightarrow> if_returns Q (copy_from_place s p a old)"
  by (auto simp: copy_from_place_def Let_def if_returns_simps intro!: kept split: place.split)

lemma read_loop_kept [kept]:
  "(\<And>r p' s'. above s' s \<Longrightarrow> Q (r, p', s')) \<Longrightarrow> if_returns Q (read_loop s ip p off len tot)"
proof (induction "unat (len - tot)" arbitrary: s p off tot rule: less_induct)
  case less
  show ?case
    by (subst read_loop.simps) (auto simp: Let_def if_returns_simps intro!: kept less piece_progress)
qed

lemma write_loop_kept [kept]:
  "(\<And>o' r s'. above s' s \<Longrightarrow> Q (o', r, s')) \<Longrightarrow> if_returns Q (write_loop s ip p off len tot)"
proof (induction "unat (len - tot)" arbitrary: s p off tot rule: less_induct)
  case less
  show ?case
    by (subst write_loop.simps) (auto simp: Let_def if_returns_simps intro!: kept less piece_progress)
qed

lemma inode_read_kept [kept]: "(\<And>n p' s'. above s' s \<Longrightarrow> Q (n, p', s')) \<Longrightarrow> if_returns Q (inode_read s ip p off len)"
  by (auto simp: inode_read_def Let_def if_returns_simps intro!: kept)

lemma inode_write_kept [kept]: "(\<And>n s'. above s' s \<Longrightarrow> Q (n, s')) \<Longrightarrow> if_returns Q (inode_write s ip p off len)"
  by (auto simp: inode_write_def Let_def if_returns_simps intro!: kept)

lemma dirLookup_loop_kept [kept]:
  "(\<And>r s'. above s' s \<Longrightarrow> Q (r, s')) \<Longrightarrow> if_returns Q (dirLookup_loop s dp nm off e k)"
  by (induction k arbitrary: s off e) (auto simp: Let_def if_returns_simps intro!: kept)

lemma dirLookup_kept [kept]: "(\<And>r s'. above s' s \<Longrightarrow> Q (r, s')) \<Longrightarrow> if_returns Q (dirLookup s dp nm)"
  by (auto simp: dirLookup_def if_returns_simps intro!: dirLookup_loop_kept)

lemma free_entry_loop_kept [kept]:
  "(\<And>o' e' s'. above s' s \<Longrightarrow> Q (o', e', s')) \<Longrightarrow> if_returns Q (free_entry_loop s dp off e k)"
  by (induction k arbitrary: s off e) (auto simp: Let_def if_returns_simps intro!: kept)

lemma dirLink_kept [kept]: "(\<And>ok s'. above s' s \<Longrightarrow> Q (ok, s')) \<Longrightarrow> if_returns Q (dirLink s dp nm n)"
  by (auto simp: dirLink_def Let_def if_returns_simps intro!: kept split: option.split)

lemma open_loop_kept [kept]:
  "(\<And>r nm' s'. above s' s \<Longrightarrow> Q (r, nm', s')) \<Longrightarrow> if_returns Q (open_loop s ip path parent nm)"
proof (induction "length path" arbitrary: s ip path parent nm rule: less_induct)
  case less
  show ?case
    by (subst open_loop.simps)
      (auto simp: if_returns_simps intro!: kept less split: option.split dest: skipElement_shorter)
qed

lemma inode_open_kept [kept]: "(\<And>r nm' s'. above s' s \<Longrightarrow> Q (r, nm', s')) \<Longrightarrow> if_returns Q (inode_open s path parent nm)"
  by (auto simp: inode_open_def inode_dup_def if_returns_simps intro!: kept)

lemma unlock_put_kept [kept]: "(\<And>s'. above s' s \<Longrightarrow> Q s') \<Longrightarrow> if_returns Q (unlock_put s ip)"
  by (auto simp: unlock_put_def if_returns_simps intro!: kept)

lemma create_fail_kept [kept]: "(\<And>r s'. above s' s \<Longrightarrow> Q (r, s')) \<Longrightarrow> if_returns Q (create_fail s dp ip)"
  by (auto simp: create_fail_def if_returns_simps intro!: kept)

lemma dot_entries_kept [kept]: "(\<And>ok s'. above s' s \<Longrightarrow> Q (ok, s')) \<Longrightarrow> if_returns Q (dot_entries s ip)"
  by (auto simp: dot_entries_def if_returns_simps intro!: kept)

lemma inode_create_kept [kept]:
  "(\<And>r s'. above s' s \<Longrightarrow> Q (r, s')) \<Longrightarrow> if_returns Q (inode_create s path nm t ma mi)"
  by (auto simp: inode_create_def inode_allocate_def Let_def if_returns_simps intro!: kept split: option.split)

lemma put_in_op_kept [kept]: "(\<And>s'. above s' s \<Longrightarrow> Q s') \<Longrightarrow> if_returns Q (put_in_op s ip)"
  by (auto simp: put_in_op_def if_returns_simps intro!: kept)

lemma open_inode_kept [kept]: "(\<And>r s'. above s' s \<Longrightarrow> Q (r, s')) \<Longrightarrow> if_returns Q (open_inode s path mode)"
  by (auto simp: open_inode_def if_returns_simps intro!: kept split: option.split)

lemma load_segment_loop_kept [kept]:
  "(\<And>ok s'. above s' s \<Longrightarrow> Q (ok, s')) \<Longrightarrow> if_returns Q (load_segment_loop s pt va ip off sz i k)"
  by (induction k arbitrary: s i)
    (auto simp: Let_def if_returns_simps intro!: kept if_returns_any [of _ "walkAddress ps t v" for ps t v])

lemma loadSegment_kept [kept]: "(\<And>ok s'. above s' s \<Longrightarrow> Q (ok, s')) \<Longrightarrow> if_returns Q (loadSegment s pt va ip off sz)"
  unfolding loadSegment_def by (rule load_segment_loop_kept)

lemma load_header_kept [kept]: "(\<And>r s'. above s' s \<Longrightarrow> Q (r, s')) \<Longrightarrow> if_returns Q (load_header s ip pt ph sz)"
  by (auto simp: load_header_def Let_def if_returns_simps
      intro!: kept if_returns_any [of _ "allocateUserVirtualMemory ps t a b c" for ps t a b c])

lemma load_headers_kept [kept]: "(\<And>r s'. above s' s \<Longrightarrow> Q (r, s')) \<Longrightarrow> if_returns Q (load_headers s ip pt off sz k)"
  by (induction k arbitrary: s off sz) (auto simp: if_returns_simps intro!: kept split: option.split)

lemma load_image_kept [kept]: "(\<And>r s'. above s' s \<Longrightarrow> Q (r, s')) \<Longrightarrow> if_returns Q (load_image s ip pt)"
  by (auto simp: load_image_def Let_def if_returns_simps intro!: kept)

section \<open>The table of files\<close>

text \<open>
  \<open>table_ok t c\<close>: the table has its 200 entries, the reference count of file \<open>f\<close> is \<open>c f\<close> as a 32-bit number, and
  a file with references has been opened as an inode or as a device.
\<close>

definition table_ok :: "open_file list \<Rightarrow> (nat \<Rightarrow> nat) \<Rightarrow> bool" where
  "table_ok t c \<longleftrightarrow> length t = NUM_FILES \<and>
     (\<forall>f < NUM_FILES. f_refCount (t ! f) = of_nat (c f) \<and>
        (f_refCount (t ! f) \<noteq> 0 \<longrightarrow> f_type (t ! f) \<in> {InodeFile, DeviceFile}))"

lemma above_ftable: "above s' s \<Longrightarrow> ftable s' = ftable (s :: 'a fstate)"
  by (cases s; cases s') simp

lemma ftable_upd_file [simp]: "ftable (upd_file s f g) = (ftable s)[f := g (ftable s ! f)]"
  by (simp add: upd_file_def)

lemma table_ok_update:
  assumes "table_ok t c" "f < NUM_FILES" "f_refCount x = of_nat (c' f)" "\<And>g. g \<noteq> f \<Longrightarrow> c' g = c g"
    "f_refCount x \<noteq> 0 \<Longrightarrow> f_type x \<in> {InodeFile, DeviceFile}"
  shows "table_ok (t[f := x]) c'"
  using assms by (auto simp: table_ok_def nth_list_update)

lemma table_ok_same:
  assumes "table_ok t c" "f_refCount x = f_refCount (t ! f)" "f_type x = f_type (t ! f)"
  shows "table_ok (t[f := x]) c"
proof (cases "f < NUM_FILES")
  case True
  then show ?thesis using assms by (intro table_ok_update [OF assms(1)]) (auto simp: table_ok_def)
qed (use assms in \<open>simp add: table_ok_def\<close>)

lemma free_file_found: "free_file fs i = Some f \<Longrightarrow> i \<le> f \<and> f < i + length fs \<and> f_refCount (fs ! (f - i)) = 0"
  by (induction fs i rule: free_file.induct) (auto simp: nth_Cons' split: if_splits)

lemma fill_file_fields [simp]: "f_refCount (fill_file x ip mode y) = f_refCount y" "f_type (fill_file x ip mode y) \<in> {InodeFile, DeviceFile}"
  by (auto simp: fill_file_def Let_def)

lemma file_dup_counts:
  assumes t: "table_ok (ftable s) c" and f: "f < NUM_FILES"
    and Q: "\<And>s'. table_ok (ftable s') (c(f := Suc (c f))) \<Longrightarrow> Q s'"
  shows "if_returns Q (file_dup s f)"
proof -
  have "table_ok ((ftable s)[f := (ftable s ! f)\<lparr>f_refCount := f_refCount (ftable s ! f) + 1\<rparr>]) (c(f := Suc (c f)))"
    if "1 \<le> f_refCount (ftable s ! f)"
    by (rule table_ok_update [OF t f]) (use t f that in \<open>auto simp: table_ok_def\<close>)
  then show ?thesis by (auto simp: file_dup_def if_returns_simps intro!: Q)
qed

lemma dup_files_counts:
  assumes "table_ok (ftable s) c" "\<And>f. Some f \<in> set fs \<Longrightarrow> f < NUM_FILES"
    and "\<And>s'. table_ok (ftable s') (\<lambda>f. c f + count_list fs (Some f)) \<Longrightarrow> Q s'"
  shows "if_returns Q (dup_files s fs)"
  using assms
proof (induction fs arbitrary: s c)
  case (Cons x fs)
  show ?case
  proof (cases x)
    case None
    then show ?thesis using Cons by simp
  next
    case (Some f)
    have c: "(\<lambda>g. (c(f := Suc (c f))) g + count_list fs (Some g)) = (\<lambda>g. c g + count_list (Some f # fs) (Some g))" by auto
    have "if_returns Q (dup_files s' fs)" if "table_ok (ftable s') (c(f := Suc (c f)))" for s'
      by (rule Cons.IH [OF that]) (use Cons.prems Some c in auto)
    then show ?thesis
      unfolding Some dup_files.simps if_returns_simps
      by (intro file_dup_counts [OF Cons.prems(1)]) (use Cons.prems(2) Some in auto)
  qed
qed (simp add: if_returns_simps)

lemma file_close_counts:
  assumes t: "table_ok (ftable s) c" and f: "f < NUM_FILES"
    and Q: "\<And>s'. table_ok (ftable s') (c(f := c f - 1)) \<Longrightarrow> Q s'"
  shows "if_returns Q (file_close s f)"
proof (cases "c f = 0")
  case True
  then show ?thesis using t f by (auto simp: file_close_def table_ok_def if_returns_simps)
next
  case False
  let ?x = "ftable s ! f"
  have len: "f < length (ftable s)" and x: "f_refCount ?x - 1 = of_nat (c f - 1)"
    using t f False by (simp_all add: table_ok_def)
  have dec: "table_ok ((ftable s)[f := y]) (c(f := c f - 1))"
    if "f_refCount y = f_refCount ?x - 1" "f_refCount y \<noteq> 0 \<longrightarrow> f_refCount ?x \<noteq> 0 \<and> f_type y = f_type ?x" for y
    by (rule table_ok_update [OF t f]) (use t f x that in \<open>auto simp: table_ok_def\<close>)
  have last: "if_returns Q (put_in_op s' ip)" if "ftable s' = (ftable s)[f := ?x\<lparr>f_refCount := 0, f_type := NoFile\<rparr>]" "f_refCount ?x - 1 = 0" for s' ip
    by (rule put_in_op_kept, rule Q) (use that in \<open>auto dest!: above_ftable intro!: dec simp del: One_nat_def\<close>)
  show ?thesis
    by (auto simp: file_close_def Let_def len word_gt_0 if_returns_simps simp del: One_nat_def intro!: Q dec last split: FileType.split)
qed

lemma close_files_counts:
  assumes "table_ok (ftable s) c" "\<And>f. Some f \<in> set fs \<Longrightarrow> f < NUM_FILES"
    and "\<And>s'. table_ok (ftable s') (\<lambda>f. c f - count_list fs (Some f)) \<Longrightarrow> Q s'"
  shows "if_returns Q (close_files s fs)"
  using assms
proof (induction fs arbitrary: s c)
  case (Cons x fs)
  show ?case
  proof (cases x)
    case None
    then show ?thesis using Cons by simp
  next
    case (Some f)
    have c: "(\<lambda>g. (c(f := c f - 1)) g - count_list fs (Some g)) = (\<lambda>g. c g - count_list (Some f # fs) (Some g))" by auto
    have "if_returns Q (close_files s' fs)" if "table_ok (ftable s') (c(f := c f - 1))" for s'
      by (rule Cons.IH [OF that]) (use Cons.prems Some c in auto)
    then show ?thesis
      unfolding Some close_files.simps if_returns_simps
      by (intro file_close_counts [OF Cons.prems(1)]) (use Cons.prems(2) Some in auto)
  qed
qed (simp add: if_returns_simps)

lemma open_file_of_counts:
  assumes t: "table_ok (ftable s) c"
    and none: "\<And>s'. table_ok (ftable s') c \<Longrightarrow> Q (None, s')"
    and some: "\<And>f s'. f < NUM_FILES \<Longrightarrow> table_ok (ftable s') (c(f := Suc (c f))) \<Longrightarrow> Q (Some f, s')"
  shows "if_returns Q (open_file_of s path mode)"
proof -
  have f: "f < NUM_FILES" "f < length (ftable s)" if "free_file (ftable s) 0 = Some f" for f
    using free_file_found [OF that] t by (simp_all add: table_ok_def)
  have new: "table_ok ((ftable s)[f := fill_file x ip mode ((ftable s ! f)\<lparr>f_refCount := f_refCount (ftable s ! f) + 1\<rparr>)])
      (c(f := Suc (c f)))" if "free_file (ftable s) 0 = Some f" for f x ip
    by (intro table_ok_update [OF t f(1) [OF that]] fill_file_fields(2)) (use t f [OF that] in \<open>auto simp: table_ok_def\<close>)
  show ?thesis
    unfolding open_file_of_def Let_def if_returns_simps file_allocate_def
    by (auto simp: if_returns_simps f t intro!: kept none some new split: option.split dest!: above_ftable)
qed

text \<open>Reading and writing move the offset of a file only.\<close>

lemma console_write_loop_ftable:
  "(\<And>v s'. ftable s' = ftable s \<Longrightarrow> Q (v, s')) \<Longrightarrow> if_returns Q (console_write_loop s user src i n)"
proof (induction "nat n" arbitrary: s i n rule: less_induct)
  case less
  show ?case
    by (subst console_write_loop.simps) (auto simp: Let_def if_returns_simps intro!: kept less)
qed

lemma call_routine_ftable: "(\<And>v s'. ftable s' = ftable s \<Longrightarrow> Q (v, s')) \<Longrightarrow> if_returns Q (call_routine r s user a n)"
  by (auto simp: call_routine_def consoleRead_def consoleWrite_def if_returns_simps intro!: console_write_loop_ftable
      if_returns_any [of _ "readline cp cs ps d m" for cp cs ps d m] split: option.split routine.split)

lemma file_read_counts:
  assumes "table_ok (ftable s) c" "\<And>v s'. table_ok (ftable s') c \<Longrightarrow> Q (v, s')"
  shows "if_returns Q (file_read s f a n)"
  using assms(1) by (auto simp: file_read_def Let_def if_returns_simps
      intro!: assms(2) kept call_routine_ftable table_ok_same split: FileType.split option.split dest!: above_ftable)

lemma file_write_loop_counts:
  assumes "table_ok (ftable s) c" "\<And>v s'. table_ok (ftable s') c \<Longrightarrow> Q (v, s')"
  shows "if_returns Q (file_write_loop s f a n i)"
  using assms
proof (induction "nat (n - i)" arbitrary: s i rule: less_induct)
  case less
  show ?case
    by (subst file_write_loop.simps)
      (use less.prems in \<open>auto simp: Let_def if_returns_simps max_write_def MAX_OP_BLOCKS_def BLOCK_SIZE_def
        intro!: kept less table_ok_same dest!: above_ftable\<close>)
qed

lemma file_write_counts:
  assumes "table_ok (ftable s) c" "\<And>v s'. table_ok (ftable s') c \<Longrightarrow> Q (v, s')"
  shows "if_returns Q (file_write s f a n)"
  using assms by (auto simp: file_write_def Let_def if_returns_simps
      intro!: call_routine_ftable file_write_loop_counts split: FileType.split option.split)

section \<open>The scheduler keeps the descriptors\<close>

definition fds :: "'a sstate \<Rightarrow> nat \<Rightarrow> nat option list" where
  "fds s p = openFiles (process_of s p)"

lemmas queue_any [kept] =
  if_returns_any [of _ "push_back h q p" for h q p] if_returns_any [of _ "pop_front h q" for h q]
  if_returns_any [of _ "q_front h q" for h q]

lemma fds_cpu [simp]:
  "fds (s\<lparr>this_cpu := c\<rparr>) = fds s" "fds (s\<lparr>sched_mutex := m\<rparr>) = fds s" "fds (s\<lparr>queue_nodes := h\<rparr>) = fds s"
  "fds (s\<lparr>readyQueue := q\<rparr>) = fds s" "fds (s\<lparr>sleepTable := t\<rparr>) = fds s" "fds (s\<lparr>cpu_process := r\<rparr>) = fds s"
  by (simp_all add: fds_def fun_eq_iff)

lemma fds_upd_process: "fds (upd_process s p f) = (fds s)(p := openFiles (f (process_of s p)))"
  by (simp add: fds_def fun_eq_iff upd_process_def)

lemma fds_same: "openFiles (f (process_of s p)) = openFiles (process_of s p) \<Longrightarrow> fds (upd_process s p f) = fds s"
  by (simp add: fds_def fun_eq_iff upd_process_def)

lemma lock_sched_kept [kept]: "(\<And>s'. fds s' = fds s \<Longrightarrow> Q s') \<Longrightarrow> if_returns Q (lock_sched s)"
  by (auto simp: lock_sched_def if_returns_simps intro!: kept)

lemma unlock_sched_kept [kept]: "(\<And>s'. fds s' = fds s \<Longrightarrow> Q s') \<Longrightarrow> if_returns Q (unlock_sched s)"
  by (auto simp: unlock_sched_def if_returns_simps intro!: kept)

lemma lock_process_kept [kept]: "(\<And>s'. fds s' = fds s \<Longrightarrow> Q s') \<Longrightarrow> if_returns Q (lock_process s p)"
  by (auto simp: lock_process_def if_returns_simps fds_same intro!: kept)

lemma unlock_process_kept [kept]: "(\<And>s'. fds s' = fds s \<Longrightarrow> Q s') \<Longrightarrow> if_returns Q (unlock_process s p)"
  by (auto simp: unlock_process_def if_returns_simps fds_same intro!: kept)

lemma enqueue_kept [kept]: "(\<And>s'. fds s' = fds s \<Longrightarrow> Q s') \<Longrightarrow> if_returns Q (enqueue s p)"
  by (auto simp: enqueue_def Let_def if_returns_simps intro!: kept split: process_state.split)

lemma registerProcess_kept [kept]: "(\<And>s'. fds s' = fds s \<Longrightarrow> Q s') \<Longrightarrow> if_returns Q (registerProcess s r)"
  by (auto simp: registerProcess_def if_returns_simps intro!: kept split: option.split)

lemma reschedule_enter_kept [kept]: "(\<And>b s'. fds s' = fds s \<Longrightarrow> Q (b, s')) \<Longrightarrow> if_returns Q (reschedule_enter s)"
  by (auto simp: reschedule_enter_def if_returns_simps intro!: kept split: option.split)

lemma wakeup_loop_kept [kept]: "(\<And>s'. fds s' = fds s \<Longrightarrow> Q s') \<Longrightarrow> if_returns Q (wakeup_loop s ps)"
  by (induction ps arbitrary: s) (auto simp: if_returns_simps fds_same intro!: kept)

lemma wakeup_kept [kept]: "(\<And>s'. fds s' = fds s \<Longrightarrow> Q s') \<Longrightarrow> if_returns Q (wakeup s ch)"
  by (auto simp: wakeup_def if_returns_simps intro!: kept)

lemma sleep_enter_kept [kept]: "(\<And>b m' s'. fds s' = fds s \<Longrightarrow> Q (b, m', s')) \<Longrightarrow> if_returns Q (sleep_enter s ch m)"
  by (auto simp: sleep_enter_def if_returns_simps fds_same intro!: kept split: option.split)

lemma sleep_leave_kept [kept]: "(\<And>m' s'. fds s' = fds s \<Longrightarrow> Q (m', s')) \<Longrightarrow> if_returns Q (sleep_leave s p b m)"
  by (auto simp: sleep_leave_def reschedule_leave_def if_returns_simps fds_same intro!: kept)

lemma run_pick_kept [kept]: "(\<And>r s'. fds s' = fds s \<Longrightarrow> Q (r, s')) \<Longrightarrow> if_returns Q (run_pick s)"
  by (auto simp: run_pick_def take_front_def killZombie_def destroy_Process_def Let_def if_returns_simps fds_same
      intro!: kept split: option.split)

lemma run_return_kept [kept]: "(\<And>s'. fds s' = fds s \<Longrightarrow> Q s') \<Longrightarrow> if_returns Q (run_return s p)"
  by (auto simp: run_return_def if_returns_simps intro!: kept)

section \<open>Files and descriptors of all processes\<close>

definition descriptors :: "kernel \<Rightarrow> nat \<Rightarrow> nat" where
  "descriptors k f = (\<Sum>p < next_process k. count_list (openFiles (proc k p)) (Some f))"

definition files_ok :: "kernel \<Rightarrow> bool" where
  "files_ok k \<longleftrightarrow> table_ok (ftable (fsys k)) (descriptors k) \<and>
     (\<forall>p < next_process k. \<forall>fd \<in> set (openFiles (proc k p)). pred_option (\<lambda>f. f < NUM_FILES) fd)"

text \<open>What \<open>files_ok\<close> depends on: the processes that exist, their descriptors and the table.\<close>

definition files_view :: "kernel \<Rightarrow> nat \<Rightarrow> (nat \<Rightarrow> nat option list) \<Rightarrow> open_file list \<Rightarrow> bool" where
  "files_view k n D t \<longleftrightarrow> next_process k = n \<and> fds (sched k) = D \<and> ftable (fsys k) = t"

abbreviation same_files :: "kernel \<Rightarrow> kernel \<Rightarrow> bool" where
  "same_files k' k \<equiv> files_view k' (next_process k) (fds (sched k)) (ftable (fsys k))"

lemma openFiles_fds: "openFiles (proc k p) = fds (sched k) p"
  by (simp add: proc_def fds_def)

lemma files_ok_view:
  "files_view k n D t \<Longrightarrow> files_ok k \<longleftrightarrow> table_ok t (\<lambda>f. \<Sum>p < n. count_list (D p) (Some f)) \<and>
     (\<forall>p < n. \<forall>fd \<in> set (D p). pred_option (\<lambda>f. f < NUM_FILES) fd)"
  by (auto simp: files_ok_def files_view_def descriptors_def [abs_def] openFiles_fds)

lemma same_files_ok: "same_files k' k \<Longrightarrow> files_ok k' \<longleftrightarrow> files_ok k"
  using files_ok_view [of k' "next_process k" "fds (sched k)" "ftable (fsys k)"]
    files_ok_view [of k "next_process k" "fds (sched k)" "ftable (fsys k)"] by (simp add: files_view_def)

lemma sum_count_update:
  "p < n \<Longrightarrow> (\<Sum>q < n. count_list ((D(p := xs)) q) v) + count_list (D p) v = (\<Sum>q < n. count_list (D q) v) + count_list xs v"
  for n :: nat
  by (simp add: sum.remove [of _ p])

lemma ftable_as_process [simp]: "ftable (as_process k p) = ftable (fsys k)"
  by (simp add: as_process_def)

lemma fds_upd_proc: "fds (sched (upd_proc k p f)) = (fds (sched k))(p := openFiles (f (proc k p)))"
  by (simp add: upd_proc_def fds_upd_process proc_def)

lemma upd_proc_fields [simp]: "fsys (upd_proc k p f) = fsys k" "next_process (upd_proc k p f) = next_process k"
  by (simp_all add: upd_proc_def)

text \<open>A step of one process that exists: its descriptors become \<open>xs\<close>, and the table follows.\<close>

lemma files_ok_process:
  assumes "files_ok k" "p < next_process k" "files_view k' (next_process k) ((fds (sched k))(p := xs)) t"
    "table_ok t c" "\<And>f. c f + count_list (fds (sched k) p) (Some f) = descriptors k f + count_list xs (Some f)"
    "\<And>f. Some f \<in> set xs \<Longrightarrow> f < NUM_FILES"
  shows "files_ok k'"
proof -
  have "c = (\<lambda>f. \<Sum>q < next_process k. count_list (((fds (sched k))(p := xs)) q) (Some f))"
  proof
    fix f
    show "c f = (\<Sum>q < next_process k. count_list (((fds (sched k))(p := xs)) q) (Some f))"
      using sum_count_update [OF assms(2), of "fds (sched k)" xs "Some f"] assms(5) [of f]
      by (simp add: descriptors_def openFiles_fds del: fun_upd_apply)
  qed
  moreover have "\<forall>q < next_process k. \<forall>fd \<in> set (((fds (sched k))(p := xs)) q). pred_option (\<lambda>f. f < NUM_FILES) fd"
    using assms(1,6) by (auto simp: files_ok_def openFiles_fds split: option.split) (auto simp: pred_option_def)
  ultimately show ?thesis using assms(4) unfolding files_ok_view [OF assms(3)] by blast
qed

lemma process_open_files:
  assumes k: "files_ok k" "p < next_process k" and Q: "\<And>v k'. files_ok k' \<Longrightarrow> Q (v, k')"
  shows "if_returns Q (process_open k p path mode)"
proof -
  have t: "table_ok (ftable (as_process k p)) (descriptors k)" using k by (simp add: files_ok_def)
  have none: "files_ok (k\<lparr>fsys := s\<rparr>)" if "table_ok (ftable s) (descriptors k)" for s
    using k that by (simp add: files_ok_def descriptors_def [abs_def] proc_def)
  have some: "files_ok (upd_proc (k\<lparr>fsys := s\<rparr>) p (\<lambda>x. x\<lparr>openFiles := openFiles x @ [Some f]\<rparr>))"
    if "f < NUM_FILES" "table_ok (ftable s) ((descriptors k)(f := Suc (descriptors k f)))" for f s
    by (rule files_ok_process [OF k _ that(2), where xs = "openFiles (proc k p) @ [Some f]"])
      (use k that in \<open>auto simp: files_view_def fds_upd_proc proc_def files_ok_def pred_option_def openFiles_fds [symmetric]\<close>)
  show ?thesis
    unfolding process_open_def if_returns_simps
    by (rule open_file_of_counts [OF t]) (auto simp: if_returns_simps intro!: Q none some)
qed

lemma process_close_files:
  assumes k: "files_ok k" "p < next_process k" and Q: "\<And>v k'. files_ok k' \<Longrightarrow> Q (v, k')"
  shows "if_returns Q (process_close k p fd)"
proof (cases "fd < 0 \<or> nat fd \<ge> length (openFiles (proc k p)) \<or> openFiles (proc k p) ! nat fd = None")
  case True
  then show ?thesis using k by (auto simp: process_close_def if_returns_simps intro!: Q)
next
  case False
  let ?fs = "openFiles (proc k p)" and ?i = "nat fd"
  obtain f where f: "?fs ! ?i = Some f" using False by auto
  have i: "?i < length ?fs" using False by simp
  have fs: "?fs = take ?i ?fs @ Some f # drop (Suc ?i) ?fs" using id_take_nth_drop [OF i] f by simp
  have xs: "?fs[?i := None] = take ?i ?fs @ None # drop (Suc ?i) ?fs" using i by (rule upd_conv_take_nth_drop)
  have mem: "Some f \<in> set ?fs" using nth_mem [OF i] f by simp
  have fN: "f < NUM_FILES" using k mem by (fastforce simp: files_ok_def)
  have cnt: "count_list ?fs (Some g) = count_list (?fs[?i := None]) (Some g) + (if g = f then 1 else 0)" for g
    by (subst fs, subst xs) simp
  have "count_list ?fs (Some f) \<le> descriptors k f"
    unfolding descriptors_def by (rule member_le_sum) (use k in auto)
  then have pos: "1 \<le> descriptors k f" using cnt [of f] by simp
  have t: "table_ok (ftable (as_process k p)) (descriptors k)" using k by (simp add: files_ok_def)
  have "files_ok (upd_proc (k\<lparr>fsys := s\<rparr>) p (\<lambda>x. x\<lparr>openFiles := (openFiles x)[?i := None]\<rparr>))"
    if "table_ok (ftable s) ((descriptors k)(f := descriptors k f - 1))" for s
  proof (rule files_ok_process [OF k _ that, where xs = "?fs[?i := None]"])
    show "Some g \<in> set (?fs[?i := None]) \<Longrightarrow> g < NUM_FILES" for g
      using k set_update_subset_insert [of ?fs ?i None] by (fastforce simp: files_ok_def)
  qed (use cnt pos in \<open>auto simp: files_view_def fds_upd_proc proc_def openFiles_fds [symmetric]\<close>)
  then show ?thesis
    using False f unfolding process_close_def
    by (auto simp: if_returns_simps intro!: file_close_counts [OF t fN] Q)
qed

section \<open>The calls of a process\<close>

lemma files_view_upd [simp]:
  "files_view (k\<lparr>waitMutex := m\<rparr>) n D t = files_view k n D t" "files_view (k\<lparr>pidMutex := m\<rparr>) n D t = files_view k n D t"
  "files_view (k\<lparr>nextPid := i\<rparr>) n D t = files_view k n D t" "files_view (set_cpu k c) n D t = files_view k n D t"
  "files_view (k\<lparr>sched := s\<rparr>) n D t \<longleftrightarrow> next_process k = n \<and> fds s = D \<and> ftable (fsys k) = t"
  "files_view (k\<lparr>fsys := fs\<rparr>) n D t \<longleftrightarrow> next_process k = n \<and> fds (sched k) = D \<and> ftable fs = t"
  by (auto simp: files_view_def set_cpu_def)

lemma files_view_refl [simp]: "same_files k k"
  by (simp add: files_view_def)

lemma same_filesD: "same_files k' k \<Longrightarrow> next_process k' = next_process k \<and> fds (sched k') = fds (sched k) \<and> ftable (fsys k') = ftable (fsys k)"
  by (simp add: files_view_def)

lemma files_view_upd_proc [simp]:
  "openFiles (f (proc k p)) = openFiles (proc k p) \<Longrightarrow> files_view (upd_proc k p f) n D t = files_view k n D t"
  by (simp add: files_view_def upd_proc_def fds_same proc_def)

lemma fds_upd_proc_same [simp]:
  "openFiles (f (proc k p)) = openFiles (proc k p) \<Longrightarrow> fds (sched (upd_proc k p f)) = fds (sched k)"
  by (simp add: upd_proc_def fds_same proc_def)

lemma in_returns [simp]:
  "if_returns Q (in_sched k r) \<longleftrightarrow> if_returns (\<lambda>s. Q (k\<lparr>sched := s\<rparr>)) r"
  "if_returns Q (in_pages k ps) \<longleftrightarrow> if_returns (\<lambda>ps. Q (k\<lparr>fsys := (fsys k)\<lparr>pages := ps\<rparr>\<rparr>)) ps"
  by (simp_all add: in_sched_def in_pages_def if_returns_simps)

lemma lock_pid_kept [kept]: "(\<And>k'. same_files k' k \<Longrightarrow> Q k') \<Longrightarrow> if_returns Q (lock_pid k)"
  and unlock_pid_kept [kept]: "(\<And>k'. same_files k' k \<Longrightarrow> Q k') \<Longrightarrow> if_returns Q (unlock_pid k)"
  and lock_wait_kept [kept]: "(\<And>k'. same_files k' k \<Longrightarrow> Q k') \<Longrightarrow> if_returns Q (lock_wait k)"
  and unlock_wait_kept [kept]: "(\<And>k'. same_files k' k \<Longrightarrow> Q k') \<Longrightarrow> if_returns Q (unlock_wait k)"
  by (auto simp: lock_pid_def unlock_pid_def lock_wait_def unlock_wait_def if_returns_simps intro!: kept)

lemmas page_any =
  if_returns_any [of _ "operator_new ps n" for ps n] if_returns_any [of _ "map_pages ps t v n a f" for ps t v n a f]
  if_returns_any [of _ "makePageTable ps a b" for ps a b] if_returns_any [of _ "copyUserVirtualMemory ps a b n" for ps a b n]

lemma new_Process_files:
  assumes "\<And>q k'. q = next_process k \<Longrightarrow> files_view k' (Suc q) ((fds (sched k))(q := [])) (ftable (fsys k)) \<Longrightarrow> Q (q, k')"
  shows "if_returns Q (new_Process k)"
  unfolding new_Process_def take_pid_def Let_def if_returns_simps
  by (auto simp: if_returns_simps files_view_def upd_proc_def fds_upd_process blank_process_def
      intro!: kept page_any assms dest!: same_filesD)

lemma adopt_kept [kept]: "(\<And>k'. same_files k' k \<Longrightarrow> Q k') \<Longrightarrow> if_returns Q (adopt k p q)"
  by (auto simp: adopt_def if_returns_simps files_view_def intro!: kept)

lemma make_ready_kept [kept]: "(\<And>k'. same_files k' k \<Longrightarrow> Q k') \<Longrightarrow> if_returns Q (make_ready k q)"
  by (auto simp: make_ready_def if_returns_simps fds_same intro!: kept)

lemma fork_files:
  assumes k: "files_ok k" "p < next_process k" and Q: "\<And>q k'. files_ok k' \<Longrightarrow> Q (q, k')"
  shows "if_returns Q (fork k p)"
proof -
  let ?q = "next_process k" and ?D = "fds (sched k)"
  let ?c = "\<lambda>f. descriptors k f + count_list (?D p) (Some f)"
  have c: "(\<Sum>r < Suc ?q. count_list ((?D(?q := ?D p)) r) (Some f)) = ?c f" for f
    by (simp add: descriptors_def openFiles_fds)
  have fin: "files_ok k'" if "files_view k' (Suc ?q) (?D(?q := ?D p)) t" "table_ok t ?c" for k' t
    using k that(2) unfolding files_ok_view [OF that(1)] c by (auto simp: files_ok_def openFiles_fds less_Suc_eq)
  have t: "table_ok (ftable (fsys k)) (descriptors k)" and "\<And>f. Some f \<in> set (?D p) \<Longrightarrow> f < NUM_FILES"
    using k by (auto simp: files_ok_def openFiles_fds) (fastforce simp: pred_option_def)
  then have dup: "if_returns R (dup_files s (?D p))"
    if "ftable s = ftable (fsys k)" "\<And>s'. table_ok (ftable s') ?c \<Longrightarrow> R s'" for s :: file_state and R
    using that by (intro dup_files_counts [of s "descriptors k"]) auto
  have ne: "p \<noteq> ?q" using k by simp
  show ?thesis
    unfolding fork_def Let_def if_returns_simps
    by (auto simp: if_returns_simps files_view_def openFiles_fds ne fds_upd_proc inode_dup_def upd_inode_def
        intro!: new_Process_files page_any dup kept Q fin split: option.split dest!: same_filesD)
qed

lemma reparent_loop_kept [kept]: "(\<And>k'. same_files k' k \<Longrightarrow> Q k') \<Longrightarrow> if_returns Q (reparent_loop k cs)"
  by (induction cs arbitrary: k) (auto simp: Let_def if_returns_simps files_view_def intro!: kept)

lemma become_zombie_kept [kept]: "(\<And>k'. same_files k' k \<Longrightarrow> Q k') \<Longrightarrow> if_returns Q (become_zombie k p st)"
  by (auto simp: become_zombie_def reparent_def if_returns_simps files_view_def intro!: kept)

lemma exit_files:
  assumes k: "files_ok k" "p < next_process k" and Q: "\<And>k'. files_ok k' \<Longrightarrow> Q k'"
  shows "if_returns Q (exit_enter k p st)"
proof -
  let ?D = "fds (sched k)"
  let ?c = "\<lambda>f. descriptors k f - count_list (?D p) (Some f)"
  have le: "count_list (?D p) (Some f) \<le> descriptors k f" for f
    unfolding descriptors_def openFiles_fds by (rule member_le_sum) (use k in auto)
  have fin: "files_ok k'" if "files_view k' (next_process k) (?D(p := [])) t" "table_ok t ?c" for k' t
    by (rule files_ok_process [OF k that]) (simp_all add: le)
  have t: "table_ok (ftable (fsys k)) (descriptors k)" and "\<And>f. Some f \<in> set (?D p) \<Longrightarrow> f < NUM_FILES"
    using k by (auto simp: files_ok_def openFiles_fds) (fastforce simp: pred_option_def)
  then have cl: "if_returns R (close_files s (?D p))"
    if "ftable s = ftable (fsys k)" "\<And>s'. table_ok (ftable s') ?c \<Longrightarrow> R s'" for s :: file_state and R
    using that by (intro close_files_counts [of s "descriptors k"]) auto
  show ?thesis
    unfolding exit_enter_def if_returns_simps
    by (auto simp: if_returns_simps files_view_def openFiles_fds fds_upd_proc
        intro!: cl kept Q fin split: option.split dest!: above_ftable)
qed

lemma copy_status_kept [kept]: "(\<And>b k'. same_files k' k \<Longrightarrow> Q (b, k')) \<Longrightarrow> if_returns Q (copy_status k p c a)"
  by (auto simp: copy_status_def Let_def if_returns_simps files_view_def intro!: kept)

lemma reap_view [simp]: "same_files (snd (reap k p i)) k"
  by (simp add: reap_def Let_def)

lemma wait_scan_kept [kept]: "(\<And>r k'. same_files k' k \<Longrightarrow> Q (r, k')) \<Longrightarrow> if_returns Q (wait_scan k p a i n)"
  by (induction n arbitrary: k i)
    (auto simp: Let_def if_returns_simps files_view_def reap_def intro!: kept)

lemma wait_round_kept [kept]: "(\<And>r k'. same_files k' k \<Longrightarrow> Q (r, k')) \<Longrightarrow> if_returns Q (wait_round k p a)"
  by (auto simp: wait_round_def if_returns_simps files_view_def intro!: kept split: option.split)

lemma wait_enter_kept [kept]: "(\<And>r k'. same_files k' k \<Longrightarrow> Q (r, k')) \<Longrightarrow> if_returns Q (wait_enter k p a)"
  by (auto simp: wait_enter_def if_returns_simps files_view_def intro!: kept)

lemma wait_resume_kept [kept]: "(\<And>r k'. same_files k' k \<Longrightarrow> Q (r, k')) \<Longrightarrow> if_returns Q (wait_resume k p a b)"
  by (auto simp: wait_resume_def if_returns_simps files_view_def intro!: kept)

lemma exec_kept [kept]: "(\<And>v k'. same_files k' k \<Longrightarrow> Q (v, k')) \<Longrightarrow> if_returns Q (exec k p path argv)"
  by (auto simp: exec_def Let_def if_returns_simps files_view_def
      intro!: kept page_any if_returns_any [of _ "make_stack ps t i b as" for ps t i b as] split: option.split dest!: above_ftable)

section \<open>System calls\<close>

lemmas arg_any =
  if_returns_any [of _ "getArgInt k p n" for k p n] if_returns_any [of _ "getArgAddress k p n" for k p n]
  if_returns_any [of _ "getArgFd k p n" for k p n] if_returns_any [of _ "printf f as" for f as]

lemma set_pages_view [simp]: "files_view (set_pages k ps) n D t = files_view k n D t"
  by (simp add: set_pages_def files_view_def)

lemma getArgString_kept [kept]: "(\<And>n k'. same_files k' k \<Longrightarrow> Q (n, k')) \<Longrightarrow> if_returns Q (getArgString k p i b m)"
  by (auto simp: getArgString_def fetchString_def if_returns_simps intro!: kept arg_any)

lemma fetchAddress_kept [kept]: "(\<And>r k'. same_files k' k \<Longrightarrow> Q (r, k')) \<Longrightarrow> if_returns Q (fetchAddress k p a b)"
  by (auto simp: fetchAddress_def if_returns_simps intro!: kept)

lemma fetch_args_kept [kept]: "(\<And>r k'. same_files k' k \<Longrightarrow> Q (r, k')) \<Longrightarrow> if_returns Q (fetch_args k p u as n)"
  by (induction n arbitrary: k as)
    (auto simp: if_returns_simps fetchString_def files_view_def set_pages_def intro!: kept page_any split: option.split)

lemma sys_exec_kept [kept]: "(\<And>r k'. same_files k' k \<Longrightarrow> Q (r, k')) \<Longrightarrow> if_returns Q (sys_exec k p)"
  by (auto simp: sys_exec_def if_returns_simps files_view_def intro!: kept arg_any split: option.split)

lemma sys_mknod_kept [kept]: "(\<And>r k'. same_files k' k \<Longrightarrow> Q (r, k')) \<Longrightarrow> if_returns Q (sys_mknod k p)"
  by (auto simp: sys_mknod_def if_returns_simps files_view_def intro!: kept arg_any split: option.split dest!: above_ftable)

lemma table_files_ok: "files_ok k \<Longrightarrow> table_ok (ftable s) (descriptors k) \<Longrightarrow> files_ok (k\<lparr>fsys := s\<rparr>)"
  by (simp add: files_ok_def descriptors_def [abs_def] proc_def)

text \<open>Every entry of the table of system calls, for a process that exists.\<close>

lemma call_files:
  assumes k: "files_ok k" "p < next_process k" and Q: "\<And>r k'. files_ok k' \<Longrightarrow> Q (r, k')"
  shows "if_returns Q (call f k p)"
proof -
  have t: "table_ok (ftable (as_process k p)) (descriptors k)" using k by (simp add: files_ok_def)
  have Q': "Q (r, k')" if "same_files k' k" for r k' using Q same_files_ok [OF that] k(1) by blast
  show ?thesis
  proof (cases f)
    case Open
    have op: "if_returns R (process_open k' p path mode)" if "same_files k' k" "\<And>v k'. files_ok k' \<Longrightarrow> R (v, k')" for k' path mode R
      using that same_filesD [OF that(1)] k same_files_ok [OF that(1)] by (intro process_open_files) auto
    show ?thesis
      by (auto simp: Open call_def sys_open_def if_returns_simps intro!: op kept arg_any) (rule Q', assumption | rule Q, assumption)+
  next
    case Wait
    then show ?thesis by (auto simp: call_def sys_wait_def if_returns_simps intro!: kept arg_any Q')
  next
    case Exec
    then show ?thesis by (auto simp: call_def intro!: kept Q')
  next
    case Mknod
    then show ?thesis by (auto simp: call_def intro!: kept Q')
  qed (use k in \<open>auto simp: call_def sys_fork_def sys_exit_def sys_read_def sys_write_def sys_close_def if_returns_simps
    intro!: fork_files exit_files process_close_files arg_any file_read_counts [OF t] file_write_counts [OF t] table_files_ok Q split: option.split\<close>)
qed

lemma syscall_files:
  assumes "files_ok k" "\<And>p. cpu_process (sched k) = Some p \<Longrightarrow> p < next_process k"
    and Q: "\<And>r t' k'. files_ok k' \<Longrightarrow> Q (r, t', k')"
  shows "if_returns Q (syscall t k)"
proof (cases "cpu_process (sched k)")
  case (Some p)
  have frame: "files_ok (upd_proc k' p (\<lambda>x. x\<lparr>frame := (frame x)\<lparr>tf_a0 := v\<rparr>\<rparr>)) \<longleftrightarrow> files_ok k'" for k' v
    by (rule same_files_ok) simp
  have unknown: "files_ok (k\<lparr>fsys := (fsys k)\<lparr>cons := cs\<rparr>\<rparr>)" for cs
    using assms(1) by (subst same_files_ok [of _ k]) (simp_all add: files_view_def)
  show ?thesis
    unfolding syscall_def Some option.case Let_def if_returns_simps
    by (auto simp: if_returns_simps unknown_call_def frame unknown assms(1) assms(2) [OF Some]
        intro!: kept arg_any call_files Q split: sys_result.split)
qed (use assms in \<open>simp add: syscall_def if_returns_simps\<close>)

section \<open>Runs of the kernel\<close>

text \<open>
  The steps that processes and the scheduler take, in any order: a system call of the running process up to its return or
  to the point where it gives the processor away, the return of \<open>wait\<close> from its sleep, and the pieces of \<open>run\<close>,
  \<open>yield\<close> and \<open>sleep\<close> between two switches.
\<close>

inductive kernel_step :: "kernel \<Rightarrow> kernel \<Rightarrow> bool" where
  system_call: "cpu_process (sched k) = Some p \<Longrightarrow> p < next_process k \<Longrightarrow> syscall t k = Inr (r, t', k') \<Longrightarrow> kernel_step k k'"
| wait_again: "wait_resume k p addr flag = Inr (r, k') \<Longrightarrow> kernel_step k k'"
| pick: "run_pick (sched k) = Inr (r, s) \<Longrightarrow> kernel_step k (k\<lparr>sched := s\<rparr>)"
| switch_back: "run_return (sched k) p = Inr s \<Longrightarrow> kernel_step k (k\<lparr>sched := s\<rparr>)"
| give_way: "yield_enter (sched k) = Some (Inr (flag, s)) \<Longrightarrow> kernel_step k (k\<lparr>sched := s\<rparr>)"
| go_on: "yield_leave (sched k) p flag = Inr s \<Longrightarrow> kernel_step k (k\<lparr>sched := s\<rparr>)"
| fall_asleep: "sleep_enter (sched k) ch m = Inr (flag, m', s) \<Longrightarrow> kernel_step k (k\<lparr>sched := s\<rparr>)"
| awake: "sleep_leave (sched k) p flag m = Inr (m', s) \<Longrightarrow> kernel_step k (k\<lparr>sched := s\<rparr>)"
| wake: "wakeup (sched k) ch = Inr s \<Longrightarrow> kernel_step k (k\<lparr>sched := s\<rparr>)"

lemma if_returnsD: "if_returns Q r \<Longrightarrow> r = Inr x \<Longrightarrow> Q x"
  by (simp add: if_returns_def)

lemma yield_enter_fds: "yield_enter s = Some (Inr (b, s')) \<Longrightarrow> fds s' = fds s"
proof -
  have u: "fds s2 = fds s1" if un: "unregisterProcess s1 (Some p) = Some (Inr s2)" for s1 s2 p
  proof -
    obtain s0 where s0: "lock_sched s1 = Inr s0" using un by (cases "lock_sched s1") (auto simp: unregisterProcess_def)
    then obtain u where "unregister_locked s0 p = Some (Inr u)" and u: "unlock_sched u = Inr s2"
      using un by (auto simp: unregisterProcess_def outcome_simps)
    then have "fds u = fds s0"
      by (cases "drain_loop p (queue_nodes s0) (readyQueue s0) new_QueueContainer") (auto simp: unregister_locked_def outcome_simps split: sum.splits)
    then show ?thesis
      using if_returnsD [OF unlock_sched_kept u, of "\<lambda>x. fds x = fds u"] if_returnsD [OF lock_sched_kept s0, of "\<lambda>x. fds x = fds s1"] by simp
  qed
  assume y: "yield_enter s = Some (Inr (b, s'))"
  show ?thesis
  proof (cases "cpu_process s")
    case (Some p)
    then obtain s1 s2 where s: "lock_process s p = Inr s1" "unregisterProcess s1 (Some p) = Some (Inr s2)"
      "reschedule_enter (upd_process s2 p (\<lambda>x. x\<lparr>p_state := Ready\<rparr>)) = Inr (b, s')"
      using y by (auto simp: yield_enter_def outcome_simps split: sum.splits)
    then show ?thesis
      using if_returnsD [OF lock_process_kept s(1), of "\<lambda>x. fds x = fds s"] u [OF s(2)]
        if_returnsD [OF reschedule_enter_kept s(3), of "\<lambda>(_, x). fds x = fds s2"] by (simp add: fds_same)
  qed (use y in \<open>simp add: yield_enter_def\<close>)
qed

lemma sched_files_ok: "fds s = fds (sched k) \<Longrightarrow> files_ok k \<Longrightarrow> files_ok (k\<lparr>sched := s\<rparr>)"
  using same_files_ok [of "k\<lparr>sched := s\<rparr>" k] by simp

lemma kernel_step_files: "kernel_step k k' \<Longrightarrow> files_ok k \<Longrightarrow> files_ok k'"
proof (induction rule: kernel_step.induct)
  case (system_call k p t r t' k')
  then show ?case using if_returnsD [OF syscall_files system_call(3), of "\<lambda>(_, _, k'). files_ok k'"] by auto
next
  case (wait_again k p addr flag r k')
  then show ?case using if_returnsD [OF wait_resume_kept wait_again(1), of "\<lambda>(_, k'). same_files k' k"] same_files_ok by auto
next
  case (pick k r s)
  then show ?case using if_returnsD [OF run_pick_kept pick(1), of "\<lambda>(_, x). fds x = fds (sched k)"] by (intro sched_files_ok) auto
next
  case (switch_back k p s)
  then show ?case using if_returnsD [OF run_return_kept switch_back(1), of "\<lambda>x. fds x = fds (sched k)"] by (intro sched_files_ok) auto
next
  case (give_way k flag s)
  then show ?case by (intro sched_files_ok yield_enter_fds)
next
  case (go_on k p flag s)
  then show ?case
    using if_returnsD [OF unlock_process_kept go_on(1) [unfolded yield_leave_def], of "\<lambda>x. fds x = fds (sched k)"]
    by (intro sched_files_ok) (auto simp: reschedule_leave_def)
next
  case (fall_asleep k ch m flag m' s)
  then show ?case using if_returnsD [OF sleep_enter_kept fall_asleep(1), of "\<lambda>(_, _, x). fds x = fds (sched k)"] by (intro sched_files_ok) auto
next
  case (awake k p flag m m' s)
  then show ?case using if_returnsD [OF sleep_leave_kept awake(1), of "\<lambda>(_, x). fds x = fds (sched k)"] by (intro sched_files_ok) auto
next
  case (wake k ch s)
  then show ?case using if_returnsD [OF wakeup_kept wake(1), of "\<lambda>x. fds x = fds (sched k)"] by (intro sched_files_ok) auto
qed

lemma reachable_files: "kernel_step\<^sup>*\<^sup>* k k' \<Longrightarrow> files_ok k \<Longrightarrow> files_ok k'"
  by (induction rule: rtranclp_induct) (auto intro: kernel_step_files)

lemma descriptor_counts:
  assumes "files_ok k" "p < next_process k" "Some f \<in> set (openFiles (proc k p))"
  shows "f < NUM_FILES" "0 < descriptors k f" "f_refCount (ftable (fsys k) ! f) = of_nat (descriptors k f)"
    "f_refCount (ftable (fsys k) ! f) \<noteq> 0 \<Longrightarrow> f_type (ftable (fsys k) ! f) \<in> {InodeFile, DeviceFile}"
proof -
  show f: "f < NUM_FILES" using assms by (fastforce simp: files_ok_def)
  have "0 < count_list (openFiles (proc k p)) (Some f)" using assms(3) count_list_0_iff by fastforce
  also have "\<dots> \<le> descriptors k f" unfolding descriptors_def by (rule member_le_sum) (use assms(2) in auto)
  finally show "0 < descriptors k f" .
  show "f_refCount (ftable (fsys k) ! f) = of_nat (descriptors k f)"
    "f_refCount (ftable (fsys k) ! f) \<noteq> 0 \<Longrightarrow> f_type (ftable (fsys k) ! f) \<in> {InodeFile, DeviceFile}"
    using assms(1) f by (auto simp: files_ok_def table_ok_def)
qed

text \<open>
  C14: the type of the open files, \<open>files_ok\<close>: the table has 200 entries, every descriptor of a process is closed
  or names an entry of it, the reference count of an entry is the number of descriptors that name it, modulo 2^32,
  and an entry with references is an inode or a device. Every system call of a process keeps it, whatever its number, its
  arguments and the state of the disk: \<open>fork\<close>, which duplicates all descriptors, \<open>exit\<close>, which closes them, \<open>open\<close> and \<open>close\<close> on
  all their error paths, \<open>read\<close> and \<open>write\<close>, and the calls that leave the files alone.
\<close>

theorem syscall_keeps_file_types:
  assumes "files_ok k" "cpu_process (sched k) = Some p" "p < next_process k"
  shows "case syscall t k of Inl e \<Rightarrow> True | Inr (r, t', k') \<Rightarrow> files_ok k'"
  using syscall_files [of k "\<lambda>(r, t', k'). files_ok k'" t] assms by (auto simp: if_returns_def split: sum.splits)


section \<open>A concrete run\<close>

text \<open>A process with two descriptors of one device closes the first.\<close>

definition example_files :: kernel where
  "example_files = example_kernel\<lparr>next_process := 1,
     fsys := example_fs\<lparr>ftable := (replicate NUM_FILES new_File)[0 := new_File\<lparr>f_type := DeviceFile, f_refCount := 2\<rparr>]\<rparr>,
     sched := example_sched\<lparr>cpu_process := Some 0,
       process_of := (\<lambda>_. example_process\<lparr>openFiles := [Some 0, Some 0], frame := new_TrapFrame\<lparr>tf_a7 := SYS_CLOSE, tf_a0 := 0\<rparr>\<rparr>)\<rparr>\<rparr>"

definition example_calls :: "(u64, sysfun) hash_map" where
  "example_calls = \<lparr>makeHash = (\<lambda>k. k), capacity = 1, capacityMask = 1, nodes = [[], [(SYS_CLOSE, Close)]]\<rparr>"

lemma example_files_ok: "files_ok example_files" "cpu_process (sched example_files) = Some 0" "next_process example_files = 1"
  by (auto simp: files_ok_def table_ok_def descriptors_def example_files_def proc_def example_sched_def example_process_def
      example_kernel_def example_fs_def new_File_def NUM_FILES_def nth_list_update)

lemma example_files_fields:
  "openFiles (proc example_files 0) = [Some 0, Some 0]" "tf_a7 (frame (proc example_files 0)) = SYS_CLOSE"
  "tf_a0 (frame (proc example_files 0)) = 0" "f_refCount (ftable (fsys example_files) ! 0) = 2"
  "0 < length (ftable (fsys example_files))"
  by (simp_all add: example_files_def proc_def NUM_FILES_def example_kernel_def example_sched_def example_fs_def)

lemma example_calls_close: "contains example_calls SYS_CLOSE = Inr True" "subscript example_calls SYS_CLOSE Fork = Inr (example_calls, Close)"
  by (simp_all add: contains_def subscript_def bucket_def index_of_def example_calls_def SYS_CLOSE_def)

lemma example_close:
  "\<exists>r k'. syscall example_calls example_files = Inr (r, example_calls, k') \<and> openFiles (proc k' 0) = [None, Some 0] \<and>
     next_process k' = 1 \<and> f_refCount (ftable (fsys k') ! 0) = 1"
proof -
  let ?s = "upd_file (as_process example_files 0) 0 (\<lambda>x. x\<lparr>f_refCount := f_refCount x - 1\<rparr>)"
  have c: "file_close (as_process example_files 0) 0 = Inr ?s"
    using example_files_fields by (simp add: file_close_def Let_def)
  have a: "getArgFd example_files 0 0 = Inr (Some (0, 0))"
    using example_files_fields by (simp add: getArgFd_def getArgInt_def getArg_def)
  show ?thesis
    using example_files_ok example_files_fields
    by (simp add: syscall_def Let_def example_calls_close call_def sys_close_def a process_close_def c)
      (simp add: upd_proc_def proc_def upd_process_def)
qed

theorem syscall_keeps_file_types_witness:
  "\<exists>r t k'. syscall example_calls example_files = Inr (r, t, k') \<and> files_ok k' \<and> openFiles (proc k' 0) = [None, Some 0]"
  using syscall_keeps_file_types [OF example_files_ok(1,2), of example_calls] example_files_ok(3) example_close by auto


end
