(* ===== verification/Lib_Panic.thy ===== *)
theory Lib_Panic
  imports Fs_File
begin

text \<open>
  Reports of fatal errors: \<open>kernel/lib/panic.cpp\<close>, \<open>assert.cpp\<close> and \<open>stdexcept.cpp\<close>. A report ends in an endless loop of \<open>wfi\<close>; the model gives the flag
  \<open>panicked\<close> and the console with which the hart enters it. In the other theories the values of \<open>stop\<close> stand for these reports.
\<close>

section \<open>Model\<close>

definition panic :: "cons_state \<Rightarrow> u8 list \<Rightarrow> (bool \<times> cons_state) outcome" where
  "panic s msg = andThen (printf (ascii ''kernel panic: %s'' @ [10]) [Str (Some msg)]) (\<lambda>text. Inr (True, put_all s text))"

definition assert_func :: "cons_state \<Rightarrow> u8 list \<Rightarrow> u32 \<Rightarrow> u8 list \<Rightarrow> u8 list \<Rightarrow> (bool \<times> cons_state) outcome" where
  "assert_func s fileName line fn msg =
     andThen (printf (ascii ''Assertion failed: %s'' @ [10]) [Str (Some msg)]) (\<lambda>text1.
     andThen (printf ([9] @ ascii ''at %s %s:%d'' @ [10]) [Str (Some fn), Str (Some fileName), Int32 line]) (\<lambda>text2.
       panic (put_all (put_all s text1) text2) (ascii ''assert'')))"

definition throw_length_error :: "cons_state \<Rightarrow> u8 list \<Rightarrow> (bool \<times> cons_state) outcome" where
  "throw_length_error s msg =
     andThen (printf (ascii ''length_error'' @ [10]) []) (\<lambda>text. panic (put_all s text) msg)"

definition throw_bad_alloc :: "cons_state \<Rightarrow> (bool \<times> cons_state) outcome" where
  "throw_bad_alloc s = panic s (ascii ''bad_alloc'')"

definition throw_bad_array_new_length :: "cons_state \<Rightarrow> (bool \<times> cons_state) outcome" where
  "throw_bad_array_new_length s = panic s (ascii ''bad_array_new_length'')"

section \<open>What is printed\<close>

lemma put_all_out: "put_all s cs = s\<lparr>out := out s @ cs\<rparr>"
  by (induction cs arbitrary: s) (simp_all add: put_all_def putc_def)

lemma panic_text: "panic s msg = Inr (True, s\<lparr>out := out s @ ascii ''kernel panic: '' @ msg @ [10]\<rparr>)"
  by (simp add: panic_def put_all_out ascii_cons)

text \<open>The report of a failed assertion names the message, the function, the file and the line, in this order, for every line number that print_int can show.\<close>

lemma assert_func_text:
  assumes "print_int (sint line) 10 True = Inr number"
  shows "assert_func s fileName line fn msg = Inr (True, s\<lparr>out := out s @ ascii ''Assertion failed: '' @ msg @ [10, 9] @
    ascii ''at '' @ fn @ [32] @ fileName @ [58] @ number @ [10] @ ascii ''kernel panic: assert'' @ [10]\<rparr>)"
  using assms by (simp add: assert_func_def panic_text put_all_out ascii_cons)

end
