(* ===== verification/Disk_Make.thy ===== *)
theory Disk_Make
  imports Fs_Inode
begin

unbundle bit_operations_syntax

text \<open>
  The tool that makes the disk image, \<open>disk/make_disk.cpp\<close>. The image is a stream of sectors: how many the
  stream has, what they contain, and whether an access has failed, after which the stream does
  nothing (\<open>std::fstream\<close>). A file to be put on the disk is its name and the pieces \<open>readsome\<close> delivers. The tool runs on a
  little-endian host; \<open>convOrder\<close> is written out as it is.
\<close>

section \<open>Model\<close>

definition FS_SIZE :: nat where "FS_SIZE = 2000"
definition NUM_INODES :: nat where "NUM_INODES = 200"

record image =
  sectors :: "u32 \<Rightarrow> u8 list"
  num_sectors :: nat
  failed :: bool
  sb :: super_block
  freeInode :: u32
  freeBlock_number :: u32

definition zero_sector :: "u8 list" where
  "zero_sector = replicate BLOCK_SIZE 0"

definition convOrder :: "nat \<Rightarrow> 'a::len word \<Rightarrow> 'a word" where
  "convOrder n w = word_of_bytes (bytes_of_word n w)"

definition readSector :: "image \<Rightarrow> u32 \<Rightarrow> u8 list \<times> image" where
  "readSector s n =
     (if failed s then (zero_sector, s)
      else if unat n < num_sectors s then (sectors s n, s)
      else (zero_sector, s\<lparr>failed := True\<rparr>))"

definition writeSector :: "image \<Rightarrow> u32 \<Rightarrow> u8 list \<Rightarrow> image" where
  "writeSector s n buf =
     (if failed s then s
      else s\<lparr>sectors := (sectors s)(n := buf), num_sectors := max (num_sectors s) (unat n + 1)\<rparr>)"

definition readInode :: "image \<Rightarrow> u32 \<Rightarrow> dinode \<times> image" where
  "readInode s inum =
     (let (buf, s1) = readSector s (iblock inum (sb s)) in (get_dinode buf (dinode_offset inum), s1))"

definition writeInode :: "image \<Rightarrow> u32 \<Rightarrow> dinode \<Rightarrow> image" where
  "writeInode s inum di =
     (let (buf, s1) = readSector s (iblock inum (sb s))
      in writeSector s1 (iblock inum (sb s)) (put_dinode buf (dinode_offset inum) di))"

definition zero_dinode :: dinode where
  "zero_dinode =
     \<lparr>di_type = 0, di_major = 0, di_minor = 0, di_numLinks = 0, di_size = 0, di_direct = replicate NUM_DIRECT_BLOCKS 0, di_indirect = 0\<rparr>"

definition allocateInode :: "image \<Rightarrow> u16 \<Rightarrow> u32 \<times> image" where
  "allocateInode s type =
     (let inum = freeInode s;
          di = zero_dinode\<lparr>di_type := convOrder 2 type, di_numLinks := convOrder 2 1, di_size := convOrder 4 0\<rparr>
      in (inum, writeInode (s\<lparr>freeInode := freeInode s + 1\<rparr>) inum di))"

text \<open>The block of the file with number \<open>fbn\<close>, allocated when there is none; the array \<open>indirect\<close> ends at its bound.\<close>

definition append_direct :: "image \<Rightarrow> dinode \<Rightarrow> nat \<Rightarrow> u32 \<times> dinode \<times> image" where
  "append_direct s di fbn =
     (let (di1, s1) =
        (if convOrder 4 (di_direct di ! fbn) = 0
         then (di\<lparr>di_direct := (di_direct di)[fbn := convOrder 4 (freeBlock_number s)]\<rparr>, s\<lparr>freeBlock_number := freeBlock_number s + 1\<rparr>)
         else (di, s))
      in (convOrder 4 (di_direct di1 ! fbn), di1, s1))"

definition append_indirect :: "image \<Rightarrow> dinode \<Rightarrow> nat \<Rightarrow> (u32 \<times> dinode \<times> image) outcome" where
  "append_indirect s di j =
     (let (di1, s1) =
        (if convOrder 4 (di_indirect di) = 0
         then (di\<lparr>di_indirect := convOrder 4 (freeBlock_number s)\<rparr>, s\<lparr>freeBlock_number := freeBlock_number s + 1\<rparr>)
         else (di, s));
          (buf, s2) = readSector s1 (convOrder 4 (di_indirect di1))
      in if j \<ge> NUM_INDIRECT_BLOCKS then Inl Undefined
         else let (buf1, s3) =
           (if get32 buf (4 * j) = 0
            then let b = put32 buf (4 * j) (convOrder 4 (freeBlock_number s2))
                 in (b, writeSector (s2\<lparr>freeBlock_number := freeBlock_number s2 + 1\<rparr>) (convOrder 4 (di_indirect di1)) b)
            else (buf, s2))
         in Inr (convOrder 4 (get32 buf1 (4 * j)), di1, s3))"

definition append_block :: "image \<Rightarrow> dinode \<Rightarrow> nat \<Rightarrow> (u32 \<times> dinode \<times> image) outcome" where
  "append_block s di fbn =
     (if fbn < NUM_DIRECT_BLOCKS then Inr (append_direct s di fbn) else append_indirect s di (fbn - NUM_DIRECT_BLOCKS))"

lemma block_left: "0 < BLOCK_SIZE + n div BLOCK_SIZE * BLOCK_SIZE - n"
proof -
  have "n div 1024 * 1024 + n mod 1024 = n" "n mod 1024 < 1024" by simp_all
  then show ?thesis by (simp add: BLOCK_SIZE_def)
qed

lemma piece_left:
  "p \<noteq> [] \<Longrightarrow> length p - min (length p) (BLOCK_SIZE + n div BLOCK_SIZE * BLOCK_SIZE - n) < length p"
  using block_left [of n] by (cases p) (auto simp: min_def)

function append_loop :: "image \<Rightarrow> dinode \<Rightarrow> u32 \<Rightarrow> u8 list \<Rightarrow> (u32 \<times> dinode \<times> image) outcome" where
  "append_loop s di offset p =
     (if p \<noteq> [] then
        let fbn = unat offset div BLOCK_SIZE in
        andThen (append_block s di fbn) (\<lambda>(x, di1, s1).
          let len = min (length p) ((fbn + 1) * BLOCK_SIZE - unat offset);
              (buf, s2) = readSector s1 x;
              s3 = writeSector s2 x (put_bytes buf (unat offset - fbn * BLOCK_SIZE) (take len p))
          in append_loop s3 di1 (offset + of_nat len) (drop len p))
      else Inr (offset, di, s))"
  by pat_completeness auto
termination
  by (relation "measure (\<lambda>(s, di, offset, p). length p)") (auto intro: piece_left)

declare append_loop.simps [simp del]

definition appendInode :: "image \<Rightarrow> u32 \<Rightarrow> u8 list \<Rightarrow> image outcome" where
  "appendInode s inum p =
     (let (di, s1) = readInode s inum in
      andThen (append_loop s1 di (convOrder 4 (di_size di)) p) (\<lambda>(offset, di1, s2).
        Inr (writeInode s2 inum (di1\<lparr>di_size := convOrder 4 offset\<rparr>))))"

definition mark_used :: "nat \<Rightarrow> u8 list" where
  "mark_used n = foldl set_bit_in zero_sector [0..<n]"

definition disk_allocateBlock :: "image \<Rightarrow> u32 \<Rightarrow> image outcome" where
  "disk_allocateBlock s used =
     andThen (assert_that (unat used < BLOCK_SIZE * 8)) (\<lambda>_.
       Inr (writeSector s (bmapStart (sb s)) (mark_used (unat used))))"

definition numInodeBlocks :: nat where
  "numInodeBlocks = NUM_INODES div INODES_PER_BLOCK + 1"

definition numMeta :: nat where
  "numMeta = 2 + LOG_SIZE + numInodeBlocks + (FS_SIZE div (BLOCK_SIZE * 8) + 1)"

definition make_super_block :: super_block where
  "make_super_block =
     \<lparr>magic = FS_MAGIC, sb_size = convOrder 4 (of_nat FS_SIZE), numBlocks = convOrder 4 (of_nat (FS_SIZE - numMeta)),
      numInodes = convOrder 4 (of_nat NUM_INODES), numLogs = convOrder 4 (of_nat LOG_SIZE), logStart = convOrder 4 2,
      inodeStart = convOrder 4 (of_nat (2 + LOG_SIZE)), bmapStart = convOrder 4 (of_nat (2 + LOG_SIZE + numInodeBlocks))\<rparr>"

definition put_super_block :: "super_block \<Rightarrow> u8 list" where
  "put_super_block x =
     put32 (put32 (put32 (put32 (put32 (put32 (put32 (put32 zero_sector 0 (magic x)) 4 (sb_size x)) 8 (numBlocks x))
       12 (numInodes x)) 16 (numLogs x)) 20 (logStart x)) 24 (inodeStart x)) 28 (bmapStart x)"

definition new_image :: image where
  "new_image =
     \<lparr>sectors = (\<lambda>_. zero_sector), num_sectors = 0, failed = False, sb = make_super_block, freeInode = 1, freeBlock_number = of_nat numMeta\<rparr>"

text \<open>The loop that clears the disk steps by \<open>BLOCK_SIZE\<close> sectors at a time.\<close>

definition clear_image :: "image \<Rightarrow> image" where
  "clear_image s = foldl (\<lambda>s i. writeSector s (of_nat (i * BLOCK_SIZE)) zero_sector) s [0..<(FS_SIZE + BLOCK_SIZE - 1) div BLOCK_SIZE]"

definition make_entry :: "u32 \<Rightarrow> u8 list \<Rightarrow> u8 list outcome" where
  "make_entry inum name =
     andThen (strncpy_bytes (name @ [0]) MAX_DIR_NAME_LENGTH) (\<lambda>nm. Inr (bytes_of_word 2 (convOrder 2 (ucast inum :: u16)) @ nm))"

fun append_pieces :: "image \<Rightarrow> u32 \<Rightarrow> u8 list list \<Rightarrow> image outcome" where
  "append_pieces s inum [] = Inr s"
| "append_pieces s inum (p # ps) = (if p = [] then Inr s else andThen (appendInode s inum p) (\<lambda>s1. append_pieces s1 inum ps))"

fun add_files :: "image \<Rightarrow> u32 \<Rightarrow> (u8 list \<times> u8 list list) list \<Rightarrow> image outcome" where
  "add_files s root [] = Inr s"
| "add_files s root ((name, pieces) # fs) =
     (let (inum, s1) = allocateInode s T_FILE in
      andThen (make_entry inum name) (\<lambda>e.
      andThen (appendInode s1 root e) (\<lambda>s2.
      andThen (append_pieces s2 inum pieces) (\<lambda>s3. add_files s3 root fs))))"

definition round_root :: "image \<Rightarrow> u32 \<Rightarrow> image" where
  "round_root s root =
     (let (di, s1) = readInode s root;
          offset = (convOrder 4 (di_size di) div of_nat BLOCK_SIZE + 1) * of_nat BLOCK_SIZE
      in writeInode s1 root (di\<lparr>di_size := convOrder 4 offset\<rparr>))"

definition make_disk :: "(u8 list \<times> u8 list list) list \<Rightarrow> image outcome" where
  "make_disk files =
     (let s1 = writeSector (clear_image new_image) 1 (put_super_block make_super_block);
          (root, s2) = allocateInode s1 T_DIR in
      andThen (make_entry root [46]) (\<lambda>dot.
      andThen (appendInode s2 root dot) (\<lambda>s3.
      andThen (make_entry root [46, 46]) (\<lambda>dotdot.
      andThen (appendInode s3 root dotdot) (\<lambda>s4.
      andThen (add_files s4 root files) (\<lambda>s5.
        let s6 = round_root s5 root in disk_allocateBlock s6 (freeBlock_number s6)))))))"

text \<open>The exit status of the tool; \<open>opens\<close> tells whether the image file could be opened.\<close>

definition disk_main :: "u8 list list \<Rightarrow> bool \<Rightarrow> (u8 list \<times> u8 list list) list \<Rightarrow> (nat \<times> image option) outcome" where
  "disk_main argv opens files =
     (if length argv < 2 then Inr (1, None)
      else if \<not> opens then Inr (2, None)
      else andThen (make_disk files) (\<lambda>s. Inr (0, Some s)))"

end
