(* ===== verification/User_Programs.thy ===== *)
theory User_Programs
  imports Console
begin

unbundle bit_operations_syntax

text \<open>
  The user side: the library of \<open>user/lib/\<close> and the programs \<open>user/init\<close>, \<open>user/sh\<close> and \<open>user/echo\<close>. Output goes to a list of bytes, input
  comes from one. A local array is the list of its bytes; running over its end is \<open>Undefined\<close>. The system
  calls a program makes are listed as actions.
\<close>

section \<open>Model: formatted output\<close>

text \<open>The digits of \<open>x\<close>, last digit first; \<open>x\<close> is unsigned, so negating the least \<open>int\<close> is harmless.\<close>

function udigit_loop :: "nat \<Rightarrow> nat \<Rightarrow> u8 list" where
  "udigit_loop x base =
     (if base < 2 then []
      else digits ! (x mod base) # (if x div base \<noteq> 0 then udigit_loop (x div base) base else []))"
  by pat_completeness auto
termination
  by (relation "measure (\<lambda>(x, base). x)") (auto simp: div_less_dividend Suc_le_eq dest!: div_greater_zero_iff [THEN iffD1])

declare udigit_loop.simps [simp del]

definition printint :: "u32 \<Rightarrow> nat \<Rightarrow> bool \<Rightarrow> u8 list" where
  "printint xx base sign =
     (let neg = sign \<and> sint xx < 0;
          x = (if neg then - xx else xx);
          buf = udigit_loop (unat x) base
      in rev (if neg then buf @ [45] else buf))"

definition printptr :: "u64 \<Rightarrow> u8 list" where
  "printptr x = 48 # 120 # ptr_loop x 16"

text \<open>A conversion of \<open>vprintf\<close>; \<open>%l\<close> takes a 64-bit argument and prints its low half.\<close>

definition uformat :: "u8 \<Rightarrow> arg list \<Rightarrow> (u8 list \<times> arg list) outcome" where
  "uformat c args =
     (if c = 100 then (case args of Int32 w # as \<Rightarrow> Inr (printint w 10 True, as) | _ \<Rightarrow> Inl Undefined)
      else if c = 108 then (case args of Ptr64 p # as \<Rightarrow> Inr (printint (ucast p) 10 False, as) | _ \<Rightarrow> Inl Undefined)
      else if c = 120 then (case args of Int32 w # as \<Rightarrow> Inr (printint w 16 False, as) | _ \<Rightarrow> Inl Undefined)
      else if c = 112 then (case args of Ptr64 p # as \<Rightarrow> Inr (printptr p, as) | _ \<Rightarrow> Inl Undefined)
      else if c = 115 then (case args of Str s # as \<Rightarrow>
             Inr (case s of None \<Rightarrow> [40, 110, 117, 108, 108, 41] | Some cs \<Rightarrow> cs, as) | _ \<Rightarrow> Inl Undefined)
      else if c = 99 then (case args of Int32 w # as \<Rightarrow> Inr ([ucast w], as) | _ \<Rightarrow> Inl Undefined)
      else if c = 37 then Inr ([c], args)
      else Inr ([37, c], args))"

text \<open>The loop over the format, with its variable \<open>state\<close>.\<close>

fun vprintf :: "bool \<Rightarrow> u8 list \<Rightarrow> arg list \<Rightarrow> u8 list outcome" where
  "vprintf percent [] args = Inr []"
| "vprintf percent (c # fmt) args =
     (if percent then andThen (uformat c args) (\<lambda>(o1, as). andThen (vprintf False fmt as) (\<lambda>o2. Inr (o1 @ o2)))
      else if c = 37 then vprintf True fmt args
      else andThen (vprintf False fmt args) (\<lambda>o'. Inr (c # o')))"

definition uprintf :: "u8 list \<Rightarrow> arg list \<Rightarrow> u8 list outcome" where
  "uprintf fmt args = vprintf False fmt args"

text \<open>\<open>getline\<close>: the bytes stored before the terminator and the input left; \<open>k\<close> bytes may still be stored. A byte below 1 ends the line.\<close>

fun getline_loop :: "u8 list \<Rightarrow> nat \<Rightarrow> u8 list \<times> u8 list" where
  "getline_loop rx 0 = ([], rx)"
| "getline_loop [] (Suc k) = ([], [])"
| "getline_loop (c # rx) (Suc k) =
     (if c < 1 then ([], rx)
      else if c = 10 \<or> c = 13 then ([c], rx)
      else let (line, rest) = getline_loop rx k in (c # line, rest))"

definition getline :: "u8 list \<Rightarrow> u8 list \<Rightarrow> u8 list \<times> u8 list" where
  "getline buf rx =
     (let (line, rest) = getline_loop rx (length buf - 1) in (line @ [0] @ drop (length line + 1) buf, rest))"

fun echo_loop :: "u8 list list \<Rightarrow> bool \<Rightarrow> u8 list outcome" where
  "echo_loop [] begun = Inr []"
| "echo_loop (a # as) begun =
     andThen (uprintf a []) (\<lambda>o1.
     andThen (echo_loop as True) (\<lambda>o2. Inr ((if begun then [32] else []) @ o1 @ o2)))"

definition echo_main :: "u8 list list \<Rightarrow> u8 list outcome" where
  "echo_main argv = andThen (echo_loop (tl argv) False) (\<lambda>text. Inr (text @ [10]))"

section \<open>Model: the shell\<close>

definition MAX_CMD_LENGTH :: nat where "MAX_CMD_LENGTH = 12"
definition MAX_ARG_LENGTH :: nat where "MAX_ARG_LENGTH = 12"
definition SH_MAX_ARGS :: nat where "SH_MAX_ARGS = 31"

record command =
  cmd :: "u8 list"
  cmd_args :: "u8 list list"

definition c_prefix :: "u8 list \<Rightarrow> u8 list" where
  "c_prefix d = takeWhile (\<lambda>c. c \<noteq> 0) d"

text \<open>\<open>memset\<close> misses the last byte. Without a \<open>return\<close> at its end the function has no defined result.\<close>

definition getCommandString :: "u8 list \<Rightarrow> u8 list \<Rightarrow> (bool option \<times> u8 list \<times> u8 list)" where
  "getCommandString buf rx =
     (let buf1 = replicate (length buf - 1) 0 @ drop (length buf - 1) buf;
          (buf2, rest) = getline buf1 rx
      in if buf2 ! 0 = 0 then (Some False, buf2, rest)
         else (None, buf2[length (c_prefix buf2) - 1 := 0], rest))"

definition clear_command :: "command \<Rightarrow> command" where
  "clear_command c = c\<lparr>cmd := (cmd c)[0 := 0], cmd_args := map (\<lambda>a. a[0 := 0]) (cmd_args c)\<rparr>"

text \<open>\<open>strncpy(dst, buf, size)\<close> of a token of \<open>size\<close> characters writes no terminator.\<close>

definition copy_token :: "u8 list \<Rightarrow> u8 list \<Rightarrow> u8 list outcome" where
  "copy_token dst tok = (if length tok \<le> length dst then Inr (tok @ drop (length tok) dst) else Inl Undefined)"

fun store_arg :: "u8 list list \<Rightarrow> u8 list \<Rightarrow> u8 list list outcome" where
  "store_arg [] tok = Inr []"
| "store_arg (a # as) tok =
     (if a ! 0 = 0 then andThen (copy_token a tok) (\<lambda>a1. Inr (a1 # as))
      else andThen (store_arg as tok) (\<lambda>as1. Inr (a # as1)))"

definition store_token :: "command \<Rightarrow> u8 list \<Rightarrow> command outcome" where
  "store_token c tok =
     (if cmd c ! 0 = 0 then andThen (copy_token (cmd c) tok) (\<lambda>d. Inr (c\<lparr>cmd := d\<rparr>))
      else andThen (store_arg (cmd_args c) tok) (\<lambda>as. Inr (c\<lparr>cmd_args := as\<rparr>)))"

definition TOKEN_BUF :: nat where "TOKEN_BUF = 128"

function parse_loop :: "u8 list \<Rightarrow> command \<Rightarrow> command outcome" where
  "parse_loop str c =
     (case str of
        [] \<Rightarrow> Inl Undefined
      | ch # rest \<Rightarrow>
          if ch = 0 then Inr c
          else
            let tok = takeWhile (\<lambda>x. x \<noteq> 0 \<and> x \<noteq> 32) str; after = drop (length tok) str in
            if tok = [] then parse_loop rest c
            else if after = [] \<or> length tok \<ge> TOKEN_BUF then Inl Undefined
            else andThen (store_token c tok) (\<lambda>c1. parse_loop (tl after) c1))"
  by pat_completeness auto
termination
  by (relation "measure (\<lambda>(str, c). length str)") (auto simp: less_Suc_eq_le)

declare parse_loop.simps [simp del]

definition parseCommand :: "u8 list \<Rightarrow> command \<Rightarrow> command outcome" where
  "parseCommand str c = parse_loop str (clear_command c)"

datatype action = Chdir | Quit | Execute "u8 list" "u8 list list"

text \<open>\<open>runCommand\<close>: \<open>argv\<close> ends at the first null pointer.\<close>

definition runCommand :: "command \<Rightarrow> action" where
  "runCommand c =
     Execute (c_prefix (cmd c)) (c_prefix (cmd c) # map c_prefix (takeWhile (\<lambda>a. a ! 0 \<noteq> 0) (cmd_args c)))"

definition sh_action :: "command \<Rightarrow> action" where
  "sh_action c =
     (if c_prefix (cmd c) = [99, 100] then Chdir
      else if c_prefix (cmd c) = [101, 120, 105, 116] then Quit
      else runCommand c)"

text \<open>A turn of the main loop when \<open>getCommandString\<close> returns \<open>true\<close> for a line.\<close>

definition sh_turn :: "u8 list \<Rightarrow> command \<Rightarrow> u8 list \<Rightarrow> ((action option \<times> command \<times> u8 list \<times> u8 list) outcome)" where
  "sh_turn buf c rx =
     (case getCommandString buf rx of
        (Some False, buf1, rest) \<Rightarrow> Inr (None, c, buf1, rest)
      | (_, buf1, rest) \<Rightarrow> andThen (parseCommand buf1 c) (\<lambda>c1. Inr (Some (sh_action c1), c1, buf1, rest)))"

section \<open>Model: the library\<close>

text \<open>\<open>user/lib/string.cpp\<close> repeats the routines of \<open>kernel/lib/string.cpp\<close>, statement by statement.\<close>

definition user_memcpy :: "mem \<Rightarrow> u64 \<Rightarrow> u64 \<Rightarrow> u64 \<Rightarrow> mem \<times> u64" where
  "user_memcpy m dest src n = memcpy m dest src n"

definition user_memmove :: "mem \<Rightarrow> u64 \<Rightarrow> u64 \<Rightarrow> u64 \<Rightarrow> mem \<times> u64" where
  "user_memmove m dst src n = memmove m dst src n"

definition user_memset :: "mem \<Rightarrow> u64 \<Rightarrow> u32 \<Rightarrow> u64 \<Rightarrow> mem \<times> u64" where
  "user_memset m dest ch n = memset m dest ch n"

definition user_strncmp :: "mem \<Rightarrow> u64 \<Rightarrow> u64 \<Rightarrow> u64 \<Rightarrow> int option" where
  "user_strncmp m s1 s2 n = strncmp m s1 s2 n"

definition user_strncpy :: "mem \<Rightarrow> u64 \<Rightarrow> u64 \<Rightarrow> int \<Rightarrow> mem \<times> u64" where
  "user_strncpy m s t n = strncpy m s t n"

definition user_strlen :: "mem \<Rightarrow> u64 \<Rightarrow> u64 option" where
  "user_strlen m s = strlen m s"

text \<open>
  A user program as the tree of the system calls it makes: each call goes on with the value that the kernel leaves in \<open>a0\<close>.
  \<open>Spin\<close> is an endless loop, \<open>Lost\<close> undefined behaviour. The functions of \<open>user/lib/syscall.cpp\<close> turn the
  value into the type they return.
\<close>

datatype request =
  UFork | UExit u32 | UWait u64 | URead u32 u64 u32 | UExec "u8 list" "u8 list list" | UOpen "u8 list" u32
  | UWrite u32 "u8 list" u32 | UMknod "u8 list" u16 u16 | UClose u32

datatype prog = Do request "u64 \<Rightarrow> prog" | Say "u8 list" prog | Spin | Lost

definition user_fork :: "(u64 \<Rightarrow> prog) \<Rightarrow> prog" where
  "user_fork k = Do UFork k"

definition user_exit :: "u32 \<Rightarrow> prog" where
  "user_exit status = Do (UExit status) (\<lambda>_. Lost)"

definition user_wait :: "u64 \<Rightarrow> prog \<Rightarrow> prog" where
  "user_wait address k = Do (UWait address) (\<lambda>_. k)"

definition user_read :: "u32 \<Rightarrow> u64 \<Rightarrow> u32 \<Rightarrow> (u32 \<Rightarrow> prog) \<Rightarrow> prog" where
  "user_read fd buf len k = Do (URead fd buf len) (\<lambda>r. k (ucast r))"

definition user_exec :: "u8 list \<Rightarrow> u8 list list \<Rightarrow> prog \<Rightarrow> prog" where
  "user_exec path argv k = Do (UExec path argv) (\<lambda>_. k)"

definition user_open :: "u8 list \<Rightarrow> u32 \<Rightarrow> (u32 \<Rightarrow> prog) \<Rightarrow> prog" where
  "user_open path mode k = Do (UOpen path mode) (\<lambda>r. k (ucast r))"

definition user_write :: "u32 \<Rightarrow> u8 list \<Rightarrow> u32 \<Rightarrow> (u32 \<Rightarrow> prog) \<Rightarrow> prog" where
  "user_write fd buf len k = Do (UWrite fd buf len) (\<lambda>r. k (ucast r))"

definition user_mknod :: "u8 list \<Rightarrow> u16 \<Rightarrow> u16 \<Rightarrow> (bool \<Rightarrow> prog) \<Rightarrow> prog" where
  "user_mknod path major minor k = Do (UMknod path major minor) (\<lambda>r. k (r = 0))"

definition user_close :: "u32 \<Rightarrow> prog \<Rightarrow> prog" where
  "user_close fd k = Do (UClose fd) (\<lambda>_. k)"

text \<open>Output goes out one character per system call; \<open>printf\<close> uses descriptor 0.\<close>

definition uputc :: "u32 \<Rightarrow> u8 \<Rightarrow> prog \<Rightarrow> prog" where
  "uputc fd c k = user_write fd [c] 1 (\<lambda>_. k)"

definition put_chars :: "u32 \<Rightarrow> u8 list \<Rightarrow> prog \<Rightarrow> prog" where
  "put_chars fd cs k = foldr (uputc fd) cs k"

definition ufprintf :: "u32 \<Rightarrow> u8 list \<Rightarrow> arg list \<Rightarrow> prog \<Rightarrow> prog" where
  "ufprintf fd fmt args k = (case vprintf False fmt args of Inl _ \<Rightarrow> Lost | Inr text \<Rightarrow> put_chars fd text k)"

definition USER_O_RDONLY :: u32 where "USER_O_RDONLY = 0"
definition USER_O_WRONLY :: u32 where "USER_O_WRONLY = 1"
definition USER_O_RDWR :: u32 where "USER_O_RDWR = 2"
definition USER_O_CREATE :: u32 where "USER_O_CREATE = 0x200"
definition USER_O_TRUNC :: u32 where "USER_O_TRUNC = 0x400"
definition DEV_CONSOLE :: u16 where "DEV_CONSOLE = 1"

section \<open>Model: the main loop of the shell\<close>

text \<open>
  \<open>main\<close> of the shell on the given input. After a command other than \<open>cd\<close> and \<open>exit\<close> the parent waits; the child does so too
  when its \<open>exec\<close> has failed, and goes on as a shell of its own.
\<close>

lemma getline_loop_shorter: "getline_loop rx k = (line, rest) \<Longrightarrow> line \<noteq> [] \<Longrightarrow> length rest < length rx"
proof (induction rx k arbitrary: line rule: getline_loop.induct)
  case (3 c rx k)
  obtain l r where "getline_loop rx k = (l, r)" by (cases "getline_loop rx k")
  moreover have "length r \<le> length rx" if "getline_loop rx k = (l, r)" for l r
    using that by (induction rx k arbitrary: l r rule: getline_loop.induct) (auto split: if_splits prod.splits)
  ultimately show ?case using "3.prems" by (auto split: if_splits)
qed auto

lemma sh_turn_shorter: "sh_turn buf c rx = Inr (Some a, c1, buf1, rest) \<Longrightarrow> length rest < length rx"
proof -
  assume t: "sh_turn buf c rx = Inr (Some a, c1, buf1, rest)"
  let ?b = "replicate (length buf - 1) 0 @ drop (length buf - 1) buf"
  obtain line r where g: "getline_loop rx (length ?b - 1) = (line, r)" by (cases "getline_loop rx (length ?b - 1)")
  have "line \<noteq> []" "r = rest"
    using t g by (auto simp: sh_turn_def getCommandString_def getline_def Let_def outcome_simps split: if_splits)
  then show ?thesis using getline_loop_shorter [OF g] by simp
qed

function sh_main :: "u8 list \<Rightarrow> command \<Rightarrow> u8 list \<Rightarrow> prog" where
  "sh_main buf c rx =
     (case sh_turn buf c rx of
        Inl e \<Rightarrow> Lost
      | Inr (None, _) \<Rightarrow> ufprintf 0 [10] [] (user_exit 0)
      | Inr (Some Quit, _) \<Rightarrow> ufprintf 0 [10] [] (user_exit 0)
      | Inr (Some Chdir, c1, buf1, rest) \<Rightarrow> sh_main buf1 c1 rest
      | Inr (Some (Execute path argv), c1, buf1, rest) \<Rightarrow>
          let next = sh_main buf1 c1 rest in
          user_fork (\<lambda>pid. if pid = 0 then user_exec path argv (user_wait 0 next) else user_wait 0 next))"
  by pat_completeness auto
termination
  by (relation "measure (\<lambda>(buf, c, rx). length rx)") (auto dest: sh_turn_shorter)

declare sh_main.simps [simp del]

section \<open>Model: the first program\<close>

text \<open>\<open>init\<close> after the console is open. \<open>pid\<close> is unsigned, so the first test of \<open>fork\<close>'s result is never true.\<close>

definition init_child :: prog where
  "init_child =
     user_exec (ascii ''sh'') [ascii ''sh''] (Say (ascii ''init: exec sh failed'' @ [10]) (user_exit 1))"

definition init_fork :: prog where
  "init_fork =
     Say (ascii ''init: starting sh'' @ [10])
       (user_fork (\<lambda>pid.
          if pid < 0 then Say (ascii ''init: fork failed'' @ [10]) (user_exit 1)
          else if pid = 0 then init_child
          else Spin))"

definition init_main :: prog where
  "init_main =
     user_open (ascii ''console'') USER_O_RDWR (\<lambda>stdio.
       if sint stdio < 0
       then user_mknod (ascii ''console'') DEV_CONSOLE 0 (\<lambda>_.
              user_open (ascii ''console'') USER_O_RDWR (\<lambda>_. init_fork))
       else init_fork)"

text \<open>The calls a program makes when the kernel answers with the given values.\<close>

fun requests :: "prog \<Rightarrow> u64 list \<Rightarrow> request list" where
  "requests (Do q k) [] = [q]"
| "requests (Do q k) (r # rs) = q # requests (k r) rs"
| "requests (Say text k) rs = requests k rs"
| "requests Spin rs = []"
| "requests Lost rs = []"

lemma init_requests:
  "0 \<le> sint (ucast r :: u32) \<Longrightarrow>
     requests init_main [r, pid] = [UOpen (ascii ''console'') USER_O_RDWR, UFork] @ (if pid = 0 then [UExec (ascii ''sh'') [ascii ''sh'']] else [])"
  "sint (ucast r :: u32) < 0 \<Longrightarrow>
     requests init_main [r, r1, r2, pid] =
       [UOpen (ascii ''console'') USER_O_RDWR, UMknod (ascii ''console'') DEV_CONSOLE 0, UOpen (ascii ''console'') USER_O_RDWR, UFork] @
       (if pid = 0 then [UExec (ascii ''sh'') [ascii ''sh'']] else [])"
  by (simp_all add: init_main_def user_open_def user_mknod_def init_fork_def user_fork_def init_child_def user_exec_def)

section \<open>The two number printers\<close>

lemma digit_loop_udigit:
  assumes "n < base ^ k" "2 \<le> base" "base \<le> 16" "length buf + k \<le> 16" "0 < k"
  shows "digit_loop (int n) (int base) buf = Inr (buf @ udigit_loop n base)"
  using assms
proof (induction k arbitrary: n buf)
  case (Suc k)
  let ?c = "digits ! (n mod base)"
  have m: "nat (int n mod int base) = n mod base" by (simp add: nat_mod_as_int)
  have d: "int n div int base = int (n div base)" by (simp add: zdiv_int)
  show ?case
  proof (cases "n div base = 0")
    case True
    then show ?thesis using Suc.prems by (simp add: digit_loop.simps [of "int n"] udigit_loop.simps [of n] m d Let_def)
  next
    case False
    have dk: "n div base < base ^ k"
      using Suc.prems(1,2) by (simp add: less_mult_imp_div_less mult.commute)
    then have "0 < k" using False by (cases k) auto
    then have "digit_loop (int (n div base)) (int base) (buf @ [?c]) = Inr ((buf @ [?c]) @ udigit_loop (n div base) base)"
      using Suc.IH [OF dk] Suc.prems by simp
    then show ?thesis using False Suc.prems
      by (simp add: digit_loop.simps [of "int n"] udigit_loop.simps [of n] m d Let_def)
  qed
qed simp

lemma udigit_length: "n < base ^ k \<Longrightarrow> 2 \<le> base \<Longrightarrow> 0 < k \<Longrightarrow> length (udigit_loop n base) \<le> k"
proof (induction k arbitrary: n)
  case (Suc k)
  show ?case
  proof (cases "n div base = 0")
    case False
    have "n div base < base ^ k" using Suc.prems by (simp add: less_mult_imp_div_less mult.commute)
    moreover from this have "0 < k" using False by (cases k) auto
    ultimately show ?thesis using Suc.IH [of "n div base"] Suc.prems False by (simp add: udigit_loop.simps [of n])
  qed (simp add: udigit_loop.simps [of n])
qed simp

lemma unat_sint: "0 \<le> sint (x :: u32) \<Longrightarrow> int (unat x) = sint x"
  using sint_lt [of x] by (simp add: uint_sint take_bit_int_eq_self)

text \<open>
  C40: the number printer of the user library prints what the kernel's printer prints, for every \<open>int\<close>
  on which the kernel's is defined: with a sign for all but the least \<open>int\<close>, without one for the non-negative ones.
\<close>

theorem printint_equals_kernel_print_int:
  assumes "base = 10 \<or> base = 16" "sign \<longrightarrow> sint xx \<noteq> - (2 ^ 31)" "\<not> sign \<longrightarrow> 0 \<le> sint xx"
  shows "print_int (sint xx) (int base) sign = Inr (printint xx base sign)"
proof -
  have b: "2 \<le> base" "base \<le> 16" using assms(1) by auto
  have r: "- (2 ^ 31) \<le> sint xx" "sint xx < 2 ^ 31" using sint_ge [of xx] sint_lt [of xx] by simp_all
  let ?neg = "sign \<and> sint xx < 0"
  let ?x = "if ?neg then - xx else xx"
  have x: "int (unat ?x) = (if ?neg then - sint xx else sint xx)"
  proof (cases ?neg)
    case True
    have "sint (- xx) = - sint xx" using True assms(2) r by (simp add: sint_word_ariths signed_take_bit_int_eq_self)
    moreover have "int (unat (- xx)) = sint (- xx)" using True calculation by (intro unat_sint) simp
    ultimately show ?thesis using True by simp
  next
    case False
    then have "0 \<le> sint xx" using assms(3) by auto
    then show ?thesis using False unat_sint [of xx] by simp
  qed
  have lt: "unat ?x < 2 ^ 32" using unsigned_less [of ?x, where 'a = nat] by simp
  then have k: "unat ?x < base ^ 10" using assms(1) by auto
  have d: "digit_loop (int (unat ?x)) (int base) [] = Inr (udigit_loop (unat ?x) base)"
    using digit_loop_udigit [OF k b, of "[]"] by simp
  have l: "length (udigit_loop (unat ?x) base) \<le> 10" using udigit_length [OF k b(1)] by simp
  show ?thesis using d l assms(2) unfolding x by (auto simp: print_int_def printint_def Let_def)
qed

theorem printint_equals_kernel_print_int_witness:
  "print_int (- 42) 10 True = Inr (printint (- 42) 10 True)"
  using printint_equals_kernel_print_int [of 10 True "- 42"] by simp

section \<open>The command line\<close>

definition plain :: "u8 list \<Rightarrow> bool" where
  "plain t \<longleftrightarrow> (\<forall>x \<in> set t. x \<noteq> 0 \<and> x \<noteq> 32)"

lemma parse_single:
  assumes "plain t" "t \<noteq> []" "length t \<le> MAX_CMD_LENGTH" "length (cmd c) = MAX_CMD_LENGTH" "rest ! 0 = 0" "rest \<noteq> []"
  shows "parseCommand (t @ 0 # rest) c = Inr ((clear_command c)\<lparr>cmd := t @ drop (length t) (cmd c)\<rparr>)"
proof -
  let ?c = "clear_command c"
  obtain a t' where t: "t = a # t'" using assms(2) by (cases t) auto
  have a: "a \<noteq> 0" "a \<noteq> 32" using assms(1) t by (auto simp: plain_def)
  have tw: "takeWhile (\<lambda>x. x \<noteq> 0 \<and> x \<noteq> 32) (t @ 0 # rest) = t"
    using assms(1) by (subst takeWhile_append2) (auto simp: plain_def)
  obtain r' where r: "rest = 0 # r'" using assms(5,6) by (cases rest) auto
  have "drop (length t) ((cmd c)[0 := 0]) = drop (length t) (cmd c)" using t by (cases "cmd c") auto
  moreover have "cmd ?c ! 0 = 0" using assms(4) by (simp add: clear_command_def MAX_CMD_LENGTH_def)
  ultimately have st: "store_token ?c t = Inr (?c\<lparr>cmd := t @ drop (length t) (cmd c)\<rparr>)"
    using assms(3,4) by (simp add: store_token_def copy_token_def clear_command_def)
  have "parse_loop (t @ 0 # rest) ?c = andThen (store_token ?c t) (parse_loop rest)"
    using tw t a assms(3) by (subst parse_loop.simps) (simp add: Let_def TOKEN_BUF_def MAX_CMD_LENGTH_def)
  then show ?thesis using st r by (simp add: parseCommand_def parse_loop.simps [of "0 # r'"])
qed

text \<open>
  The shell runs the wrong program after a longer command. A line with one word \<open>t\<close>, shorter than the command
  before it, is parsed without an error, but the program run is \<open>t\<close> followed by the rest of the old
  name, since \<open>strncpy\<close> writes no terminator and only the first byte is cleared.
\<close>

theorem shell_keeps_tail_of_old_command:
  assumes "plain t" "plain old" "t \<noteq> []" "length t < length old" "length old < MAX_CMD_LENGTH"
    "cmd c = old @ 0 # junk" "length (cmd c) = MAX_CMD_LENGTH" "rest \<noteq> []" "rest ! 0 = 0"
  shows "\<exists>c'. parseCommand (t @ 0 # rest) c = Inr c' \<and> c_prefix (cmd c') = t @ drop (length t) old"
proof -
  have len: "length t \<le> MAX_CMD_LENGTH" using assms(4,5) by linarith
  have "drop (length t) (cmd c) = drop (length t) old @ 0 # junk" using assms(4,6) by simp
  moreover have "\<forall>x \<in> set (drop (length t) old). x \<noteq> 0" using assms(2) by (auto simp: plain_def dest: in_set_dropD)
  then have "takeWhile (\<lambda>c. c \<noteq> 0) (drop (length t) old @ 0 # junk) = drop (length t) old"
    by (subst takeWhile_append2) auto
  moreover have "takeWhile (\<lambda>c. c \<noteq> 0) (t @ ys) = t @ takeWhile (\<lambda>c. c \<noteq> 0) ys" for ys
    using assms(1) by (intro takeWhile_append2) (auto simp: plain_def)
  ultimately show ?thesis
    using parse_single [OF assms(1,3) len assms(7,9,8)] by (simp add: c_prefix_def clear_command_def)
qed

definition example_command :: command where
  "example_command = \<lparr>cmd = [101, 99, 104, 111] @ 0 # replicate 7 0, cmd_args = replicate SH_MAX_ARGS (replicate MAX_ARG_LENGTH 0)\<rparr>"

theorem shell_keeps_tail_of_old_command_witness:
  "\<exists>c'. parseCommand [108, 115, 0, 0] example_command = Inr c' \<and> c_prefix (cmd c') = [108, 115, 104, 111]"
  using shell_keeps_tail_of_old_command [of "[108, 115]" "[101, 99, 104, 111]" example_command "replicate 7 0" "[0]"]
  by (simp add: plain_def MAX_CMD_LENGTH_def example_command_def)

end
