(* ===== verification/Spec2Isabelle.thy ===== *)
theory Spec2Isabelle
  imports Trap Fs_Directory Proc_Wait Proc_Files Lib_Panic Disk_Make User_Programs
begin

text \<open>
  ORFOS: an operating system for RISC-V, verified in Isabelle/HOL.

  \<^bold>\<open>The program.\<close> ORFOS is a small Unix-like kernel in C++ (\<open>src/kernel\<close>) with a user library, a shell and two more
  programs (\<open>src/user\<close>) and a tool that makes the disk image (\<open>src/disk\<close>). A hart boots in \<open>boot/\<close>, builds the kernel page table,
  starts the first process and enters the scheduler. A process traps into the kernel by \<open>ecall\<close>, an interrupt or a fault (\<open>ie/\<close>); the
  dispatcher of \<open>syscall/\<close> runs one of nine calls, which act on processes (\<open>process/\<close>, \<open>elf/\<close>), address spaces (\<open>memory/\<close>), open
  files and the console (\<open>fs/\<close>, \<open>console/\<close>). The file system is layered: files, inodes and directories, the bitmap of blocks, the
  write-ahead log, the buffer cache, the virtio driver. Everything rests on the containers and string routines of \<open>lib/\<close>
  and the locks of \<open>mutex/\<close>.

  \<^bold>\<open>The theories\<close>, in the order in which they build on each other:
  \<^item> \<open>Kernel_Prelude\<close>: word types; the type \<open>outcome\<close> of kernel code, a value or the reason why the thread stops (failed assertion, panic,
    undefined behaviour of C++, sleep), with \<open>andThen\<close>; byte memory with little-endian loads and stores; generic lemmas.
  \<^item> \<open>Lib_String\<close> (\<open>lib/string.cpp\<close>), \<open>Lib_Queue\<close> (\<open>lib/queue.h\<close>), \<open>Lib_HashMap\<close> (\<open>lib/hash_map.h\<close>, \<open>hash_set.h\<close>).
  \<^item> \<open>Mem_Address\<close> (\<open>arch/config.h\<close>, \<open>memory/va.cpp\<close>, \<open>pte.h\<close>), \<open>Mem_Page\<close> (\<open>memory/page.cpp\<close>, \<open>lib/new.cpp\<close>), \<open>Mem_PageTable\<close>
    (\<open>memory/page_table.cpp\<close>), \<open>Mem_User\<close> (\<open>memory/uvm.cpp\<close>, \<open>copy.cpp\<close>, \<open>kvm.cpp\<close>).
  \<^item> \<open>Mutex\<close> (\<open>mutex/\<close>), \<open>Fs_Virtio\<close> (\<open>fs/virtio.cpp\<close>), \<open>Fs_Buffer\<close> (\<open>fs/buffer.cpp\<close>), \<open>Fs_Log\<close> (\<open>fs/log.cpp\<close>), \<open>Fs_Block\<close>
    (\<open>fs/block.cpp\<close>, \<open>super_block.cpp\<close>, \<open>fs.cpp\<close>), \<open>Fs_Inode\<close> (\<open>fs/inode.cpp\<close>) with \<open>Fs_Directory\<close> (its directories), \<open>Console\<close> (\<open>console/\<close>), \<open>Fs_File\<close> (\<open>fs/file.cpp\<close>,
    \<open>device.cpp\<close>).
  \<^item> \<open>Proc_Scheduler\<close> (\<open>process/scheduler.cpp\<close>, \<open>sleep.cpp\<close>, \<open>cpu.cpp\<close>), \<open>Proc_Process\<close> (\<open>process/process.cpp\<close>, \<open>user_init_proc.cpp\<close>)
    with \<open>Proc_Sleep\<close> (going to sleep and waking up), \<open>Proc_Fork\<close> (the making of processes), \<open>Proc_Wait\<close> (reaping them),
    \<open>Elf_Exec\<close> (\<open>elf/\<close>), \<open>Syscall\<close> (\<open>syscall/\<close>) with \<open>Proc_Files\<close> (the open files of all processes), \<open>Trap\<close> (\<open>ie/\<close>, \<open>boot/\<close>, \<open>arch/riscv.h\<close>).
  \<^item> \<open>Lib_Panic\<close> (\<open>lib/panic.cpp\<close>, \<open>assert.cpp\<close>, \<open>stdexcept.cpp\<close>): the reports that the values of \<open>stop\<close> stand for.
  \<^item> \<open>User_Programs\<close> (\<open>user/\<close>), \<open>Disk_Make\<close> (\<open>disk/make_disk.cpp\<close>), and this theory, with the property that goes through all layers.

  \<^bold>\<open>State and operations.\<close> A function of the source is a definition of the same name (with a prefix where two classes share a method name, or
  where HOL has the name) from the old state to an \<open>outcome\<close> of result and new state. A class is a record; objects that the code
  shares by pointer live in a store and are named by an index (\<open>Buffer*\<close>, \<open>Inode*\<close>, \<open>File*\<close>, queue nodes) or, where the code does arithmetic on
  them, by their address in byte memory (pages, page tables, strings). The records of the file system extend each other: cache,
  log, superblock, inodes, files. \<open>u8\<close>, \<open>u32\<close> and \<open>u64\<close> keep their width; \<open>int\<close> stands for signed variables where the code is
  defined only without overflow. \<open>assert\<close> is a branch of the model, since the kernel is built with assertions.

  \<^bold>\<open>Interleaving.\<close> The spin mutex is modelled twice: as pieces of its operations and as machine steps of any number of harts that interleave
  (\<open>Mutex.step\<close>); the virtio driver runs against a device that takes requests in any order (\<open>Fs_Virtio.vstep\<close>); transactions of
  several processes interleave in \<open>Fs_Log.log_run\<close>; system calls, sleeps, wakeups and the scheduler alternate in any
  order in \<open>Proc_Files.kernel_step\<close>; a crash can fall between any two block writes of a commit. Elsewhere a
  routine that holds its lock runs as one step, and a routine that sleeps or switches contexts is split there (\<open>diskrw_submit\<close> and
  \<open>diskrw_finish\<close>, \<open>endOp_enter\<close> and \<open>endOp\<close>, the \<open>_enter\<close> halves of the scheduler).

  \<^bold>\<open>Contracts.\<close> The interfaces between components are locales: \<open>keyed_store\<close> (hash map), \<open>shared_fifo\<close> (queues in one store of
  nodes), \<open>frame_source\<close> (page allocator), \<open>page_mapper\<close> (page tables beside each other), \<open>guarded_state\<close> (a spin mutex inside a larger
  state), \<open>block_cache\<close> (buffer cache) and \<open>block_operation\<close> (block access between \<open>beginOp\<close> and \<open>endOp\<close>). Each is interpreted on the
  model of the code, \<open>guarded_state\<close> on the four mutexes of scheduler and processes, and clients use its derived facts: the page tables
  those of the allocator, processes those of the page tables and mutexes, the cache and the scheduler those of hash map and queue, the log
  those of the cache, bitmap and inodes those of the operation. \<open>Fs_Block.op_view\<close> is the state that the last contract speaks of: the
  cache and the log stand for a map from blocks to contents.

  \<^bold>\<open>What is shown.\<close>
  \<^item> Library: copying with overlap, bounded copy and comparison; the last byte that \<open>memset\<close> misses; the hash map as a finite map
    as long as a bucket has at most two entries, and the loss of entries beyond; queues as lists.
  \<^item> Memory: the free list as a set of frames, at start-up too; page tables as maps from pages to entries, with allocation failures; copies
    to and from user memory, strings included; growth and duplication of user memory.
  \<^item> Locks: mutual exclusion and the absence of failed assertions for every interleaving; nesting restores the interrupt state; the
    sleep mutex leaves its waiters asleep.
  \<^item> File system: the cache as cells over the disk; atomicity of a commit under a crash at any write; the log never overflows; the driver
    neither loses nor mixes requests; allocation takes the first free block and freeing undoes it; inodes and file contents
    survive the way through the disk block; a linked directory entry is found.
  \<^item> Console: the line discipline as an editor of lines; printed numbers read back.
  \<^item> Processes: \<open>wakeup\<close> moves the sleepers to the ready queue; an idle \<open>wakeup\<close> loses others; a sleeper is woken;
    \<open>yield\<close> reaches the scheduler; \<open>wait\<close> reaps the first child that has ended; \<open>exec\<close> changes
    the process only after the last step that can fail; \<open>fork\<close> makes a ready child with a copy of registers, memory and files.
  \<^item> Open files: every system call keeps the reference counts equal to the numbers of descriptors, and no file is freed under one. What
    each layer leaves alone is collected in the rules \<open>kept\<close> for \<open>if_returns\<close>, so that the proof walks through the calls by themselves.
  \<^item> System calls: dispatch for every number; the way from \<open>ecall\<close> to the next user instruction.
  \<^item> User side: the printer of the library agrees with the kernel's; the shell's parser and the text that remains in its buffer.

  \<^bold>\<open>Termination and bounds.\<close> Loops are recursive functions with a measure wherever they end. Loops that may not end (\<open>strlen\<close>, \<open>strncmp\<close>, the
  destructor of a cyclic queue, draining the ready queue) are partial functions whose value \<open>None\<close> is divergence, and the properties
  about them state that they end. Few loops count rounds: \<open>allocateBlock\<close> needs \<open>size / BITS_PER_BLOCK + 1\<close> and directory scans
  \<open>entry_slots\<close> rounds, because each advances the counter by a fixed step up to a bound that stays; \<open>freeChain\<close> needs \<open>NUM_DESCS + 1\<close>, because
  a free descriptor stops it. Traversals of hash chains recurse on the list that models the chain.

  \<^bold>\<open>Limits of the hypotheses.\<close> The cache is described for a set \<open>B\<close> of blocks of which at most two share a bucket of the table of 256
  (\<open>bucket_fit\<close>): with three, \<open>operator[]\<close> drops one (\<open>Lib_HashMap\<close>). \<open>log_region\<close> is the header and as many copies as the
  assertions of \<open>Log::write\<close> admit; the array of 30 entries is one longer than the room \<open>make_disk\<close> leaves before the inodes, and only the
  assertion keeps the last copy off the first inode block. File contents are described for the direct blocks; \<open>bmap\<close> does not
  read the indirect block before it uses it.

  \<^bold>\<open>Not modelled.\<close> The assembly entry code, the trap vectors, the context switch and the user stubs (\<open>.S\<close> files): they save and restore
  registers around the C++ code, and the model begins and ends at their calls. Linker scripts and build files. \<open>operator delete\<close> is empty in the source, so the model has no step for
  it. Linker symbols, device registers, the kernel stack and addresses that the allocator chooses are fields or arguments.
\<close>

section \<open>From user mode and back\<close>

text \<open>
  C6: a system call from user mode. A process that executes \<open>ecall\<close> with a known call number enters \<open>userTrap\<close>, which runs
  the function of the number with the saved pc behind the \<open>ecall\<close> and interrupts on. When the function returns a value while
  the process still has the processor, the trap goes back to user mode: \<open>a0\<close> holds the value, the
  processor continues at the pc that the frame holds after the call (the next instruction, or the entry point after \<open>exec\<close>) on the page table
  that the process has after the call, in user mode with interrupts off until the return enables them,
  and with the trap vector of the trampoline.
\<close>

theorem user_syscall_returns:
  assumes user: "read_sstatus m AND SSTATUS_SPP = 0" and ecall: "scause (regs m) = 8" and p: "cpu_process (sched (kern m)) = Some p"
    and known: "hm_invar (syscallMap m)" "hm_lookup (syscallMap m) (tf_a7 (frame (proc (kern m) p))) = Some f"
    and result: "call f (entered m p) p = Inr (Value v, k1)" "cpu_process (sched k1) = Some p"
  shows "epc (frame (proc (entered m p) p)) = sepc (regs m) + 4 \<and>
    (\<exists>pc m'. userTrap m = Some (Inr (ToUser pc (makeSatp (pageTable (proc k1 p))) m')) \<and> tf_a0 (frame (proc (kern m') p)) = v \<and>
       sepc (regs m') = epc (frame (proc k1 p)) \<and> ready_for_user m' \<and> stvec (regs m') = TRAMPOLINE + (userVector m - trampoline k1))"
proof -
  let ?k = "entered m p" and ?c = "tf_a7 (frame (proc (kern m) p))"
  have k: "cpu_process (sched ?k) = Some p" "tf_a7 (frame (proc ?k p)) = ?c" "epc (frame (proc ?k p)) = sepc (regs m) + 4"
    using p by (simp_all add: entered_def Let_def set_cpu_def upd_proc_def upd_process_def proc_def)
  have tab: "contains (syscallMap m) ?c = Inr True" "subscript (syscallMap m) ?c Fork = Inr (syscallMap m, f)"
    using known by (simp_all add: contains_iff subscript_present)
  let ?k2 = "upd_proc k1 p (\<lambda>x. x\<lparr>frame := (frame x)\<lparr>tf_a0 := v\<rparr>\<rparr>)"
  have sys: "syscall (syscallMap m) ?k = Inr (Value v, syscallMap m, ?k2)"
    using k tab result(1) by (simp add: syscall_def Let_def)
  let ?m = "m\<lparr>regs := (regs m)\<lparr>stvec := kernelVector m\<rparr>, kern := ?k2\<rparr>"
  have k2: "cpu_process (sched (kern ?m)) = Some p" using result(2) by (simp add: upd_proc_def upd_process_def)
  have "userTrap m = Some (user_syscall (m\<lparr>regs := (regs m)\<lparr>stvec := kernelVector m\<rparr>, kern := ?k\<rparr>))"
    using user ecall p
    by (simp add: userTrap_def Let_def entered_def upd_frame_def write_sstatus_def read_sstatus_def set_cpu_def upd_proc_def upd_process_def)
  then have "userTrap m = Some (andThen (returnUserTrap ?m) (\<lambda>(pc, sat, m1). Inr (ToUser pc sat m1)))"
    using sys by (simp add: user_syscall_def finish_user_def)
  then show ?thesis using returnUserTrap_law [OF k2] k(3) by (auto simp: proc_def upd_proc_def upd_process_def)
qed

theorem user_syscall_returns_witness:
  "\<exists>t pc sat m'. syscall_initialize (\<lambda>x. x) = Inr t \<and> userTrap (example_machine t) = Some (Inr (ToUser pc sat m')) \<and>
     tf_a0 (frame (proc (kern m') 9)) = - 1 \<and> sepc (regs m') = 0x1004"
proof -
  note numbers = syscall_entries_def SYS_FORK_def SYS_EXIT_def SYS_WAIT_def SYS_READ_def SYS_EXEC_def SYS_OPEN_def SYS_WRITE_def
    SYS_MKNOD_def SYS_CLOSE_def
  have "distinct (map (\<lambda>e. fst e AND 0xFF) syscall_entries)" by (simp add: numbers)
  then obtain t where t: "syscall_initialize (\<lambda>x. x) = Inr t" "hm_invar t" "hm_lookup t = map_of syscall_entries"
    using syscall_table [of "\<lambda>x. x"] by auto
  have "hm_lookup t SYS_CLOSE = Some Close" by (simp add: t(3) numbers)
  then show ?thesis
    using user_syscall_returns [of "example_machine t" 9 Close "- 1" "entered (example_machine t) 9"] t(1,2) example_machine_facts [of t] by auto
qed

end
